(* ===== verification/Prelude.thy ===== *)
theory Prelude
  imports Main "HOL-Library.Word"
begin

text \<open>
  Shared vocabulary of the development: the machine-integer types of the Rust source, the
  result type of fallible code with its sequencing operator, Rust's \<open>BTreeMap\<close> as a strictly
  sorted association list, and the interface of ordered maps as a locale with the facts every
  client of such a map uses. \<open>None\<close> as the value of a function that "panics" in the source
  stands for the panic.
\<close>

section \<open>Machine integers and results\<close>

type_synonym u8 = "8 word"
type_synonym u16 = "16 word"
type_synonym u32 = "32 word"
type_synonym u64 = "64 word"
type_synonym u128 = "128 word"
type_synonym bytes = "8 word list"

named_theorems checked_arith \<open>results of checked arithmetic, read over the naturals\<close>
named_theorems map_simps \<open>lookup laws of the ordered maps\<close>
named_theorems step_simps \<open>effect of one atomic step on the fields of a shared state\<close>

text \<open>
  Machine addition. Every build profile of the source has overflow checks on, so an addition
  whose true result does not fit panics.
\<close>

definition add_chk :: "'a::len word \<Rightarrow> 'a word \<Rightarrow> 'a word option" where
  "add_chk a b = (if uint a + uint b < 2 ^ LENGTH('a) then Some (a + b) else None)"

lemma add_chk_Some [checked_arith]:
  "add_chk a b = Some c \<longleftrightarrow> uint c = uint a + uint b" for a b c :: "'a::len word"
proof -
  have "uint (a + b) = uint a + uint b" if "uint a + uint b < 2 ^ LENGTH('a)"
    using that by (simp add: uint_word_ariths take_bit_eq_mod)
  moreover have "uint c \<noteq> uint a + uint b" if "\<not> uint a + uint b < 2 ^ LENGTH('a)"
    using that uint_lt2p [of c] by linarith
  ultimately show ?thesis by (auto simp: add_chk_def word_uint_eq_iff)
qed

lemma add_chk_None [checked_arith]:
  "add_chk a b = None \<longleftrightarrow> 2 ^ LENGTH('a) \<le> uint a + uint b" for a b :: "'a::len word"
  by (auto simp: add_chk_def)

text \<open>Rust's \<open>?\<close> operator on \<open>Result\<close>: an error ends the computation, a value is passed on.\<close>

definition rbind :: "'e + 'a \<Rightarrow> ('a \<Rightarrow> 'e + 'b) \<Rightarrow> 'e + 'b" where
  "rbind m f = (case m of Inl e \<Rightarrow> Inl e | Inr a \<Rightarrow> f a)"

lemma rbind_simps [simp]:
  "rbind (Inl e) f = Inl e"
  "rbind (Inr a) f = f a"
  by (simp_all add: rbind_def)

lemma rbind_eq_Inr: "rbind m f = Inr b \<longleftrightarrow> (\<exists>a. m = Inr a \<and> f a = Inr b)"
  by (cases m) auto

lemma rbind_eq_Inl: "rbind m f = Inl e \<longleftrightarrow> m = Inl e \<or> (\<exists>a. m = Inr a \<and> f a = Inl e)"
  by (cases m) auto

lemma rbind_assoc: "rbind (rbind m f) g = rbind m (\<lambda>a. rbind (f a) g)"
  by (cases m) auto

text \<open>\<open>Result::ok\<close> forgets which error it was.\<close>

definition ok :: "'e + 'a \<Rightarrow> 'a option" where
  "ok m = (case m of Inl _ \<Rightarrow> None | Inr a \<Rightarrow> Some a)"

lemma ok_simps [simp]: "ok (Inl e) = None" "ok (Inr a) = Some a"
  by (simp_all add: ok_def)

lemma ok_eq_Some [simp]: "ok m = Some a \<longleftrightarrow> m = Inr a"
  by (cases m) auto

lemma ok_eq_None: "ok m = None \<longleftrightarrow> (\<exists>e. m = Inl e)"
  by (cases m) auto

lemma ok_rbind: "ok (rbind m f) = Option.bind (ok m) (\<lambda>a. ok (f a))"
  by (cases m) auto

text \<open>A loop whose body may fail stops at the first failure.\<close>

fun rfold :: "('a \<Rightarrow> 's \<Rightarrow> 'e + 's) \<Rightarrow> 'a list \<Rightarrow> 's \<Rightarrow> 'e + 's" where
  "rfold f [] s = Inr s"
| "rfold f (x # xs) s = rbind (f x s) (rfold f xs)"

lemma rfold_append: "rfold f (xs @ ys) s = rbind (rfold f xs s) (rfold f ys)"
  by (induction xs arbitrary: s) (auto simp: rbind_def fun_eq_iff split: sum.splits)

lemma rfold_invariant:
  assumes step: "\<And>x s s'. x \<in> set xs \<Longrightarrow> I s \<Longrightarrow> f x s = Inr s' \<Longrightarrow> I s'"
    and init: "I s" and run: "rfold f xs s = Inr s'"
  shows "I s'"
  using step init run
proof (induction xs arbitrary: s)
  case Nil
  then show ?case by simp
next
  case (Cons x xs)
  from Cons.prems(3) obtain t where t: "f x s = Inr t" and rest: "rfold f xs t = Inr s'"
    by (auto simp: rbind_eq_Inr)
  have "I t"
    using Cons.prems(1) [of x s t] Cons.prems(2) t by simp
  with Cons.prems(1) show ?case
    by (intro Cons.IH [OF _ _ rest]) auto
qed

section \<open>Ordered maps\<close>

text \<open>
  \<open>BTreeMap\<close> keeps its entries in strictly increasing key order and at most one entry per
  key. The model is the list of entries in iteration order.
\<close>

type_synonym ('k, 'v) btree = "('k \<times> 'v) list"

definition bt_wf :: "('k::linorder, 'v) btree \<Rightarrow> bool" where
  "bt_wf m \<longleftrightarrow> sorted_wrt (<) (map fst m)"

definition bt_get :: "('k, 'v) btree \<Rightarrow> 'k \<Rightarrow> 'v option" where
  "bt_get m k = map_of m k"

fun bt_insert :: "'k::linorder \<Rightarrow> 'v \<Rightarrow> ('k, 'v) btree \<Rightarrow> ('k, 'v) btree" where
  "bt_insert k v [] = [(k, v)]"
| "bt_insert k v ((k', v') # m) =
     (if k < k' then (k, v) # (k', v') # m
      else if k = k' then (k, v) # m
      else (k', v') # bt_insert k v m)"

definition bt_remove :: "'k \<Rightarrow> ('k, 'v) btree \<Rightarrow> ('k, 'v) btree" where
  "bt_remove k m = filter (\<lambda>e. fst e \<noteq> k) m"

text \<open>\<open>BTreeMap::range(..hi)\<close>: the entries below a key, still in order.\<close>

definition bt_below :: "'k::linorder \<Rightarrow> ('k, 'v) btree \<Rightarrow> ('k, 'v) btree" where
  "bt_below hi m = filter (\<lambda>e. fst e < hi) m"

lemma bt_wf_Nil [simp]: "bt_wf []"
  by (simp add: bt_wf_def)

lemma bt_wf_Cons: "bt_wf ((k, v) # m) \<longleftrightarrow> (\<forall>k' \<in> fst ` set m. k < k') \<and> bt_wf m"
  by (auto simp: bt_wf_def)

lemma bt_wf_distinct: "bt_wf m \<Longrightarrow> distinct (map fst m)"
  unfolding bt_wf_def by (simp add: strict_sorted_iff)

lemma bt_keys_insert [simp]: "fst ` set (bt_insert k v m) = insert k (fst ` set m)"
  by (induction k v m rule: bt_insert.induct) auto

lemma set_bt_insert: "e \<in> set (bt_insert k v m) \<Longrightarrow> e = (k, v) \<or> e \<in> set m"
  by (induction k v m rule: bt_insert.induct) (auto split: if_splits)

lemma bt_keys_remove [simp]: "fst ` set (bt_remove k m) = fst ` set m - {k}"
  by (auto simp: bt_remove_def)

lemma bt_wf_insert [simp]: "bt_wf m \<Longrightarrow> bt_wf (bt_insert k v m)"
  by (induction k v m rule: bt_insert.induct) (auto simp: bt_wf_Cons)

lemma bt_wf_filter [simp]: "bt_wf m \<Longrightarrow> bt_wf (filter P m)"
  by (induction m) (auto simp: bt_wf_Cons)

lemma bt_wf_remove [simp]: "bt_wf m \<Longrightarrow> bt_wf (bt_remove k m)"
  by (simp add: bt_remove_def)

lemma distinct_map_of_rev: "distinct (map fst xs) \<Longrightarrow> map_of (rev xs) k = map_of xs k"
proof (cases "map_of xs k")
  case None
  then have "map_of (rev xs) k = None" by (simp add: map_of_eq_None_iff)
  with None show ?thesis by simp
next
  case (Some v)
  assume "distinct (map fst xs)"
  then have "distinct (map fst (rev xs))" by (simp add: rev_map [symmetric])
  with Some show ?thesis by (simp add: map_of_is_SomeI map_of_SomeD)
qed

lemma bt_get_Nil [simp]: "bt_get [] k = None"
  by (simp add: bt_get_def)

lemma bt_get_insert [simp]:
  "bt_get (bt_insert k v m) k' = (if k' = k then Some v else bt_get m k')"
  unfolding bt_get_def by (induction k v m rule: bt_insert.induct) auto

lemma bt_get_remove [simp]: "bt_get (bt_remove k m) k' = (if k' = k then None else bt_get m k')"
  unfolding bt_get_def bt_remove_def by (induction m) auto

lemma bt_get_mem: "bt_get m k = Some v \<Longrightarrow> (k, v) \<in> set m"
  by (simp add: bt_get_def map_of_SomeD)

lemma bt_mem_get: "bt_wf m \<Longrightarrow> (k, v) \<in> set m \<Longrightarrow> bt_get m k = Some v"
  by (simp add: bt_get_def bt_wf_distinct)

lemma bt_get_iff: "bt_wf m \<Longrightarrow> bt_get m k = Some v \<longleftrightarrow> (k, v) \<in> set m"
  using bt_get_mem bt_mem_get by metis

lemma bt_get_None: "bt_get m k = None \<longleftrightarrow> k \<notin> fst ` set m"
  by (simp add: bt_get_def map_of_eq_None_iff)

text \<open>Two well-formed maps with the same lookups are the same list of entries.\<close>

lemma bt_eqI:
  assumes "bt_wf m" "bt_wf m'" and eq: "\<And>k. bt_get m k = bt_get m' k"
  shows "m = m'"
proof (rule map_sorted_distinct_set_unique [of fst])
  show "inj_on fst (set m \<union> set m')"
  proof (rule inj_onI)
    fix x y assume "x \<in> set m \<union> set m'" "y \<in> set m \<union> set m'" "fst x = fst y"
    then show "x = y"
      using assms by (cases x; cases y) (metis UnE bt_mem_get fst_conv option.inject)
  qed
  show "sorted (map fst m)" "distinct (map fst m)" "sorted (map fst m')" "distinct (map fst m')"
    using assms by (auto simp: bt_wf_def strict_sorted_iff)
  show "set m = set m'"
    using assms by (metis bt_get_iff subrelI subset_antisym)
qed

text \<open>Entries below a key: which updates they see, and the highest of them.\<close>

lemma bt_below_Nil [simp]: "bt_below hi [] = []"
  by (simp add: bt_below_def)

lemma bt_below_remove:
  "bt_below hi (bt_remove k m) = (if k < hi then bt_remove k (bt_below hi m) else bt_below hi m)"
  by (auto simp: bt_below_def bt_remove_def intro!: filter_cong)

lemma bt_wf_below [simp]: "bt_wf m \<Longrightarrow> bt_wf (bt_below hi m)"
  by (simp add: bt_below_def)

lemma bt_get_below: "bt_wf m \<Longrightarrow> bt_get (bt_below hi m) k = (if k < hi then bt_get m k else None)"
  by (induction m) (auto simp: bt_below_def bt_get_def bt_wf_Cons map_of_eq_None_iff)

lemma bt_below_insert:
  "bt_wf m \<Longrightarrow> bt_below hi (bt_insert k v m) =
     (if k < hi then bt_insert k v (bt_below hi m) else bt_below hi m)"
  by (rule bt_eqI) (auto simp: bt_get_below)

lemma bt_wf_append:
  "bt_wf (m @ m') \<longleftrightarrow> bt_wf m \<and> bt_wf m' \<and> (\<forall>k \<in> fst ` set m. \<forall>k' \<in> fst ` set m'. k < k')"
  by (auto simp: bt_wf_def sorted_wrt_append)

lemma bt_below_snoc:
  assumes "bt_wf m" "bt_get m i = Some e" "i < hi" "\<And>j. i < j \<Longrightarrow> j < hi \<Longrightarrow> bt_get m j = None"
  shows "bt_below hi m = bt_below i m @ [(i, e)]"
proof (rule bt_eqI)
  show "bt_wf (bt_below hi m)" using assms(1) by simp
  show "bt_wf (bt_below i m @ [(i, e)])"
    using assms(1) by (auto simp: bt_wf_append bt_wf_Cons) (auto simp: bt_below_def)
  fix k
  have "bt_get (bt_below i m @ [(i, e)]) k =
      (case bt_get (bt_below i m) k of None \<Rightarrow> if k = i then Some e else None | Some x \<Rightarrow> Some x)"
    by (auto simp: bt_get_def map_add_def split: option.splits)
  then show "bt_get (bt_below hi m) k = bt_get (bt_below i m @ [(i, e)]) k"
    using assms by (auto simp: bt_get_below split: option.splits)
qed

text \<open>
  The interface its clients rely on: a lookup after an update or a removal, and the
  well-formedness every operation keeps.
\<close>

locale ordered_map =
  fixes get :: "'m \<Rightarrow> 'k \<Rightarrow> 'v option"
    and ins :: "'k \<Rightarrow> 'v \<Rightarrow> 'm \<Rightarrow> 'm"
    and rem :: "'k \<Rightarrow> 'm \<Rightarrow> 'm"
    and wf :: "'m \<Rightarrow> bool"
  assumes get_ins: "get (ins k v m) k' = (if k' = k then Some v else get m k')"
    and get_rem: "get (rem k m) k' = (if k' = k then None else get m k')"
    and wf_ins: "wf m \<Longrightarrow> wf (ins k v m)"
    and wf_rem: "wf m \<Longrightarrow> wf (rem k m)"
begin

text \<open>Inserting a sequence of entries: the last entry of a key wins.\<close>

lemma get_fold_ins:
  "get (fold (\<lambda>(k, v). ins k v) kvs m) k' =
     (case map_of (rev kvs) k' of Some v \<Rightarrow> Some v | None \<Rightarrow> get m k')"
proof (induction kvs arbitrary: m)
  case Nil
  then show ?case by simp
next
  case (Cons kv kvs)
  obtain k v where kv: "kv = (k, v)" by (cases kv)
  show ?case
    unfolding kv using Cons.IH [of "ins k v m"]
    by (simp add: get_ins map_add_def split: option.splits)
qed

lemma wf_fold_ins: "wf m \<Longrightarrow> wf (fold (\<lambda>(k, v). ins k v) kvs m)"
  by (induction kvs arbitrary: m) (auto simp: wf_ins)

lemma get_ins_rem: "get (ins k v (rem k m)) = get (ins k v m)"
  by (simp add: fun_eq_iff get_ins get_rem)

lemma get_fold_rem: "get (fold rem ks m) k' = (if k' \<in> set ks then None else get m k')"
  by (induction ks arbitrary: m) (auto simp: get_rem)

lemma wf_fold_rem: "wf m \<Longrightarrow> wf (fold rem ks m)"
  by (induction ks arbitrary: m) (auto simp: wf_rem)

end

interpretation bt: ordered_map bt_get bt_insert bt_remove bt_wf
  by unfold_locales auto

lemmas bt_laws [map_simps] = bt_get_insert bt_get_remove bt.get_fold_ins bt.get_fold_rem


end
