(* ===== verification/StateKey.thy ===== *)
theory StateKey
  imports Prelude
begin

text \<open>
  State keys (\<open>types/src/state_store/state_key.rs\<close>, \<open>types/src/access_path.rs\<close>): the keys of the
  global storage, their physical encoding and the raw part that the block filler uses. The \<open>bcs\<close>
  codec is a pair of arguments.
\<close>

type_synonym address = "256 word"

text \<open>\<open>AccountAddress::to_vec\<close>: the 32 bytes of an address, most significant first.\<close>

definition address_bytes :: "address \<Rightarrow> bytes" where
  "address_bytes a = map (\<lambda>i. ucast (drop_bit (8 * (31 - i)) a)) [0..<32]"

record access_path =
  ap_address :: address
  ap_path :: bytes
  ap_is_code :: bool

definition query_path :: "access_path \<Rightarrow> bytes" where
  "query_path ap = ap_path ap"

definition access_path_size :: "access_path \<Rightarrow> nat" where
  "access_path_size ap = 32 + length (ap_path ap)"

datatype state_key = AccessPath access_path | TableItem address bytes | Raw bytes

datatype state_key_tag = AccessPathTag | TableItemTag | RawTag

fun tag_byte :: "state_key_tag \<Rightarrow> u8" where
  "tag_byte AccessPathTag = 0"
| "tag_byte TableItemTag = 1"
| "tag_byte RawTag = 255"

definition tag_from_u8 :: "u8 \<Rightarrow> state_key_tag option" where
  "tag_from_u8 b =
     (if b = 0 then Some AccessPathTag else if b = 1 then Some TableItemTag
      else if b = 255 then Some RawTag else None)"

definition HANDLE_SIZE :: nat where
  "HANDLE_SIZE = 32"

datatype 'e state_key_decode_err = EmptyInput | UnknownTag u8 | NotEnoughBytes u8 nat | BcsError 'e

fun state_key_size :: "state_key \<Rightarrow> nat" where
  "state_key_size (AccessPath ap) = access_path_size ap"
| "state_key_size (TableItem h k) = HANDLE_SIZE + length k"
| "state_key_size (Raw bs) = length bs"

fun get_raw_ref :: "state_key \<Rightarrow> bytes" where
  "get_raw_ref (AccessPath ap) = query_path ap"
| "get_raw_ref (TableItem h k) = k"
| "get_raw_ref (Raw bs) = bs"

fun get_raw :: "state_key \<Rightarrow> bytes" where
  "get_raw (AccessPath ap) = query_path ap"
| "get_raw (TableItem h k) = k"
| "get_raw (Raw bs) = bs"

fun get_full_raw :: "state_key \<Rightarrow> bytes" where
  "get_full_raw (AccessPath ap) = ap_path ap"
| "get_full_raw (TableItem h k) = k"
| "get_full_raw (Raw bs) = bs"

fun state_key_encode ::
  "(access_path \<Rightarrow> 'e + bytes) \<Rightarrow> (address \<Rightarrow> 'e + bytes) \<Rightarrow> state_key \<Rightarrow> 'e + bytes" where
  "state_key_encode to_ap to_handle (AccessPath ap) =
     rbind (to_ap ap) (\<lambda>raw. Inr (tag_byte AccessPathTag # raw))"
| "state_key_encode to_ap to_handle (TableItem h k) =
     rbind (to_handle h) (\<lambda>raw. Inr (tag_byte TableItemTag # raw @ k))"
| "state_key_encode to_ap to_handle (Raw bs) = Inr (tag_byte RawTag # bs)"

definition map_err :: "('e \<Rightarrow> 'f) \<Rightarrow> 'e + 'a \<Rightarrow> 'f + 'a" where
  "map_err f m = (case m of Inl e \<Rightarrow> Inl (f e) | Inr a \<Rightarrow> Inr a)"

definition state_key_decode ::
  "(bytes \<Rightarrow> 'e + access_path) \<Rightarrow> (bytes \<Rightarrow> 'e + address) \<Rightarrow> bytes \<Rightarrow> 'e state_key_decode_err + state_key" where
  "state_key_decode from_ap from_handle val =
     (case val of
        [] \<Rightarrow> Inl EmptyInput
      | tag # rest \<Rightarrow>
          (case tag_from_u8 tag of
             None \<Rightarrow> Inl (UnknownTag tag)
           | Some AccessPathTag \<Rightarrow> rbind (map_err BcsError (from_ap rest)) (\<lambda>ap. Inr (AccessPath ap))
           | Some TableItemTag \<Rightarrow>
               if length val < 1 + HANDLE_SIZE then Inl (NotEnoughBytes tag (length val))
               else rbind (map_err BcsError (from_handle (take HANDLE_SIZE rest)))
                      (\<lambda>h. Inr (TableItem h (drop HANDLE_SIZE rest)))
           | Some RawTag \<Rightarrow> Inr (Raw rest)))"

section \<open>Properties\<close>

text \<open>
  What \<open>bcs\<close> documents: decoding inverts encoding, and a 32-byte address is encoded as its bytes.
\<close>

definition bcs_ok ::
  "(access_path \<Rightarrow> 'e + bytes) \<Rightarrow> (bytes \<Rightarrow> 'e + access_path) \<Rightarrow> (address \<Rightarrow> 'e + bytes) \<Rightarrow> (bytes \<Rightarrow> 'e + address) \<Rightarrow> bool" where
  "bcs_ok to_ap from_ap to_handle from_handle \<longleftrightarrow>
     (\<forall>ap bs. to_ap ap = Inr bs \<longrightarrow> from_ap bs = Inr ap) \<and>
     (\<forall>h bs. to_handle h = Inr bs \<longrightarrow> length bs = HANDLE_SIZE \<and> from_handle bs = Inr h)"

text \<open>
  C38. The physical encoding of a state key can be read back: decoding the bytes that encoding a
  key produced gives the key, for every kind of key.
\<close>

theorem state_key_roundtrip:
  assumes "bcs_ok to_ap from_ap to_handle from_handle" "state_key_encode to_ap to_handle k = Inr bs"
  shows "state_key_decode from_ap from_handle bs = Inr k"
proof (cases k)
  case (AccessPath ap)
  with assms show ?thesis
    by (auto simp: bcs_ok_def state_key_decode_def tag_from_u8_def rbind_eq_Inr map_err_def)
next
  case (TableItem h key)
  with assms show ?thesis
    by (auto simp: bcs_ok_def state_key_decode_def tag_from_u8_def rbind_eq_Inr map_err_def)
next
  case (Raw raw)
  with assms(2) show ?thesis by (auto simp: state_key_decode_def tag_from_u8_def)
qed

theorem state_key_roundtrip_witness:
  "state_key_decode (\<lambda>bs. Inl ()) (\<lambda>bs. Inr 7) (1 # replicate 32 7 @ [5]) = Inr (TableItem 7 [5])"
proof -
  let ?to = "\<lambda>h :: address. if h = 7 then Inr (replicate 32 7) else Inl ()"
  have "bcs_ok (\<lambda>ap. Inl ()) (\<lambda>bs. Inl ()) ?to (\<lambda>bs. Inr 7)"
    by (simp add: bcs_ok_def HANDLE_SIZE_def)
  moreover have "state_key_encode (\<lambda>ap. Inl ()) ?to (TableItem 7 [5]) = Inr (1 # replicate 32 7 @ [5])"
    by simp
  ultimately show ?thesis by (rule state_key_roundtrip)
qed

text \<open>
  The raw part of a state key, which the block filler uses to find dependencies, does not
  identify the key: the same resource of two accounts, and the same key in two tables, have the
  same raw part.
\<close>

lemma raw_part_collides:
  "get_raw_ref (AccessPath ap) = get_raw_ref (AccessPath (ap\<lparr>ap_address := a\<rparr>))
   \<and> get_raw_ref (TableItem h k) = get_raw_ref (TableItem h' k)"
  by (simp add: query_path_def)

end
