(* ===== verification/WriteSet.thy ===== *)
theory WriteSet
  imports Prelude
begin

text \<open>
  Write sets (\<open>types/src/write_set.rs\<close>): the write operations a transaction produces and the
  squashing of two successive write sets into one. The abstract reading of a write set is the
  state transformer \<open>ws_effect\<close>; squashing composes the transformers.
\<close>

section \<open>Write operations\<close>

datatype write_op = Creation bytes | Modification bytes | Deletion

fun is_deletion :: "write_op \<Rightarrow> bool" where
  "is_deletion Deletion = True"
| "is_deletion _ = False"

fun is_creation :: "write_op \<Rightarrow> bool" where
  "is_creation (Creation _) = True"
| "is_creation _ = False"

fun is_modification :: "write_op \<Rightarrow> bool" where
  "is_modification (Modification _) = True"
| "is_modification _ = False"

fun extract_raw_bytes :: "write_op \<Rightarrow> bytes option" where
  "extract_raw_bytes (Creation v) = Some v"
| "extract_raw_bytes (Modification v) = Some v"
| "extract_raw_bytes Deletion = None"

section \<open>Write sets\<close>

type_synonym 'k write_set = "('k, write_op) btree"

definition ws_new :: "('k::linorder \<times> write_op) list \<Rightarrow> 'k write_set" where
  "ws_new ops = fold (\<lambda>(k, op). bt_insert k op) ops []"

definition ws_get :: "'k write_set \<Rightarrow> 'k \<Rightarrow> write_op option" where
  "ws_get ws k = bt_get ws k"

text \<open>
  The inner match of \<open>WriteSetMut::squash\<close>: the entry that replaces an occupied one, \<open>None\<close>
  where the entry is removed, an error where the two operations cannot follow each other.
\<close>

datatype squash_error = CannotBeSquashed

fun squash_op :: "write_op \<Rightarrow> write_op \<Rightarrow> squash_error + write_op option" where
  "squash_op (Modification _) (Creation _) = Inl CannotBeSquashed"
| "squash_op (Creation _) (Creation _) = Inl CannotBeSquashed"
| "squash_op Deletion Deletion = Inl CannotBeSquashed"
| "squash_op Deletion (Modification _) = Inl CannotBeSquashed"
| "squash_op (Modification _) (Modification d) = Inr (Some (Modification d))"
| "squash_op (Creation _) (Modification d) = Inr (Some (Creation d))"
| "squash_op (Modification _) Deletion = Inr (Some Deletion)"
| "squash_op Deletion (Creation d) = Inr (Some (Modification d))"
| "squash_op (Creation _) Deletion = Inr None"

definition squash_entry ::
  "'k::linorder \<times> write_op \<Rightarrow> 'k write_set \<Rightarrow> squash_error + 'k write_set" where
  "squash_entry e ws =
     (let (k, op) = e in
      case bt_get ws k of
        Some r \<Rightarrow> rbind (squash_op r op)
          (\<lambda>r'. Inr (case r' of Some op' \<Rightarrow> bt_insert k op' ws | None \<Rightarrow> bt_remove k ws))
      | None \<Rightarrow> Inr (bt_insert k op ws))"

definition ws_squash :: "'k::linorder write_set \<Rightarrow> 'k write_set \<Rightarrow> squash_error + 'k write_set" where
  "ws_squash ws other = rfold squash_entry other ws"

section \<open>What a write set means\<close>

text \<open>
  A write set acts on a store of optional values. It is applicable to a store when it creates
  only absent entries and modifies or deletes only present ones, which is how a transaction
  executed on that store produces it.
\<close>

definition ws_effect :: "'k write_set \<Rightarrow> ('k \<Rightarrow> bytes option) \<Rightarrow> 'k \<Rightarrow> bytes option" where
  "ws_effect ws s k = (case bt_get ws k of None \<Rightarrow> s k | Some op \<Rightarrow> extract_raw_bytes op)"

fun op_applicable :: "write_op \<Rightarrow> bytes option \<Rightarrow> bool" where
  "op_applicable (Creation _) v \<longleftrightarrow> v = None"
| "op_applicable _ v \<longleftrightarrow> v \<noteq> None"

definition ws_applicable :: "'k write_set \<Rightarrow> ('k \<Rightarrow> bytes option) \<Rightarrow> bool" where
  "ws_applicable ws s \<longleftrightarrow> (\<forall>(k, op) \<in> set ws. op_applicable op (s k))"

lemma ws_applicableD: "ws_applicable ws s \<Longrightarrow> bt_get ws k = Some op \<Longrightarrow> op_applicable op (s k)"
  by (auto simp: ws_applicable_def dest: bt_get_mem)

lemma ws_applicableI:
  "bt_wf ws \<Longrightarrow> (\<And>k op. bt_get ws k = Some op \<Longrightarrow> op_applicable op (s k)) \<Longrightarrow> ws_applicable ws s"
  by (auto simp: ws_applicable_def bt_get_iff)

lemma ws_new_get: "ws_get (ws_new ops) k = map_of (rev ops) k"
  by (simp add: ws_get_def ws_new_def bt.get_fold_ins split: option.splits)

lemma ws_new_wf: "bt_wf (ws_new ops)"
  by (simp add: ws_new_def bt.wf_fold_ins)

text \<open>One operation after another on the same entry.\<close>

lemma squash_op_total:
  assumes "op_applicable r v" and "op_applicable op (extract_raw_bytes r)"
  shows "\<exists>r'. squash_op r op = Inr r'"
  using assms by (cases r; cases op) auto

lemma squash_op_sound:
  assumes "squash_op r op = Inr r'" and "op_applicable r v"
  shows "(case r' of None \<Rightarrow> v | Some op' \<Rightarrow> extract_raw_bytes op') = extract_raw_bytes op"
    and "r' = Some op' \<Longrightarrow> op_applicable op' v"
  using assms by (cases r; cases op; auto)+

lemma squash_entry_wf: "bt_wf ws \<Longrightarrow> squash_entry e ws = Inr ws' \<Longrightarrow> bt_wf ws'"
  by (auto simp: squash_entry_def rbind_eq_Inr split: prod.splits option.splits)

lemma squash_entry_get:
  assumes "squash_entry (k, op) ws = Inr ws'" and "k' \<noteq> k"
  shows "bt_get ws' k' = bt_get ws k'"
  using assms by (auto simp: squash_entry_def rbind_eq_Inr split: option.splits)

lemma squash_entry_step:
  assumes "squash_entry (k, op) ws = Inr ws'" and "bt_wf ws" and "ws_applicable ws s"
    and "op_applicable op (ws_effect ws s k)"
  shows "ws_effect ws' s = (ws_effect ws s)(k := extract_raw_bytes op)"
    and "ws_applicable ws' s"
proof -
  have here: "(case bt_get ws' k of None \<Rightarrow> s k | Some op' \<Rightarrow> extract_raw_bytes op')
      = extract_raw_bytes op \<and> (\<forall>op'. bt_get ws' k = Some op' \<longrightarrow> op_applicable op' (s k))"
  proof (cases "bt_get ws k")
    case None
    with assms show ?thesis
      by (auto simp: squash_entry_def ws_effect_def)
  next
    case (Some r)
    with assms(1) obtain r' where r': "squash_op r op = Inr r'"
      and ws': "ws' = (case r' of Some op' \<Rightarrow> bt_insert k op' ws | None \<Rightarrow> bt_remove k ws)"
      by (auto simp: squash_entry_def rbind_eq_Inr)
    have "op_applicable r (s k)"
      using assms(3) Some by (rule ws_applicableD)
    from squash_op_sound [OF r' this] ws' show ?thesis
      by (auto split: option.splits)
  qed
  show "ws_effect ws' s = (ws_effect ws s)(k := extract_raw_bytes op)"
    using here squash_entry_get [OF assms(1)] by (auto simp: ws_effect_def fun_eq_iff)
  show "ws_applicable ws' s"
  proof (rule ws_applicableI)
    show "bt_wf ws'" using assms(1,2) squash_entry_wf by blast
    fix k' op' assume "bt_get ws' k' = Some op'"
    then show "op_applicable op' (s k')"
      using here squash_entry_get [OF assms(1), of k'] assms(3)
      by (cases "k' = k") (auto dest: ws_applicableD)
  qed
qed

lemma squash_entry_total:
  assumes "ws_applicable ws s" and "op_applicable op (ws_effect ws s k)"
  shows "\<exists>ws'. squash_entry (k, op) ws = Inr ws'"
proof (cases "bt_get ws k")
  case None
  then show ?thesis by (simp add: squash_entry_def)
next
  case (Some r)
  have "op_applicable r (s k)" "op_applicable op (extract_raw_bytes r)"
    using assms Some by (auto simp: ws_effect_def dest: ws_applicableD)
  from squash_op_total [OF this] Some show ?thesis
    by (auto simp: squash_entry_def)
qed

lemma ws_effect_Cons:
  assumes "bt_wf ((k, op) # ws)"
  shows "ws_effect ((k, op) # ws) s = ws_effect ws (s(k := extract_raw_bytes op))"
  using assms by (auto simp: ws_effect_def bt_get_def fun_eq_iff bt_wf_Cons
      dest!: map_of_SomeD split: option.splits)

text \<open>
  C33. Squashing the write sets of two successive transactions succeeds and has the effect of the
  two in sequence: whenever the first was produced on a store and the second on its result, the
  squashed set is again one that can be produced on the store, and it leads to the same result.
\<close>

theorem ws_squash_compose:
  assumes "bt_wf ws" "bt_wf other" "ws_applicable ws s" "ws_applicable other (ws_effect ws s)"
  shows "\<exists>ws'. ws_squash ws other = Inr ws' \<and> bt_wf ws' \<and> ws_applicable ws' s
           \<and> ws_effect ws' s = ws_effect other (ws_effect ws s)"
  using assms
proof (induction other arbitrary: ws)
  case Nil
  then show ?case by (simp add: ws_squash_def ws_effect_def fun_eq_iff)
next
  case (Cons e other)
  obtain k op where e: "e = (k, op)" by (cases e)
  have app: "op_applicable op (ws_effect ws s k)"
    using Cons.prems(4) by (auto simp: ws_applicable_def e)
  obtain ws1 where ws1: "squash_entry (k, op) ws = Inr ws1"
    using squash_entry_total [OF Cons.prems(3) app] by blast
  note step = squash_entry_step [OF ws1 Cons.prems(1,3) app]
  have fresh: "\<And>k' op'. (k', op') \<in> set other \<Longrightarrow> k' \<noteq> k"
    using Cons.prems(2) by (force simp: e bt_wf_Cons)
  have "ws_applicable other (ws_effect ws1 s)"
    unfolding step(1) using Cons.prems(4) fresh by (auto simp: ws_applicable_def e)
  moreover have "bt_wf ws1" using ws1 Cons.prems(1) squash_entry_wf by blast
  moreover have "bt_wf other" using Cons.prems(2) by (simp add: e bt_wf_Cons)
  ultimately obtain ws' where "ws_squash ws1 other = Inr ws'" "bt_wf ws'" "ws_applicable ws' s"
    "ws_effect ws' s = ws_effect other (ws_effect ws1 s)"
    using Cons.IH [of ws1] step(2) by blast
  with ws1 step(1) Cons.prems(2) show ?case
    by (simp add: ws_squash_def e ws_effect_Cons)
qed

theorem ws_squash_compose_witness:
  "ws_effect [(1 :: nat, Modification [7])] (Map.empty(1 \<mapsto> [5])) =
     ws_effect [(1, Creation [7])] (ws_effect [(1, Deletion)] (Map.empty(1 \<mapsto> [5])))"
proof -
  let ?s = "Map.empty(1 \<mapsto> [5]) :: nat \<Rightarrow> bytes option"
  have "ws_squash [(1 :: nat, Deletion)] [(1, Creation [7])] = Inr [(1, Modification [7])]" by code_simp
  moreover have "bt_wf [(1 :: nat, Deletion)] \<and> bt_wf [(1 :: nat, Creation [7])]
      \<and> ws_applicable [(1, Deletion)] ?s \<and> ws_applicable [(1, Creation [7])] (ws_effect [(1, Deletion)] ?s)"
    by code_simp
  ultimately show ?thesis
    using ws_squash_compose [of "[(1 :: nat, Deletion)]" "[(1, Creation [7])]" ?s] by auto
qed

end
