(* ===== verification/Delta.thy ===== *)
theory Delta
  imports WriteSet
begin

text \<open>
  Delta operations of aggregators (\<open>aptos-move/aptos-aggregator/src/delta_change_set.rs\<close>): a
  delta carries its net update and the largest excursions seen while it was built, is applied to
  a base value with overflow checks, and is merged onto the delta that precedes it. The \<open>u128\<close>
  values are 128-bit words; every checked operation is also read over the naturals.
\<close>

section \<open>Checked arithmetic\<close>

text \<open>
  \<open>abort_error\<close> builds an \<open>ABORTED\<close> error with a sub-status; the message text is not kept.
\<close>

definition EADD_OVERFLOW :: u64 where
  "EADD_OVERFLOW = 0x020001"

definition ESUB_UNDERFLOW :: u64 where
  "ESUB_UNDERFLOW = 0x020002"

datatype partial_vm_error = Aborted u64 | VmExtensionError

definition abort_error :: "u64 \<Rightarrow> partial_vm_error" where
  "abort_error code = Aborted code"

definition addition :: "u128 \<Rightarrow> u128 \<Rightarrow> u128 \<Rightarrow> partial_vm_error + u128" where
  "addition base v lim =
     (if lim < base \<or> v > lim - base then Inl (abort_error EADD_OVERFLOW) else Inr (base + v))"

definition subtraction :: "u128 \<Rightarrow> u128 \<Rightarrow> partial_vm_error + u128" where
  "subtraction base v =
     (if v > base then Inl (abort_error ESUB_UNDERFLOW) else Inr (base - v))"

lemma addition_uint:
  "addition b v l =
     (if uint b + uint v \<le> uint l then Inr (b + v) else Inl (abort_error EADD_OVERFLOW))"
proof -
  have "l < b \<or> v > l - b \<longleftrightarrow> \<not> uint b + uint v \<le> uint l"
  proof (cases "l < b")
    case True
    then have "\<not> uint b + uint v \<le> uint l"
      unfolding word_less_def using uint_ge_0 [of v] by linarith
    with True show ?thesis by simp
  next
    case False
    then have "uint (l - b) = uint l - uint b"
      by (simp add: word_less_def flip: uint_sub_lem)
    with False show ?thesis by (auto simp: word_less_def)
  qed
  then show ?thesis by (simp add: addition_def)
qed

lemma subtraction_uint:
  "subtraction b v = (if uint v \<le> uint b then Inr (b - v) else Inl (abort_error ESUB_UNDERFLOW))"
  by (auto simp: subtraction_def word_less_def)

lemma uint_add_le: "uint (a::'a::len word) + uint b \<le> uint (c::'a word) \<Longrightarrow> uint (a + b) = uint a + uint b"
  unfolding uint_add_lem [symmetric] using uint_lt2p [of c] by linarith

lemma uint_sub_le: "uint (b::'a::len word) \<le> uint a \<Longrightarrow> uint (a - b) = uint a - uint b"
  by (simp flip: uint_sub_lem)

lemma addition_eq_Inr [checked_arith]:
  "addition b v l = Inr r \<longleftrightarrow> uint b + uint v \<le> uint l \<and> uint r = uint b + uint v"
  by (auto simp: addition_uint uint_add_le word_uint_eq_iff)

lemma addition_eq_Inl [checked_arith]:
  "addition b v l = Inl e \<longleftrightarrow> uint l < uint b + uint v \<and> e = abort_error EADD_OVERFLOW"
  by (auto simp: addition_uint)

lemma subtraction_eq_Inr [checked_arith]:
  "subtraction b v = Inr r \<longleftrightarrow> uint v \<le> uint b \<and> uint r = uint b - uint v"
  by (auto simp: subtraction_uint uint_sub_le word_uint_eq_iff)

lemma subtraction_eq_Inl [checked_arith]:
  "subtraction b v = Inl e \<longleftrightarrow> uint b < uint v \<and> e = abort_error ESUB_UNDERFLOW"
  by (auto simp: subtraction_uint)

text \<open>A check whose result is dropped, as in \<open>addition(base, max, limit)?;\<close>.\<close>

lemma addition_guard [checked_arith]:
  "rbind (addition b v l) (\<lambda>_. m) =
     (if uint b + uint v \<le> uint l then m else Inl (abort_error EADD_OVERFLOW))"
  by (simp add: addition_uint)

lemma subtraction_guard [checked_arith]:
  "rbind (subtraction b v) (\<lambda>_. m) =
     (if uint v \<le> uint b then m else Inl (abort_error ESUB_UNDERFLOW))"
  by (simp add: subtraction_uint)

section \<open>Delta operations\<close>

datatype delta_update = Plus u128 | Minus u128

record delta_op =
  max_positive :: u128
  min_negative :: u128
  limit :: u128
  update :: delta_update

definition delta_op_new :: "delta_update \<Rightarrow> u128 \<Rightarrow> u128 \<Rightarrow> u128 \<Rightarrow> delta_op" where
  "delta_op_new u l mp mn = \<lparr>max_positive = mp, min_negative = mn, limit = l, update = u\<rparr>"

definition get_update :: "delta_op \<Rightarrow> delta_update" where
  "get_update d = update d"

definition delta_add :: "u128 \<Rightarrow> u128 \<Rightarrow> delta_op" where
  "delta_add v l = delta_op_new (Plus v) l v 0"

definition delta_sub :: "u128 \<Rightarrow> u128 \<Rightarrow> delta_op" where
  "delta_sub v l = delta_op_new (Minus v) l 0 v"

definition apply_to :: "delta_op \<Rightarrow> u128 \<Rightarrow> partial_vm_error + u128" where
  "apply_to d base =
     rbind (addition base (max_positive d) (limit d)) (\<lambda>_.
     rbind (subtraction base (min_negative d)) (\<lambda>_.
     case update d of
       Plus v \<Rightarrow> addition base v (limit d)
     | Minus v \<Rightarrow> subtraction base v))"

definition unwrap_or_zero :: "partial_vm_error + u128 \<Rightarrow> u128" where
  "unwrap_or_zero m = (case m of Inl _ \<Rightarrow> 0 | Inr v \<Rightarrow> v)"

definition shifted_max_positive_by :: "delta_op \<Rightarrow> delta_op \<Rightarrow> partial_vm_error + u128" where
  "shifted_max_positive_by self delta =
     (case update delta of
        Plus v \<Rightarrow> addition v (max_positive self) (limit self)
      | Minus v \<Rightarrow> Inr (unwrap_or_zero (subtraction (max_positive self) v)))"

definition shifted_min_negative_by :: "delta_op \<Rightarrow> delta_op \<Rightarrow> partial_vm_error + u128" where
  "shifted_min_negative_by self delta =
     (case update delta of
        Plus v \<Rightarrow> Inr (unwrap_or_zero (subtraction (min_negative self) v))
      | Minus v \<Rightarrow> addition v (min_negative self) (limit self))"

definition update_different_sign :: "u128 \<Rightarrow> u128 \<Rightarrow> partial_vm_error + delta_update" where
  "update_different_sign a b =
     (if a \<ge> b then rbind (subtraction a b) (\<lambda>v. Inr (Plus v))
      else rbind (subtraction b a) (\<lambda>v. Inr (Minus v)))"

definition merged_update :: "delta_op \<Rightarrow> delta_op \<Rightarrow> partial_vm_error + delta_update" where
  "merged_update self prev =
     (case update prev of
        Plus pv \<Rightarrow> (case update self of
            Plus sv \<Rightarrow> rbind (addition pv sv (limit self)) (\<lambda>v. Inr (Plus v))
          | Minus sv \<Rightarrow> update_different_sign pv sv)
      | Minus pv \<Rightarrow> (case update self of
            Plus sv \<Rightarrow> update_different_sign sv pv
          | Minus sv \<Rightarrow> rbind (addition pv sv (limit self)) (\<lambda>v. Inr (Minus v))))"

definition merge_onto :: "delta_op \<Rightarrow> delta_op \<Rightarrow> partial_vm_error + delta_op" where
  "merge_onto self prev =
     rbind (shifted_max_positive_by self prev) (\<lambda>smp.
     rbind (shifted_min_negative_by self prev) (\<lambda>smn.
     rbind (merged_update self prev) (\<lambda>u.
     Inr (self\<lparr>update := u,
               max_positive := max (max_positive prev) smp,
               min_negative := max (min_negative prev) smn\<rparr>))))"

text \<open>
  The representation invariant of a delta: the net update lies within the recorded excursions.
  Every delta an aggregator produces satisfies it, and merging keeps it.
\<close>

definition delta_wf :: "delta_op \<Rightarrow> bool" where
  "delta_wf d \<longleftrightarrow>
     (case update d of Plus v \<Rightarrow> v \<le> max_positive d | Minus v \<Rightarrow> v \<le> min_negative d)"

lemma uint_unwrap_subtraction: "uint (unwrap_or_zero (subtraction a b)) = max 0 (uint a - uint b)"
  by (simp add: unwrap_or_zero_def subtraction_uint uint_sub_le)

lemma uint_max: "uint (max a (b::'a::len word)) = max (uint a) (uint b)"
  by (simp add: max_def word_le_def)

text \<open>
  The integer a delta adds to its base. Application succeeds exactly when both excursions stay
  within zero and the limit, and then adds that integer.
\<close>

definition net_update :: "delta_update \<Rightarrow> int" where
  "net_update u = (case u of Plus v \<Rightarrow> uint v | Minus v \<Rightarrow> - uint v)"

definition net :: "delta_op \<Rightarrow> int" where
  "net d = net_update (update d)"

lemma net_simps [simp]:
  "net_update (Plus v) = uint v" "net_update (Minus v) = - uint v"
  by (simp_all add: net_update_def)

lemma delta_wf_net:
  "delta_wf d \<longleftrightarrow> - uint (min_negative d) \<le> net d \<and> net d \<le> uint (max_positive d)"
proof (cases "update d")
  case (Plus v)
  have "- uint (min_negative d) \<le> uint v"
    using uint_ge_0 [of "min_negative d"] uint_ge_0 [of v] by linarith
  with Plus show ?thesis by (simp add: delta_wf_def net_def word_le_def)
next
  case (Minus v)
  have "- uint v \<le> uint (max_positive d)"
    using uint_ge_0 [of "max_positive d"] uint_ge_0 [of v] by linarith
  with Minus show ?thesis by (simp add: delta_wf_def net_def word_le_def)
qed

lemma apply_to_eq_Inr:
  assumes "delta_wf d"
  shows "apply_to d b = Inr r \<longleftrightarrow>
     uint b + uint (max_positive d) \<le> uint (limit d) \<and> uint (min_negative d) \<le> uint b \<and>
     uint r = uint b + net d"
  using assms
  by (cases "update d")
     (auto simp: apply_to_def checked_arith delta_wf_def net_def word_le_def)

lemma apply_to_ex:
  assumes "delta_wf d"
  shows "(\<exists>r. apply_to d b = Inr r) \<longleftrightarrow>
     uint b + uint (max_positive d) \<le> uint (limit d) \<and> uint (min_negative d) \<le> uint b"
  using assms
  by (cases "update d")
     (auto simp: apply_to_def addition_guard subtraction_guard addition_uint subtraction_uint
        delta_wf_def word_le_def)

text \<open>The three steps of a merge, through the integers.\<close>

lemma shifted_max_eq_Inr:
  "shifted_max_positive_by self prev = Inr smp \<longleftrightarrow>
     ((\<exists>v. update prev = Plus v) \<longrightarrow> net prev + uint (max_positive self) \<le> uint (limit self)) \<and>
     uint smp = max 0 (net prev + uint (max_positive self))"
  by (cases "update prev")
     (auto simp: shifted_max_positive_by_def net_def addition_eq_Inr word_uint_eq_iff
        uint_unwrap_subtraction)

lemma shifted_min_eq_Inr:
  "shifted_min_negative_by self prev = Inr smn \<longleftrightarrow>
     ((\<exists>v. update prev = Minus v) \<longrightarrow> uint (min_negative self) - net prev \<le> uint (limit self)) \<and>
     uint smn = max 0 (uint (min_negative self) - net prev)"
  by (cases "update prev")
     (auto simp: shifted_min_negative_by_def net_def addition_eq_Inr word_uint_eq_iff
        uint_unwrap_subtraction)

lemmas shiftedD = shifted_max_eq_Inr [THEN iffD1, THEN conjunct2]
  shifted_min_eq_Inr [THEN iffD1, THEN conjunct2]

lemma uint_le_addD: "x + uint a \<le> y \<Longrightarrow> x \<le> y"
  using uint_ge_0 [of a] by linarith

lemma max_uint_0: "max (uint a) (max 0 x) = max (uint a) x"
  using uint_ge_0 [of a] by linarith

lemma update_different_sign_eq:
  "\<exists>u. update_different_sign a b = Inr u \<and> net_update u = uint a - uint b"
  by (auto simp: update_different_sign_def subtraction_uint word_le_def uint_sub_le)

lemma merged_update_net:
  assumes "merged_update self prev = Inr u"
  shows "net_update u = net prev + net self"
  using assms
  by (cases "update self"; cases "update prev")
     (auto simp: merged_update_def net_def rbind_eq_Inr addition_eq_Inr,
      (metis sum.inject(2) update_different_sign_eq diff_conv_add_uminus uminus_add_conv_diff)+)

text \<open>
  With the later delta's excursion check passed, the update itself cannot overflow: the only
  failing addition is of two updates of the same sign, bounded by that check.
\<close>

lemma merged_update_total:
  assumes "delta_wf self"
    and "shifted_max_positive_by self prev = Inr smp" "shifted_min_negative_by self prev = Inr smn"
  shows "\<exists>u. merged_update self prev = Inr u"
proof (cases "update prev")
  case (Plus pv)
  show ?thesis
  proof (cases "update self")
    case (Plus sv)
    with \<open>update prev = Plus pv\<close> assms show ?thesis
      by (auto simp: merged_update_def shifted_max_positive_by_def addition_uint delta_wf_def
          word_le_def split: if_splits)
  next
    case (Minus sv)
    with \<open>update prev = Plus pv\<close> update_different_sign_eq [of pv sv] show ?thesis
      by (auto simp: merged_update_def)
  qed
next
  case (Minus pv)
  show ?thesis
  proof (cases "update self")
    case (Plus sv)
    with \<open>update prev = Minus pv\<close> update_different_sign_eq [of sv pv] show ?thesis
      by (auto simp: merged_update_def)
  next
    case (Minus sv)
    with \<open>update prev = Minus pv\<close> assms show ?thesis
      by (auto simp: merged_update_def shifted_min_negative_by_def addition_uint delta_wf_def
          word_le_def split: if_splits)
  qed
qed

section \<open>Merging is composition\<close>

lemma merge_onto_eq_Inr:
  assumes "merge_onto self prev = Inr d"
  shows "limit d = limit self" "net d = net prev + net self"
    "uint (max_positive d) = max (uint (max_positive prev)) (net prev + uint (max_positive self))"
    "uint (min_negative d) = max (uint (min_negative prev)) (uint (min_negative self) - net prev)"
  using assms
  by (auto simp: merge_onto_def rbind_eq_Inr net_def uint_max max_uint_0
      dest!: merged_update_net shiftedD)

lemma merge_onto_wf:
  assumes "delta_wf self" "delta_wf prev" "merge_onto self prev = Inr d"
  shows "delta_wf d"
  using assms by (auto simp: delta_wf_net merge_onto_eq_Inr)

lemma merge_onto_sound:
  assumes wf: "delta_wf self" "delta_wf prev" and lim: "limit self = limit prev"
    and m: "merge_onto self prev = Inr d"
  shows "apply_to d b = Inr r \<longleftrightarrow> (\<exists>x. apply_to prev b = Inr x \<and> apply_to self x = Inr r)"
proof -
  note d = merge_onto_eq_Inr [OF m] and ap = apply_to_eq_Inr
  have wfd: "delta_wf d" using wf m by (rule merge_onto_wf)
  show ?thesis
  proof
    assume r: "apply_to d b = Inr r"
    then have "uint b + uint (max_positive prev) \<le> uint (limit prev)"
      "uint (min_negative prev) \<le> uint b"
      using wfd by (auto simp: ap d lim)
    then obtain x where x: "apply_to prev b = Inr x"
      using apply_to_ex [OF wf(2), of b] by blast
    with r have "apply_to self x = Inr r"
      using wf wfd by (auto simp: ap d)
    with x show "\<exists>x. apply_to prev b = Inr x \<and> apply_to self x = Inr r" by blast
  next
    assume "\<exists>x. apply_to prev b = Inr x \<and> apply_to self x = Inr r"
    then show "apply_to d b = Inr r"
      using wf wfd lim by (auto simp: ap d)
  qed
qed

lemma merge_onto_fails:
  assumes wf: "delta_wf self" "delta_wf prev" and lim: "limit self = limit prev"
    and m: "merge_onto self prev = Inl e" and x: "apply_to prev b = Inr x"
  shows "\<exists>e'. apply_to self x = Inl e'"
proof (rule ccontr)
  assume "\<nexists>e'. apply_to self x = Inl e'"
  then obtain r where r: "apply_to self x = Inr r" by (cases "apply_to self x") auto
  note ap = apply_to_eq_Inr
  have bounds: "uint b + net prev + uint (max_positive self) \<le> uint (limit self)"
    "uint (min_negative self) \<le> uint b + net prev" "uint b \<le> uint (limit self)" "0 \<le> uint b"
    using wf lim x r by (auto simp: ap intro: uint_le_addD)
  then have up: "net prev + uint (max_positive self) \<le> uint (limit self)"
    and down: "uint (min_negative self) - net prev \<le> uint (limit self)"
    by linarith+
  have "\<exists>smp. shifted_max_positive_by self prev = Inr smp"
    using up by (cases "update prev")
      (auto simp: shifted_max_positive_by_def addition_uint net_def)
  moreover have "\<exists>smn. shifted_min_negative_by self prev = Inr smn"
    using down by (cases "update prev")
      (auto simp: shifted_min_negative_by_def addition_uint net_def)
  ultimately show False
    using m merged_update_total [OF wf(1), of prev] by (fastforce simp: merge_onto_def rbind_eq_Inl)
qed

section \<open>Delta change sets\<close>

text \<open>
  The deltas of one transaction by state key. Turning a delta into a write goes to storage for
  the base value; \<open>bcs\<close> is an external crate, so its decoder (\<open>deser\<close>, \<open>None\<close> where it
  fails and \<open>deserialize\<close> panics) and encoder (\<open>ser\<close>) are arguments, as is the storage view.
  A result of \<open>None\<close> is the panic of \<open>deserialize\<close>.
\<close>

type_synonym 'k delta_change_set = "('k, delta_op) btree"

datatype vm_status = STORAGE_ERROR | FromPartial partial_vm_error

definition dcs_new :: "('k::linorder \<times> delta_op) list \<Rightarrow> 'k delta_change_set" where
  "dcs_new ds = fold (\<lambda>(k, d). bt_insert k d) ds []"

definition dcs_insert :: "'k::linorder \<times> delta_op \<Rightarrow> 'k delta_change_set \<Rightarrow> 'k delta_change_set" where
  "dcs_insert kd ds = bt_insert (fst kd) (snd kd) ds"

definition dcs_remove :: "'k \<Rightarrow> 'k delta_change_set \<Rightarrow> delta_op option \<times> 'k delta_change_set" where
  "dcs_remove k ds = (bt_get ds k, bt_remove k ds)"

definition try_into_write_op ::
  "(bytes \<Rightarrow> u128 option) \<Rightarrow> (u128 \<Rightarrow> bytes) \<Rightarrow> ('k \<Rightarrow> 'e + bytes option) \<Rightarrow> delta_op \<Rightarrow> 'k
    \<Rightarrow> (vm_status + write_op) option" where
  "try_into_write_op deser ser view d k =
     (case view k of
        Inl _ \<Rightarrow> Some (Inl STORAGE_ERROR)
      | Inr None \<Rightarrow> Some (Inl STORAGE_ERROR)
      | Inr (Some bs) \<Rightarrow>
          (case deser bs of
             None \<Rightarrow> None
           | Some base \<Rightarrow>
               (case apply_to d base of
                  Inl e \<Rightarrow> Some (Inl (FromPartial e))
                | Inr r \<Rightarrow> Some (Inr (Modification (ser r))))))"

fun materialize ::
  "(bytes \<Rightarrow> u128 option) \<Rightarrow> (u128 \<Rightarrow> bytes) \<Rightarrow> ('k \<Rightarrow> 'e + bytes option) \<Rightarrow> 'k delta_change_set
    \<Rightarrow> (vm_status + ('k \<times> write_op) list) option" where
  "materialize deser ser view [] = Some (Inr [])"
| "materialize deser ser view ((k, d) # ds) =
     (case try_into_write_op deser ser view d k of
        None \<Rightarrow> None
      | Some (Inl e) \<Rightarrow> Some (Inl e)
      | Some (Inr op) \<Rightarrow>
          (case materialize deser ser view ds of
             None \<Rightarrow> None
           | Some (Inl e) \<Rightarrow> Some (Inl e)
           | Some (Inr ops) \<Rightarrow> Some (Inr ((k, op) # ops))))"

definition try_into_write_set_mut ::
  "(bytes \<Rightarrow> u128 option) \<Rightarrow> (u128 \<Rightarrow> bytes) \<Rightarrow> ('k::linorder \<Rightarrow> 'e + bytes option)
    \<Rightarrow> 'k delta_change_set \<Rightarrow> (vm_status + 'k write_set) option" where
  "try_into_write_set_mut deser ser view ds =
     (case materialize deser ser view ds of
        None \<Rightarrow> None
      | Some (Inl e) \<Rightarrow> Some (Inl e)
      | Some (Inr ops) \<Rightarrow> Some (Inr (ws_new ops)))"

text \<open>The write a delta becomes, given what storage holds under its key.\<close>

definition delta_write ::
  "(bytes \<Rightarrow> u128 option) \<Rightarrow> (u128 \<Rightarrow> bytes) \<Rightarrow> ('k \<Rightarrow> 'e + bytes option) \<Rightarrow> 'k \<Rightarrow> delta_op \<Rightarrow> write_op
    \<Rightarrow> bool" where
  "delta_write deser ser view k d op \<longleftrightarrow>
     (\<exists>bs base r. view k = Inr (Some bs) \<and> deser bs = Some base \<and> apply_to d base = Inr r
        \<and> op = Modification (ser r))"

lemma try_into_write_op_Inr:
  "try_into_write_op deser ser view d k = Some (Inr op) \<longleftrightarrow> delta_write deser ser view k d op"
  by (auto simp: try_into_write_op_def delta_write_def split: option.splits sum.splits)

lemma delta_write_unique: "delta_write deser ser view k d op \<Longrightarrow> delta_write deser ser view k d op' \<Longrightarrow> op = op'"
  by (auto simp: delta_write_def)

lemma materialize_Cons:
  "materialize deser ser view ((k, d) # ds) = Some (Inr ops) \<longleftrightarrow>
     (\<exists>op ops'. delta_write deser ser view k d op \<and> materialize deser ser view ds = Some (Inr ops')
        \<and> ops = (k, op) # ops')"
  by (auto simp flip: try_into_write_op_Inr split: option.splits sum.splits)

lemma materialize_keys:
  "materialize deser ser view ds = Some (Inr ops) \<Longrightarrow> map fst ops = map fst ds"
  by (induction ds arbitrary: ops) (auto simp: materialize_Cons simp del: materialize.simps(2))

lemma materialize_mem:
  "materialize deser ser view ds = Some (Inr ops) \<Longrightarrow>
     (k, op) \<in> set ops \<longleftrightarrow> (\<exists>d. (k, d) \<in> set ds \<and> delta_write deser ser view k d op)"
proof (induction ds arbitrary: ops)
  case Nil
  then show ?case by simp
next
  case (Cons kd ds)
  obtain k' d where kd: "kd = (k', d)" by (cases kd)
  from Cons.prems obtain op' ops' where w: "delta_write deser ser view k' d op'"
    and rest: "materialize deser ser view ds = Some (Inr ops')" and ops: "ops = (k', op') # ops'"
    unfolding kd materialize_Cons by blast
  show ?case
    using Cons.IH [OF rest] w by (auto simp: kd ops dest: delta_write_unique)
qed

text \<open>
  A materialised change set modifies exactly the keys that have a delta, each to the encoding
  of its delta applied to the stored value.
\<close>

lemma try_into_write_set_mut_get:
  assumes "bt_wf ds" and "try_into_write_set_mut deser ser view ds = Some (Inr ws)"
  shows "bt_get ws k = Some op \<longleftrightarrow>
     (\<exists>d. bt_get ds k = Some d \<and> delta_write deser ser view k d op)"
proof -
  from assms(2) obtain ops where m: "materialize deser ser view ds = Some (Inr ops)"
    and ws: "ws = ws_new ops"
    by (auto simp: try_into_write_set_mut_def split: option.splits sum.splits)
  have dist: "distinct (map fst ops)"
    using assms(1) materialize_keys [OF m] by (simp add: bt_wf_distinct)
  have "bt_get ws k = Some op \<longleftrightarrow> (k, op) \<in> set ops"
    using dist ws_new_get [of ops k] by (simp add: ws ws_get_def distinct_map_of_rev)
  also have "\<dots> \<longleftrightarrow> (\<exists>d. bt_get ds k = Some d \<and> delta_write deser ser view k d op)"
    using assms(1) by (simp add: materialize_mem [OF m] bt_get_iff)
  finally show ?thesis .
qed

lemma try_into_write_set_mut_wf:
  "try_into_write_set_mut deser ser view ds = Some (Inr ws) \<Longrightarrow> bt_wf ws"
  by (auto simp: try_into_write_set_mut_def ws_new_wf split: option.splits sum.splits)

section \<open>Properties\<close>

text \<open>
  The checked arithmetic of aggregators is exact: an addition succeeds just when the true sum
  is within the limit, a subtraction just when it does not go below zero, and the machine word
  is then the true result.
\<close>

theorem checked_arithmetic_exact:
  "(addition b v l = Inr r \<longleftrightarrow> uint b + uint v \<le> uint l \<and> uint r = uint b + uint v)
   \<and> (subtraction b v = Inr r' \<longleftrightarrow> uint v \<le> uint b \<and> uint r' = uint b - uint v)"
  by (simp add: addition_eq_Inr subtraction_eq_Inr)

text \<open>
  C31. Merging a delta onto an earlier one is exact. If the merge succeeds, the merged delta
  applies to a base value just when both deltas apply one after the other, with the same result,
  including the intermediate overflows and underflows its history stands for. If the merge fails,
  the later delta fails on every value the earlier one can produce.
\<close>

theorem merge_onto_exact:
  assumes "delta_wf self" "delta_wf prev" "limit self = limit prev"
  shows "case merge_onto self prev of
      Inr d \<Rightarrow> delta_wf d \<and> (\<forall>b r. apply_to d b = Inr r \<longleftrightarrow>
                 (\<exists>x. apply_to prev b = Inr x \<and> apply_to self x = Inr r))
    | Inl _ \<Rightarrow> \<forall>b x. apply_to prev b = Inr x \<longrightarrow> (\<exists>e. apply_to self x = Inl e)"
  using merge_onto_sound [OF assms] merge_onto_fails [OF assms] merge_onto_wf [OF assms(1,2)]
  by (auto split: sum.split)

theorem merge_onto_exact_witness:
  "\<exists>d. merge_onto (delta_sub 3 100) (delta_add 5 100) = Inr d \<and> apply_to d 10 = Inr 12"
proof -
  let ?self = "delta_sub 3 100" and ?prev = "delta_add 5 100" and ?d = "delta_op_new (Plus 2) 100 5 0"
  have wf: "delta_wf ?self" "delta_wf ?prev" "limit ?self = limit ?prev" by code_simp+
  have "merge_onto ?self ?prev = Inr ?d" by code_simp
  moreover from this have "apply_to ?d 10 = Inr 12 \<longleftrightarrow> (\<exists>x. apply_to ?prev 10 = Inr x \<and> apply_to ?self x = Inr 12)"
    using merge_onto_exact [OF wf] by simp
  moreover have "apply_to ?prev 10 = Inr 15 \<and> apply_to ?self 15 = Inr 12" by code_simp
  ultimately show ?thesis by blast
qed

text \<open>
  Turning a set of deltas into writes succeeds only with, for each delta and no other key, the
  modification that stores the delta applied to the value in storage.
\<close>

theorem materialized_deltas:
  assumes "bt_wf ds" "try_into_write_set_mut deser ser view ds = Some (Inr ws)"
  shows "bt_get ws k = Some op \<longleftrightarrow>
     (\<exists>d bs base r. bt_get ds k = Some d \<and> view k = Inr (Some bs) \<and> deser bs = Some base
        \<and> apply_to d base = Inr r \<and> op = Modification (ser r))"
  using try_into_write_set_mut_get [OF assms] by (auto simp: delta_write_def)

theorem materialized_deltas_witness:
  "\<exists>d r. bt_get [(1 :: nat, delta_add 4 100)] 1 = Some d \<and> apply_to d 5 = Inr r
     \<and> Modification [9] = Modification [ucast r]"
proof -
  let ?deser = "\<lambda>bs :: bytes. case bs of [b] \<Rightarrow> Some (ucast b :: u128) | _ \<Rightarrow> None"
    and ?ser = "\<lambda>v :: u128. [ucast v] :: bytes"
    and ?view = "\<lambda>k :: nat. Inr (Some [5]) :: unit + bytes option"
  have run: "try_into_write_set_mut ?deser ?ser ?view [(1, delta_add 4 100)] = Some (Inr [(1, Modification [9])])"
    by code_simp
  have "bt_wf [(1 :: nat, delta_add 4 100)] \<and> bt_get [(1 :: nat, Modification [9])] 1 = Some (Modification [9])"
    by code_simp
  with materialized_deltas [OF _ run, of 1 "Modification [9]"] show ?thesis by auto
qed

end
