(* ===== verification/Aggregator.thy ===== *)
theory Aggregator
  imports Delta StateKey "HOL-Library.Product_Lexorder"
begin

text \<open>
  Aggregators as the VM uses them during one transaction
  (\<open>aptos-move/aptos-aggregator/src/aggregator_extension.rs\<close>) and the change set the native
  context hands out (\<open>aptos-move/framework/src/natives/aggregator_natives/context.rs\<close>).
  An aggregator either knows its value or keeps a signed delta with the excursions it has seen.
  The main result is that working on the delta and resolving it later gives what working on the
  known value gives. A result \<open>None\<close> is a panic of the source (\<open>unreachable!\<close>, \<open>unwrap\<close>, or
  \<open>deserialize\<close> on bytes that \<open>bcs\<close> rejects).
\<close>

section \<open>Aggregators\<close>

datatype aggregator_state = Data | PositiveDelta | NegativeDelta

text \<open>\<open>AggregatorID\<close>: the table handle and the key, ordered lexicographically as derived.\<close>

type_synonym aggregator_id = "address \<times> address"

record history =
  h_max_positive :: u128
  h_min_negative :: u128

definition history_new :: history where
  "history_new = \<lparr>h_max_positive = 0, h_min_negative = 0\<rparr>"

definition record_positive :: "u128 \<Rightarrow> history \<Rightarrow> history" where
  "record_positive v h = h\<lparr>h_max_positive := max (h_max_positive h) v\<rparr>"

definition record_negative :: "u128 \<Rightarrow> history \<Rightarrow> history" where
  "record_negative v h = h\<lparr>h_min_negative := max (h_min_negative h) v\<rparr>"

record aggregator =
  agg_value :: u128
  agg_state :: aggregator_state
  agg_limit :: u128
  agg_history :: "history option"

definition agg_record :: "aggregator \<Rightarrow> aggregator option" where
  "agg_record a =
     (case agg_history a of
        None \<Rightarrow> Some a
      | Some h \<Rightarrow>
          (case agg_state a of
             PositiveDelta \<Rightarrow> Some (a\<lparr>agg_history := Some (record_positive (agg_value a) h)\<rparr>)
           | NegativeDelta \<Rightarrow> Some (a\<lparr>agg_history := Some (record_negative (agg_value a) h)\<rparr>)
           | Data \<Rightarrow> None))"

definition then_record :: "partial_vm_error + aggregator \<Rightarrow> (partial_vm_error + aggregator) option" where
  "then_record m = (case m of Inl e \<Rightarrow> Some (Inl e) | Inr a \<Rightarrow> map_option Inr (agg_record a))"

definition agg_add :: "u128 \<Rightarrow> aggregator \<Rightarrow> (partial_vm_error + aggregator) option" where
  "agg_add v a =
     (case agg_state a of
        Data \<Rightarrow> Some (rbind (addition (agg_value a) v (agg_limit a)) (\<lambda>r. Inr (a\<lparr>agg_value := r\<rparr>)))
      | PositiveDelta \<Rightarrow>
          then_record (rbind (addition (agg_value a) v (agg_limit a)) (\<lambda>r. Inr (a\<lparr>agg_value := r\<rparr>)))
      | NegativeDelta \<Rightarrow>
          then_record
            (if agg_value a \<le> v
             then rbind (subtraction v (agg_value a))
                    (\<lambda>r. Inr (a\<lparr>agg_value := r, agg_state := PositiveDelta\<rparr>))
             else rbind (subtraction (agg_value a) v) (\<lambda>r. Inr (a\<lparr>agg_value := r\<rparr>))))"

definition agg_sub :: "u128 \<Rightarrow> aggregator \<Rightarrow> (partial_vm_error + aggregator) option" where
  "agg_sub v a =
     (case agg_state a of
        Data \<Rightarrow> Some (rbind (subtraction (agg_value a) v) (\<lambda>r. Inr (a\<lparr>agg_value := r\<rparr>)))
      | PositiveDelta \<Rightarrow>
          then_record
            (if agg_value a \<ge> v
             then rbind (subtraction (agg_value a) v) (\<lambda>r. Inr (a\<lparr>agg_value := r\<rparr>))
             else rbind (subtraction (agg_limit a) v) (\<lambda>_.
                  rbind (subtraction v (agg_value a))
                    (\<lambda>r. Inr (a\<lparr>agg_value := r, agg_state := NegativeDelta\<rparr>))))
      | NegativeDelta \<Rightarrow>
          then_record (rbind (addition (agg_value a) v (agg_limit a)) (\<lambda>r. Inr (a\<lparr>agg_value := r\<rparr>))))"

text \<open>
  Reading resolves the delta against the table entry; the resolver is the storage the VM runs
  on, so it is an argument.
\<close>

definition read_and_materialize ::
  "(bytes \<Rightarrow> u128 option) \<Rightarrow> (aggregator_id \<Rightarrow> 'e + bytes option) \<Rightarrow> aggregator_id \<Rightarrow> aggregator
    \<Rightarrow> (partial_vm_error + u128 \<times> aggregator) option" where
  "read_and_materialize deser resolver i a =
     (if agg_state a = Data then Some (Inr (agg_value a, a))
      else
       (case resolver i of
          Inl _ \<Rightarrow> Some (Inl VmExtensionError)
        | Inr None \<Rightarrow> Some (Inl VmExtensionError)
        | Inr (Some bs) \<Rightarrow>
            (case deser bs of
               None \<Rightarrow> None
             | Some from_storage \<Rightarrow>
                 (case agg_history a of
                    None \<Rightarrow> None
                  | Some h \<Rightarrow>
                      Some (rbind (addition from_storage (h_max_positive h) (agg_limit a)) (\<lambda>_.
                            rbind (subtraction from_storage (h_min_negative h)) (\<lambda>_.
                            rbind (if agg_state a = PositiveDelta
                                   then addition from_storage (agg_value a) (agg_limit a)
                                   else subtraction from_storage (agg_value a)) (\<lambda>r.
                            Inr (r, a\<lparr>agg_value := r, agg_state := Data, agg_history := None\<rparr>)))))))))"

section \<open>Aggregators of a transaction\<close>

record aggregator_data =
  new_aggregators :: "aggregator_id set"
  destroyed_aggregators :: "aggregator_id set"
  aggregators :: "(aggregator_id, aggregator) btree"

definition aggregator_data_default :: aggregator_data where
  "aggregator_data_default = \<lparr>new_aggregators = {}, destroyed_aggregators = {}, aggregators = []\<rparr>"

definition delta_aggregator :: "u128 \<Rightarrow> aggregator" where
  "delta_aggregator lim =
     \<lparr>agg_value = 0, agg_state = PositiveDelta, agg_limit = lim, agg_history = Some history_new\<rparr>"

definition get_aggregator ::
  "aggregator_id \<Rightarrow> u128 \<Rightarrow> aggregator_data \<Rightarrow> aggregator \<times> aggregator_data" where
  "get_aggregator i lim ad =
     (case bt_get (aggregators ad) i of
        Some a \<Rightarrow> (a, ad)
      | None \<Rightarrow> (delta_aggregator lim,
                 ad\<lparr>aggregators := bt_insert i (delta_aggregator lim) (aggregators ad)\<rparr>))"

definition num_aggregators :: "aggregator_data \<Rightarrow> nat" where
  "num_aggregators ad = length (aggregators ad)"

definition data_aggregator :: "u128 \<Rightarrow> u128 \<Rightarrow> aggregator" where
  "data_aggregator v lim =
     \<lparr>agg_value = v, agg_state = Data, agg_limit = lim, agg_history = None\<rparr>"

definition create_new_aggregator :: "aggregator_id \<Rightarrow> u128 \<Rightarrow> aggregator_data \<Rightarrow> aggregator_data" where
  "create_new_aggregator i lim ad =
     ad\<lparr>aggregators := bt_insert i (data_aggregator 0 lim) (aggregators ad),
        new_aggregators := insert i (new_aggregators ad)\<rparr>"

definition remove_aggregator :: "aggregator_id \<Rightarrow> aggregator_data \<Rightarrow> aggregator_data" where
  "remove_aggregator i ad =
     (let ad' = ad\<lparr>aggregators := bt_remove i (aggregators ad)\<rparr>
      in if i \<in> new_aggregators ad
         then ad'\<lparr>new_aggregators := new_aggregators ad - {i}\<rparr>
         else ad'\<lparr>destroyed_aggregators := insert i (destroyed_aggregators ad)\<rparr>)"

text \<open>
  The native functions of the VM (\<open>aggregator_natives/aggregator.rs\<close>): the instance is looked
  up or created, the operation is applied to it in place. Gas and argument unpacking are the
  VM's.
\<close>

definition on_aggregator ::
  "aggregator_id \<Rightarrow> u128 \<Rightarrow> (aggregator \<Rightarrow> (partial_vm_error + aggregator) option) \<Rightarrow> aggregator_data
    \<Rightarrow> ((partial_vm_error + unit) \<times> aggregator_data) option" where
  "on_aggregator i lim f ad =
     (let (a, ad') = get_aggregator i lim ad in
      case f a of
        None \<Rightarrow> None
      | Some (Inl e) \<Rightarrow> Some (Inl e, ad')
      | Some (Inr a') \<Rightarrow> Some (Inr (), ad'\<lparr>aggregators := bt_insert i a' (aggregators ad')\<rparr>))"

definition native_add ::
  "aggregator_id \<Rightarrow> u128 \<Rightarrow> u128 \<Rightarrow> aggregator_data
    \<Rightarrow> ((partial_vm_error + unit) \<times> aggregator_data) option" where
  "native_add i lim v ad = on_aggregator i lim (agg_add v) ad"

definition native_sub ::
  "aggregator_id \<Rightarrow> u128 \<Rightarrow> u128 \<Rightarrow> aggregator_data
    \<Rightarrow> ((partial_vm_error + unit) \<times> aggregator_data) option" where
  "native_sub i lim v ad = on_aggregator i lim (agg_sub v) ad"

definition native_read ::
  "(bytes \<Rightarrow> u128 option) \<Rightarrow> (aggregator_id \<Rightarrow> 'e + bytes option) \<Rightarrow> aggregator_id \<Rightarrow> u128
    \<Rightarrow> aggregator_data \<Rightarrow> ((partial_vm_error + u128) \<times> aggregator_data) option" where
  "native_read deser resolver i lim ad =
     (let (a, ad') = get_aggregator i lim ad in
      case read_and_materialize deser resolver i a of
        None \<Rightarrow> None
      | Some (Inl e) \<Rightarrow> Some (Inl e, ad')
      | Some (Inr (r, a')) \<Rightarrow> Some (Inr r, ad'\<lparr>aggregators := bt_insert i a' (aggregators ad')\<rparr>))"

definition native_destroy :: "aggregator_id \<Rightarrow> aggregator_data \<Rightarrow> aggregator_data" where
  "native_destroy i ad = remove_aggregator i ad"

section \<open>The change set of a transaction\<close>

datatype aggregator_change = Write u128 | Merge delta_op | Delete

type_synonym aggregator_change_set = "(aggregator_id, aggregator_change) btree"

definition aggregator_change :: "aggregator \<Rightarrow> aggregator_change option" where
  "aggregator_change a =
     (case agg_state a of
        Data \<Rightarrow> Some (Write (agg_value a))
      | PositiveDelta \<Rightarrow> map_option (\<lambda>h. Merge (delta_op_new (Plus (agg_value a)) (agg_limit a)
                            (h_max_positive h) (h_min_negative h))) (agg_history a)
      | NegativeDelta \<Rightarrow> map_option (\<lambda>h. Merge (delta_op_new (Minus (agg_value a)) (agg_limit a)
                            (h_max_positive h) (h_min_negative h))) (agg_history a))"

fun aggregator_changes ::
  "(aggregator_id \<times> aggregator) list \<Rightarrow> aggregator_change_set \<Rightarrow> aggregator_change_set option" where
  "aggregator_changes [] cs = Some cs"
| "aggregator_changes ((i, a) # as) cs =
     (case aggregator_change a of
        None \<Rightarrow> None
      | Some c \<Rightarrow> aggregator_changes as (bt_insert i c cs))"

definition into_change_set :: "aggregator_data \<Rightarrow> aggregator_change_set option" where
  "into_change_set ad =
     map_option (\<lambda>cs. fold (\<lambda>i. bt_insert i Delete)
                         (sorted_list_of_set (destroyed_aggregators ad)) cs)
       (aggregator_changes (aggregators ad) [])"

fun squash_change ::
  "aggregator_change \<Rightarrow> aggregator_change \<Rightarrow> (partial_vm_error + aggregator_change) option" where
  "squash_change Delete _ = None"
| "squash_change _ (Write v) = Some (Inr (Write v))"
| "squash_change _ Delete = Some (Inr Delete)"
| "squash_change (Write v) (Merge d) = Some (rbind (apply_to d v) (\<lambda>v'. Inr (Write v')))"
| "squash_change (Merge d1) (Merge d2) = Some (rbind (merge_onto d2 d1) (\<lambda>d. Inr (Merge d)))"

fun change_set_squash ::
  "aggregator_change_set \<Rightarrow> (aggregator_id \<times> aggregator_change) list
    \<Rightarrow> (partial_vm_error + aggregator_change_set) option" where
  "change_set_squash cs [] = Some (Inr cs)"
| "change_set_squash cs ((i, c) # other) =
     (case bt_get cs i of
        None \<Rightarrow> change_set_squash (bt_insert i c cs) other
      | Some c0 \<Rightarrow>
          (case squash_change c0 c of
             None \<Rightarrow> None
           | Some (Inl e) \<Rightarrow> Some (Inl e)
           | Some (Inr c') \<Rightarrow> change_set_squash (bt_insert i c' cs) other))"

section \<open>Representation invariant\<close>

text \<open>
  A known value keeps no history; a delta keeps one, and the current delta is among the values
  it has recorded. A negative delta never exceeds the limit.
\<close>

definition agg_wf :: "aggregator \<Rightarrow> bool" where
  "agg_wf a \<longleftrightarrow>
     (case agg_state a of
        Data \<Rightarrow> agg_history a = None
      | PositiveDelta \<Rightarrow> (case agg_history a of None \<Rightarrow> False | Some h \<Rightarrow> agg_value a \<le> h_max_positive h)
      | NegativeDelta \<Rightarrow> (case agg_history a of None \<Rightarrow> False | Some h \<Rightarrow> agg_value a \<le> h_min_negative h))"

datatype agg_op = AddOp u128 | SubOp u128

fun agg_step :: "agg_op \<Rightarrow> aggregator \<Rightarrow> (partial_vm_error + aggregator) option" where
  "agg_step (AddOp v) a = agg_add v a"
| "agg_step (SubOp v) a = agg_sub v a"

fun agg_run :: "agg_op list \<Rightarrow> aggregator \<Rightarrow> (partial_vm_error + aggregator) option" where
  "agg_run [] a = Some (Inr a)"
| "agg_run (x # xs) a =
     (case agg_step x a of
        None \<Rightarrow> None
      | Some (Inl e) \<Rightarrow> Some (Inl e)
      | Some (Inr a') \<Rightarrow> agg_run xs a')"

fun op_delta :: "agg_op \<Rightarrow> int" where
  "op_delta (AddOp v) = uint v"
| "op_delta (SubOp v) = - uint v"

text \<open>The delta an aggregator stands for, as the change set reports it.\<close>

definition agg_delta :: "aggregator \<Rightarrow> delta_op" where
  "agg_delta a =
     (case agg_history a of
        None \<Rightarrow> delta_op_new (Plus (agg_value a)) (agg_limit a) 0 0
      | Some h \<Rightarrow> delta_op_new
          (if agg_state a = NegativeDelta then Minus (agg_value a) else Plus (agg_value a))
          (agg_limit a) (h_max_positive h) (h_min_negative h))"

lemma agg_delta_sel [simp]:
  "limit (agg_delta a) = agg_limit a"
  by (simp add: agg_delta_def delta_op_new_def split: option.split)

lemma agg_delta_wf: "agg_wf a \<Longrightarrow> agg_state a \<noteq> Data \<Longrightarrow> delta_wf (agg_delta a)"
  by (auto simp: agg_wf_def agg_delta_def delta_op_new_def delta_wf_def
      split: aggregator_state.splits option.splits)

lemma agg_delta_change:
  "agg_wf a \<Longrightarrow> agg_state a \<noteq> Data \<Longrightarrow> aggregator_change a = Some (Merge (agg_delta a))"
  by (auto simp: agg_wf_def aggregator_change_def agg_delta_def
      split: aggregator_state.splits option.splits)

lemma agg_state_cases [case_names Data Positive Negative]:
  assumes "agg_wf a"
  obtains (Data) "agg_state a = Data" "agg_history a = None"
  | (Positive) h where "agg_state a = PositiveDelta" "agg_history a = Some h"
      "agg_value a \<le> h_max_positive h"
  | (Negative) h where "agg_state a = NegativeDelta" "agg_history a = Some h"
      "agg_value a \<le> h_min_negative h"
  using assms by (auto simp: agg_wf_def split: aggregator_state.splits option.splits)

text \<open>The result of each operation in each delta state.\<close>

lemma agg_delta_ops:
  "agg_state a = PositiveDelta \<Longrightarrow> agg_history a = Some h \<Longrightarrow> agg_add v a =
     (if uint (agg_value a) + uint v \<le> uint (agg_limit a)
      then Some (Inr (a\<lparr>agg_value := agg_value a + v,
                      agg_history := Some (record_positive (agg_value a + v) h)\<rparr>))
      else Some (Inl (abort_error EADD_OVERFLOW)))"
  "agg_state a = NegativeDelta \<Longrightarrow> agg_history a = Some h \<Longrightarrow> agg_add v a =
     (if uint (agg_value a) \<le> uint v
      then Some (Inr (a\<lparr>agg_value := v - agg_value a, agg_state := PositiveDelta,
                      agg_history := Some (record_positive (v - agg_value a) h)\<rparr>))
      else Some (Inr (a\<lparr>agg_value := agg_value a - v,
                      agg_history := Some (record_negative (agg_value a - v) h)\<rparr>)))"
  "agg_state a = PositiveDelta \<Longrightarrow> agg_history a = Some h \<Longrightarrow> agg_sub v a =
     (if uint v \<le> uint (agg_value a)
      then Some (Inr (a\<lparr>agg_value := agg_value a - v,
                      agg_history := Some (record_positive (agg_value a - v) h)\<rparr>))
      else if uint v \<le> uint (agg_limit a)
      then Some (Inr (a\<lparr>agg_value := v - agg_value a, agg_state := NegativeDelta,
                      agg_history := Some (record_negative (v - agg_value a) h)\<rparr>))
      else Some (Inl (abort_error ESUB_UNDERFLOW)))"
  "agg_state a = NegativeDelta \<Longrightarrow> agg_history a = Some h \<Longrightarrow> agg_sub v a =
     (if uint (agg_value a) + uint v \<le> uint (agg_limit a)
      then Some (Inr (a\<lparr>agg_value := agg_value a + v,
                      agg_history := Some (record_negative (agg_value a + v) h)\<rparr>))
      else Some (Inl (abort_error EADD_OVERFLOW)))"
  by (simp_all add: agg_add_def agg_sub_def then_record_def agg_record_def addition_uint
      subtraction_uint word_le_def)

lemma max_uint_neg:
  "max (uint a) (- uint b) = uint a"
  "max (uint a) (- uint b - uint c) = uint a"
  "y \<le> z \<Longrightarrow> max (uint a) (y - z) = uint a"
  using uint_ge_0 [of a] uint_ge_0 [of b] uint_ge_0 [of c] by linarith+

text \<open>
  One operation on a delta: the net amount moves by the operand and both excursions follow.
\<close>

definition delta_moves :: "agg_op \<Rightarrow> aggregator \<Rightarrow> aggregator \<Rightarrow> bool" where
  "delta_moves x a a' \<longleftrightarrow>
     agg_wf a' \<and> agg_state a' \<noteq> Data \<and> agg_limit a' = agg_limit a \<and>
     net (agg_delta a') = net (agg_delta a) + op_delta x \<and>
     uint (max_positive (agg_delta a')) = max (uint (max_positive (agg_delta a))) (net (agg_delta a')) \<and>
     uint (min_negative (agg_delta a')) = max (uint (min_negative (agg_delta a))) (- net (agg_delta a'))"

lemmas delta_moves_simps = delta_moves_def agg_wf_def agg_delta_def delta_op_new_def net_def
  record_positive_def record_negative_def uint_max max_uint_neg word_le_def uint_add_le uint_sub_le

lemma agg_add_moves:
  assumes "agg_wf a" "agg_state a \<noteq> Data" "agg_add v a = Some (Inr a')"
  shows "delta_moves (AddOp v) a a'"
  using assms(1)
proof (cases rule: agg_state_cases)
  case (Positive h)
  with assms(3) show ?thesis
    by (auto simp: agg_delta_ops delta_moves_simps split: if_splits)
next
  case (Negative h)
  show ?thesis
  proof (cases "uint (agg_value a) \<le> uint v")
    case True
    with Negative assms(3) show ?thesis
      by (auto simp: agg_delta_ops delta_moves_simps)
  next
    case False
    with Negative assms(3) show ?thesis
      by (auto simp: agg_delta_ops delta_moves_simps)
  qed
qed (use assms(2) in simp)

lemma agg_sub_moves:
  assumes "agg_wf a" "agg_state a \<noteq> Data" "agg_sub v a = Some (Inr a')"
  shows "delta_moves (SubOp v) a a'"
  using assms(1)
proof (cases rule: agg_state_cases)
  case (Positive h)
  show ?thesis
  proof (cases "uint v \<le> uint (agg_value a)")
    case True
    with Positive assms(3) show ?thesis
      by (auto simp: agg_delta_ops delta_moves_simps)
  next
    case False
    with Positive assms(3) show ?thesis
      by (auto simp: agg_delta_ops delta_moves_simps split: if_splits)
  qed
next
  case (Negative h)
  with assms(3) show ?thesis
    by (auto simp: agg_delta_ops delta_moves_simps split: if_splits)
qed (use assms(2) in simp)

lemma agg_step_moves:
  assumes "agg_wf a" "agg_state a \<noteq> Data" "agg_step x a = Some (Inr a')"
  shows "delta_moves x a a'"
  using assms agg_add_moves agg_sub_moves by (cases x) auto

text \<open>An operation fails on a delta only where it fails on every base within the limit.\<close>

lemma agg_step_fails:
  assumes "agg_wf a" "agg_state a \<noteq> Data" "agg_step x a = Some (Inl e)"
  shows "(\<exists>v. x = AddOp v \<and> uint (agg_limit a) < net (agg_delta a) + uint v) \<or>
         (\<exists>v. x = SubOp v \<and> (uint (agg_limit a) < uint v \<or>
            net (agg_delta a) - uint v < - uint (agg_limit a)))"
  using assms(1)
proof (cases rule: agg_state_cases)
  case (Positive h)
  with assms(3) show ?thesis
    by (cases x) (auto simp: agg_delta_ops agg_delta_def delta_op_new_def net_def split: if_splits)
next
  case (Negative h)
  with assms(3) show ?thesis
    by (cases x) (auto simp: agg_delta_ops agg_delta_def delta_op_new_def net_def split: if_splits)
qed (use assms(2) in simp)

lemma agg_step_no_panic:
  assumes "agg_wf a"
  shows "\<exists>r. agg_step x a = Some r \<and> (\<forall>a'. r = Inr a' \<longrightarrow> agg_wf a' \<and> agg_limit a' = agg_limit a)"
  using assms
proof (cases rule: agg_state_cases)
  case Data
  then show ?thesis
    by (cases x) (auto simp: agg_add_def agg_sub_def agg_wf_def rbind_eq_Inr)
next
  case (Positive h)
  then have nd: "agg_state a \<noteq> Data" by simp
  from Positive have "agg_step x a \<noteq> None" by (cases x) (auto simp: agg_delta_ops)
  then show ?thesis
    using agg_step_moves [OF assms nd] by (auto simp: delta_moves_def)
next
  case (Negative h)
  then have nd: "agg_state a \<noteq> Data" by simp
  from Negative have "agg_step x a \<noteq> None" by (cases x) (auto simp: agg_delta_ops)
  then show ?thesis
    using agg_step_moves [OF assms nd] by (auto simp: delta_moves_def)
qed

section \<open>Speculation on a delta agrees with the known value\<close>

text \<open>The same operation on an aggregator that knows its value.\<close>

lemma agg_step_data:
  "agg_step x (data_aggregator w lim) =
     Some (rbind (case x of AddOp v \<Rightarrow> addition w v lim | SubOp v \<Rightarrow> subtraction w v)
        (\<lambda>r. Inr (data_aggregator r lim)))"
  by (cases x) (simp_all add: agg_add_def agg_sub_def data_aggregator_def)

lemma data_aggregator_inject [simp]: "data_aggregator r l = data_aggregator r' l \<longleftrightarrow> r = r'"
  by (simp add: data_aggregator_def)

lemma agg_step_data_iff:
  assumes "uint w \<le> uint lim"
  shows "agg_step x (data_aggregator w lim) = Some (Inr (data_aggregator r lim)) \<longleftrightarrow>
     uint r = uint w + op_delta x \<and> 0 \<le> uint w + op_delta x \<and> uint w + op_delta x \<le> uint lim"
proof (cases x)
  case (AddOp v)
  have "0 \<le> uint w + uint v" using uint_ge_0 [of w] uint_ge_0 [of v] by linarith
  with AddOp show ?thesis
    unfolding agg_step_data by (auto simp: rbind_eq_Inr checked_arith)
next
  case (SubOp v)
  have "uint w - uint v \<le> uint lim" using assms uint_ge_0 [of v] by linarith
  with SubOp show ?thesis
    unfolding agg_step_data by (auto simp: rbind_eq_Inr checked_arith)
qed

lemma delta_base_bounds:
  assumes "agg_wf a" "agg_state a \<noteq> Data" "apply_to (agg_delta a) b = Inr w"
  shows "uint w = uint b + net (agg_delta a)" "uint w \<le> uint (agg_limit a)"
    "uint b + uint (max_positive (agg_delta a)) \<le> uint (agg_limit a)"
    "uint (min_negative (agg_delta a)) \<le> uint b"
  using assms agg_delta_wf [OF assms(1,2)]
  by (auto simp: apply_to_eq_Inr delta_wf_net)

lemma agg_step_simulates:
  assumes "agg_wf a" "agg_state a \<noteq> Data" "agg_step x a = Some (Inr a')"
  shows "apply_to (agg_delta a') b = Inr r \<longleftrightarrow>
     (\<exists>w. apply_to (agg_delta a) b = Inr w \<and>
        agg_step x (data_aggregator w (agg_limit a)) = Some (Inr (data_aggregator r (agg_limit a))))"
    (is "?L = ?R")
proof -
  note m = agg_step_moves [OF assms, unfolded delta_moves_def]
  have wf: "delta_wf (agg_delta a)" "delta_wf (agg_delta a')"
    using assms m by (auto intro: agg_delta_wf)
  note base = agg_step_data_iff [OF delta_base_bounds(2) [OF assms(1,2)]]
  show ?thesis
  proof
    assume ?L
    then have L: "uint b + uint (max_positive (agg_delta a)) \<le> uint (agg_limit a)"
      "uint (min_negative (agg_delta a)) \<le> uint b" "uint r = uint b + net (agg_delta a')"
      "uint b + net (agg_delta a') \<le> uint (agg_limit a)"
      using wf m by (auto simp: apply_to_eq_Inr)
    then obtain w where w: "apply_to (agg_delta a) b = Inr w"
      using apply_to_ex [OF wf(1), of b] by auto
    have "uint r = uint w + op_delta x" "0 \<le> uint w + op_delta x"
      "uint w + op_delta x \<le> uint (agg_limit a)"
      using L(3,4) m delta_base_bounds(1) [OF assms(1,2) w] uint_ge_0 [of r] by linarith+
    with w show ?R by (auto simp: base)
  next
    assume ?R
    then show ?L using wf m by (auto simp: base apply_to_eq_Inr)
  qed
qed

lemma agg_step_fails_all:
  assumes "agg_wf a" "agg_state a \<noteq> Data" "agg_step x a = Some (Inl e)"
    and w: "apply_to (agg_delta a) b = Inr w" and b: "uint b \<le> uint (agg_limit a)"
  shows "\<exists>e. agg_step x (data_aggregator w (agg_limit a)) = Some (Inl e)"
proof -
  note bounds = delta_base_bounds [OF assms(1,2) w]
  show ?thesis
    using agg_step_fails [OF assms(1-3)]
  proof (elim disjE exE conjE)
    fix v assume x: "x = AddOp v" and "uint (agg_limit a) < net (agg_delta a) + uint v"
    then have "\<not> uint w + uint v \<le> uint (agg_limit a)"
      using bounds(1) uint_ge_0 [of b] by linarith
    then show ?thesis unfolding agg_step_data by (simp add: x addition_uint)
  next
    fix v assume x: "x = SubOp v" and "uint (agg_limit a) < uint v"
    then have "\<not> uint v \<le> uint w" using bounds(2) by linarith
    then show ?thesis unfolding agg_step_data by (simp add: x subtraction_uint)
  next
    fix v assume x: "x = SubOp v" and "net (agg_delta a) - uint v < - uint (agg_limit a)"
    then have "\<not> uint v \<le> uint w" using bounds(1) b by linarith
    then show ?thesis unfolding agg_step_data by (simp add: x subtraction_uint)
  qed
qed

definition succeeded :: "(partial_vm_error + 'a) option \<Rightarrow> 'a option" where
  "succeeded m = Option.bind m ok"

lemma succeeded_simps [simp]:
  "succeeded None = None" "succeeded (Some (Inl e)) = None" "succeeded (Some (Inr a)) = Some a"
  by (simp_all add: succeeded_def)

lemma agg_step_data_shape:
  "\<exists>m. agg_step x (data_aggregator w lim) = Some m \<and>
     (\<forall>d. m = Inr d \<longrightarrow> (\<exists>r. d = data_aggregator r lim))"
  unfolding agg_step_data by (auto simp: rbind_eq_Inr)

text \<open>
  Running operations on a delta and applying the result to a base is running them on the known
  base, whatever the delta already held.
\<close>

lemma agg_run_simulates:
  assumes "agg_wf a" "agg_state a \<noteq> Data" "uint b \<le> uint (agg_limit a)"
  shows "Option.bind (succeeded (agg_run xs a))
           (\<lambda>a'. ok (rbind (apply_to (agg_delta a') b) (\<lambda>r. Inr (data_aggregator r (agg_limit a))))) =
         Option.bind (ok (apply_to (agg_delta a) b))
           (\<lambda>w. succeeded (agg_run xs (data_aggregator w (agg_limit a))))"
  using assms
proof (induction xs arbitrary: a)
  case Nil
  then show ?case by (cases "apply_to (agg_delta a) b") auto
next
  case (Cons x xs)
  obtain m where m: "agg_step x a = Some m"
    using agg_step_no_panic [OF Cons.prems(1), of x] by blast
  show ?case
  proof (cases m)
    case (Inl e)
    with m Cons.prems agg_step_fails_all [of a x e b] show ?thesis
      by (cases "apply_to (agg_delta a) b") force+
  next
    case (Inr a')
    with m have step: "agg_step x a = Some (Inr a')" by simp
    note sim = agg_step_simulates [OF Cons.prems(1,2) step, where b = b]
    have mv: "agg_wf a'" "agg_state a' \<noteq> Data" "agg_limit a' = agg_limit a"
      using agg_step_moves [OF Cons.prems(1,2) step] by (auto simp: delta_moves_def)
    have IH: "Option.bind (succeeded (agg_run xs a'))
         (\<lambda>a''. ok (rbind (apply_to (agg_delta a'') b) (\<lambda>r. Inr (data_aggregator r (agg_limit a))))) =
       Option.bind (ok (apply_to (agg_delta a') b))
         (\<lambda>w. succeeded (agg_run xs (data_aggregator w (agg_limit a))))"
      using Cons.IH [OF mv(1,2)] Cons.prems(3) mv(3) by simp
    also have "\<dots> = Option.bind (ok (apply_to (agg_delta a) b))
         (\<lambda>w. succeeded (agg_run (x # xs) (data_aggregator w (agg_limit a))))"
    proof (cases "apply_to (agg_delta a) b")
      case (Inl e)
      then have "ok (apply_to (agg_delta a') b) = None"
        using sim by (cases "apply_to (agg_delta a') b") auto
      with Inl show ?thesis by simp
    next
      case (Inr w)
      obtain n where n: "agg_step x (data_aggregator w (agg_limit a)) = Some n"
        and shape: "\<And>d. n = Inr d \<Longrightarrow> \<exists>r. d = data_aggregator r (agg_limit a)"
        using agg_step_data_shape by blast
      show ?thesis
      proof (cases n)
        case (Inl e)
        then have "ok (apply_to (agg_delta a') b) = None"
          using sim n Inr by (cases "apply_to (agg_delta a') b") auto
        with Inl n Inr show ?thesis by simp
      next
        case (Inr d)
        then obtain r where d: "d = data_aggregator r (agg_limit a)" using shape by blast
        then have "apply_to (agg_delta a') b = Inr r"
          using sim n Inr \<open>apply_to (agg_delta a) b = Inr w\<close> by auto
        with d n Inr \<open>apply_to (agg_delta a) b = Inr w\<close> show ?thesis by simp
      qed
    qed
    finally show ?thesis using step by simp
  qed
qed

lemma read_and_materialize_delta:
  assumes "agg_wf a" "agg_state a \<noteq> Data" "resolver i = Inr (Some bs)" "deser bs = Some b"
  shows "read_and_materialize deser resolver i a =
     Some (rbind (apply_to (agg_delta a) b) (\<lambda>r. Inr (r, data_aggregator r (agg_limit a))))"
  using assms(1)
proof (cases rule: agg_state_cases)
  case (Positive h)
  with assms show ?thesis
    by (cases a) (simp add: read_and_materialize_def apply_to_def agg_delta_def delta_op_new_def
        data_aggregator_def rbind_assoc)
next
  case (Negative h)
  with assms show ?thesis
    by (cases a) (simp add: read_and_materialize_def apply_to_def agg_delta_def delta_op_new_def
        data_aggregator_def rbind_assoc)
qed (use assms in simp)

lemma delta_aggregator_fresh:
  "agg_wf (delta_aggregator lim)" "agg_state (delta_aggregator lim) \<noteq> Data"
  "agg_limit (delta_aggregator lim) = lim"
  "uint b \<le> uint lim \<Longrightarrow> apply_to (agg_delta (delta_aggregator lim)) b = Inr b"
  by (auto simp: delta_aggregator_def agg_wf_def history_new_def agg_delta_def delta_op_new_def
      apply_to_def addition_uint subtraction_uint)

lemma read_and_materialize_wf:
  assumes "agg_wf a" "read_and_materialize deser resolver i a = Some (Inr (r, a'))"
  shows "a' = data_aggregator r (agg_limit a)"
proof (cases "agg_state a = Data")
  case True
  with assms show ?thesis
    by (cases a) (auto simp: read_and_materialize_def agg_wf_def data_aggregator_def)
next
  case False
  with assms obtain bs b where "resolver i = Inr (Some bs)" "deser bs = Some b"
    by (auto simp: read_and_materialize_def split: sum.splits option.splits)
  with assms False show ?thesis
    by (auto simp: read_and_materialize_delta rbind_eq_Inr)
qed

section \<open>The aggregators of a transaction stay well formed\<close>

definition data_wf :: "aggregator_data \<Rightarrow> bool" where
  "data_wf ad \<longleftrightarrow> bt_wf (aggregators ad) \<and> (\<forall>e \<in> set (aggregators ad). agg_wf (snd e))
     \<and> finite (destroyed_aggregators ad) \<and> new_aggregators ad \<subseteq> fst ` set (aggregators ad)"

lemma data_aggregator_wf [simp]: "agg_wf (data_aggregator v lim)"
  by (simp add: agg_wf_def data_aggregator_def)

lemma data_wf_default: "data_wf aggregator_data_default"
  by (simp add: data_wf_def aggregator_data_default_def)

lemma data_wf_put:
  "data_wf ad \<Longrightarrow> agg_wf a \<Longrightarrow> data_wf (ad\<lparr>aggregators := bt_insert i a (aggregators ad)\<rparr>)"
  by (auto simp: data_wf_def dest: set_bt_insert)

lemma get_aggregator_wf:
  assumes "data_wf ad" "get_aggregator i lim ad = (a, ad')"
  shows "agg_wf a" "data_wf ad'" "bt_get (aggregators ad') i = Some a"
  using assms data_wf_put [OF assms(1), of "delta_aggregator lim" i]
  by (force simp: get_aggregator_def delta_aggregator_fresh data_wf_def split: option.splits
      dest: bt_get_mem)+

lemma create_new_aggregator_wf: "data_wf ad \<Longrightarrow> data_wf (create_new_aggregator i lim ad)"
  by (auto simp: data_wf_def create_new_aggregator_def dest: set_bt_insert)

lemma remove_aggregator_wf: "data_wf ad \<Longrightarrow> data_wf (remove_aggregator i ad)"
  by (auto simp: data_wf_def remove_aggregator_def Let_def)
     (auto simp: bt_remove_def)

lemma on_aggregator_wf:
  assumes "data_wf ad" and f: "\<And>a. agg_wf a \<Longrightarrow> \<exists>x. f a = agg_step x a"
  shows "\<exists>r ad'. on_aggregator i lim f ad = Some (r, ad') \<and> data_wf ad'"
proof -
  obtain a ad1 where g: "get_aggregator i lim ad = (a, ad1)" by force
  note wf = get_aggregator_wf [OF assms(1) g]
  obtain x where x: "f a = agg_step x a" using f wf(1) by blast
  obtain m where m: "agg_step x a = Some m" "\<And>a'. m = Inr a' \<Longrightarrow> agg_wf a'"
    using agg_step_no_panic [OF wf(1), of x] by blast
  show ?thesis
  proof (cases m)
    case (Inl e)
    with g x m wf show ?thesis by (simp add: on_aggregator_def)
  next
    case (Inr a')
    with g x m wf show ?thesis by (simp add: on_aggregator_def data_wf_put)
  qed
qed

text \<open>The aggregators of a well-formed transaction always turn into a change set.\<close>

lemma aggregator_change_wf: "agg_wf a \<Longrightarrow> \<exists>c. aggregator_change a = Some c"
  by (auto simp: agg_wf_def aggregator_change_def split: aggregator_state.splits option.splits)

lemma aggregator_changes_get:
  assumes "\<And>i a. (i, a) \<in> set as \<Longrightarrow> agg_wf a" "distinct (map fst as)"
  shows "\<exists>cs'. aggregator_changes as cs = Some cs' \<and>
     (\<forall>i. bt_get cs' i = (case map_of as i of None \<Rightarrow> bt_get cs i | Some a \<Rightarrow> aggregator_change a))"
  using assms
proof (induction as arbitrary: cs)
  case Nil
  then show ?case by simp
next
  case (Cons ia as)
  obtain i a where ia: "ia = (i, a)" by (cases ia)
  obtain c where c: "aggregator_change a = Some c"
    using Cons.prems(1) [of i a] aggregator_change_wf by (auto simp: ia)
  obtain cs' where "aggregator_changes as (bt_insert i c cs) = Some cs'"
    and get: "\<And>j. bt_get cs' j =
      (case map_of as j of None \<Rightarrow> bt_get (bt_insert i c cs) j | Some a \<Rightarrow> aggregator_change a)"
    using Cons.IH [of "bt_insert i c cs"] Cons.prems by (auto simp: ia)
  moreover have "map_of as i = None"
    using Cons.prems(2) by (simp add: ia map_of_eq_None_iff)
  ultimately show ?case
    by (auto simp: ia c split: option.splits)
qed

lemma get_fold_delete:
  "bt_get (fold (\<lambda>i. bt_insert i Delete) is cs) j = (if j \<in> set is then Some Delete else bt_get cs j)"
  by (induction "is" arbitrary: cs) auto

lemma into_change_set_get:
  assumes "data_wf ad"
  shows "\<exists>cs. into_change_set ad = Some cs \<and>
     (\<forall>i. bt_get cs i =
        (if i \<in> destroyed_aggregators ad then Some Delete
         else Option.bind (bt_get (aggregators ad) i) aggregator_change))"
proof -
  have "\<And>i a. (i, a) \<in> set (aggregators ad) \<Longrightarrow> agg_wf a"
    and "distinct (map fst (aggregators ad))" "finite (destroyed_aggregators ad)"
    using assms by (auto simp: data_wf_def bt_wf_distinct)
  then obtain cs where "aggregator_changes (aggregators ad) [] = Some cs"
    "\<And>i. bt_get cs i = (case map_of (aggregators ad) i of None \<Rightarrow> bt_get [] i | Some a \<Rightarrow> aggregator_change a)"
    using aggregator_changes_get [of "aggregators ad" "[]"] by blast
  then show ?thesis
    using \<open>finite (destroyed_aggregators ad)\<close>
    by (auto simp: into_change_set_def get_fold_delete bt_get_def [of "aggregators ad"]
        split: option.splits)
qed

lemma agg_step_delta:
  assumes "agg_step x a = Some (Inr a')" "agg_wf a" "agg_state a \<noteq> Data"
  shows "agg_wf a' \<and> agg_state a' \<noteq> Data \<and> agg_limit a' = agg_limit a"
proof -
  have "agg_state a' \<noteq> Data"
    using assms
    by (cases x; cases "agg_state a")
       (auto simp: agg_add_def agg_sub_def then_record_def agg_record_def rbind_eq_Inr
         split: sum.splits option.splits aggregator_state.splits if_splits)
  with agg_step_no_panic [OF assms(2), of x] assms(1) show ?thesis by auto
qed

lemma agg_run_delta:
  "agg_run xs a = Some (Inr a') \<Longrightarrow> agg_wf a \<Longrightarrow> agg_state a \<noteq> Data \<Longrightarrow>
     agg_wf a' \<and> agg_state a' \<noteq> Data \<and> agg_limit a' = agg_limit a"
proof (induction xs arbitrary: a)
  case (Cons x xs)
  then obtain a1 where "agg_step x a = Some (Inr a1)" "agg_run xs a1 = Some (Inr a')"
    by (auto split: option.splits sum.splits)
  with Cons agg_step_delta show ?case by metis
qed simp

section \<open>Properties\<close>

text \<open>
  C32. Speculating on a delta is sound: running additions and subtractions on an aggregator whose
  value is unknown and reading it afterwards gives what running them on the stored value gives.
  It succeeds in the same cases, and with the same final value.
\<close>

theorem delta_run_equals_data_run:
  assumes "resolver i = Inr (Some bs)" "deser bs = Some b" "uint b \<le> uint lim"
  shows "Option.bind (succeeded (agg_run ops (delta_aggregator lim)))
           (\<lambda>a. map_option snd (succeeded (read_and_materialize deser resolver i a))) =
         succeeded (agg_run ops (data_aggregator b lim))"
proof -
  let ?a = "delta_aggregator lim"
  note fresh = delta_aggregator_fresh [of lim]
  have resolved: "map_option snd (succeeded (read_and_materialize deser resolver i a)) =
      ok (rbind (apply_to (agg_delta a) b) (\<lambda>r. Inr (data_aggregator r lim)))"
    if "agg_run ops ?a = Some (Inr a)" for a
    using agg_run_delta [OF that fresh(1,2)] fresh(3) assms(1,2)
    by (cases "apply_to (agg_delta a) b") (simp_all add: read_and_materialize_delta)
  have "Option.bind (succeeded (agg_run ops ?a))
           (\<lambda>a. map_option snd (succeeded (read_and_materialize deser resolver i a))) =
      Option.bind (succeeded (agg_run ops ?a))
           (\<lambda>a. ok (rbind (apply_to (agg_delta a) b) (\<lambda>r. Inr (data_aggregator r lim))))"
  proof (cases "agg_run ops ?a")
    case (Some r)
    then show ?thesis using resolved by (cases r) simp_all
  qed simp
  then show ?thesis
    using agg_run_simulates [OF fresh(1,2), of b ops] fresh(3) delta_aggregator_fresh(4) [OF assms(3)] assms(3)
    by simp
qed

theorem delta_run_equals_data_run_witness:
  "Option.bind (succeeded (agg_run [AddOp 7, SubOp 9] (delta_aggregator 100)))
           (\<lambda>a. map_option snd (succeeded (read_and_materialize (\<lambda>bs :: bytes. Some (5 :: u128))
              (\<lambda>i. Inr (Some []) :: unit + bytes option) (0, 0) a))) =
     Some (data_aggregator 3 100)"
proof -
  have "succeeded (agg_run [AddOp 7, SubOp 9] (data_aggregator 5 100)) = Some (data_aggregator 3 100)"
    by code_simp
  then show ?thesis
    using delta_run_equals_data_run [of "\<lambda>i. Inr (Some []) :: unit + bytes option" "(0, 0)" "[]"
        "\<lambda>bs :: bytes. Some (5 :: u128)" 5 100 "[AddOp 7, SubOp 9]"] by simp
qed

text \<open>
  The change set of a transaction reports every aggregator once: a destroyed one is deleted, a
  known value is written, and a delta is handed on with the history it has seen.
\<close>

theorem change_set_reports:
  assumes "data_wf ad"
  shows "\<exists>cs. into_change_set ad = Some cs \<and>
     (\<forall>i. bt_get cs i =
        (if i \<in> destroyed_aggregators ad then Some Delete
         else Option.bind (bt_get (aggregators ad) i) aggregator_change))"
  by (rule into_change_set_get [OF assms])

theorem change_set_reports_witness:
  "into_change_set \<lparr>new_aggregators = {}, destroyed_aggregators = {},
     aggregators = [((0, 1), data_aggregator 5 100)]\<rparr> \<noteq> None"
proof -
  have "data_wf \<lparr>new_aggregators = {}, destroyed_aggregators = {}, aggregators = [((0, 1), data_aggregator 5 100)]\<rparr>"
    by (simp add: data_wf_def bt_wf_def agg_wf_def data_aggregator_def)
  from change_set_reports [OF this] show ?thesis by auto
qed

end
