(* ===== verification/MVHashMap.thy ===== *)
theory MVHashMap
  imports Aggregator
begin

text \<open>
  The multi-version data structure of the parallel executor
  (\<open>aptos-move/mvhashmap/src/lib.rs\<close>): for every key the entries that transactions of the
  block have written, by transaction index. A read of transaction \<open>i\<close> walks the entries below
  \<open>i\<close> from the highest down. The concurrent map gives exclusive access to the entries of one
  key, so every method is one atomic step on the whole structure. Results of \<open>None\<close> are the
  panics of the source (\<open>assert!\<close>, \<open>expect\<close>, undecodable aggregator values).
\<close>

section \<open>Entries\<close>

type_synonym txn_index = nat
type_synonym incarnation = nat
type_synonym version = "txn_index \<times> incarnation"

definition FLAG_DONE :: nat where "FLAG_DONE = 0"
definition FLAG_ESTIMATE :: nat where "FLAG_ESTIMATE = 1"

datatype 'v entry_cell = CWrite incarnation 'v | CDelta delta_op

record 'v entry =
  flag :: nat
  cell :: "'v entry_cell"

definition new_write_from :: "nat \<Rightarrow> incarnation \<Rightarrow> 'v \<Rightarrow> 'v entry" where
  "new_write_from f inc v = \<lparr>flag = f, cell = CWrite inc v\<rparr>"

definition new_delta_from :: "nat \<Rightarrow> delta_op \<Rightarrow> 'v entry" where
  "new_delta_from f d = \<lparr>flag = f, cell = CDelta d\<rparr>"

definition entry_mark_estimate :: "'v entry \<Rightarrow> 'v entry" where
  "entry_mark_estimate e = e\<lparr>flag := FLAG_ESTIMATE\<rparr>"

record 'v versioned_value =
  versioned_map :: "(txn_index, 'v entry) btree"
  contains_delta :: bool

definition versioned_value_new :: "'v versioned_value" where
  "versioned_value_new = \<lparr>versioned_map = [], contains_delta = False\<rparr>"

record ('k, 'v) mvhashmap =
  mv_data :: "'k \<rightharpoonup> 'v versioned_value"
  delta_keys :: "'k list"

definition mv_new :: "('k, 'v) mvhashmap" where
  "mv_new = \<lparr>mv_data = Map.empty, delta_keys = []\<rparr>"

section \<open>Operations\<close>

definition entry_or_default :: "('k, 'v) mvhashmap \<Rightarrow> 'k \<Rightarrow> 'v versioned_value" where
  "entry_or_default m k = (case mv_data m k of Some vv \<Rightarrow> vv | None \<Rightarrow> versioned_value_new)"

definition entry_map_for_key ::
  "'k \<Rightarrow> ('k, 'v) mvhashmap \<Rightarrow> (txn_index, 'v entry) btree option \<times> ('k, 'v) mvhashmap" where
  "entry_map_for_key k m =
     (map_option versioned_map (mv_data m k), m\<lparr>mv_data := (mv_data m)(k := None)\<rparr>)"

definition aggregator_keys :: "('k, 'v) mvhashmap \<Rightarrow> 'k list \<times> ('k, 'v) mvhashmap" where
  "aggregator_keys m = (delta_keys m, m\<lparr>delta_keys := []\<rparr>)"

definition add_write :: "'k \<Rightarrow> version \<Rightarrow> 'v \<Rightarrow> ('k, 'v) mvhashmap \<Rightarrow> ('k, 'v) mvhashmap option" where
  "add_write k ver v m =
     (let (txn_idx, inc) = ver;
          vv = entry_or_default m k;
          prev = bt_get (versioned_map vv) txn_idx;
          vv' = vv\<lparr>versioned_map := bt_insert txn_idx (new_write_from FLAG_DONE inc v) (versioned_map vv)\<rparr>
      in if (case prev of
               None \<Rightarrow> True
             | Some e \<Rightarrow> (case cell e of CWrite i _ \<Rightarrow> i < inc | CDelta _ \<Rightarrow> True))
         then Some (m\<lparr>mv_data := (mv_data m)(k \<mapsto> vv')\<rparr>)
         else None)"

definition add_delta :: "'k \<Rightarrow> txn_index \<Rightarrow> delta_op \<Rightarrow> ('k, 'v) mvhashmap \<Rightarrow> ('k, 'v) mvhashmap" where
  "add_delta k txn_idx d m =
     (let vv = entry_or_default m k;
          vv' = vv\<lparr>versioned_map := bt_insert txn_idx (new_delta_from FLAG_DONE d) (versioned_map vv)\<rparr>
      in if contains_delta vv
         then m\<lparr>mv_data := (mv_data m)(k \<mapsto> vv')\<rparr>
         else m\<lparr>mv_data := (mv_data m)(k \<mapsto> vv'\<lparr>contains_delta := True\<rparr>),
                delta_keys := delta_keys m @ [k]\<rparr>)"

definition mark_estimate :: "'k \<Rightarrow> txn_index \<Rightarrow> ('k, 'v) mvhashmap \<Rightarrow> ('k, 'v) mvhashmap option" where
  "mark_estimate k txn_idx m =
     (case mv_data m k of
        None \<Rightarrow> None
      | Some vv \<Rightarrow>
          (case bt_get (versioned_map vv) txn_idx of
             None \<Rightarrow> None
           | Some e \<Rightarrow> Some (m\<lparr>mv_data := (mv_data m)(k \<mapsto>
               vv\<lparr>versioned_map := bt_insert txn_idx (entry_mark_estimate e) (versioned_map vv)\<rparr>)\<rparr>)))"

definition mv_delete :: "'k \<Rightarrow> txn_index \<Rightarrow> ('k, 'v) mvhashmap \<Rightarrow> ('k, 'v) mvhashmap option" where
  "mv_delete k txn_idx m =
     (case mv_data m k of
        None \<Rightarrow> None
      | Some vv \<Rightarrow> Some (m\<lparr>mv_data := (mv_data m)(k \<mapsto>
          vv\<lparr>versioned_map := bt_remove txn_idx (versioned_map vv)\<rparr>)\<rparr>))"

section \<open>Reading\<close>

datatype mv_error = NotFound | Unresolved delta_op | Dependency txn_index | DeltaApplicationFailure

datatype 'v mv_output = Resolved u128 | Version version 'v

text \<open>
  \<open>AggregatorValue::from_write\<close>: nothing for a deletion, otherwise the decoded bytes. \<open>raw\<close> is
  the \<open>TransactionWrite\<close> instance of the value type, \<open>deser\<close> the \<open>bcs\<close> decoder.
\<close>

definition from_write :: "(bytes \<Rightarrow> u128 option) \<Rightarrow> ('v \<Rightarrow> bytes option) \<Rightarrow> 'v \<Rightarrow> u128 option option" where
  "from_write deser raw v =
     (case raw v of None \<Rightarrow> Some None | Some bs \<Rightarrow> map_option Some (deser bs))"

fun read_back ::
  "(bytes \<Rightarrow> u128 option) \<Rightarrow> ('v \<Rightarrow> bytes option) \<Rightarrow> (txn_index \<times> 'v entry) list
    \<Rightarrow> (unit + delta_op) option \<Rightarrow> (mv_error + 'v mv_output) option" where
  "read_back deser raw [] acc =
     Some (Inl (case acc of
        Some (Inr d) \<Rightarrow> Unresolved d
      | Some (Inl _) \<Rightarrow> DeltaApplicationFailure
      | None \<Rightarrow> NotFound))"
| "read_back deser raw ((idx, e) # es) acc =
     (if flag e = FLAG_ESTIMATE then Some (Inl (Dependency idx))
      else
       (case cell e of
          CWrite inc v \<Rightarrow>
            (case acc of
               None \<Rightarrow> Some (Inr (Version (idx, inc) v))
             | Some a \<Rightarrow>
                 (case from_write deser raw v of
                    None \<Rightarrow> None
                  | Some None \<Rightarrow> Some (Inr (Version (idx, inc) v))
                  | Some (Some w) \<Rightarrow>
                      Some (case a of
                         Inl _ \<Rightarrow> Inl DeltaApplicationFailure
                       | Inr d \<Rightarrow>
                           (case apply_to d w of
                              Inl _ \<Rightarrow> Inl DeltaApplicationFailure
                            | Inr r \<Rightarrow> Inr (Resolved r)))))
        | CDelta d \<Rightarrow>
            (case acc of
               None \<Rightarrow> read_back deser raw es (Some (Inr d))
             | Some a \<Rightarrow>
                 read_back deser raw es
                   (Some (case a of
                      Inl u \<Rightarrow> Inl u
                    | Inr x \<Rightarrow> (case merge_onto x d of Inl _ \<Rightarrow> Inl () | Inr y \<Rightarrow> Inr y))))))"

definition mv_read ::
  "(bytes \<Rightarrow> u128 option) \<Rightarrow> ('v \<Rightarrow> bytes option) \<Rightarrow> ('k, 'v) mvhashmap \<Rightarrow> 'k \<Rightarrow> txn_index
    \<Rightarrow> (mv_error + 'v mv_output) option" where
  "mv_read deser raw m k txn_idx =
     (case mv_data m k of
        None \<Rightarrow> Some (Inl NotFound)
      | Some vv \<Rightarrow> read_back deser raw (rev (bt_below txn_idx (versioned_map vv))) None)"

section \<open>Structural invariant\<close>

text \<open>
  Entries are well formed, and the keys recorded in \<open>delta_keys\<close> are exactly those flagged as
  holding a delta; a key whose entries contain a delta is flagged.
\<close>

definition is_delta :: "'v entry \<Rightarrow> bool" where
  "is_delta e = (case cell e of CDelta _ \<Rightarrow> True | CWrite _ _ \<Rightarrow> False)"

definition vv_wf :: "bool \<Rightarrow> 'v versioned_value \<Rightarrow> bool" where
  "vv_wf recorded vv \<longleftrightarrow> bt_wf (versioned_map vv) \<and> contains_delta vv = recorded
     \<and> (\<forall>e \<in> snd ` set (versioned_map vv). is_delta e \<longrightarrow> contains_delta vv)"

definition mv_wf :: "('k, 'v) mvhashmap \<Rightarrow> bool" where
  "mv_wf m \<longleftrightarrow> (\<forall>k vv. mv_data m k = Some vv \<longrightarrow> vv_wf (k \<in> set (delta_keys m)) vv)
     \<and> distinct (delta_keys m) \<and> set (delta_keys m) \<subseteq> dom (mv_data m)"

lemma mv_wf_new: "mv_wf mv_new"
  by (simp add: mv_wf_def mv_new_def)

lemma is_delta_simps [simp]:
  "\<not> is_delta (new_write_from f inc v)" "is_delta (new_delta_from f d)"
  "is_delta (entry_mark_estimate e) = is_delta e"
  by (simp_all add: is_delta_def new_write_from_def new_delta_from_def entry_mark_estimate_def)

lemma vv_wf_insert:
  assumes "vv_wf r vv" "is_delta e \<Longrightarrow> contains_delta vv"
  shows "vv_wf r (vv\<lparr>versioned_map := bt_insert i e (versioned_map vv)\<rparr>)"
  using assms by (fastforce simp: vv_wf_def dest!: set_bt_insert)

lemma vv_wf_flag: "vv_wf r vv \<Longrightarrow> vv_wf True (vv\<lparr>contains_delta := True\<rparr>)"
  by (simp add: vv_wf_def)

lemma vv_wf_remove: "vv_wf r vv \<Longrightarrow> vv_wf r (vv\<lparr>versioned_map := bt_remove i (versioned_map vv)\<rparr>)"
  by (fastforce simp: vv_wf_def bt_remove_def [of i "versioned_map vv"])

lemma entry_or_default_wf: "mv_wf m \<Longrightarrow> vv_wf (k \<in> set (delta_keys m)) (entry_or_default m k)"
  by (auto simp: mv_wf_def vv_wf_def entry_or_default_def versioned_value_new_def split: option.splits)

lemma entry_or_default_bt: "mv_wf m \<Longrightarrow> bt_wf (versioned_map (entry_or_default m k))"
  using entry_or_default_wf [of m k] by (simp add: vv_wf_def)

lemma mv_wf_put:
  "mv_wf m \<Longrightarrow> vv_wf (k \<in> set (delta_keys m)) vv \<Longrightarrow> mv_wf (m\<lparr>mv_data := (mv_data m)(k \<mapsto> vv)\<rparr>)"
  by (auto simp: mv_wf_def)

lemma mv_wf_put_key:
  "mv_wf m \<Longrightarrow> vv_wf True vv \<Longrightarrow> k \<notin> set (delta_keys m) \<Longrightarrow>
     mv_wf (m\<lparr>mv_data := (mv_data m)(k \<mapsto> vv), delta_keys := delta_keys m @ [k]\<rparr>)"
  by (auto simp: mv_wf_def)

lemma add_write_eq:
  "add_write k (i, inc) v m = Some m' \<Longrightarrow>
     m' = m\<lparr>mv_data := (mv_data m)(k \<mapsto> (entry_or_default m k)\<lparr>versioned_map :=
       bt_insert i (new_write_from FLAG_DONE inc v) (versioned_map (entry_or_default m k))\<rparr>)\<rparr>"
  by (auto simp: add_write_def Let_def split: if_splits)

lemma add_write_wf:
  assumes "mv_wf m" "add_write k ver v m = Some m'"
  shows "mv_wf m'"
  using assms add_write_eq [of k "fst ver" "snd ver" v m m'] entry_or_default_wf [OF assms(1), of k]
  by (auto intro!: mv_wf_put vv_wf_insert)

lemma add_delta_wf:
  assumes "mv_wf m" shows "mv_wf (add_delta k i d m)"
proof -
  note wf = entry_or_default_wf [OF assms, of k]
  show ?thesis
  proof (cases "contains_delta (entry_or_default m k)")
    case True
    with assms wf show ?thesis
      by (auto simp: add_delta_def Let_def intro!: mv_wf_put vv_wf_insert)
  next
    case False
    then have "k \<notin> set (delta_keys m)" using wf by (simp add: vv_wf_def)
    moreover have "vv_wf True ((entry_or_default m k)\<lparr>contains_delta := True, versioned_map :=
        bt_insert i (new_delta_from FLAG_DONE d) (versioned_map (entry_or_default m k))\<rparr>)"
      using vv_wf_insert [OF vv_wf_flag [OF wf], of "new_delta_from FLAG_DONE d" i] by simp
    ultimately show ?thesis
      using assms False mv_wf_put_key
      by (cases "entry_or_default m k") (simp add: add_delta_def Let_def)
  qed
qed

lemma mark_estimate_eq:
  assumes "mark_estimate k i m = Some m'"
  obtains vv e where "mv_data m k = Some vv" "bt_get (versioned_map vv) i = Some e"
    "m' = m\<lparr>mv_data := (mv_data m)(k \<mapsto>
       vv\<lparr>versioned_map := bt_insert i (entry_mark_estimate e) (versioned_map vv)\<rparr>)\<rparr>"
  using assms by (auto simp: mark_estimate_def split: option.splits)

lemma mv_delete_eq:
  assumes "mv_delete k i m = Some m'"
  obtains vv where "mv_data m k = Some vv"
    "m' = m\<lparr>mv_data := (mv_data m)(k \<mapsto> vv\<lparr>versioned_map := bt_remove i (versioned_map vv)\<rparr>)\<rparr>"
  using assms by (auto simp: mv_delete_def split: option.splits)

lemma mv_wf_vv: "mv_wf m \<Longrightarrow> mv_data m k = Some vv \<Longrightarrow> vv_wf (k \<in> set (delta_keys m)) vv"
  by (simp add: mv_wf_def)

lemma mark_estimate_wf:
  assumes "mv_wf m" "mark_estimate k i m = Some m'"
  shows "mv_wf m'"
  using assms(2)
proof (rule mark_estimate_eq)
  fix vv e assume vv: "mv_data m k = Some vv" "bt_get (versioned_map vv) i = Some e"
    and m': "m' = m\<lparr>mv_data := (mv_data m)(k \<mapsto>
       vv\<lparr>versioned_map := bt_insert i (entry_mark_estimate e) (versioned_map vv)\<rparr>)\<rparr>"
  note wf = mv_wf_vv [OF assms(1) vv(1)]
  moreover have "is_delta e \<Longrightarrow> contains_delta vv"
    using wf bt_get_mem [OF vv(2)] by (force simp: vv_wf_def)
  ultimately show ?thesis
    unfolding m' using assms(1) by (intro mv_wf_put vv_wf_insert) auto
qed

lemma mv_delete_wf:
  assumes "mv_wf m" "mv_delete k i m = Some m'"
  shows "mv_wf m'"
  using assms(2)
proof (rule mv_delete_eq)
  fix vv assume vv: "mv_data m k = Some vv"
    and m': "m' = m\<lparr>mv_data := (mv_data m)(k \<mapsto> vv\<lparr>versioned_map := bt_remove i (versioned_map vv)\<rparr>)\<rparr>"
  show ?thesis
    unfolding m' using assms(1) mv_wf_vv [OF assms(1) vv] by (intro mv_wf_put vv_wf_remove)
qed

section \<open>Reads see only lower transactions\<close>

definition entries_below :: "('k, 'v) mvhashmap \<Rightarrow> 'k \<Rightarrow> txn_index \<Rightarrow> (txn_index \<times> 'v entry) list" where
  "entries_below m k i =
     (case mv_data m k of None \<Rightarrow> [] | Some vv \<Rightarrow> bt_below i (versioned_map vv))"

lemma mv_read_entries:
  "mv_read deser raw m k i = read_back deser raw (rev (entries_below m k i)) None"
  by (simp add: mv_read_def entries_below_def split: option.split)

lemma entries_below_default:
  "bt_below i (versioned_map (entry_or_default m k)) = entries_below m k i"
  by (simp add: entries_below_def entry_or_default_def versioned_value_new_def split: option.split)

lemma entries_below_put [simp]:
  "entries_below (m\<lparr>mv_data := (mv_data m)(k \<mapsto> vv)\<rparr>) k' j =
     (if k' = k then bt_below j (versioned_map vv) else entries_below m k' j)"
  "entries_below (m\<lparr>mv_data := (mv_data m)(k \<mapsto> vv), delta_keys := ks\<rparr>) k' j =
     (if k' = k then bt_below j (versioned_map vv) else entries_below m k' j)"
  by (simp_all add: entries_below_def)

lemma entries_below_add_write:
  "mv_wf m \<Longrightarrow> add_write k (i, inc) v m = Some m' \<Longrightarrow> entries_below m' k' j =
     (if k' = k \<and> i < j then bt_insert i (new_write_from FLAG_DONE inc v) (entries_below m k j)
      else entries_below m k' j)"
  by (drule add_write_eq) (auto simp: bt_below_insert entry_or_default_bt entries_below_default)

lemma entries_below_add_delta:
  "mv_wf m \<Longrightarrow> entries_below (add_delta k i d m) k' j =
     (if k' = k \<and> i < j then bt_insert i (new_delta_from FLAG_DONE d) (entries_below m k j)
      else entries_below m k' j)"
  by (auto simp: add_delta_def Let_def bt_below_insert entry_or_default_bt entries_below_default)

lemma entries_below_some:
  "mv_data m k = Some vv \<Longrightarrow> entries_below m k j = bt_below j (versioned_map vv)"
  by (simp add: entries_below_def)

lemma entries_below_mark_estimate:
  assumes "mv_wf m" "mark_estimate k i m = Some m'"
  shows "\<exists>e. \<forall>k' j. entries_below m' k' j =
     (if k' = k \<and> i < j then bt_insert i (entry_mark_estimate e) (entries_below m k j)
      else entries_below m k' j)"
  using assms(2)
proof (rule mark_estimate_eq)
  fix vv e assume vv: "mv_data m k = Some vv" "bt_get (versioned_map vv) i = Some e"
    and m': "m' = m\<lparr>mv_data := (mv_data m)(k \<mapsto>
       vv\<lparr>versioned_map := bt_insert i (entry_mark_estimate e) (versioned_map vv)\<rparr>)\<rparr>"
  have "bt_wf (versioned_map vv)" using mv_wf_vv [OF assms(1) vv(1)] by (simp add: vv_wf_def)
  then show ?thesis
    by (intro exI [of _ e] allI) (simp add: m' bt_below_insert entries_below_some [OF vv(1)])
qed

lemma entries_below_delete:
  assumes "mv_delete k i m = Some m'"
  shows "entries_below m' k' j =
     (if k' = k \<and> i < j then bt_remove i (entries_below m k j) else entries_below m k' j)"
  using assms
  by (rule mv_delete_eq) (simp add: bt_below_remove entries_below_some)

text \<open>
  The updates of the structure as values, so that an interleaving of threads is a list of them.
\<close>

datatype ('k, 'v) mv_update =
    UWrite 'k version 'v
  | UDelta 'k txn_index delta_op
  | UEstimate 'k txn_index
  | UDelete 'k txn_index

fun mv_apply :: "('k, 'v) mv_update \<Rightarrow> ('k, 'v) mvhashmap \<Rightarrow> ('k, 'v) mvhashmap option" where
  "mv_apply (UWrite k ver v) m = add_write k ver v m"
| "mv_apply (UDelta k i d) m = Some (add_delta k i d m)"
| "mv_apply (UEstimate k i) m = mark_estimate k i m"
| "mv_apply (UDelete k i) m = mv_delete k i m"

fun writer :: "('k, 'v) mv_update \<Rightarrow> txn_index" where
  "writer (UWrite k ver v) = fst ver"
| "writer (UDelta k i d) = i"
| "writer (UEstimate k i) = i"
| "writer (UDelete k i) = i"

fun upd_key :: "('k, 'v) mv_update \<Rightarrow> 'k" where
  "upd_key (UWrite k ver v) = k"
| "upd_key (UDelta k i d) = k"
| "upd_key (UEstimate k i) = k"
| "upd_key (UDelete k i) = k"

fun apply_all :: "('u \<Rightarrow> 'm \<Rightarrow> 'm option) \<Rightarrow> 'u list \<Rightarrow> 'm \<Rightarrow> 'm option" where
  "apply_all f [] m = Some m"
| "apply_all f (u # us) m = Option.bind (f u m) (apply_all f us)"

text \<open>
  What the executor relies on: an update of transaction \<open>i\<close> is invisible to every transaction
  up to \<open>i\<close>, and to readers of other keys.
\<close>

locale versioned_store =
  fixes upd :: "'u \<Rightarrow> 'm \<Rightarrow> 'm option"
    and by_txn :: "'u \<Rightarrow> nat"
    and of_key :: "'u \<Rightarrow> 'k"
    and rd :: "'m \<Rightarrow> 'k \<Rightarrow> nat \<Rightarrow> 'r"
    and inv :: "'m \<Rightarrow> bool"
  assumes keeps: "inv m \<Longrightarrow> upd u m = Some m' \<Longrightarrow> inv m'"
    and frame_txn: "inv m \<Longrightarrow> upd u m = Some m' \<Longrightarrow> j \<le> by_txn u \<Longrightarrow> rd m' k j = rd m k j"
    and frame_key: "inv m \<Longrightarrow> upd u m = Some m' \<Longrightarrow> k \<noteq> of_key u \<Longrightarrow> rd m' k j = rd m k j"
begin

lemma keeps_all: "inv m \<Longrightarrow> apply_all upd us m = Some m' \<Longrightarrow> inv m'"
  by (induction us arbitrary: m) (auto simp: bind_eq_Some_conv dest: keeps)

lemma frame_all:
  assumes "inv m" "apply_all upd us m = Some m'" "\<And>u. u \<in> set us \<Longrightarrow> j \<le> by_txn u \<or> k \<noteq> of_key u"
  shows "rd m' k j = rd m k j"
  using assms
proof (induction us arbitrary: m)
  case Nil
  then show ?case by simp
next
  case (Cons u us)
  from Cons.prems(2) obtain m1 where m1: "upd u m = Some m1" "apply_all upd us m1 = Some m'"
    by (auto simp: bind_eq_Some_conv)
  have "rd m' k j = rd m1 k j"
    using Cons.IH [OF keeps [OF Cons.prems(1) m1(1)] m1(2)] Cons.prems(3) by simp
  also have "\<dots> = rd m k j"
    using Cons.prems(1,3) m1(1) frame_txn frame_key by (metis list.set_intros(1))
  finally show ?case .
qed

end

lemma mv_apply_wf: "mv_wf m \<Longrightarrow> mv_apply u m = Some m' \<Longrightarrow> mv_wf m'"
  by (cases u) (auto intro: add_write_wf add_delta_wf mark_estimate_wf mv_delete_wf)

lemma entries_below_frame:
  assumes "mv_wf m" "mv_apply u m = Some m'" "j \<le> writer u \<or> k \<noteq> upd_key u"
  shows "entries_below m' k j = entries_below m k j"
proof (cases u)
  case (UWrite k' ver v)
  then show ?thesis
    using assms by (cases ver) (auto simp: entries_below_add_write)
next
  case (UDelta k' i d)
  then show ?thesis using assms by (auto simp: entries_below_add_delta)
next
  case (UEstimate k' i)
  then show ?thesis using assms entries_below_mark_estimate [of m k' i m'] by auto
next
  case (UDelete k' i)
  then show ?thesis using assms by (auto simp: entries_below_delete)
qed

interpretation mv: versioned_store mv_apply writer upd_key "mv_read deser raw" mv_wf for deser raw
  by unfold_locales (auto simp: mv_read_entries entries_below_frame intro: mv_apply_wf)

section \<open>A read returns the latest write\<close>

lemma mv_read_write:
  assumes "mv_wf m" "add_write k (i, inc) v m = Some m'" "i < j"
    and "\<And>l. i < l \<Longrightarrow> l < j \<Longrightarrow> bt_get (versioned_map (entry_or_default m k)) l = None"
  shows "mv_read deser raw m' k j = Some (Inr (Version (i, inc) v))"
proof -
  let ?vm = "bt_insert i (new_write_from FLAG_DONE inc v) (versioned_map (entry_or_default m k))"
  have "entries_below m' k j = bt_below j ?vm"
    using add_write_eq [OF assms(2)] by simp
  also have "\<dots> = bt_below i ?vm @ [(i, new_write_from FLAG_DONE inc v)]"
    using assms by (intro bt_below_snoc) (auto simp: entry_or_default_bt)
  finally show ?thesis
    by (simp add: mv_read_entries new_write_from_def FLAG_DONE_def FLAG_ESTIMATE_def)
qed

text \<open>An entry marked as an estimate stops every reader above it that would have used it.\<close>

lemma mv_read_estimate:
  assumes "mv_wf m" "mark_estimate k i m = Some m'" "i < j"
    and "\<And>l. i < l \<Longrightarrow> l < j \<Longrightarrow> bt_get (versioned_map (entry_or_default m k)) l = None"
  shows "mv_read deser raw m' k j = Some (Inl (Dependency i))"
  using assms(2)
proof (rule mark_estimate_eq)
  fix vv e assume vv: "mv_data m k = Some vv" "bt_get (versioned_map vv) i = Some e"
    and m': "m' = m\<lparr>mv_data := (mv_data m)(k \<mapsto>
       vv\<lparr>versioned_map := bt_insert i (entry_mark_estimate e) (versioned_map vv)\<rparr>)\<rparr>"
  let ?vm = "bt_insert i (entry_mark_estimate e) (versioned_map vv)"
  have "bt_wf (versioned_map vv)" using mv_wf_vv [OF assms(1) vv(1)] by (simp add: vv_wf_def)
  then have "bt_below j ?vm = bt_below i ?vm @ [(i, entry_mark_estimate e)]"
    using assms(3,4) vv(1) by (intro bt_below_snoc) (auto simp: entry_or_default_def)
  then show ?thesis
    by (simp add: mv_read_entries m' entry_mark_estimate_def)
qed

section \<open>Accumulated deltas\<close>

text \<open>
  Reading through deltas is applying them one by one, in block order, to the value below them.
\<close>

definition is_done_delta :: "u128 \<Rightarrow> 'v entry \<Rightarrow> bool" where
  "is_done_delta lim e \<longleftrightarrow> flag e \<noteq> FLAG_ESTIMATE \<and>
     (case cell e of CDelta d \<Rightarrow> delta_wf d \<and> limit d = lim | CWrite _ _ \<Rightarrow> False)"

definition entry_delta :: "'v entry \<Rightarrow> delta_op" where
  "entry_delta e = (case cell e of CDelta d \<Rightarrow> d | CWrite _ _ \<Rightarrow> undefined)"

definition deltas_of :: "(txn_index \<times> 'v entry) list \<Rightarrow> delta_op list" where
  "deltas_of es = map (\<lambda>ie. entry_delta (snd ie)) es"

definition done_deltas :: "u128 \<Rightarrow> (txn_index \<times> 'v entry) list \<Rightarrow> bool" where
  "done_deltas lim es \<longleftrightarrow> (\<forall>ie \<in> set es. is_done_delta lim (snd ie))"

lemma deltas_of_simps [simp]:
  "deltas_of [] = []" "deltas_of (ie # es) = entry_delta (snd ie) # deltas_of es"
  "deltas_of (rev es) = rev (deltas_of es)"
  by (simp_all add: deltas_of_def rev_map)

definition represents :: "u128 \<Rightarrow> (unit + delta_op) option \<Rightarrow> delta_op list \<Rightarrow> bool" where
  "represents lim acc ds \<longleftrightarrow>
     (case acc of
        None \<Rightarrow> ds = []
      | Some (Inl _) \<Rightarrow> \<forall>b. ok (rfold apply_to ds b) = None
      | Some (Inr a) \<Rightarrow> delta_wf a \<and> limit a = lim \<and> (\<forall>b. ok (rfold apply_to ds b) = ok (apply_to a b)))"

lemma option_eqI: "(\<And>r. x = Some r \<longleftrightarrow> y = Some r) \<Longrightarrow> x = y"
  by (cases x; cases y) auto

lemma merge_represents:
  assumes "delta_wf a" "delta_wf d" "limit a = lim" "limit d = lim"
    and rep: "\<And>b. ok (rfold apply_to ds b) = ok (apply_to a b)"
  shows "represents lim (Some (case merge_onto a d of Inl _ \<Rightarrow> Inl () | Inr y \<Rightarrow> Inr y)) (d # ds)"
proof (cases "merge_onto a d")
  case (Inl e)
  have "ok (rfold apply_to (d # ds) b) = None" for b
    using merge_onto_fails [OF assms(1,2) _ Inl] assms(3,4) rep
    by (cases "apply_to d b") (auto simp: ok_eq_None)
  with Inl show ?thesis by (simp add: represents_def)
next
  case (Inr y)
  have "ok (rfold apply_to (d # ds) b) = ok (apply_to y b)" for b
    using merge_onto_sound [OF assms(1,2) _ Inr] assms(3,4) rep
    by (intro option_eqI) (auto simp: ok_rbind bind_eq_Some_conv simp flip: ok_eq_Some)
  with Inr assms merge_onto_wf [OF assms(1,2) Inr] merge_onto_eq_Inr(1) [OF Inr] show ?thesis
    by (simp add: represents_def)
qed

lemma read_back_deltas:
  assumes "done_deltas lim es" "represents lim acc ds"
  shows "\<exists>acc'. (\<forall>rest. read_back deser raw (es @ rest) acc = read_back deser raw rest acc')
     \<and> represents lim acc' (rev (deltas_of es) @ ds)"
  using assms
proof (induction es arbitrary: acc ds)
  case Nil
  then show ?case by auto
next
  case (Cons ie es)
  obtain i e where ie: "ie = (i, e)" by (cases ie)
  from Cons.prems(1) obtain d where d: "cell e = CDelta d" "flag e \<noteq> FLAG_ESTIMATE"
    "delta_wf d" "limit d = lim" and es: "done_deltas lim es"
    by (auto simp: ie done_deltas_def is_done_delta_def split: entry_cell.splits)
  define acc1 where "acc1 = Some (case acc of None \<Rightarrow> Inr d | Some (Inl u) \<Rightarrow> Inl u
    | Some (Inr x) \<Rightarrow> (case merge_onto x d of Inl _ \<Rightarrow> Inl () | Inr y \<Rightarrow> Inr y))"
  have step: "read_back deser raw ((ie # es) @ rest) acc = read_back deser raw (es @ rest) acc1" for rest
    using d by (auto simp: ie acc1_def split: option.split sum.split)
  have "represents lim acc1 (d # ds)"
  proof (cases acc)
    case None
    with Cons.prems(2) d show ?thesis
      by (simp add: represents_def acc1_def ok_rbind)
  next
    case (Some a)
    show ?thesis
    proof (cases a)
      case (Inl u)
      with Some Cons.prems(2) show ?thesis
        by (auto simp: represents_def acc1_def ok_rbind bind_eq_None_conv)
    next
      case (Inr x)
      with Some Cons.prems(2) have "delta_wf x" "limit x = lim"
        "\<And>b. ok (rfold apply_to ds b) = ok (apply_to x b)"
        by (auto simp: represents_def)
      from merge_represents [OF this(1) d(3) this(2) d(4) this(3)] show ?thesis
        by (simp add: acc1_def Some Inr)
    qed
  qed
  from Cons.IH [OF es this] show ?case
    using step d(1) by (auto simp: ie entry_delta_def)
qed

lemma done_deltas_rev [simp]: "done_deltas lim (rev es) = done_deltas lim es"
  by (simp add: done_deltas_def)

lemma read_back_from_None:
  assumes "done_deltas lim ds" "ds \<noteq> []"
  shows "\<exists>a. (\<forall>rest. read_back deser raw (rev ds @ rest) None = read_back deser raw rest (Some a))
     \<and> represents lim (Some a) (deltas_of ds)"
proof -
  have "represents lim None []" by (simp add: represents_def)
  then obtain acc where acc: "\<forall>rest. read_back deser raw (rev ds @ rest) None = read_back deser raw rest acc"
      "represents lim acc (deltas_of ds)"
    using read_back_deltas [of lim "rev ds"] assms(1) by fastforce
  moreover have "acc \<noteq> None"
    using acc(2) assms(2) by (cases ds; cases acc) (auto simp: represents_def)
  ultimately show ?thesis by blast
qed

text \<open>Deltas above a write whose value is an aggregator value.\<close>

lemma mv_read_resolves:
  assumes below: "entries_below m k j = pre @ (i, w) # ds" and ds: "ds \<noteq> []" "done_deltas lim ds"
    and w: "flag w \<noteq> FLAG_ESTIMATE" "cell w = CWrite inc v" "from_write deser raw v = Some (Some x)"
  shows "mv_read deser raw m k j =
     Some (case rfold apply_to (deltas_of ds) x of
        Inl _ \<Rightarrow> Inl DeltaApplicationFailure | Inr r \<Rightarrow> Inr (Resolved r))"
proof -
  obtain a where a: "\<And>rest. read_back deser raw (rev ds @ rest) None = read_back deser raw rest (Some a)"
    and rep: "represents lim (Some a) (deltas_of ds)"
    using read_back_from_None [OF ds(2,1), where deser = deser and raw = raw] by blast
  have "mv_read deser raw m k j = read_back deser raw ((i, w) # rev pre) (Some a)"
    using a [of "(i, w) # rev pre"] by (simp add: mv_read_entries below)
  also have "\<dots> = Some (case a of Inl _ \<Rightarrow> Inl DeltaApplicationFailure
      | Inr d \<Rightarrow> (case apply_to d x of Inl _ \<Rightarrow> Inl DeltaApplicationFailure | Inr r \<Rightarrow> Inr (Resolved r)))"
    using w by simp
  also have "\<dots> = Some (case ok (rfold apply_to (deltas_of ds) x) of
      None \<Rightarrow> Inl DeltaApplicationFailure | Some r \<Rightarrow> Inr (Resolved r))"
    using rep by (cases a) (auto simp: represents_def split: sum.split)
  finally show ?thesis by (auto split: sum.split)
qed

text \<open>
  Deltas with nothing below them: the read hands out one delta that stands for all of them, or
  reports a failure that applying them to any base value would also meet.
\<close>

lemma mv_read_unresolved:
  assumes below: "entries_below m k j = ds" and ds: "ds \<noteq> []" "done_deltas lim ds"
  shows "(\<exists>d. mv_read deser raw m k j = Some (Inl (Unresolved d))
            \<and> (\<forall>b. ok (apply_to d b) = ok (rfold apply_to (deltas_of ds) b)))
       \<or> (mv_read deser raw m k j = Some (Inl DeltaApplicationFailure)
            \<and> (\<forall>b. ok (rfold apply_to (deltas_of ds) b) = None))"
proof -
  obtain a where a: "\<And>rest. read_back deser raw (rev ds @ rest) None = read_back deser raw rest (Some a)"
    and rep: "represents lim (Some a) (deltas_of ds)"
    using read_back_from_None [OF ds(2,1), where deser = deser and raw = raw] by blast
  show ?thesis
    using a [of "[]"] rep by (cases a) (auto simp: mv_read_entries below represents_def)
qed

section \<open>Properties\<close>

text \<open>
  C28. A read by transaction \<open>j\<close> depends only on what lower transactions have put under its key:
  however writes, deltas, estimates and deletions of transactions at or above \<open>j\<close>, or under other
  keys, are interleaved, the read returns the same, and the structure stays well formed.
\<close>

theorem read_ignores_higher_transactions:
  assumes "mv_wf m" "apply_all mv_apply us m = Some m'"
    and "\<forall>u \<in> set us. j \<le> writer u \<or> k \<noteq> upd_key u"
  shows "mv_read deser raw m' k j = mv_read deser raw m k j \<and> mv_wf m'"
  using mv.frame_all [OF assms(1,2), of j k] mv.keeps_all [OF assms(1,2)] assms(3) by blast

definition demo_mv :: "(nat, write_op) mvhashmap" where
  "demo_mv = add_delta 7 3 (delta_add 5 100)
     (the (add_write 7 (1, 0) (Modification [10]) mv_new))"

lemma demo_mv_wf: "mv_wf demo_mv"
proof -
  obtain m1 where "add_write 7 (1, 0) (Modification [10]) (mv_new :: (nat, write_op) mvhashmap) = Some m1"
    by (simp add: add_write_def entry_or_default_def mv_new_def versioned_value_new_def Let_def)
  then show ?thesis
    using mv_wf_new add_write_wf add_delta_wf unfolding demo_mv_def by fastforce
qed

theorem read_ignores_higher_transactions_witness:
  "mv_read (\<lambda>bs. Some 10) extract_raw_bytes (the (apply_all mv_apply [UEstimate 7 3, UWrite 8 (0, 0) Deletion] demo_mv)) 7 3
     = Some (Inr (Version (1, 0) (Modification [10])))"
proof -
  let ?us = "[UEstimate 7 3, UWrite 8 (0, 0) Deletion]"
  have "\<not> Option.is_none (apply_all mv_apply ?us demo_mv)" by code_simp
  then obtain m' where run: "apply_all mv_apply ?us demo_mv = Some m'"
    by (cases "apply_all mv_apply ?us demo_mv") auto
  have "mv_read (\<lambda>bs. Some 10) extract_raw_bytes demo_mv 7 3 = Some (Inr (Version (1, 0) (Modification [10])))"
    by code_simp
  then show ?thesis
    using read_ignores_higher_transactions [OF demo_mv_wf run, of 3 7 "\<lambda>bs. Some 10" extract_raw_bytes] run
    by simp
qed

text \<open>
  C29. A read that meets deltas above a write resolves them: it returns the written value with the
  deltas applied in transaction order, and fails exactly when one of these applications does.
\<close>

theorem read_resolves_deltas:
  assumes "entries_below m k j = pre @ (i, w) # ds" "ds \<noteq> []" "done_deltas lim ds"
    and "flag w \<noteq> FLAG_ESTIMATE" "cell w = CWrite inc v" "from_write deser raw v = Some (Some x)"
  shows "mv_read deser raw m k j =
     Some (case rfold apply_to (deltas_of ds) x of
        Inl _ \<Rightarrow> Inl DeltaApplicationFailure | Inr r \<Rightarrow> Inr (Resolved r))"
  by (rule mv_read_resolves [OF assms])

theorem read_resolves_deltas_witness:
  "mv_read (\<lambda>bs. Some 10) extract_raw_bytes demo_mv 7 5 = Some (Inr (Resolved 15))"
proof -
  let ?d = "new_delta_from FLAG_DONE (delta_add 5 100) :: write_op entry"
    and ?w = "new_write_from FLAG_DONE 0 (Modification [10])"
  have "entries_below demo_mv 7 5 = [] @ (1, ?w) # [(3, ?d)]" by code_simp
  moreover have "done_deltas 100 [(3 :: nat, ?d)] \<and> flag ?w \<noteq> FLAG_ESTIMATE \<and> cell ?w = CWrite 0 (Modification [10])
      \<and> from_write (\<lambda>bs. Some (10 :: u128)) extract_raw_bytes (Modification [10]) = Some (Some 10)
      \<and> rfold apply_to (deltas_of [(3 :: nat, ?d)]) 10 = Inr 15" by code_simp
  ultimately show ?thesis
    using read_resolves_deltas [of demo_mv 7 5 "[]" 1 ?w "[(3, ?d)]" 100 0 "Modification [10]"
        "\<lambda>bs. Some 10" extract_raw_bytes 10] by simp
qed

text \<open>
  C30. A read that meets only deltas hands out a single delta that stands for all of them: applied
  to any base value it gives what the deltas give one after the other. If there is no such delta,
  the read fails and so does the sequence on every base value.
\<close>

theorem read_accumulates_deltas:
  assumes "entries_below m k j = ds" "ds \<noteq> []" "done_deltas lim ds"
  shows "(\<exists>d. mv_read deser raw m k j = Some (Inl (Unresolved d))
            \<and> (\<forall>b. ok (apply_to d b) = ok (rfold apply_to (deltas_of ds) b)))
       \<or> (mv_read deser raw m k j = Some (Inl DeltaApplicationFailure)
            \<and> (\<forall>b. ok (rfold apply_to (deltas_of ds) b) = None))"
  by (rule mv_read_unresolved [OF assms])

theorem read_accumulates_deltas_witness:
  "\<exists>d. mv_read (\<lambda>bs. None) extract_raw_bytes
      (add_delta (7 :: nat) 4 (delta_sub 2 100) (add_delta 7 3 (delta_add 5 100) mv_new)) 7 5 = Some (Inl (Unresolved d))
     \<and> ok (apply_to d 10) = Some 13"
proof -
  let ?m = "add_delta (7 :: nat) 4 (delta_sub 2 100) (add_delta 7 3 (delta_add 5 100) mv_new) :: (nat, write_op) mvhashmap"
    and ?ds = "[(3, new_delta_from FLAG_DONE (delta_add 5 100)), (4, new_delta_from FLAG_DONE (delta_sub 2 100))]
      :: (nat \<times> write_op entry) list"
  have below: "entries_below ?m 7 5 = ?ds" by code_simp
  have ds: "done_deltas 100 ?ds" and b: "ok (rfold apply_to (deltas_of ?ds) 10) = Some 13" by code_simp+
  have "?ds \<noteq> []" by simp
  from read_accumulates_deltas [OF below this ds, of "\<lambda>bs. None" extract_raw_bytes] b
  show ?thesis by (metis option.distinct(1))
qed

end
