(* ===== verification/Scheduler.thy ===== *)
theory Scheduler
  imports MVHashMap
begin

unbundle bit_operations_syntax

text \<open>
  The scheduler of the parallel block executor (\<open>aptos-move/block-executor/src/scheduler.rs\<close>).
  Its state is shared by the worker threads; every method is one atomic step on it, as the
  per-transaction locks and the atomic counters make them with respect to the fields they
  touch. A method that would index out of range panics, which is the result \<open>None\<close>.
  Transaction indices (\<open>usize\<close>) and incarnations are naturals; the packed \<open>validation_idx\<close>
  and the waves keep their machine widths.
\<close>

section \<open>Types\<close>

type_synonym wave = u32
type_synonym condvar = nat

datatype scheduler_task =
    ExecutionTask version "condvar option"
  | ValidationTask version wave
  | SigTask nat
  | PrologueTask
  | NoTask
  | Done

datatype execution_mode = Standard | Pythia | Pythia_Sig

datatype execution_status =
    ReadyToExecute incarnation "condvar option"
  | Executing incarnation
  | Suspended incarnation condvar
  | Executed incarnation
  | Committed incarnation
  | Aborting incarnation

text \<open>\<open>PartialEq\<close> of the source ignores the condition variables.\<close>

fun status_eq :: "execution_status \<Rightarrow> execution_status \<Rightarrow> bool" where
  "status_eq (ReadyToExecute a _) (ReadyToExecute b _) = (a = b)"
| "status_eq (Executing a) (Executing b) = (a = b)"
| "status_eq (Suspended a _) (Suspended b _) = (a = b)"
| "status_eq (Executed a) (Executed b) = (a = b)"
| "status_eq (Committed a) (Committed b) = (a = b)"
| "status_eq (Aborting a) (Aborting b) = (a = b)"
| "status_eq _ _ = False"

record validation_status =
  max_triggered_wave :: wave
  required_wave :: wave
  maybe_max_validated_wave :: "wave option"

definition validation_status_new :: validation_status where
  "validation_status_new =
     \<lparr>max_triggered_wave = 0, required_wave = 0, maybe_max_validated_wave = None\<rparr>"

record scheduler =
  num_txns :: nat
  execution_idx :: nat
  validation_idx :: u64
  done_marker :: bool
  txn_status :: "(execution_status \<times> validation_status) list"
  hint_graph :: "u16 list list"
  concurrency_level :: nat
  channels :: "txn_index list"
  priochannels :: "txn_index list"
  sig_val_idx :: nat
  prologue_map :: "(bool \<times> bool) list"
  prologue_index :: u16
  mode :: execution_mode
  critical_path_parent :: "txn_index list list"
  children :: "txn_index list list"

section \<open>Construction\<close>

text \<open>The inner loop over the parents of transaction \<open>i\<close>: the costliest of them, and the child lists.\<close>

fun scan_parents ::
  "txn_index \<Rightarrow> u32 list \<Rightarrow> u16 list \<Rightarrow> u32 \<times> nat \<times> txn_index list list
    \<Rightarrow> (u32 \<times> nat \<times> txn_index list list) option" where
  "scan_parents i path_cost [] st = Some st"
| "scan_parents i path_cost (node # nodes) (my_cost, parent, ch) =
     (let n = unat node in
      if n < length path_cost \<and> n < length ch
      then scan_parents i path_cost nodes
             (if path_cost ! n > my_cost then path_cost ! n else my_cost,
              if path_cost ! n > my_cost then n else parent,
              ch[n := ch ! n @ [i]])
      else None)"

fun build_graph ::
  "u16 list list \<Rightarrow> txn_index list \<Rightarrow> u32 list \<times> txn_index list list \<times> txn_index list \<times> txn_index list list
    \<Rightarrow> (u32 list \<times> txn_index list list \<times> txn_index list \<times> txn_index list list) option" where
  "build_graph hints [] st = Some st"
| "build_graph hints (i # is) (path_cost, ch, send_vec, cpp) =
     (case scan_parents i path_cost (hints ! i) (0, 50000, ch) of
        None \<Rightarrow> None
      | Some (my_cost, parent, ch') \<Rightarrow>
          (case add_chk (path_cost ! i) my_cost of
             None \<Rightarrow> None
           | Some cost \<Rightarrow>
               if parent = 50000
               then build_graph hints is (path_cost[i := cost], ch', send_vec @ [i], cpp)
               else build_graph hints is
                      (path_cost[i := cost], ch', send_vec, cpp[parent := cpp ! parent @ [i]])))"

definition scheduler_new ::
  "nat \<Rightarrow> u16 list list \<Rightarrow> u16 list \<Rightarrow> nat \<Rightarrow> execution_mode \<Rightarrow> (bool \<times> bool) list \<Rightarrow> scheduler option" where
  "scheduler_new n dependencies gas_estimates conc md pmap =
     (if length gas_estimates \<ge> n \<and> length dependencies \<ge> n
      then
       (case build_graph dependencies [0..<n]
               (map ucast gas_estimates, replicate n [], [], replicate n []) of
          None \<Rightarrow> None
        | Some (_, ch, send_vec, cpp) \<Rightarrow>
            Some \<lparr>num_txns = n, execution_idx = 0, validation_idx = 0, done_marker = False,
                  txn_status = replicate n (ReadyToExecute 0 None, validation_status_new),
                  hint_graph = dependencies, concurrency_level = conc,
                  channels = filter (\<lambda>i. ch ! i = []) send_vec,
                  priochannels = filter (\<lambda>i. ch ! i \<noteq> []) send_vec,
                  sig_val_idx = 0, prologue_map = pmap, prologue_index = 0, mode = md,
                  critical_path_parent = cpp, children = ch\<rparr>)
      else None)"

section \<open>Status accessors\<close>

definition exec_status :: "scheduler \<Rightarrow> txn_index \<Rightarrow> execution_status" where
  "exec_status s i = fst (txn_status s ! i)"

definition val_status :: "scheduler \<Rightarrow> txn_index \<Rightarrow> validation_status" where
  "val_status s i = snd (txn_status s ! i)"

definition set_exec_status :: "txn_index \<Rightarrow> execution_status \<Rightarrow> scheduler \<Rightarrow> scheduler" where
  "set_exec_status i st s = s\<lparr>txn_status := (txn_status s)[i := (st, snd (txn_status s ! i))]\<rparr>"

definition set_val_status :: "txn_index \<Rightarrow> validation_status \<Rightarrow> scheduler \<Rightarrow> scheduler" where
  "set_val_status i vs s = s\<lparr>txn_status := (txn_status s)[i := (fst (txn_status s ! i), vs)]\<rparr>"

definition push_child :: "txn_index \<Rightarrow> txn_index \<Rightarrow> scheduler \<Rightarrow> scheduler option" where
  "push_child dep i s =
     (if dep < length (critical_path_parent s)
      then Some (s\<lparr>critical_path_parent :=
             (critical_path_parent s)[dep := critical_path_parent s ! dep @ [i]]\<rparr>)
      else None)"

section \<open>The packed validation index\<close>

definition TXN_IDX_MASK :: u64 where
  "TXN_IDX_MASK = push_bit 32 1 - 1"

definition unpack_validation_idx :: "u64 \<Rightarrow> txn_index \<times> wave" where
  "unpack_validation_idx v = (unat (v AND TXN_IDX_MASK), ucast (drop_bit 32 v))"

definition pack_validation_idx :: "txn_index \<Rightarrow> wave \<Rightarrow> u64" where
  "pack_validation_idx target w = of_nat target OR push_bit 32 (ucast w + 1)"

definition decrease_validation_idx :: "txn_index \<Rightarrow> scheduler \<Rightarrow> (wave option \<times> scheduler) option" where
  "decrease_validation_idx target s =
     (let (txn_idx, w) = unpack_validation_idx (validation_idx s)
      in if txn_idx > target
         then map_option (\<lambda>w'. (Some w', s\<lparr>validation_idx := pack_validation_idx target w\<rparr>)) (add_chk w 1)
         else Some (None, s))"

section \<open>Execution status changes\<close>

definition is_executed :: "txn_index \<Rightarrow> bool \<Rightarrow> scheduler \<Rightarrow> incarnation option" where
  "is_executed i include_committed s =
     (if i \<ge> length (txn_status s) then None
      else
       (case exec_status s i of
          Executed inc \<Rightarrow> Some inc
        | Committed inc \<Rightarrow> (if include_committed then Some inc else None)
        | _ \<Rightarrow> None))"

fun check_dependencies :: "txn_index \<Rightarrow> txn_index list \<Rightarrow> scheduler \<Rightarrow> (bool \<times> scheduler) option" where
  "check_dependencies i [] s = Some (True, s)"
| "check_dependencies i (dep # deps) s =
     (if is_executed dep True s = None
      then
       (case push_child dep i s of
          None \<Rightarrow> None
        | Some s' \<Rightarrow>
            if is_executed dep True s' = None then Some (False, s')
            else check_dependencies i deps s')
      else check_dependencies i deps s)"

definition try_incarnate ::
  "txn_index \<Rightarrow> scheduler \<Rightarrow> ((incarnation \<times> condvar option) option \<times> scheduler) option" where
  "try_incarnate i s =
     (if i \<ge> length (txn_status s) then Some (None, s)
      else
       (case exec_status s i of
          ReadyToExecute inc cv \<Rightarrow>
            (case check_dependencies i (rev (map unat (hint_graph s ! i))) s of
               None \<Rightarrow> None
             | Some (False, s') \<Rightarrow> Some (None, s')
             | Some (True, s') \<Rightarrow> Some (Some (inc, cv), set_exec_status i (Executing inc) s'))
        | _ \<Rightarrow> Some (None, s)))"

definition try_execute_next_version ::
  "txn_index \<Rightarrow> scheduler \<Rightarrow> ((version \<times> condvar option) option \<times> scheduler) option" where
  "try_execute_next_version i s =
     (if i \<ge> num_txns s then Some (None, s)
      else map_option (\<lambda>(r, s'). (map_option (\<lambda>(inc, cv). ((i, inc), cv)) r, s')) (try_incarnate i s))"

definition set_executed_status :: "txn_index \<Rightarrow> incarnation \<Rightarrow> scheduler \<Rightarrow> scheduler option" where
  "set_executed_status i inc s =
     (if i < length (txn_status s) \<and> status_eq (exec_status s i) (Executing inc)
      then Some (set_exec_status i (Executed inc) s)
      else None)"

definition set_aborted_status :: "txn_index \<Rightarrow> incarnation \<Rightarrow> scheduler \<Rightarrow> scheduler option" where
  "set_aborted_status i inc s =
     (if i < length (txn_status s) \<and> status_eq (exec_status s i) (Aborting inc)
      then Some (set_exec_status i (ReadyToExecute (inc + 1) None) s)
      else None)"

definition suspend :: "txn_index \<Rightarrow> condvar \<Rightarrow> scheduler \<Rightarrow> scheduler option" where
  "suspend i cv s =
     (if i < length (txn_status s)
      then (case exec_status s i of
              Executing inc \<Rightarrow> Some (set_exec_status i (Suspended inc cv) s)
            | _ \<Rightarrow> None)
      else None)"

definition resume :: "txn_index \<Rightarrow> scheduler \<Rightarrow> scheduler option" where
  "resume i s =
     (if i < length (txn_status s)
      then (case exec_status s i of
              Suspended inc cv \<Rightarrow> Some (set_exec_status i (ReadyToExecute inc (Some cv)) s)
            | _ \<Rightarrow> Some s)
      else None)"

section \<open>Public interface\<close>

text \<open>
  \<open>locked\<close> says whether both read locks were obtained; the commit state is the caller's.
\<close>

definition try_commit ::
  "bool \<Rightarrow> txn_index \<times> wave \<Rightarrow> scheduler \<Rightarrow> (txn_index option \<times> (txn_index \<times> wave) \<times> scheduler) option" where
  "try_commit locked commit_state s =
     (let (commit_idx, commit_wave) = commit_state in
      if commit_idx = num_txns s
      then Some (None, commit_state,
             if mode s \<noteq> Pythia_Sig \<or> sig_val_idx s \<ge> num_txns s then s\<lparr>done_marker := True\<rparr> else s)
      else if commit_idx \<ge> length (txn_status s) then None
      else if \<not> locked then Some (None, commit_state, s)
      else
       (case exec_status s commit_idx of
          Executed inc \<Rightarrow>
            (let vs = val_status s commit_idx;
                 commit_wave' = max commit_wave (max_triggered_wave vs)
             in case maybe_max_validated_wave vs of
                  Some validated_wave \<Rightarrow>
                    if validated_wave \<ge> max commit_wave' (required_wave vs)
                    then Some (Some commit_idx, (commit_idx + 1, commit_wave'),
                               set_exec_status commit_idx (Committed inc) s)
                    else Some (None, (commit_idx, commit_wave'), s)
                | None \<Rightarrow> Some (None, (commit_idx, commit_wave'), s))
        | _ \<Rightarrow> Some (None, commit_state, s)))"

definition try_abort :: "txn_index \<Rightarrow> incarnation \<Rightarrow> scheduler \<Rightarrow> (bool \<times> scheduler) option" where
  "try_abort i inc s =
     (if i < length (txn_status s)
      then if status_eq (exec_status s i) (Executed inc)
           then Some (True, set_exec_status i (Aborting inc) s)
           else Some (False, s)
      else None)"

definition wait_for_dependency ::
  "txn_index \<Rightarrow> txn_index \<Rightarrow> scheduler \<Rightarrow> (condvar option \<times> scheduler) option" where
  "wait_for_dependency i dep s = map_option (\<lambda>s'. (None, s')) (push_child dep i s)"

definition finish_validation :: "txn_index \<Rightarrow> wave \<Rightarrow> scheduler \<Rightarrow> scheduler option" where
  "finish_validation i w s =
     (if i < length (txn_status s)
      then let vs = val_status s i in
           Some (set_val_status i (vs\<lparr>maybe_max_validated_wave :=
             Some (case maybe_max_validated_wave vs of None \<Rightarrow> w | Some prev \<Rightarrow> max prev w)\<rparr>) s)
      else None)"

text \<open>
  The loop of \<open>finish_execution\<close> over the transactions that wait for the finished one: leaves go
  to the channel, the first inner one that can start is kept by the caller, the others go to
  the priority channel.
\<close>

fun notify_children ::
  "txn_index list \<Rightarrow> scheduler_task \<times> bool \<Rightarrow> scheduler \<Rightarrow> ((scheduler_task \<times> bool) \<times> scheduler) option" where
  "notify_children [] st s = Some (st, s)"
| "notify_children (tx # txs) (nxt, got_next) s =
     (if tx \<ge> length (children s) then None
      else if children s ! tx = []
      then notify_children txs (nxt, got_next) (s\<lparr>channels := channels s @ [tx]\<rparr>)
      else if \<not> got_next
      then (case try_execute_next_version tx s of
              None \<Rightarrow> None
            | Some (Some (ver, cv), s') \<Rightarrow> notify_children txs (ExecutionTask ver cv, True) s'
            | Some (None, s') \<Rightarrow> notify_children txs (nxt, got_next) s')
      else notify_children txs (nxt, got_next) (s\<lparr>priochannels := priochannels s @ [tx]\<rparr>))"

definition finish_execution ::
  "txn_index \<Rightarrow> incarnation \<Rightarrow> bool \<Rightarrow> scheduler \<Rightarrow> (scheduler_task \<times> scheduler) option" where
  "finish_execution i inc revalidate_suffix s =
     (case set_executed_status i inc s of
        None \<Rightarrow> None
      | Some s1 \<Rightarrow>
          if i < length (critical_path_parent s1)
          then map_option (\<lambda>((task, _), s'). (task, s'))
                 (notify_children (critical_path_parent s1 ! i) (NoTask, False) s1)
          else None)"

definition finish_abort :: "txn_index \<Rightarrow> incarnation \<Rightarrow> scheduler \<Rightarrow> (scheduler_task \<times> scheduler) option" where
  "finish_abort i inc s =
     (case set_aborted_status i inc s of
        None \<Rightarrow> None
      | Some s1 \<Rightarrow>
          (case decrease_validation_idx i s1 of
             None \<Rightarrow> None
           | Some (w, s2) \<Rightarrow>
               (let s3 = (case w of
                            None \<Rightarrow> s2
                          | Some wave \<Rightarrow> set_val_status i ((val_status s2 i)\<lparr>max_triggered_wave := wave\<rparr>) s2)
                in case try_incarnate i s3 of
                     None \<Rightarrow> None
                   | Some (Some (inc', cv), s4) \<Rightarrow> Some (ExecutionTask (i, inc') cv, s4)
                   | Some (None, s4) \<Rightarrow> Some (NoTask, s4))))"

text \<open>\<open>got_lock\<close> says whether \<open>valock.try_lock()\<close> succeeded; the flag is the caller's.\<close>

definition try_validate_next_version ::
  "bool \<Rightarrow> bool \<Rightarrow> scheduler \<Rightarrow> (version \<times> wave) option \<times> bool \<times> scheduler" where
  "try_validate_next_version got_lock finished_val_flag s =
     (if got_lock
      then let (idx_to_validate, w) = unpack_validation_idx (validation_idx s) in
           if idx_to_validate \<ge> num_txns s then (None, True, s)
           else
            (case is_executed idx_to_validate False s of
               None \<Rightarrow> (None, finished_val_flag, s)
             | Some inc \<Rightarrow>
                 (Some ((idx_to_validate, inc), w), finished_val_flag,
                  s\<lparr>validation_idx := validation_idx s + 1\<rparr>))
      else (None, finished_val_flag, s))"

text \<open>
  The accesses of \<open>try_validate_next_version\<close> to the shared state, one by one: the load of the packed
  index, the look at the status, and \<open>fetch_add\<close>, which takes whatever index it finds.
\<close>

definition load_validation :: "scheduler \<Rightarrow> txn_index option" where
  "load_validation s =
     (let (idx_to_validate, w) = unpack_validation_idx (validation_idx s)
      in if idx_to_validate \<ge> num_txns s then None else Some idx_to_validate)"

definition take_validation :: "incarnation \<Rightarrow> scheduler \<Rightarrow> (version \<times> wave) \<times> scheduler" where
  "take_validation inc s =
     (let (idx_to_validate, w) = unpack_validation_idx (validation_idx s)
      in (((idx_to_validate, inc), w), s\<lparr>validation_idx := validation_idx s + 1\<rparr>))"

lemma try_validate_accesses:
  "try_validate_next_version True fin s =
     (case load_validation s of
        None \<Rightarrow> (None, True, s)
      | Some idx \<Rightarrow>
          (case is_executed idx False s of
             None \<Rightarrow> (None, fin, s)
           | Some inc \<Rightarrow> (case take_validation inc s of (task, s') \<Rightarrow> (Some task, fin, s'))))"
  by (auto simp: try_validate_next_version_def load_validation_def take_validation_def split: prod.split option.split)

definition recv :: "txn_index list \<Rightarrow> txn_index option \<times> txn_index list" where
  "recv q = (case q of [] \<Rightarrow> (None, []) | x # q' \<Rightarrow> (Some x, q'))"

definition try_exec :: "scheduler \<Rightarrow> (scheduler_task \<times> scheduler) option" where
  "try_exec s =
     (let from_channel = (\<lambda>s.
        (case recv (channels s) of
           (None, _) \<Rightarrow> Some (NoTask, s)
         | (Some tx, q) \<Rightarrow>
             (case try_execute_next_version tx (s\<lparr>channels := q\<rparr>) of
                None \<Rightarrow> None
              | Some (Some (ver, cv), s') \<Rightarrow> Some (ExecutionTask ver cv, s')
              | Some (None, s') \<Rightarrow> Some (NoTask, s'))))
      in case recv (priochannels s) of
           (None, _) \<Rightarrow> from_channel s
         | (Some tx, q) \<Rightarrow>
             (case try_execute_next_version tx (s\<lparr>priochannels := q\<rparr>) of
                None \<Rightarrow> None
              | Some (Some (ver, cv), s') \<Rightarrow> Some (ExecutionTask ver cv, s')
              | Some (None, s') \<Rightarrow> from_channel s'))"

definition next_task :: "bool \<Rightarrow> bool \<Rightarrow> scheduler \<Rightarrow> (scheduler_task \<times> bool \<times> scheduler) option" where
  "next_task got_lock finished_val_flag s =
     (if finished_val_flag \<and> done_marker s then Some (Done, finished_val_flag, s)
      else
       (case try_exec s of
          None \<Rightarrow> None
        | Some (ex, s1) \<Rightarrow>
            if ex = NoTask \<and> \<not> finished_val_flag
            then (case try_validate_next_version got_lock finished_val_flag s1 of
                    (Some (ver, w), finished, s2) \<Rightarrow> Some (ValidationTask ver w, finished, s2)
                  | (None, finished, s2) \<Rightarrow> Some (ex, finished, s2))
            else Some (ex, finished_val_flag, s1)))"

section \<open>Effect on the fields\<close>

lemma exec_status_set_exec [simp]:
  "exec_status (set_exec_status i st s) j =
     (if j = i \<and> i < length (txn_status s) then st else exec_status s j)"
  by (auto simp: exec_status_def set_exec_status_def list_update_beyond)

lemma val_status_set_exec [simp]: "val_status (set_exec_status i st s) j = val_status s j"
  by (cases "i < length (txn_status s)"; cases "i = j")
     (auto simp: val_status_def set_exec_status_def list_update_beyond)

lemma exec_status_set_val [simp]: "exec_status (set_val_status i vs s) j = exec_status s j"
  by (cases "i < length (txn_status s)"; cases "i = j")
     (auto simp: exec_status_def set_val_status_def list_update_beyond)

lemma val_status_set_val [simp]:
  "val_status (set_val_status i vs s) j =
     (if j = i \<and> i < length (txn_status s) then vs else val_status s j)"
  by (auto simp: val_status_def set_val_status_def list_update_beyond)

lemma set_status_fields [simp]:
  "num_txns (set_exec_status i st s) = num_txns s"
  "hint_graph (set_exec_status i st s) = hint_graph s"
  "children (set_exec_status i st s) = children s"
  "channels (set_exec_status i st s) = channels s"
  "priochannels (set_exec_status i st s) = priochannels s"
  "critical_path_parent (set_exec_status i st s) = critical_path_parent s"
  "validation_idx (set_exec_status i st s) = validation_idx s"
  "done_marker (set_exec_status i st s) = done_marker s"
  "length (txn_status (set_exec_status i st s)) = length (txn_status s)"
  "num_txns (set_val_status i vs s) = num_txns s"
  "hint_graph (set_val_status i vs s) = hint_graph s"
  "children (set_val_status i vs s) = children s"
  "channels (set_val_status i vs s) = channels s"
  "priochannels (set_val_status i vs s) = priochannels s"
  "critical_path_parent (set_val_status i vs s) = critical_path_parent s"
  "validation_idx (set_val_status i vs s) = validation_idx s"
  "done_marker (set_val_status i vs s) = done_marker s"
  "length (txn_status (set_val_status i vs s)) = length (txn_status s)"
  by (simp_all add: set_exec_status_def set_val_status_def)

lemma status_update_fields [simp]:
  "exec_status (s\<lparr>channels := q\<rparr>) i = exec_status s i"
  "exec_status (s\<lparr>priochannels := q\<rparr>) i = exec_status s i"
  "exec_status (s\<lparr>validation_idx := v\<rparr>) i = exec_status s i"
  "exec_status (s\<lparr>critical_path_parent := c\<rparr>) i = exec_status s i"
  "exec_status (s\<lparr>done_marker := b\<rparr>) i = exec_status s i"
  "val_status (s\<lparr>channels := q\<rparr>) i = val_status s i"
  "val_status (s\<lparr>priochannels := q\<rparr>) i = val_status s i"
  "val_status (s\<lparr>validation_idx := v\<rparr>) i = val_status s i"
  "val_status (s\<lparr>critical_path_parent := c\<rparr>) i = val_status s i"
  "val_status (s\<lparr>done_marker := b\<rparr>) i = val_status s i"
  by (simp_all add: exec_status_def val_status_def)

lemma status_eq_iff:
  "status_eq a (Executing inc) \<longleftrightarrow> a = Executing inc"
  "status_eq a (Executed inc) \<longleftrightarrow> a = Executed inc"
  "status_eq a (Aborting inc) \<longleftrightarrow> a = Aborting inc"
  "status_eq a (Committed inc) \<longleftrightarrow> a = Committed inc"
  by (cases a; simp)+

section \<open>The packed validation index\<close>

lemma unpack_nat:
  "unpack_validation_idx v = (unat v mod 2 ^ 32, snd (unpack_validation_idx v))"
  "unat (snd (unpack_validation_idx v)) = unat v div 2 ^ 32"
proof -
  have mask: "TXN_IDX_MASK = mask 32"
    by (simp add: TXN_IDX_MASK_def mask_eq_exp_minus_1 push_bit_eq_mult)
  have "unat (v AND TXN_IDX_MASK) = unat v mod 2 ^ 32"
    unfolding mask take_bit_eq_mask [symmetric] unsigned_take_bit_eq by (simp add: take_bit_eq_mod)
  then show "unpack_validation_idx v = (unat v mod 2 ^ 32, snd (unpack_validation_idx v))"
    by (simp add: unpack_validation_idx_def)
  have "unat v div 2 ^ 32 < 2 ^ 32"
    using unsigned_less [of v, where 'a = nat] by (simp add: less_mult_imp_div_less)
  then show "unat (snd (unpack_validation_idx v)) = unat v div 2 ^ 32"
    by (simp add: unpack_validation_idx_def unsigned_ucast_eq unsigned_drop_bit_eq)
       (simp add: take_bit_nat_eq_self drop_bit_eq_div)
qed

lemma unpack_index_bound: "fst (unpack_validation_idx v) < 2 ^ 32"
  by (subst unpack_nat(1)) simp

lemma unpack_succ:
  assumes "unpack_validation_idx v = (i, w)" "i + 1 < 2 ^ 32"
  shows "unpack_validation_idx (v + 1) = (i + 1, w)"
proof -
  have i: "unat v mod 2 ^ 32 = i" and w: "unat w = unat v div 2 ^ 32"
    using assms(1) unpack_nat [of v] by auto
  have "unat v \<noteq> 2 ^ 64 - 1"
  proof
    assume "unat v = 2 ^ 64 - 1"
    with i assms(2) show False by simp
  qed
  moreover have "unat v < 2 ^ 64" using unsigned_less [of v, where 'a = nat] by simp
  ultimately have "unat v + 1 < 2 ^ 64" by simp
  then have v1: "unat (v + 1) = unat v + 1" by (simp add: unat_plus_if')
  have "(unat v + 1) mod 2 ^ 32 = i + 1 \<and> (unat v + 1) div 2 ^ 32 = unat v div 2 ^ 32"
    using i assms(2) by (simp add: mod_Suc div_Suc)
  then show ?thesis
    using unpack_nat [of "v + 1"] v1 w by (metis prod.collapse prod.inject word_unat_eq_iff)
qed

lemma unpack_pack:
  assumes "target < 2 ^ 32"
  shows "unpack_validation_idx (pack_validation_idx target w) = (target, w + 1)"
proof -
  let ?t = "of_nat target :: u64"
  have mask: "TXN_IDX_MASK = mask 32"
    by (simp add: TXN_IDX_MASK_def mask_eq_exp_minus_1 push_bit_eq_mult)
  have t: "unat ?t = target" using assms by (simp add: unat_of_nat)
  have "unat (pack_validation_idx target w AND TXN_IDX_MASK) = target"
    unfolding mask take_bit_eq_mask [symmetric] pack_validation_idx_def
    using assms t by (simp add: take_bit_push_bit unsigned_take_bit_eq take_bit_nat_eq_self)
  moreover have "unat (drop_bit 32 ?t) = 0"
    using assms t by (simp only: unsigned_drop_bit_eq) (simp add: take_bit_nat_eq_self drop_bit_eq_div)
  then have zero: "drop_bit 32 ?t = 0" by (simp only: unat_eq_zero)
  have "drop_bit 32 (pack_validation_idx target w) = drop_bit 32 (push_bit 32 (ucast w + 1))"
    by (simp only: pack_validation_idx_def drop_bit_or zero or.left_neutral)
  moreover have "ucast (drop_bit 32 (push_bit 32 (x::u64))) = (ucast x :: u32)" for x
    by (rule bit_word_eqI) (auto simp: bit_simps)
  moreover have "uint w mod 2 ^ 64 = uint w" using uint_lt2p [of w] by simp
  then have "(ucast (ucast w + 1 :: u64) :: u32) = w + 1"
    by (simp add: unsigned_ucast_eq word_uint_eq_iff uint_word_ariths take_bit_eq_mod mod_mod_cancel)
  ultimately show ?thesis by (simp add: unpack_validation_idx_def)
qed

section \<open>Well-formed schedulers\<close>

definition hint_deps :: "scheduler \<Rightarrow> txn_index \<Rightarrow> txn_index set" where
  "hint_deps s i = unat ` set (hint_graph s ! i)"

text \<open>
  Indices stay in range and hints point to lower transactions, as the block filler emits them.
\<close>

definition sched_wf :: "scheduler \<Rightarrow> bool" where
  "sched_wf s \<longleftrightarrow> num_txns s < 2 ^ 32 - 1
     \<and> length (txn_status s) = num_txns s \<and> length (children s) = num_txns s
     \<and> length (critical_path_parent s) = num_txns s \<and> num_txns s \<le> length (hint_graph s)
     \<and> (\<forall>i < num_txns s. \<forall>d \<in> hint_deps s i. d < i)
     \<and> (\<forall>d < num_txns s. \<forall>x \<in> set (critical_path_parent s ! d). x < num_txns s)"

text \<open>
  Operations that only register waiters and start executions: the static fields and the
  channels are kept and the waiting lists grow.
\<close>

definition registers :: "scheduler \<Rightarrow> scheduler \<Rightarrow> bool" where
  "registers s s' \<longleftrightarrow> num_txns s' = num_txns s \<and> hint_graph s' = hint_graph s
     \<and> children s' = children s \<and> channels s' = channels s \<and> priochannels s' = priochannels s
     \<and> validation_idx s' = validation_idx s \<and> done_marker s' = done_marker s
     \<and> length (critical_path_parent s') = length (critical_path_parent s)
     \<and> (\<forall>d < num_txns s. set (critical_path_parent s ! d) \<subseteq> set (critical_path_parent s' ! d))
     \<and> (\<forall>j. val_status s' j = val_status s j)"

lemma registers_refl [simp]: "registers s s"
  by (simp add: registers_def)

lemma registers_trans: "registers s s' \<Longrightarrow> registers s' s'' \<Longrightarrow> registers s s''"
  unfolding registers_def by (metis subset_trans)

lemma push_child_spec:
  assumes "sched_wf s" "d < num_txns s" "i < num_txns s"
  shows "\<exists>s'. push_child d i s = Some s' \<and> sched_wf s' \<and> registers s s'
     \<and> txn_status s' = txn_status s \<and> i \<in> set (critical_path_parent s' ! d)"
  using assms
  by (auto simp: push_child_def sched_wf_def registers_def hint_deps_def val_status_def nth_list_update)

lemma is_executed_status:
  "txn_status s' = txn_status s \<Longrightarrow> is_executed i b s' = is_executed i b s"
  by (simp add: is_executed_def exec_status_def)

definition unexecuted :: "scheduler \<Rightarrow> txn_index \<Rightarrow> bool" where
  "unexecuted s i \<longleftrightarrow> is_executed i True s = None"

text \<open>A transaction waits on a hinted dependency that has not been executed.\<close>

definition waits :: "scheduler \<Rightarrow> txn_index \<Rightarrow> bool" where
  "waits s i \<longleftrightarrow> (\<exists>d \<in> hint_deps s i. unexecuted s d \<and> i \<in> set (critical_path_parent s ! d))"

lemma hint_dep_less:
  assumes "sched_wf s" "i < num_txns s" "d \<in> hint_deps s i"
  shows "d < i" "d < num_txns s"
proof -
  show "d < i" using assms by (simp add: sched_wf_def)
  with assms(2) show "d < num_txns s" by simp
qed

lemma check_dependencies_spec:
  assumes "sched_wf s" "i < num_txns s" "set deps \<subseteq> hint_deps s i"
  shows "\<exists>b s'. check_dependencies i deps s = Some (b, s') \<and> sched_wf s' \<and> registers s s'
     \<and> txn_status s' = txn_status s \<and> (b \<longrightarrow> (\<forall>d \<in> set deps. \<not> unexecuted s d)) \<and> (\<not> b \<longrightarrow> waits s' i)"
  using assms
proof (induction deps)
  case Nil
  then show ?case by auto
next
  case (Cons d deps)
  have d: "d \<in> hint_deps s i" "d < num_txns s"
    using Cons.prems hint_dep_less by auto
  show ?case
  proof (cases "is_executed d True s")
    case (Some inc)
    with Cons show ?thesis by (auto simp: unexecuted_def)
  next
    case None
    obtain s' where s': "push_child d i s = Some s'" "sched_wf s'" "registers s s'"
      "txn_status s' = txn_status s" "i \<in> set (critical_path_parent s' ! d)"
      using push_child_spec [OF Cons.prems(1) d(2) Cons.prems(2)] by blast
    have n: "is_executed d True s' = None"
      using None is_executed_status [OF s'(4)] by simp
    moreover have "waits s' i"
      using n d(1) s'(3,5) by (auto simp: waits_def unexecuted_def hint_deps_def registers_def)
    ultimately show ?thesis using None s' by auto
  qed
qed

lemma sched_wf_set_exec [simp]: "sched_wf (set_exec_status i st s) = sched_wf s"
  by (simp add: sched_wf_def hint_deps_def)

lemma sched_wf_set_val [simp]: "sched_wf (set_val_status i st s) = sched_wf s"
  by (simp add: sched_wf_def hint_deps_def)

lemma registers_set_exec: "registers s s' \<Longrightarrow> registers s (set_exec_status i st s')"
  by (simp add: registers_def)

text \<open>What an attempt to start transaction \<open>i\<close> does: it starts it, or leaves it registered.\<close>

lemma try_incarnate_spec:
  assumes "sched_wf s" "i < num_txns s"
  obtains (started) inc cv s' where "try_incarnate i s = Some (Some (inc, cv), s')" "sched_wf s'"
      "registers s s'" "exec_status s i = ReadyToExecute inc cv"
      "\<forall>d \<in> hint_deps s i. \<not> unexecuted s d"
      "\<And>j. exec_status s' j = (if j = i then Executing inc else exec_status s j)"
  | (refused) s' where "try_incarnate i s = Some (None, s')" "sched_wf s'" "registers s s'"
      "\<And>j. exec_status s' j = exec_status s j"
      "\<And>inc cv. exec_status s i = ReadyToExecute inc cv \<Longrightarrow> waits s' i"
proof (cases "\<exists>inc cv. exec_status s i = ReadyToExecute inc cv")
  case False
  then have "try_incarnate i s = Some (None, s)"
    by (auto simp: try_incarnate_def split: execution_status.split)
  with False assms show ?thesis by (intro refused) auto
next
  case True
  then obtain inc cv where st: "exec_status s i = ReadyToExecute inc cv" by blast
  have len: "\<not> length (txn_status s) \<le> i" using assms by (simp add: sched_wf_def)
  let ?deps = "rev (map unat (hint_graph s ! i))"
  obtain b s1 where chk: "check_dependencies i ?deps s = Some (b, s1)" "sched_wf s1" "registers s s1"
      "txn_status s1 = txn_status s" "b \<longrightarrow> (\<forall>d \<in> set ?deps. \<not> unexecuted s d)" "\<not> b \<longrightarrow> waits s1 i"
    using check_dependencies_spec [OF assms, of ?deps] by (auto simp: hint_deps_def)
  have same: "exec_status s1 j = exec_status s j" for j using chk(4) by (simp add: exec_status_def)
  show ?thesis
  proof (cases b)
    case True
    show ?thesis
    proof (rule started)
      show "try_incarnate i s = Some (Some (inc, cv), set_exec_status i (Executing inc) s1)"
        using chk(1) st len True by (simp add: try_incarnate_def)
      show "\<forall>d \<in> hint_deps s i. \<not> unexecuted s d" using chk(5) True by (auto simp: hint_deps_def)
      show "exec_status (set_exec_status i (Executing inc) s1) j =
          (if j = i then Executing inc else exec_status s j)" for j
        using chk(4) len same by auto
    qed (use chk st in \<open>simp_all add: registers_set_exec\<close>)
  next
    case False
    then have "try_incarnate i s = Some (None, s1)"
      using chk(1) st len by (simp add: try_incarnate_def)
    with chk same False show ?thesis by (intro refused) auto
  qed
qed

end
