(* ===== verification/SchedulerContracts.thy ===== *)
theory SchedulerContracts
  imports Scheduler
begin

text \<open>
  What the methods of the scheduler keep. No transaction that is ready to execute is ever lost:
  it is in one of the channels, or registered with a dependency that has still to execute and
  will hand it on. Every method is total on well-formed states and starts at most the execution
  it returns.
\<close>

section \<open>No transaction is lost\<close>

text \<open>
  A transaction that is ready to execute sits in a channel or waits on an unexecuted dependency;
  \<open>X\<close> collects those a method in progress still has to place.
\<close>

definition tracked :: "scheduler \<Rightarrow> txn_index \<Rightarrow> bool" where
  "tracked s i \<longleftrightarrow> i \<in> set (channels s) \<or> i \<in> set (priochannels s) \<or> waits s i"

definition no_lost :: "txn_index set \<Rightarrow> scheduler \<Rightarrow> bool" where
  "no_lost X s \<longleftrightarrow>
     (\<forall>i < num_txns s. \<forall>inc cv. exec_status s i = ReadyToExecute inc cv \<longrightarrow> tracked s i \<or> i \<in> X)"

definition no_condvars :: "scheduler \<Rightarrow> bool" where
  "no_condvars s \<longleftrightarrow> (\<forall>i < num_txns s. \<forall>inc cv.
     exec_status s i \<noteq> Suspended inc cv \<and> exec_status s i \<noteq> ReadyToExecute inc (Some cv))"

lemma waits_registers:
  assumes "registers s s'" "sched_wf s" "i < num_txns s" "waits s i"
    "\<And>d. unexecuted s d \<Longrightarrow> unexecuted s' d"
  shows "waits s' i"
proof -
  obtain d where d: "d \<in> hint_deps s i" "unexecuted s d" "i \<in> set (critical_path_parent s ! d)"
    using assms(4) by (auto simp: waits_def)
  have "d < num_txns s" using hint_dep_less [OF assms(2,3) d(1)] by simp
  then have "i \<in> set (critical_path_parent s' ! d)"
    using assms(1) d(3) by (auto simp: registers_def)
  with d assms(1,5) show ?thesis
    by (auto simp: waits_def hint_deps_def registers_def)
qed

lemma tracked_registers:
  assumes "registers s s'" "sched_wf s" "i < num_txns s" "tracked s i"
    "\<And>d. unexecuted s d \<Longrightarrow> unexecuted s' d"
  shows "tracked s' i"
  using assms waits_registers [OF assms(1-3) _ assms(5)]
  by (auto simp: tracked_def registers_def)

lemma unexecuted_iff:
  "sched_wf s \<Longrightarrow> d < num_txns s \<Longrightarrow>
     unexecuted s d \<longleftrightarrow> \<not> (\<exists>inc. exec_status s d = Executed inc \<or> exec_status s d = Committed inc)"
  by (auto simp: unexecuted_def is_executed_def sched_wf_def split: execution_status.split)

lemma unexecuted_cong:
  "length (txn_status s') = length (txn_status s) \<Longrightarrow> exec_status s' d = exec_status s d \<Longrightarrow>
     unexecuted s' d = unexecuted s d"
  by (simp add: unexecuted_def is_executed_def)

lemma no_lost_registers:
  assumes "registers s s'" "sched_wf s" "no_lost X s" "\<And>d. unexecuted s d \<Longrightarrow> unexecuted s' d"
    and new: "\<And>j inc cv. j < num_txns s \<Longrightarrow> exec_status s' j = ReadyToExecute inc cv \<Longrightarrow>
      exec_status s j = ReadyToExecute inc cv \<and> (j \<in> X \<longrightarrow> tracked s' j \<or> j \<in> Y)"
  shows "no_lost Y s'"
  unfolding no_lost_def
proof (intro allI impI)
  fix j inc cv assume j: "j < num_txns s'" "exec_status s' j = ReadyToExecute inc cv"
  then have n: "j < num_txns s" using assms(1) by (simp add: registers_def)
  have st: "exec_status s j = ReadyToExecute inc cv" "j \<in> X \<longrightarrow> tracked s' j \<or> j \<in> Y"
    using new [OF n j(2)] by simp_all
  have "tracked s j \<or> j \<in> X" using assms(3) n st(1) unfolding no_lost_def by blast
  then show "tracked s' j \<or> j \<in> Y"
    using tracked_registers [OF assms(1,2) n _ assms(4)] st(2) by blast
qed

lemma try_incarnate_no_lost:
  assumes wf: "sched_wf s" "i < num_txns s" and inv: "no_lost X s" "no_condvars s"
  shows "\<exists>r s'. try_incarnate i s = Some (r, s') \<and> sched_wf s' \<and> registers s s'
     \<and> no_lost (X - {i}) s' \<and> no_condvars s'
     \<and> (\<forall>j. j \<noteq> i \<longrightarrow> exec_status s' j = exec_status s j)
     \<and> (case r of
          None \<Rightarrow> exec_status s' i = exec_status s i
        | Some (inc, cv) \<Rightarrow> cv = None \<and> exec_status s i = ReadyToExecute inc None
                          \<and> exec_status s' i = Executing inc)"
proof (rule try_incarnate_spec [OF wf])
  fix inc cv s'
  assume *: "try_incarnate i s = Some (Some (inc, cv), s')" "sched_wf s'"
      "registers s s'" "exec_status s i = ReadyToExecute inc cv"
      "\<forall>d \<in> hint_deps s i. \<not> unexecuted s d"
      "\<And>j. exec_status s' j = (if j = i then Executing inc else exec_status s j)"
  have n: "num_txns s' = num_txns s" using *(3) by (simp add: registers_def)
  have len: "length (txn_status s') = length (txn_status s)"
    using wf(1) *(2) n by (simp add: sched_wf_def)
  have un: "unexecuted s' d" if "unexecuted s d" for d
  proof (cases "d = i")
    case True
    then show ?thesis using *(6) [of d] by (simp add: unexecuted_def is_executed_def)
  next
    case False
    then show ?thesis using that *(6) [of d] unexecuted_cong [OF len, of d] by simp
  qed
  have cv: "cv = None" using inv(2) wf(2) *(4) by (cases cv) (auto simp: no_condvars_def)
  have "no_lost (X - {i}) s'"
  proof (rule no_lost_registers [OF *(3) wf(1) inv(1) un])
    fix j inc' cv' assume "exec_status s' j = ReadyToExecute inc' cv'"
    then show "exec_status s j = ReadyToExecute inc' cv' \<and> (j \<in> X \<longrightarrow> tracked s' j \<or> j \<in> X - {i})"
      using *(6) [of j] by (cases "j = i") simp_all
  qed
  moreover have "no_condvars s'"
    using inv(2) *(6) by (auto simp: no_condvars_def n)
  ultimately show ?thesis
    using *(1-4,6) cv by auto
next
  fix s'
  assume *: "try_incarnate i s = Some (None, s')" "sched_wf s'" "registers s s'"
      "\<And>j. exec_status s' j = exec_status s j"
      "\<And>inc cv. exec_status s i = ReadyToExecute inc cv \<Longrightarrow> waits s' i"
  have n: "num_txns s' = num_txns s" using *(3) by (simp add: registers_def)
  have len: "length (txn_status s') = length (txn_status s)"
    using wf(1) *(2) n by (simp add: sched_wf_def)
  have "no_lost (X - {i}) s'"
  proof (rule no_lost_registers [OF *(3) wf(1) inv(1)])
    show "unexecuted s d \<Longrightarrow> unexecuted s' d" for d using *(4) len unexecuted_cong by blast
    fix j inc' cv' assume "exec_status s' j = ReadyToExecute inc' cv'"
    then show "exec_status s j = ReadyToExecute inc' cv' \<and> (j \<in> X \<longrightarrow> tracked s' j \<or> j \<in> X - {i})"
      using *(4,5) by (cases "j = i") (simp_all add: tracked_def)
  qed
  moreover have "no_condvars s'"
    using inv(2) by (simp add: no_condvars_def n *(4))
  ultimately show ?thesis using *(1-4) by auto
qed

section \<open>Contracts of the scheduler's methods\<close>

text \<open>
  \<open>good X s\<close>: the state is well formed and only the transactions of \<open>X\<close> are still to be placed.
  \<open>starts t s s'\<close>: the method started the execution that the task \<open>t\<close> names, and nothing else.
  \<open>frame s s'\<close>: the fields no placement touches.
\<close>

definition good :: "txn_index set \<Rightarrow> scheduler \<Rightarrow> bool" where
  "good X s \<longleftrightarrow> sched_wf s \<and> no_lost X s \<and> no_condvars s"

definition starts :: "scheduler_task \<Rightarrow> scheduler \<Rightarrow> scheduler \<Rightarrow> bool" where
  "starts t s s' \<longleftrightarrow>
     (t = NoTask \<and> exec_status s' = exec_status s) \<or>
     (\<exists>j inc. t = ExecutionTask (j, inc) None \<and> j < num_txns s
        \<and> exec_status s j = ReadyToExecute inc None
        \<and> exec_status s' = (exec_status s)(j := Executing inc))"

definition frame :: "scheduler \<Rightarrow> scheduler \<Rightarrow> bool" where
  "frame s s' \<longleftrightarrow> num_txns s' = num_txns s \<and> hint_graph s' = hint_graph s
     \<and> children s' = children s \<and> validation_idx s' = validation_idx s
     \<and> done_marker s' = done_marker s \<and> (\<forall>k. val_status s' k = val_status s k)"

fun task_of :: "(version \<times> condvar option) option \<Rightarrow> scheduler_task" where
  "task_of None = NoTask"
| "task_of (Some (ver, cv)) = ExecutionTask ver cv"

lemma frame_refl [simp]: "frame s s"
  by (simp add: frame_def)

lemma frame_trans: "frame s s' \<Longrightarrow> frame s' s'' \<Longrightarrow> frame s s''"
  by (simp add: frame_def)

lemma frame_updates [simp]:
  "frame s (s\<lparr>channels := q\<rparr>)" "frame s (s\<lparr>priochannels := q\<rparr>)"
  by (simp_all add: frame_def)

lemma registers_frame: "registers s s' \<Longrightarrow> frame s s'"
  by (simp add: registers_def frame_def)

lemma starts_refl [simp]: "starts NoTask s s"
  by (simp add: starts_def)

lemma starts_after:
  assumes "exec_status s' = exec_status s" "num_txns s' = num_txns s" "starts t s' s''"
  shows "starts t s s''"
  using assms by (simp add: starts_def)

lemma sched_wf_updates [simp]:
  "sched_wf (s\<lparr>channels := q\<rparr>) = sched_wf s" "sched_wf (s\<lparr>priochannels := q\<rparr>) = sched_wf s"
  "sched_wf (s\<lparr>validation_idx := v\<rparr>) = sched_wf s" "sched_wf (s\<lparr>done_marker := b\<rparr>) = sched_wf s"
  by (simp_all add: sched_wf_def hint_deps_def)

lemma unexecuted_updates [simp]:
  "unexecuted (s\<lparr>channels := q\<rparr>) = unexecuted s" "unexecuted (s\<lparr>priochannels := q\<rparr>) = unexecuted s"
  "unexecuted (s\<lparr>validation_idx := v\<rparr>) = unexecuted s" "unexecuted (s\<lparr>done_marker := b\<rparr>) = unexecuted s"
  by (simp_all add: unexecuted_def is_executed_def fun_eq_iff)

lemma waits_updates [simp]:
  "waits (s\<lparr>channels := q\<rparr>) = waits s" "waits (s\<lparr>priochannels := q\<rparr>) = waits s"
  "waits (s\<lparr>validation_idx := v\<rparr>) = waits s" "waits (s\<lparr>done_marker := b\<rparr>) = waits s"
  by (simp_all add: waits_def hint_deps_def fun_eq_iff)

lemma no_condvars_updates [simp]:
  "no_condvars (s\<lparr>channels := q\<rparr>) = no_condvars s" "no_condvars (s\<lparr>priochannels := q\<rparr>) = no_condvars s"
  "no_condvars (s\<lparr>validation_idx := v\<rparr>) = no_condvars s" "no_condvars (s\<lparr>done_marker := b\<rparr>) = no_condvars s"
  by (simp_all add: no_condvars_def)

lemma no_lost_updates [simp]:
  "no_lost X (s\<lparr>validation_idx := v\<rparr>) = no_lost X s" "no_lost X (s\<lparr>done_marker := b\<rparr>) = no_lost X s"
  by (simp_all add: no_lost_def tracked_def)

lemma good_updates [simp]:
  "good X (s\<lparr>validation_idx := v\<rparr>) = good X s" "good X (s\<lparr>done_marker := b\<rparr>) = good X s"
  by (simp_all add: good_def)

lemma good_send:
  assumes "good X s"
  shows "good (X - {tx}) (s\<lparr>channels := channels s @ [tx]\<rparr>)"
    "good (X - {tx}) (s\<lparr>priochannels := priochannels s @ [tx]\<rparr>)"
  using assms unfolding good_def by (auto simp: no_lost_def tracked_def)

lemma good_recv:
  assumes "good {} s"
  shows "channels s = tx # q \<Longrightarrow> good {tx} (s\<lparr>channels := q\<rparr>)"
    "priochannels s = tx # q \<Longrightarrow> good {tx} (s\<lparr>priochannels := q\<rparr>)"
  using assms unfolding good_def by (auto simp: no_lost_def tracked_def)

lemma good_try_incarnate:
  assumes "good X s" "i < num_txns s"
  shows "\<exists>r s'. try_incarnate i s = Some (r, s') \<and> good (X - {i}) s' \<and> frame s s'
     \<and> starts (task_of (map_option (\<lambda>(inc, cv). ((i, inc), cv)) r)) s s'"
proof -
  have wf: "sched_wf s" "no_lost X s" "no_condvars s" using assms(1) by (simp_all add: good_def)
  obtain r s' where *: "try_incarnate i s = Some (r, s')" "sched_wf s'" "registers s s'"
     "no_lost (X - {i}) s'" "no_condvars s'" "\<forall>j. j \<noteq> i \<longrightarrow> exec_status s' j = exec_status s j"
     "case r of
          None \<Rightarrow> exec_status s' i = exec_status s i
        | Some (inc, cv) \<Rightarrow> cv = None \<and> exec_status s i = ReadyToExecute inc None
                          \<and> exec_status s' i = Executing inc"
    using try_incarnate_no_lost [OF wf(1) assms(2) wf(2,3)] by blast
  have "starts (task_of (map_option (\<lambda>(inc, cv). ((i, inc), cv)) r)) s s'"
  proof -
    have upd: "exec_status s' = (exec_status s)(i := exec_status s' i)"
      using *(6) by (auto simp: fun_eq_iff)
    show ?thesis
    proof (cases r)
      case None
      with *(7) have "exec_status s' i = exec_status s i" by simp
      with upd have "exec_status s' = exec_status s" by simp
      with None show ?thesis by (simp add: starts_def)
    next
      case (Some a)
      with *(7) upd assms(2) show ?thesis by (cases a) (auto simp: starts_def)
    qed
  qed
  with * show ?thesis by (auto simp: good_def registers_frame)
qed

lemma good_try_execute:
  assumes "good X s"
  shows "\<exists>r s'. try_execute_next_version i s = Some (r, s') \<and> good (X - {i}) s' \<and> frame s s'
     \<and> starts (task_of r) s s'"
proof (cases "i < num_txns s")
  case True
  then show ?thesis
    using good_try_incarnate [OF assms True] by (auto simp: try_execute_next_version_def)
next
  case False
  moreover from False assms have "good (X - {i}) s"
    by (auto simp: good_def no_lost_def)
  ultimately show ?thesis by (simp add: try_execute_next_version_def)
qed

lemma good_mono: "good X s \<Longrightarrow> X \<subseteq> Y \<Longrightarrow> good Y s"
  by (auto simp: good_def no_lost_def)

lemma frame_num: "frame s s' \<Longrightarrow> num_txns s' = num_txns s"
  by (simp add: frame_def)

lemma good_notify_children:
  assumes "good (set txs) s" "\<forall>x \<in> set txs. x < num_txns s" "\<not> got_next \<longrightarrow> nxt = NoTask"
  shows "\<exists>nxt' g s'. notify_children txs (nxt, got_next) s = Some ((nxt', g), s')
     \<and> good {} s' \<and> frame s s'
     \<and> (if got_next then nxt' = nxt \<and> exec_status s' = exec_status s else starts nxt' s s')"
  using assms
proof (induction txs arbitrary: nxt got_next s)
  case Nil
  then show ?case by auto
next
  case (Cons tx txs)
  have ch: "\<not> length (children s) \<le> tx" using Cons.prems by (simp add: good_def sched_wf_def)
  have sub: "set (tx # txs) - {tx} \<subseteq> set txs" by auto
  note sent = good_mono [OF good_send(1) [OF Cons.prems(1), of tx] sub]
    good_mono [OF good_send(2) [OF Cons.prems(1), of tx] sub]
  have same: "exec_status (s\<lparr>channels := q\<rparr>) = exec_status s"
    "exec_status (s\<lparr>priochannels := q\<rparr>) = exec_status s" for q
    by (simp_all add: fun_eq_iff)
  let ?q = "s\<lparr>channels := channels s @ [tx]\<rparr>" and ?p = "s\<lparr>priochannels := priochannels s @ [tx]\<rparr>"
  consider (leaf) "children s ! tx = []" | (inner) "children s ! tx \<noteq> []" "\<not> got_next"
    | (queue) "children s ! tx \<noteq> []" got_next
    by blast
  then show ?case
  proof cases
    case leaf
    from Cons.IH [OF sent(1) _ Cons.prems(3)] Cons.prems(2)
    obtain nxt' g s' where "notify_children txs (nxt, got_next) ?q = Some ((nxt', g), s')"
      "good {} s'" "frame ?q s'"
      "if got_next then nxt' = nxt \<and> exec_status s' = exec_status ?q else starts nxt' ?q s'"
      by auto
    with leaf ch frame_trans [OF frame_updates(1)] starts_after [OF same(1)] show ?thesis
      by (auto simp: same split: if_splits)
  next
    case queue
    from Cons.IH [OF sent(2) _ Cons.prems(3)] Cons.prems(2)
    obtain nxt' g s' where "notify_children txs (nxt, got_next) ?p = Some ((nxt', g), s')"
      "good {} s'" "frame ?p s'"
      "if got_next then nxt' = nxt \<and> exec_status s' = exec_status ?p else starts nxt' ?p s'"
      by auto
    with queue ch frame_trans [OF frame_updates(2)] show ?thesis
      by (auto simp: same)
  next
    case inner
    obtain r s1 where r: "try_execute_next_version tx s = Some (r, s1)"
      "good (set (tx # txs) - {tx}) s1" "frame s s1" "starts (task_of r) s s1"
      using good_try_execute [OF Cons.prems(1)] by blast
    note g1 = good_mono [OF r(2) sub]
    have n1: "\<forall>x \<in> set txs. x < num_txns s1" using Cons.prems(2) frame_num [OF r(3)] by simp
    have nxt: "nxt = NoTask" using inner Cons.prems(3) by simp
    show ?thesis
    proof (cases r)
      case None
      with r have eq: "exec_status s1 = exec_status s" by (simp add: starts_def)
      obtain nxt' g s' where "notify_children txs (nxt, got_next) s1 = Some ((nxt', g), s')"
        "good {} s'" "frame s1 s'" "starts nxt' s1 s'"
        using Cons.IH [OF g1 n1 Cons.prems(3)] inner by auto
      with inner ch None r frame_trans [OF r(3)] starts_after [OF eq frame_num [OF r(3)]]
      show ?thesis by auto
    next
      case (Some a)
      then obtain ver cv where a: "r = Some (ver, cv)" by (cases a) auto
      obtain nxt' g s' where "notify_children txs (ExecutionTask ver cv, True) s1 = Some ((nxt', g), s')"
        "good {} s'" "frame s1 s'" "nxt' = ExecutionTask ver cv" "exec_status s' = exec_status s1"
        using Cons.IH [OF g1 n1, of True "ExecutionTask ver cv"] by auto
      with inner ch a r frame_trans [OF r(3)] show ?thesis by (auto simp: starts_def)
    qed
  qed
qed

lemma good_set_executed:
  assumes "good {} s" "i < num_txns s" "exec_status s i = Executing inc"
  shows "good (set (critical_path_parent s ! i)) (set_exec_status i (Executed inc) s)"
proof -
  let ?s = "set_exec_status i (Executed inc) s"
  have wf: "sched_wf s" and len: "i < length (txn_status s)" using assms by (auto simp: good_def sched_wf_def)
  have ex: "exec_status ?s = (exec_status s)(i := Executed inc)" using len by (auto simp: fun_eq_iff)
  have un: "d = i \<or> unexecuted ?s d" if "unexecuted s d" for d
    using that unexecuted_cong [of ?s s d] ex by (cases "d = i") auto
  have "no_lost (set (critical_path_parent s ! i)) ?s"
    unfolding no_lost_def
  proof (intro allI impI)
    fix j inc' cv assume j: "j < num_txns ?s" "exec_status ?s j = ReadyToExecute inc' cv"
    then have "tracked s j" using assms(1) ex by (auto simp: good_def no_lost_def split: if_splits)
    then show "tracked ?s j \<or> j \<in> set (critical_path_parent s ! i)"
      using un by (auto simp: tracked_def waits_def hint_deps_def)
  qed
  moreover have "no_condvars ?s"
    using assms(1) ex by (auto simp: good_def no_condvars_def)
  ultimately show ?thesis using wf by (simp add: good_def)
qed

lemma good_finish_execution:
  assumes "good {} s" "i < num_txns s" "exec_status s i = Executing inc"
  shows "\<exists>t s'. finish_execution i inc reval s = Some (t, s') \<and> good {} s' \<and> frame s s'
     \<and> starts t (set_exec_status i (Executed inc) s) s'"
proof -
  let ?s = "set_exec_status i (Executed inc) s"
  have wf: "i < length (txn_status s)" "i < length (critical_path_parent s)"
      "\<forall>x \<in> set (critical_path_parent s ! i). x < num_txns s"
    using assms by (auto simp: good_def sched_wf_def)
  have "set_executed_status i inc s = Some ?s"
    using wf assms(3) by (simp add: set_executed_status_def)
  moreover obtain t g s' where
      "notify_children (critical_path_parent s ! i) (NoTask, False) ?s = Some ((t, g), s')"
      "good {} s'" "frame ?s s'" "starts t ?s s'"
    using good_notify_children [OF good_set_executed [OF assms], of False NoTask] wf by auto
  moreover have "frame s ?s" by (simp add: frame_def)
  ultimately show ?thesis
    using wf frame_trans by (auto simp: finish_execution_def)
qed

lemma good_set_ready:
  assumes "good {} s" "i < num_txns s" "exec_status s i = Aborting inc"
  shows "good {i} (set_exec_status i (ReadyToExecute inc' None) s)"
proof -
  let ?s = "set_exec_status i (ReadyToExecute inc' None) s"
  have wf: "sched_wf s" and len: "i < length (txn_status s)" using assms by (auto simp: good_def sched_wf_def)
  have ex: "exec_status ?s = (exec_status s)(i := ReadyToExecute inc' None)"
    using len by (auto simp: fun_eq_iff)
  have un: "unexecuted ?s d" if "unexecuted s d" for d
    using that unexecuted_cong [of ?s s d] ex
    by (cases "d = i") (auto simp: unexecuted_def is_executed_def)
  have "no_lost {i} ?s"
    using assms(1) ex un by (auto simp: good_def no_lost_def tracked_def waits_def hint_deps_def)
  moreover have "no_condvars ?s"
    using assms(1) ex by (auto simp: good_def no_condvars_def)
  ultimately show ?thesis using wf by (simp add: good_def)
qed

lemma good_set_val [simp]: "good X (set_val_status i vs s) = good X s"
  by (simp add: good_def no_lost_def no_condvars_def tracked_def waits_def hint_deps_def
      unexecuted_def is_executed_def)

text \<open>What \<open>finish_abort\<close> leaves in the validation index.\<close>

definition lowered :: "txn_index \<Rightarrow> u64 \<Rightarrow> u64" where
  "lowered i v = (case unpack_validation_idx v of (idx, w) \<Rightarrow> if idx > i then pack_validation_idx i w else v)"

lemma decrease_validation_idx_state:
  "decrease_validation_idx i s = Some (w, s') \<Longrightarrow> s' = s\<lparr>validation_idx := lowered i (validation_idx s)\<rparr>"
  by (auto simp: decrease_validation_idx_def lowered_def split: prod.splits if_splits)

text \<open>The wave that lowering the validation index to \<open>i\<close> triggers, if there is room for one.\<close>

definition wave_room :: "txn_index \<Rightarrow> scheduler \<Rightarrow> bool" where
  "wave_room i s \<longleftrightarrow> (case unpack_validation_idx (validation_idx s) of (idx, w) \<Rightarrow> i < idx \<longrightarrow> uint w < 2 ^ 32 - 1)"

definition triggered :: "txn_index \<Rightarrow> scheduler \<Rightarrow> wave option" where
  "triggered i s = (case unpack_validation_idx (validation_idx s) of (idx, w) \<Rightarrow>
     if i < idx then Some (w + 1) else None)"

lemma decrease_validation_idx_room:
  "wave_room i s \<longleftrightarrow> decrease_validation_idx i s \<noteq> None"
  by (auto simp: wave_room_def decrease_validation_idx_def add_chk_def split: prod.split)

lemma decrease_validation_idx_eq:
  "wave_room i s \<Longrightarrow> decrease_validation_idx i s =
     Some (triggered i s, s\<lparr>validation_idx := lowered i (validation_idx s)\<rparr>)"
  by (auto simp: wave_room_def decrease_validation_idx_def triggered_def lowered_def add_chk_def split: prod.split)

lemma wave_room_set_exec [simp]: "wave_room i (set_exec_status j v s) = wave_room i s"
  by (simp add: wave_room_def)

lemma triggered_set_exec [simp]: "triggered i (set_exec_status j v s) = triggered i s"
  by (simp add: triggered_def)

lemma finish_abort_room: "finish_abort i inc s = Some r \<Longrightarrow> wave_room i s"
  using decrease_validation_idx_room [of i "set_exec_status i (ReadyToExecute (inc + 1) None) s"]
  by (auto simp: finish_abort_def set_aborted_status_def split: option.splits if_splits)

lemma good_finish_abort:
  assumes "good {} s" "i < num_txns s" "exec_status s i = Aborting inc" "wave_room i s"
  shows "\<exists>t s'. finish_abort i inc s = Some (t, s') \<and> good {} s'
     \<and> num_txns s' = num_txns s \<and> done_marker s' = done_marker s
     \<and> validation_idx s' = lowered i (validation_idx s)
     \<and> (\<forall>k. val_status s' k = (if k = i then case triggered i s of None \<Rightarrow> val_status s i
          | Some w \<Rightarrow> (val_status s i)\<lparr>max_triggered_wave := w\<rparr> else val_status s k))
     \<and> starts t (set_exec_status i (ReadyToExecute (inc + 1) None) s) s'"
proof -
  let ?s1 = "set_exec_status i (ReadyToExecute (inc + 1) None) s"
  let ?w = "triggered i s" and ?s2 = "?s1\<lparr>validation_idx := lowered i (validation_idx s)\<rparr>"
  have len: "i < length (txn_status s)" using assms by (auto simp: good_def sched_wf_def)
  have w: "decrease_validation_idx i ?s1 = Some (?w, ?s2)"
    using decrease_validation_idx_eq [of i ?s1] assms(4) by simp
  define s3 where "s3 = (case ?w of None \<Rightarrow> ?s2
      | Some wave \<Rightarrow> set_val_status i ((val_status ?s2 i)\<lparr>max_triggered_wave := wave\<rparr>) ?s2)"
  have g3: "good {i} s3" "i < num_txns s3"
    using good_set_ready [OF assms(1-3)] assms(2) by (auto simp: s3_def split: option.split)
  have f3: "exec_status s3 = exec_status ?s1" "num_txns s3 = num_txns ?s1"
    "validation_idx s3 = lowered i (validation_idx s)" "done_marker s3 = done_marker s"
    by (auto simp: s3_def fun_eq_iff split: option.split)
  have v3: "val_status s3 k = (if k = i then case ?w of None \<Rightarrow> val_status s i
          | Some w \<Rightarrow> (val_status s i)\<lparr>max_triggered_wave := w\<rparr> else val_status s k)" for k
    using len by (auto simp: s3_def split: option.split)
  obtain r s' where r: "try_incarnate i s3 = Some (r, s')" "good ({i} - {i}) s'" "frame s3 s'"
     "starts (task_of (map_option (\<lambda>(inc, cv). ((i, inc), cv)) r)) s3 s'"
    using good_try_incarnate [OF g3] by blast
  have "finish_abort i inc s = Some (task_of (map_option (\<lambda>(inc, cv). ((i, inc), cv)) r), s')"
    using len assms(3) w r(1) unfolding finish_abort_def set_aborted_status_def s3_def
    by (auto simp: Let_def split: option.split)
  moreover note starts_after [OF f3(1,2) r(4)]
  ultimately show ?thesis
    using r(2,3) f3 v3 unfolding frame_def by auto
qed

lemma good_from_channel:
  assumes "good {} s"
  shows "\<exists>t s'. (case recv (channels s) of
           (None, _) \<Rightarrow> Some (NoTask, s)
         | (Some tx, q) \<Rightarrow>
             (case try_execute_next_version tx (s\<lparr>channels := q\<rparr>) of
                None \<Rightarrow> None
              | Some (Some (ver, cv), s') \<Rightarrow> Some (ExecutionTask ver cv, s')
              | Some (None, s') \<Rightarrow> Some (NoTask, s'))) = Some (t, s')
       \<and> good {} s' \<and> frame s s' \<and> starts t s s'"
proof (cases "channels s")
  case Nil
  with assms show ?thesis by (simp add: recv_def)
next
  case (Cons tx q)
  have same: "exec_status (s\<lparr>channels := q\<rparr>) = exec_status s" by (simp add: fun_eq_iff)
  obtain r s' where r: "try_execute_next_version tx (s\<lparr>channels := q\<rparr>) = Some (r, s')"
     "good ({tx} - {tx}) s'" "frame (s\<lparr>channels := q\<rparr>) s'" "starts (task_of r) (s\<lparr>channels := q\<rparr>) s'"
    using good_try_execute [OF good_recv(1) [OF assms Cons], of tx] by blast
  have "starts (task_of r) s s'" "frame s s'"
    using starts_after [OF same _ r(4)] frame_trans [OF frame_updates(1) r(3)] by simp_all
  with r Cons show ?thesis by (cases r rule: task_of.cases) (auto simp: recv_def)
qed

lemma good_try_exec:
  assumes "good {} s"
  shows "\<exists>t s'. try_exec s = Some (t, s') \<and> good {} s' \<and> frame s s' \<and> starts t s s'"
proof (cases "priochannels s")
  case Nil
  with good_from_channel [OF assms] show ?thesis by (simp add: try_exec_def recv_def)
next
  case (Cons tx q)
  have same: "exec_status (s\<lparr>priochannels := q\<rparr>) = exec_status s" by (simp add: fun_eq_iff)
  obtain r s1 where r: "try_execute_next_version tx (s\<lparr>priochannels := q\<rparr>) = Some (r, s1)"
     "good ({tx} - {tx}) s1" "frame (s\<lparr>priochannels := q\<rparr>) s1" "starts (task_of r) (s\<lparr>priochannels := q\<rparr>) s1"
    using good_try_execute [OF good_recv(2) [OF assms Cons], of tx] by blast
  have st: "starts (task_of r) s s1" and fr: "frame s s1"
    using starts_after [OF same _ r(4)] frame_trans [OF frame_updates(2) r(3)] by simp_all
  show ?thesis
  proof (cases r)
    case None
    with st have eq: "exec_status s1 = exec_status s" by (simp add: starts_def)
    have "good {} s1" using r(2) by simp
    from good_from_channel [OF this] obtain t s' where "(case recv (channels s1) of
           (None, _) \<Rightarrow> Some (NoTask, s1)
         | (Some tx, q) \<Rightarrow>
             (case try_execute_next_version tx (s1\<lparr>channels := q\<rparr>) of
                None \<Rightarrow> None
              | Some (Some (ver, cv), s') \<Rightarrow> Some (ExecutionTask ver cv, s')
              | Some (None, s') \<Rightarrow> Some (NoTask, s'))) = Some (t, s')"
        "good {} s'" "frame s1 s'" "starts t s1 s'" by blast
    with None Cons r(1) frame_trans [OF fr] starts_after [OF eq frame_num [OF fr]] show ?thesis
      by (simp add: try_exec_def recv_def)
  next
    case (Some a)
    with Cons r st fr show ?thesis by (cases a) (simp add: try_exec_def recv_def)
  qed
qed

definition val_idx :: "scheduler \<Rightarrow> txn_index" where
  "val_idx s = fst (unpack_validation_idx (validation_idx s))"

definition cur_wave :: "scheduler \<Rightarrow> wave" where
  "cur_wave s = snd (unpack_validation_idx (validation_idx s))"

lemma frame_val_idx: "frame s s' \<Longrightarrow> val_idx s' = val_idx s"
  by (simp add: frame_def val_idx_def)

lemma frame_cur_wave: "frame s s' \<Longrightarrow> cur_wave s' = cur_wave s"
  by (simp add: frame_def cur_wave_def)

lemma val_idx_lowered:
  "i < 2 ^ 32 \<Longrightarrow> fst (unpack_validation_idx (lowered i v)) = min i (fst (unpack_validation_idx v))"
  by (auto simp: lowered_def unpack_pack split: prod.split)

text \<open>A call of \<open>next_task\<close> that does not get the validation lock.\<close>

lemma next_task_unlocked:
  "next_task False fin s =
     (if fin \<and> done_marker s then Some (Done, fin, s) else map_option (\<lambda>(t, s'). (t, fin, s')) (try_exec s))"
  by (auto simp: next_task_def try_validate_next_version_def split: option.split)

lemma good_next_task:
  assumes "good {} s" "next_task False fin s = Some (t, fin', s')"
  shows "good {} s' \<and> fin' = fin \<and> frame s s' \<and> (t = Done \<and> fin \<and> done_marker s \<and> s' = s \<or> starts t s s')"
  using good_try_exec [OF assms(1)] assms by (auto simp: next_task_unlocked split: if_splits)

text \<open>The validation that the increment of the index hands out.\<close>

lemma load_validation_Some: "load_validation s = Some idx \<longleftrightarrow> idx = val_idx s \<and> val_idx s < num_txns s"
  by (auto simp: load_validation_def val_idx_def split: prod.split)

lemma load_validation_None: "load_validation s = None \<longleftrightarrow> num_txns s \<le> val_idx s"
  by (auto simp: load_validation_def val_idx_def split: prod.split)

lemma good_take_validation:
  assumes "good {} s" "val_idx s < num_txns s" "take_validation inc s = (task, s')"
  shows "task = ((val_idx s, inc), cur_wave s)" "good {} s'" "val_idx s' = val_idx s + 1" "cur_wave s' = cur_wave s"
    "num_txns s' = num_txns s" "done_marker s' = done_marker s" "exec_status s' = exec_status s"
    "val_status s' = val_status s"
proof -
  obtain i w where iw: "unpack_validation_idx (validation_idx s) = (i, w)" by fastforce
  then have i: "val_idx s = i" "cur_wave s = w" by (simp_all add: val_idx_def cur_wave_def)
  have s': "s' = s\<lparr>validation_idx := validation_idx s + 1\<rparr>" "task = ((i, inc), w)"
    using assms(3) iw by (simp_all add: take_validation_def)
  have "i + 1 < 2 ^ 32" using assms(1,2) i by (simp add: good_def sched_wf_def)
  from unpack_succ [OF iw this] show "val_idx s' = val_idx s + 1" "cur_wave s' = cur_wave s"
    using i by (simp_all add: s' val_idx_def cur_wave_def)
  show "task = ((val_idx s, inc), cur_wave s)" "good {} s'" "num_txns s' = num_txns s" "done_marker s' = done_marker s"
    "exec_status s' = exec_status s" "val_status s' = val_status s"
    using assms(1) i s' by (simp_all add: fun_eq_iff val_status_def)
qed

end
