(* ===== verification/SchedulerSystem.thy ===== *)
theory SchedulerSystem
  imports SchedulerContracts
begin

text \<open>
  The scheduler under concurrent workers: a step relation in which the committing worker and the
  other workers call its methods in any order, and the invariant all reachable states satisfy.
\<close>

section \<open>The system of workers\<close>

text \<open>
  The worker loop of \<open>executor.rs\<close> (\<open>work_task_with_scope\<close>) as the scheduler sees it. \<open>Running t\<close>
  is the loop variable \<open>scheduler_task\<close>; \<open>Aborted v\<close> is the point in \<open>validate\<close> between a
  successful \<open>try_abort\<close> and \<open>finish_abort\<close>, where the writes of the version are marked as
  estimates. The first worker is the committing one and owns the commit state.

  A method of the scheduler is one step, with one exception: a worker that asks for a validation
  takes the lock \<open>valock\<close>, loads the validation index, looks at the status of that transaction and
  increments the index in four steps (\<open>Locked\<close>, \<open>Loaded\<close>, \<open>Checked\<close>), between which the other workers
  move. The lock keeps other validators out, but not \<open>finish_abort\<close>, which lowers the index.
\<close>

datatype pc =
    Running scheduler_task
  | Locked
  | Loaded txn_index
  | Checked txn_index incarnation
  | Aborted version
  | Exited

fun validating :: "pc \<Rightarrow> bool" where
  "validating Locked = True"
| "validating (Loaded _) = True"
| "validating (Checked _ _) = True"
| "validating _ = False"

record worker =
  wpc :: pc
  finished_val_flag :: bool

record system =
  sched :: scheduler
  workers :: "worker list"
  commit_state :: "txn_index \<times> wave"

definition set_worker :: "nat \<Rightarrow> pc \<Rightarrow> bool \<Rightarrow> scheduler \<Rightarrow> system \<Rightarrow> system" where
  "set_worker k p fin s \<sigma> =
     \<sigma>\<lparr>sched := s, workers := (workers \<sigma>)[k := \<lparr>wpc = p, finished_val_flag = fin\<rparr>]\<rparr>"

definition worker_at :: "nat \<Rightarrow> pc \<Rightarrow> bool \<Rightarrow> system \<Rightarrow> bool" where
  "worker_at k p fin \<sigma> \<longleftrightarrow>
     k < length (workers \<sigma>) \<and> workers \<sigma> ! k = \<lparr>wpc = p, finished_val_flag = fin\<rparr>"

definition valock_free :: "system \<Rightarrow> bool" where
  "valock_free \<sigma> \<longleftrightarrow> (\<forall>w \<in> set (workers \<sigma>). \<not> validating (wpc w))"

inductive step :: "system \<Rightarrow> system \<Rightarrow> bool" where
  commit:
    "worker_at 0 (Running t) fin \<sigma> \<Longrightarrow>
     try_commit locked (commit_state \<sigma>) (sched \<sigma>) = Some (r, cs, s) \<Longrightarrow>
     step \<sigma> (\<sigma>\<lparr>sched := s, commit_state := cs\<rparr>)"
| next_task:
    "worker_at k (Running NoTask) fin \<sigma> \<Longrightarrow>
     next_task False fin (sched \<sigma>) = Some (t, fin', s) \<Longrightarrow>
     step \<sigma> (set_worker k (Running t) fin' s \<sigma>)"
| lock:
    "worker_at k (Running NoTask) False \<sigma> \<Longrightarrow> valock_free \<sigma> \<Longrightarrow>
     try_exec (sched \<sigma>) = Some (NoTask, s) \<Longrightarrow>
     step \<sigma> (set_worker k Locked False s \<sigma>)"
| past_end:
    "worker_at k Locked fin \<sigma> \<Longrightarrow> load_validation (sched \<sigma>) = None \<Longrightarrow>
     step \<sigma> (set_worker k (Running NoTask) True (sched \<sigma>) \<sigma>)"
| load:
    "worker_at k Locked fin \<sigma> \<Longrightarrow> load_validation (sched \<sigma>) = Some idx \<Longrightarrow>
     step \<sigma> (set_worker k (Loaded idx) fin (sched \<sigma>) \<sigma>)"
| check:
    "worker_at k (Loaded idx) fin \<sigma> \<Longrightarrow>
     step \<sigma> (set_worker k (case is_executed idx False (sched \<sigma>) of
                              None \<Rightarrow> Running NoTask | Some inc \<Rightarrow> Checked idx inc) fin (sched \<sigma>) \<sigma>)"
| take:
    "worker_at k (Checked idx inc) fin \<sigma> \<Longrightarrow> take_validation inc (sched \<sigma>) = ((ver, w), s) \<Longrightarrow>
     step \<sigma> (set_worker k (Running (ValidationTask ver w)) fin s \<sigma>)"
| wait:
    "worker_at k (Running (ExecutionTask (i, inc) cv)) fin \<sigma> \<Longrightarrow> dep < i \<Longrightarrow>
     wait_for_dependency i dep (sched \<sigma>) = Some (r, s) \<Longrightarrow>
     step \<sigma> (\<sigma>\<lparr>sched := s\<rparr>)"
| execute:
    "worker_at k (Running (ExecutionTask (i, inc) None)) fin \<sigma> \<Longrightarrow>
     finish_execution i inc updates_outside (sched \<sigma>) = Some (t, s) \<Longrightarrow>
     step \<sigma> (set_worker k (Running t) fin s \<sigma>)"
| validate:
    "worker_at k (Running (ValidationTask (i, inc) w)) fin \<sigma> \<Longrightarrow>
     valid \<or> try_abort i inc (sched \<sigma>) = Some (False, sched \<sigma>) \<Longrightarrow>
     finish_validation i w (sched \<sigma>) = Some s \<Longrightarrow>
     step \<sigma> (set_worker k (Running NoTask) fin s \<sigma>)"
| abort:
    "worker_at k (Running (ValidationTask (i, inc) w)) fin \<sigma> \<Longrightarrow>
     try_abort i inc (sched \<sigma>) = Some (True, s) \<Longrightarrow>
     step \<sigma> (set_worker k (Aborted (i, inc)) fin s \<sigma>)"
| finish_abort:
    "worker_at k (Aborted (i, inc)) fin \<sigma> \<Longrightarrow>
     finish_abort i inc (sched \<sigma>) = Some (t, s) \<Longrightarrow>
     step \<sigma> (set_worker k (Running t) fin s \<sigma>)"
| signatures:
    "worker_at k (Running NoTask) fin \<sigma> \<Longrightarrow> mode (sched \<sigma>) = Pythia_Sig \<Longrightarrow>
     idx = sig_val_idx (sched \<sigma>) \<Longrightarrow>
     step \<sigma> (set_worker k (Running (if idx \<le> num_txns (sched \<sigma>) then SigTask idx else NoTask)) fin
               ((sched \<sigma>)\<lparr>sig_val_idx := idx + 25\<rparr>) \<sigma>)"
| prologue:
    "worker_at k (Running NoTask) fin \<sigma> \<Longrightarrow>
     step \<sigma> (set_worker k (Running PrologueTask) fin (sched \<sigma>) \<sigma>)"
| side_task:
    "worker_at k (Running t) fin \<sigma> \<Longrightarrow> t = PrologueTask \<or> (\<exists>idx. t = SigTask idx) \<Longrightarrow>
     step \<sigma> (set_worker k (Running NoTask) fin ((sched \<sigma>)\<lparr>prologue_index := p, prologue_map := pm\<rparr>) \<sigma>)"
| mark_prologue:
    "worker_at k (Running (ExecutionTask (i, inc) cv)) fin \<sigma> \<Longrightarrow>
     step \<sigma> (\<sigma>\<lparr>sched := (sched \<sigma>)\<lparr>prologue_map := pm\<rparr>\<rparr>)"
| exit:
    "worker_at k (Running Done) fin \<sigma> \<Longrightarrow>
     step \<sigma> (set_worker k Exited fin (sched \<sigma>) \<sigma>)"

text \<open>The state in which the scope of \<open>execute_transactions_parallel\<close> spawns its workers.\<close>

definition system_new :: "nat \<Rightarrow> scheduler \<Rightarrow> system" where
  "system_new num_workers s =
     \<lparr>sched = s,
      workers = replicate num_workers \<lparr>wpc = Running NoTask, finished_val_flag = False\<rparr>,
      commit_state = (0, 0)\<rparr>"

section \<open>The invariant\<close>

fun holds :: "pc \<Rightarrow> txn_index option" where
  "holds (Running (ExecutionTask (i, inc) cv)) = Some i"
| "holds (Aborted (i, inc)) = Some i"
| "holds _ = None"

fun busy :: "execution_status \<Rightarrow> bool" where
  "busy (Executing _) = True"
| "busy (Aborting _) = True"
| "busy _ = False"

text \<open>What the scheduler's state says about a worker at a program point.\<close>

fun pc_ok :: "scheduler \<Rightarrow> bool \<Rightarrow> pc \<Rightarrow> bool" where
  "pc_ok s fin (Running (ExecutionTask (i, inc) cv)) \<longleftrightarrow>
     i < num_txns s \<and> cv = None \<and> exec_status s i = Executing inc"
| "pc_ok s fin (Running (ValidationTask (i, inc) w)) \<longleftrightarrow> i < num_txns s \<and> \<not> fin"
| "pc_ok s fin (Aborted (i, inc)) \<longleftrightarrow> i < num_txns s \<and> exec_status s i = Aborting inc \<and> \<not> fin"
| "pc_ok s fin (Running Done) \<longleftrightarrow> fin \<and> done_marker s"
| "pc_ok s fin Exited \<longleftrightarrow> fin \<and> done_marker s"
| "pc_ok s fin Locked \<longleftrightarrow> \<not> fin"
| "pc_ok s fin (Loaded idx) \<longleftrightarrow> idx < num_txns s \<and> val_idx s \<le> idx \<and> \<not> fin"
| "pc_ok s fin (Checked idx inc) \<longleftrightarrow> idx < num_txns s \<and> val_idx s \<le> idx \<and> \<not> fin"
| "pc_ok s fin _ \<longleftrightarrow> True"

definition workers_ok :: "system \<Rightarrow> bool" where
  "workers_ok \<sigma> \<longleftrightarrow>
     (\<forall>k < length (workers \<sigma>). pc_ok (sched \<sigma>) (finished_val_flag (workers \<sigma> ! k)) (wpc (workers \<sigma> ! k)))"

text \<open>Every busy transaction is held by exactly one worker.\<close>

definition owned :: "system \<Rightarrow> bool" where
  "owned \<sigma> \<longleftrightarrow>
     (\<forall>k < length (workers \<sigma>). \<forall>l < length (workers \<sigma>). \<forall>i.
        holds (wpc (workers \<sigma> ! k)) = Some i \<and> holds (wpc (workers \<sigma> ! l)) = Some i \<longrightarrow> k = l)
     \<and> (\<forall>i < num_txns (sched \<sigma>). busy (exec_status (sched \<sigma>) i) \<longrightarrow>
          (\<exists>k < length (workers \<sigma>). holds (wpc (workers \<sigma> ! k)) = Some i))"

text \<open>At most one worker holds the validation lock.\<close>

definition lock_ok :: "system \<Rightarrow> bool" where
  "lock_ok \<sigma> \<longleftrightarrow> (\<forall>k < length (workers \<sigma>). \<forall>l < length (workers \<sigma>).
     validating (wpc (workers \<sigma> ! k)) \<and> validating (wpc (workers \<sigma> ! l)) \<longrightarrow> k = l)"

text \<open>The committed transactions are a prefix that ends at the commit index.\<close>

definition is_committed :: "scheduler \<Rightarrow> txn_index \<Rightarrow> bool" where
  "is_committed s i \<longleftrightarrow> (case exec_status s i of Committed _ \<Rightarrow> True | _ \<Rightarrow> False)"

definition commit_ok :: "system \<Rightarrow> bool" where
  "commit_ok \<sigma> \<longleftrightarrow> fst (commit_state \<sigma>) \<le> num_txns (sched \<sigma>)
     \<and> (\<forall>i < num_txns (sched \<sigma>). is_committed (sched \<sigma>) i \<longleftrightarrow> i < fst (commit_state \<sigma>))
     \<and> (done_marker (sched \<sigma>) \<longrightarrow> fst (commit_state \<sigma>) = num_txns (sched \<sigma>))"

fun has_run :: "execution_status \<Rightarrow> bool" where
  "has_run (Executed _) = True"
| "has_run (Committed _) = True"
| "has_run (Aborting _) = True"
| "has_run _ = False"

text \<open>
  The validation index stays within the block, and as long as it has not reached the end, some worker
  still asks for validations.
\<close>

definition validation_ok :: "system \<Rightarrow> bool" where
  "validation_ok \<sigma> \<longleftrightarrow> val_idx (sched \<sigma>) \<le> num_txns (sched \<sigma>)
     \<and> (val_idx (sched \<sigma>) < num_txns (sched \<sigma>) \<longrightarrow>
          (\<exists>k < length (workers \<sigma>). \<not> finished_val_flag (workers \<sigma> ! k)))"

definition system_ok :: "system \<Rightarrow> bool" where
  "system_ok \<sigma> \<longleftrightarrow> good {} (sched \<sigma>) \<and> workers_ok \<sigma> \<and> owned \<sigma> \<and> lock_ok \<sigma> \<and> commit_ok \<sigma> \<and> validation_ok \<sigma>"

lemma pc_ok_holds: "pc_ok s fin p \<Longrightarrow> holds p = Some i \<Longrightarrow> i < num_txns s \<and> busy (exec_status s i)"
  by (cases p rule: holds.cases) auto

text \<open>
  Another worker's point survives when what it holds keeps its status and the index it loaded is not
  passed.
\<close>

lemma pc_ok_other:
  assumes "pc_ok s fin p" "num_txns s' = num_txns s" "done_marker s \<longrightarrow> done_marker s'"
    "\<And>i. holds p = Some i \<Longrightarrow> exec_status s' i = exec_status s i"
    "validating p \<Longrightarrow> val_idx s' \<le> val_idx s"
  shows "pc_ok s' fin p"
  using assms by (cases "(s, fin, p)" rule: pc_ok.cases) auto

lemma workers_move:
  assumes at: "worker_at k p fin \<sigma>" and inv: "workers_ok \<sigma>" "owned \<sigma>" "lock_ok \<sigma>"
    and num: "num_txns s' = num_txns (sched \<sigma>)" "done_marker (sched \<sigma>) \<longrightarrow> done_marker s'"
    and others: "\<And>i. busy (exec_status (sched \<sigma>) i) \<Longrightarrow> holds p \<noteq> Some i \<Longrightarrow>
      exec_status s' i = exec_status (sched \<sigma>) i"
    and new: "\<And>i. busy (exec_status s' i) \<Longrightarrow>
      holds p' = Some i \<or> busy (exec_status (sched \<sigma>) i) \<and> holds p \<noteq> Some i"
    and fresh: "\<And>i. holds p' = Some i \<Longrightarrow> holds p = Some i \<or> \<not> busy (exec_status (sched \<sigma>) i)"
    and ok: "pc_ok s' fin' p'"
    and idx: "val_idx s' \<le> val_idx (sched \<sigma>) \<or> validating p"
  shows "workers_ok (set_worker k p' fin' s' \<sigma>)" "owned (set_worker k p' fin' s' \<sigma>)"
proof -
  let ?w = "workers \<sigma>" and ?s = "sched \<sigma>"
  have k: "k < length ?w" "wpc (?w ! k) = p" using at by (auto simp: worker_at_def)
  have oks: "l < length ?w \<Longrightarrow> pc_ok ?s (finished_val_flag (?w ! l)) (wpc (?w ! l))" for l
    using inv(1) by (simp add: workers_ok_def)
  have uniq: "l < length ?w \<Longrightarrow> holds (wpc (?w ! l)) = Some i \<Longrightarrow> holds p = Some i \<Longrightarrow> l = k" for l i
    using inv(2) k unfolding owned_def by blast
  have keep: "exec_status s' i = exec_status ?s i \<and> busy (exec_status ?s i) \<and> holds p \<noteq> Some i"
    if "l < length ?w" "l \<noteq> k" "holds (wpc (?w ! l)) = Some i" for l i
    using that uniq oks [OF that(1)] pc_ok_holds others by blast
  show "workers_ok (set_worker k p' fin' s' \<sigma>)"
    unfolding workers_ok_def
  proof (intro allI impI)
    fix l assume "l < length (workers (set_worker k p' fin' s' \<sigma>))"
    then have l: "l < length ?w" by (simp add: set_worker_def)
    show "pc_ok (sched (set_worker k p' fin' s' \<sigma>))
        (finished_val_flag (workers (set_worker k p' fin' s' \<sigma>) ! l)) (wpc (workers (set_worker k p' fin' s' \<sigma>) ! l))"
    proof (cases "l = k")
      case True
      with ok k show ?thesis by (simp add: set_worker_def)
    next
      case False
      have "validating (wpc (?w ! l)) \<Longrightarrow> val_idx s' \<le> val_idx ?s"
        using idx inv(3) k l False unfolding lock_ok_def by blast
      with pc_ok_other [OF oks [OF l] num] keep [OF l False] False show ?thesis by (simp add: set_worker_def)
    qed
  qed
  have "\<exists>l < length ?w. holds (wpc (?w[k := \<lparr>wpc = p', finished_val_flag = fin'\<rparr>] ! l)) = Some i"
    if "i < num_txns ?s" "busy (exec_status s' i)" for i
  proof (cases "holds p' = Some i")
    case True
    with k show ?thesis by auto
  next
    case False
    with new that have b: "busy (exec_status ?s i)" "holds p \<noteq> Some i" by blast+
    with inv(2) that(1) obtain l where "l < length ?w" "holds (wpc (?w ! l)) = Some i"
      unfolding owned_def by blast
    moreover with b k have "l \<noteq> k" by auto
    ultimately show ?thesis by (metis nth_list_update_neq)
  qed
  moreover have "l = m"
    if "l < length ?w" "m < length ?w"
      "holds (wpc (?w[k := \<lparr>wpc = p', finished_val_flag = fin'\<rparr>] ! l)) = Some i"
      "holds (wpc (?w[k := \<lparr>wpc = p', finished_val_flag = fin'\<rparr>] ! m)) = Some i" for l m i
  proof -
    consider "l = k" "m = k" | "l = k" "m \<noteq> k" | "l \<noteq> k" "m = k" | "l \<noteq> k" "m \<noteq> k" by blast
    then show ?thesis
    proof cases
      case 2
      with that k keep [of m i] fresh [of i] show ?thesis by auto
    next
      case 3
      with that k keep [of l i] fresh [of i] show ?thesis by auto
    next
      case 4
      with that inv(2) show ?thesis unfolding owned_def by simp
    qed simp
  qed
  ultimately show "owned (set_worker k p' fin' s' \<sigma>)"
    unfolding owned_def set_worker_def by (simp add: num(1))
qed

lemma lock_move:
  assumes "worker_at k p fin \<sigma>" "lock_ok \<sigma>" "validating p' \<longrightarrow> validating p \<or> valock_free \<sigma>"
  shows "lock_ok (set_worker k p' fin' s' \<sigma>)"
proof -
  let ?w = "workers \<sigma>"
  have k: "k < length ?w" "wpc (?w ! k) = p" using assms(1) by (auto simp: worker_at_def)
  have other: "\<not> validating (wpc (?w ! l))" if "validating p'" "l < length ?w" "l \<noteq> k" for l
    using assms(2,3) k that nth_mem [of l ?w] unfolding lock_ok_def valock_free_def by blast
  have "l = m"
    if a: "l < length ?w" "m < length ?w" "validating (wpc (?w[k := \<lparr>wpc = p', finished_val_flag = fin'\<rparr>] ! l))"
      "validating (wpc (?w[k := \<lparr>wpc = p', finished_val_flag = fin'\<rparr>] ! m))" for l m
  proof (cases "l = k \<or> m = k")
    case True
    with a k have "validating p'" by auto
    with True a other [of l] other [of m] show ?thesis by (cases "l = k"; cases "m = k") auto
  next
    case False
    with a assms(2) show ?thesis by (simp add: lock_ok_def)
  qed
  then show ?thesis unfolding lock_ok_def by (simp add: set_worker_def)
qed

lemma system_ok_move:
  assumes at: "worker_at k p fin \<sigma>" and inv: "system_ok \<sigma>" and good: "good {} s'"
    and num: "num_txns s' = num_txns (sched \<sigma>)" "done_marker s' = done_marker (sched \<sigma>)"
    and others: "\<And>i. busy (exec_status (sched \<sigma>) i) \<Longrightarrow> holds p \<noteq> Some i \<Longrightarrow>
      exec_status s' i = exec_status (sched \<sigma>) i"
    and new: "\<And>i. busy (exec_status s' i) \<Longrightarrow>
      holds p' = Some i \<or> busy (exec_status (sched \<sigma>) i) \<and> holds p \<noteq> Some i"
    and fresh: "\<And>i. holds p' = Some i \<Longrightarrow> holds p = Some i \<or> \<not> busy (exec_status (sched \<sigma>) i)"
    and ok: "pc_ok s' fin' p'"
    and committed: "\<And>i. is_committed s' i = is_committed (sched \<sigma>) i"
    and val: "val_idx s' \<le> num_txns s'" "val_idx s' \<le> val_idx (sched \<sigma>) \<or> validating p"
    and lock: "validating p' \<longrightarrow> validating p \<or> valock_free \<sigma>"
    and flag: "val_idx s' < num_txns s' \<Longrightarrow> \<not> fin' \<or> val_idx (sched \<sigma>) < num_txns s' \<and> fin' = fin"
  shows "system_ok (set_worker k p' fin' s' \<sigma>)"
proof -
  let ?\<sigma> = "set_worker k p' fin' s' \<sigma>"
  have "workers_ok ?\<sigma>" "owned ?\<sigma>"
    using workers_move [OF at _ _ _ num(1) _ others new fresh ok val(2)] inv num(2) by (simp_all add: system_ok_def)
  moreover have "lock_ok ?\<sigma>" using lock_move [OF at _ lock] inv by (simp add: system_ok_def)
  moreover have "commit_ok ?\<sigma>"
    using inv num committed by (simp add: system_ok_def commit_ok_def set_worker_def)
  moreover have "\<exists>l < length (workers ?\<sigma>). \<not> finished_val_flag (workers ?\<sigma> ! l)"
    if "val_idx s' < num_txns s'"
  proof (cases fin')
    case False
    with at show ?thesis by (auto simp: worker_at_def set_worker_def)
  next
    case True
    with flag [OF that] inv num obtain l where l: "l < length (workers \<sigma>)" "\<not> finished_val_flag (workers \<sigma> ! l)"
      by (auto simp: system_ok_def validation_ok_def)
    with at True flag [OF that] have "l \<noteq> k" by (auto simp: worker_at_def)
    with l show ?thesis by (auto simp: set_worker_def)
  qed
  then have "validation_ok ?\<sigma>"
    using val num by (simp add: validation_ok_def set_worker_def)
  ultimately show ?thesis using good by (simp add: system_ok_def set_worker_def)
qed

lemma starts_cases:
  assumes "starts t s s'"
  shows "exec_status s' i = exec_status s i
    \<or> holds (Running t) = Some i \<and> (\<exists>inc. exec_status s i = ReadyToExecute inc None \<and> exec_status s' i = Executing inc)"
  using assms by (auto simp: starts_def split: if_splits)

lemma starts_holds: "starts t s s' \<Longrightarrow> holds (Running t) = Some i \<Longrightarrow>
    \<exists>inc. exec_status s i = ReadyToExecute inc None"
  by (auto simp: starts_def)

lemma starts_pc_ok: "starts t s s' \<Longrightarrow> num_txns s' = num_txns s \<Longrightarrow> pc_ok s' fin (Running t)"
  by (auto simp: starts_def)

lemma starts_committed: "starts t s s' \<Longrightarrow> is_committed s' i = is_committed s i"
  using starts_cases [of t s s' i] by (auto simp: is_committed_def)

lemma starts_ran: "starts t s s' \<Longrightarrow> has_run (exec_status s i) \<Longrightarrow> has_run (exec_status s' i)"
  using starts_cases [of t s s' i] by auto

lemma ok_parts:
  assumes "system_ok \<sigma>"
  shows "good {} (sched \<sigma>)" "val_idx (sched \<sigma>) \<le> num_txns (sched \<sigma>)"
    "length (txn_status (sched \<sigma>)) = num_txns (sched \<sigma>)"
    "worker_at k p fin \<sigma> \<Longrightarrow> pc_ok (sched \<sigma>) fin p"
  using assms by (auto simp: system_ok_def validation_ok_def workers_ok_def worker_at_def good_def sched_wf_def)

text \<open>A method that ends a worker's hold on \<open>i\<close> and starts the task it returns.\<close>

lemma system_ok_starts:
  assumes at: "worker_at k p fin \<sigma>" and inv: "system_ok \<sigma>" and good: "good {} s'"
    and num: "num_txns s' = num_txns (sched \<sigma>)" "done_marker s' = done_marker (sched \<sigma>)"
    and st: "starts t (set_exec_status i v (sched \<sigma>)) s'"
    and i: "holds p = Some i" "\<not> busy v" "\<And>inc. v \<noteq> Committed inc"
    and val: "val_idx s' = val_idx (sched \<sigma>) \<or> val_idx s' = min i (val_idx (sched \<sigma>)) \<and> \<not> fin"
  shows "system_ok (set_worker k (Running t) fin s' \<sigma>)"
proof -
  let ?s = "sched \<sigma>" and ?base = "set_exec_status i v (sched \<sigma>)"
  note ok = ok_parts [OF inv]
  have b: "i < num_txns ?s" "busy (exec_status ?s i)" using pc_ok_holds [OF ok(4) [OF at] i(1)] by simp_all
  then have len: "i < length (txn_status ?s)" using ok(1) by (simp add: good_def sched_wf_def)
  have s0: "exec_status ?base = (exec_status ?s)(i := v)" using len by (auto simp: fun_eq_iff)
  have c: "is_committed ?base j = is_committed ?s j" for j
    using s0 b(2) i(3) by (cases "exec_status ?s i"; cases v) (auto simp: is_committed_def)
  show ?thesis
  proof (rule system_ok_move [OF at inv good num])
    fix j assume "busy (exec_status ?s j)" "holds p \<noteq> Some j"
    then show "exec_status s' j = exec_status ?s j"
      using starts_cases [OF st, of j] s0 i(1) by (auto split: if_splits)
  next
    fix j assume "busy (exec_status s' j)"
    then show "holds (Running t) = Some j \<or> busy (exec_status ?s j) \<and> holds p \<noteq> Some j"
      using starts_cases [OF st, of j] s0 i by (auto split: if_splits)
  next
    fix j assume "holds (Running t) = Some j"
    then show "holds p = Some j \<or> \<not> busy (exec_status ?s j)"
      using starts_holds [OF st, of j] s0 i(1) by (auto split: if_splits)
  next
    show "pc_ok s' fin (Running t)" using starts_pc_ok [OF st] num by simp
    show "is_committed s' j = is_committed ?s j" for j using starts_committed [OF st] c by simp
    show "val_idx s' \<le> num_txns s'" "val_idx s' \<le> val_idx ?s \<or> validating p" using val ok(2) num by auto
    show "\<not> fin \<or> val_idx ?s < num_txns s' \<and> fin = fin" if "val_idx s' < num_txns s'"
      using val that by auto
  qed simp
qed

section \<open>Every step keeps the invariant\<close>

text \<open>A status change that makes nothing ready and executes nothing new keeps the placement.\<close>

lemma good_set_exec:
  assumes "good {} s" "i < num_txns s" "\<And>inc cv c. v \<noteq> ReadyToExecute inc cv \<and> v \<noteq> Suspended inc c"
    and keep: "unexecuted s i \<longrightarrow> \<not> has_run v"
  shows "good {} (set_exec_status i v s)"
proof -
  let ?s = "set_exec_status i v s"
  have wf: "sched_wf s" and len: "i < length (txn_status s)" using assms by (auto simp: good_def sched_wf_def)
  have ex: "exec_status ?s = (exec_status s)(i := v)" using len by (auto simp: fun_eq_iff)
  have un: "unexecuted ?s d" if "unexecuted s d" for d
    using that unexecuted_cong [of ?s s d] ex keep
    by (cases "d = i"; cases v) (auto simp: unexecuted_def is_executed_def)
  have "no_lost {} ?s"
    unfolding no_lost_def
  proof (intro allI impI)
    fix j inc cv assume j: "j < num_txns ?s" "exec_status ?s j = ReadyToExecute inc cv"
    have "j \<noteq> i" using j(2) ex assms(3) by (metis fun_upd_same)
    with j ex have "j < num_txns s" "exec_status s j = ReadyToExecute inc cv" by simp_all
    then have "tracked s j" using assms(1) unfolding good_def no_lost_def by blast
    then show "tracked ?s j \<or> j \<in> {}"
      using un by (auto simp: tracked_def waits_def hint_deps_def)
  qed
  moreover have "no_condvars ?s"
    using assms(1) assms(3) unfolding good_def no_condvars_def ex by simp
  ultimately show ?thesis using wf by (simp add: good_def)
qed

lemma good_push_child:
  assumes "good {} s" "d < num_txns s" "i < num_txns s" "push_child d i s = Some s'"
  shows "good {} s' \<and> frame s s' \<and> exec_status s' = exec_status s"
proof -
  have wf: "sched_wf s" "no_lost {} s" "no_condvars s" using assms(1) by (simp_all add: good_def)
  obtain s1 where s1: "push_child d i s = Some s1" "sched_wf s1" "registers s s1"
     "txn_status s1 = txn_status s"
    using push_child_spec [OF wf(1) assms(2,3)] by blast
  have "s1 = s'" using s1(1) assms(4) by simp
  with s1(2-4) have s': "sched_wf s'" "registers s s'" "txn_status s' = txn_status s" by simp_all
  have ex: "exec_status s' = exec_status s" using s'(3) by (simp add: exec_status_def fun_eq_iff)
  have un: "unexecuted s' = unexecuted s"
    by (simp add: unexecuted_def fun_eq_iff is_executed_status [OF s'(3)])
  have "no_lost {} s'"
    by (rule no_lost_registers [OF s'(2) wf(1,2)]) (simp_all add: un ex)
  moreover have "no_condvars s'"
    using wf(3) ex s'(2) by (simp add: no_condvars_def registers_def)
  ultimately show ?thesis using s' ex registers_frame by (simp add: good_def)
qed

lemma good_side_fields [simp]:
  "good X (s\<lparr>sig_val_idx := a\<rparr>) = good X s" "good X (s\<lparr>prologue_index := b\<rparr>) = good X s"
  "good X (s\<lparr>prologue_map := pm\<rparr>) = good X s"
  by (simp_all add: good_def sched_wf_def no_lost_def no_condvars_def tracked_def waits_def
      hint_deps_def unexecuted_def is_executed_def exec_status_def)

lemma status_side_fields [simp]:
  "exec_status (s\<lparr>sig_val_idx := a\<rparr>) = exec_status s" "exec_status (s\<lparr>prologue_index := b\<rparr>) = exec_status s"
  "exec_status (s\<lparr>prologue_map := pm\<rparr>) = exec_status s" "val_idx (s\<lparr>prologue_map := pm\<rparr>) = val_idx s"
  "is_committed (s\<lparr>prologue_map := pm\<rparr>) = is_committed s"
  "val_idx (s\<lparr>sig_val_idx := a\<rparr>) = val_idx s" "val_idx (s\<lparr>prologue_index := b\<rparr>) = val_idx s"
  "is_committed (s\<lparr>sig_val_idx := a\<rparr>) = is_committed s" "is_committed (s\<lparr>prologue_index := b\<rparr>) = is_committed s"
  "val_idx (set_exec_status i v s) = val_idx s" "val_idx (set_val_status i vs s) = val_idx s"
  "val_idx (s\<lparr>done_marker := c\<rparr>) = val_idx s"
  by (simp_all add: exec_status_def val_idx_def is_committed_def fun_eq_iff)

text \<open>Steps that leave every execution status as it is.\<close>

lemma system_ok_quiet:
  assumes at: "worker_at k p fin \<sigma>" and inv: "system_ok \<sigma>" and good: "good {} s'"
    and num: "num_txns s' = num_txns (sched \<sigma>)" "done_marker s' = done_marker (sched \<sigma>)"
    and same: "exec_status s' = exec_status (sched \<sigma>)" "val_idx s' = val_idx (sched \<sigma>)"
    and h: "holds p' = holds p" and ok: "pc_ok s' fin p'" and lock: "validating p' \<longrightarrow> validating p \<or> valock_free \<sigma>"
  shows "system_ok (set_worker k p' fin s' \<sigma>)"
proof (rule system_ok_move [OF at inv good num])
  fix i assume "busy (exec_status s' i)"
  moreover have "i < num_txns (sched \<sigma>) \<or> \<not> i < num_txns (sched \<sigma>)" by simp
  ultimately show "holds p' = Some i \<or> busy (exec_status (sched \<sigma>) i) \<and> holds p \<noteq> Some i"
    using same h by auto
qed (use same h ok num lock ok_parts [OF inv] in \<open>auto simp: is_committed_def\<close>)

lemma set_worker_same:
  assumes "worker_at k p fin \<sigma>"
  shows "\<sigma>\<lparr>sched := s\<rparr> = set_worker k p fin s \<sigma>"
proof -
  have "(workers \<sigma>)[k := \<lparr>wpc = p, finished_val_flag = fin\<rparr>] = workers \<sigma>"
    using assms list_update_id [of "workers \<sigma>" k] by (simp add: worker_at_def)
  then show ?thesis by (cases \<sigma>) (simp add: set_worker_def)
qed

lemma try_commit_cases:
  assumes "try_commit locked (c, w) s = Some (r, cs, s')" "c \<le> num_txns s"
  shows "(c = num_txns s \<and> r = None \<and> cs = (c, w) \<and> (s' = s \<or> s' = s\<lparr>done_marker := True\<rparr>))
     \<or> (\<exists>w'. s' = s \<and> cs = (c, w') \<and> r = None)
     \<or> (\<exists>w' inc. c < num_txns s \<and> exec_status s c = Executed inc \<and> cs = (c + 1, w')
          \<and> s' = set_exec_status c (Committed inc) s \<and> r = Some c)"
proof (cases "c = num_txns s")
  case True
  with assms show ?thesis by (auto simp: try_commit_def split: if_splits)
next
  case False
  show ?thesis
  proof (cases "c \<ge> length (txn_status s) \<or> \<not> locked")
    case True
    with assms False show ?thesis by (auto simp: try_commit_def split: if_splits)
  next
    case open_: False
    show ?thesis
    proof (cases "exec_status s c")
      case (Executed inc)
      with assms False open_ show ?thesis
        by (cases "maybe_max_validated_wave (val_status s c)")
           (auto simp: try_commit_def Let_def split: if_splits)
    qed (use assms False open_ in \<open>auto simp: try_commit_def\<close>)
  qed
qed

lemma system_ok_done:
  assumes "system_ok \<sigma>" "fst (commit_state \<sigma>) = num_txns (sched \<sigma>)"
  shows "system_ok (\<sigma>\<lparr>sched := (sched \<sigma>)\<lparr>done_marker := True\<rparr>\<rparr>)"
proof -
  let ?s = "(sched \<sigma>)\<lparr>done_marker := True\<rparr>"
  have "pc_ok (sched \<sigma>) fin p \<Longrightarrow> pc_ok ?s fin p" for fin p
    by (erule pc_ok_other) simp_all
  with assms show ?thesis
    by (simp add: system_ok_def workers_ok_def owned_def lock_ok_def commit_ok_def validation_ok_def is_committed_def)
qed

lemma step_commit_ok:
  assumes at: "worker_at 0 (Running t) fin \<sigma>" and inv: "system_ok \<sigma>"
    and call: "try_commit locked (commit_state \<sigma>) (sched \<sigma>) = Some (r, cs, s')"
  shows "system_ok (\<sigma>\<lparr>sched := s', commit_state := cs\<rparr>)"
proof -
  let ?s = "sched \<sigma>"
  obtain c w where c: "commit_state \<sigma> = (c, w)" by fastforce
  have ck: "c \<le> num_txns ?s" "\<And>i. i < num_txns ?s \<Longrightarrow> is_committed ?s i \<longleftrightarrow> i < c"
      "done_marker ?s \<longrightarrow> c = num_txns ?s"
    using inv c by (auto simp: system_ok_def commit_ok_def)
  have g: "good {} ?s" using inv by (simp add: system_ok_def)
  consider (finished) "c = num_txns ?s" "r = None" "cs = (c, w)" "s' = ?s \<or> s' = ?s\<lparr>done_marker := True\<rparr>"
    | (stay) w' where "s' = ?s" "cs = (c, w')" "r = None"
    | (commit) w' inc where "c < num_txns ?s" "exec_status ?s c = Executed inc" "cs = (c + 1, w')"
        "s' = set_exec_status c (Committed inc) ?s" "r = Some c"
    using try_commit_cases [OF call [unfolded c] ck(1)] by blast
  then show ?thesis
  proof cases
    case finished
    have eq: "\<sigma>\<lparr>sched := s', commit_state := cs\<rparr> = \<sigma>\<lparr>sched := s'\<rparr>" using finished(3) c by (cases \<sigma>) simp
    have id: "\<sigma>\<lparr>sched := ?s\<rparr> = \<sigma>" by (cases \<sigma>) simp
    have "system_ok (\<sigma>\<lparr>sched := ?s\<lparr>done_marker := True\<rparr>\<rparr>)"
      using system_ok_done [OF inv] finished(1) c by simp
    then show ?thesis
      unfolding eq using finished(4) inv id by (elim disjE) simp_all
  next
    case stay
    then show ?thesis
      using inv c
      by (auto simp: system_ok_def workers_ok_def owned_def lock_ok_def commit_ok_def validation_ok_def)
  next
    case commit
    have ex: "exec_status s' = (exec_status ?s)(c := Committed inc)"
      using commit g by (auto simp: fun_eq_iff good_def sched_wf_def)
    have num: "num_txns s' = num_txns ?s" "done_marker s' = done_marker ?s" "val_idx s' = val_idx ?s"
      using commit by simp_all
    have h: "holds (Running t) \<noteq> Some c"
      using pc_ok_holds [OF ok_parts(4) [OF inv at], of c] commit(2) by auto
    have same: "busy (exec_status ?s j) \<Longrightarrow> exec_status s' j = exec_status ?s j"
      "busy (exec_status s' j) \<Longrightarrow> holds (Running t) = Some j \<or> busy (exec_status ?s j) \<and> holds (Running t) \<noteq> Some j"
      "holds (Running t) = Some j \<Longrightarrow> holds (Running t) = Some j \<or> \<not> busy (exec_status ?s j)" for j
      using ex commit(2) by (auto split: if_splits)
    have ok: "pc_ok s' fin (Running t)"
      by (rule pc_ok_other [OF ok_parts(4) [OF inv at] num(1)]) (use ex h num(2,3) in auto)
    have "workers_ok \<sigma>" "owned \<sigma>" "lock_ok \<sigma>" "done_marker ?s \<longrightarrow> done_marker s'"
      using inv num(2) by (simp_all add: system_ok_def)
    note workers_move [OF at this(1-3) num(1) this(4) same ok]
    then have "workers_ok (\<sigma>\<lparr>sched := s', commit_state := cs\<rparr>)" "owned (\<sigma>\<lparr>sched := s', commit_state := cs\<rparr>)"
      unfolding set_worker_same [OF at, symmetric] using num(3) by (simp_all add: workers_ok_def owned_def)
    moreover have "commit_ok (\<sigma>\<lparr>sched := s', commit_state := cs\<rparr>)"
      using commit ck num ex by (auto simp: commit_ok_def is_committed_def less_Suc_eq split: if_splits)
    moreover have "validation_ok (\<sigma>\<lparr>sched := s', commit_state := cs\<rparr>)" "lock_ok (\<sigma>\<lparr>sched := s', commit_state := cs\<rparr>)"
      using inv num ex by (auto simp: system_ok_def validation_ok_def lock_ok_def)
    moreover have "good {} s'"
      unfolding commit(4) using commit(1,2) g
      by (intro good_set_exec) (auto simp: unexecuted_def is_executed_def good_def sched_wf_def)
    ultimately show ?thesis by (simp add: system_ok_def)
  qed
qed

lemma step_next_task_ok:
  assumes at: "worker_at k (Running NoTask) fin \<sigma>" and inv: "system_ok \<sigma>"
    and call: "next_task False fin (sched \<sigma>) = Some (t, fin', s')"
  shows "system_ok (set_worker k (Running t) fin' s' \<sigma>)"
proof -
  let ?s = "sched \<sigma>"
  note ok = ok_parts [OF inv]
  have n: "good {} s'" "fin' = fin" "frame ?s s'"
    and alt: "t = Done \<and> fin \<and> done_marker ?s \<and> s' = ?s \<or> starts t ?s s'"
    using good_next_task [OF ok(1) call] by auto
  have f: "num_txns s' = num_txns ?s" "done_marker s' = done_marker ?s" "val_idx s' = val_idx ?s"
    using n(3) frame_val_idx by (simp_all add: frame_def)
  show ?thesis
  proof (cases "starts t ?s s'")
    case False
    with alt n(2) show ?thesis using system_ok_quiet [OF at inv n(1) f(1,2), of "Running t"] by simp
  next
    case start: True
    show ?thesis
    proof (rule system_ok_move [OF at inv n(1) f(1,2)])
      fix j
      show "busy (exec_status ?s j) \<Longrightarrow> exec_status s' j = exec_status ?s j"
        "busy (exec_status s' j) \<Longrightarrow> holds (Running t) = Some j \<or> busy (exec_status ?s j) \<and> holds (Running NoTask) \<noteq> Some j"
        using starts_cases [OF start, of j] by auto
      show "holds (Running t) = Some j \<Longrightarrow> holds (Running NoTask) = Some j \<or> \<not> busy (exec_status ?s j)"
        using starts_holds [OF start, of j] by auto
      show "is_committed s' j = is_committed ?s j" using starts_committed [OF start] .
    qed (use start n(2) f ok(2) starts_pc_ok [OF start] in auto)
  qed
qed

text \<open>The steps of a worker that asks for a validation.\<close>

lemma step_lock_ok:
  assumes at: "worker_at k (Running NoTask) False \<sigma>" and inv: "system_ok \<sigma>" and free: "valock_free \<sigma>"
    and call: "try_exec (sched \<sigma>) = Some (NoTask, s')"
  shows "system_ok (set_worker k Locked False s' \<sigma>)"
proof -
  have "good {} s'" "frame (sched \<sigma>) s'" "exec_status s' = exec_status (sched \<sigma>)"
    using good_try_exec [OF ok_parts(1) [OF inv]] call by (auto simp: starts_def)
  with free show ?thesis
    by (intro system_ok_quiet [OF at inv]) (auto simp: frame_def frame_val_idx)
qed

lemma step_past_end_ok:
  assumes at: "worker_at k Locked fin \<sigma>" and inv: "system_ok \<sigma>" and call: "load_validation (sched \<sigma>) = None"
  shows "system_ok (set_worker k (Running NoTask) True (sched \<sigma>) \<sigma>)"
  using call ok_parts [OF inv] by (intro system_ok_move [OF at inv]) (auto simp: load_validation_None)

lemma step_load_ok:
  assumes at: "worker_at k Locked fin \<sigma>" and inv: "system_ok \<sigma>" and call: "load_validation (sched \<sigma>) = Some idx"
  shows "system_ok (set_worker k (Loaded idx) fin (sched \<sigma>) \<sigma>)"
  using call ok_parts(1) [OF inv] ok_parts(4) [OF inv at]
  by (intro system_ok_quiet [OF at inv]) (auto simp: load_validation_Some)

lemma step_check_ok:
  assumes at: "worker_at k (Loaded idx) fin \<sigma>" and inv: "system_ok \<sigma>"
  shows "system_ok (set_worker k (case is_executed idx False (sched \<sigma>) of
      None \<Rightarrow> Running NoTask | Some inc \<Rightarrow> Checked idx inc) fin (sched \<sigma>) \<sigma>)"
  using ok_parts(1) [OF inv] ok_parts(4) [OF inv at]
  by (intro system_ok_quiet [OF at inv]) (auto split: option.split)

lemma step_take_ok:
  assumes at: "worker_at k (Checked idx inc) fin \<sigma>" and inv: "system_ok \<sigma>"
    and call: "take_validation inc (sched \<sigma>) = ((ver, w), s')"
  shows "system_ok (set_worker k (Running (ValidationTask ver w)) fin s' \<sigma>)"
proof -
  have p: "val_idx (sched \<sigma>) < num_txns (sched \<sigma>)" "\<not> fin" using ok_parts(4) [OF inv at] by auto
  note t = good_take_validation [OF ok_parts(1) [OF inv] p(1) call]
  show ?thesis
    by (rule system_ok_move [OF at inv t(2,5,6)]) (use t p in \<open>auto simp: is_committed_def\<close>)
qed

lemma step_wait_ok:
  assumes at: "worker_at k (Running (ExecutionTask (i, inc) cv)) fin \<sigma>" "dep < i" and inv: "system_ok \<sigma>"
    and call: "wait_for_dependency i dep (sched \<sigma>) = Some (r, s')"
  shows "system_ok (\<sigma>\<lparr>sched := s'\<rparr>)"
proof -
  note ok = ok_parts [OF inv]
  have p: "pc_ok (sched \<sigma>) fin (Running (ExecutionTask (i, inc) cv))" by (rule ok(4) [OF at(1)])
  then have "good {} s' \<and> frame (sched \<sigma>) s' \<and> exec_status s' = exec_status (sched \<sigma>)"
    using call at(2) good_push_child [OF ok(1), of dep i] by (auto simp: wait_for_dependency_def)
  with p show ?thesis
    unfolding set_worker_same [OF at(1)]
    using system_ok_quiet [OF at(1) inv, of s'] by (auto simp: frame_def frame_val_idx)
qed

lemma step_execute_ok:
  assumes at: "worker_at k (Running (ExecutionTask (i, inc) None)) fin \<sigma>" and inv: "system_ok \<sigma>"
    and call: "finish_execution i inc updates_outside (sched \<sigma>) = Some (t, s')"
  shows "system_ok (set_worker k (Running t) fin s' \<sigma>)"
proof -
  note ok = ok_parts [OF inv]
  have p: "i < num_txns (sched \<sigma>)" "exec_status (sched \<sigma>) i = Executing inc" using ok(4) [OF at] by auto
  have "good {} s'" "frame (sched \<sigma>) s'" "starts t (set_exec_status i (Executed inc) (sched \<sigma>)) s'"
    using good_finish_execution [OF ok(1) p, of updates_outside] call by auto
  then show ?thesis
    using system_ok_starts [OF at inv, of s' t i "Executed inc"] frame_val_idx by (simp add: frame_def)
qed

lemma step_validate_ok:
  assumes at: "worker_at k (Running (ValidationTask (i, inc) w)) fin \<sigma>" and inv: "system_ok \<sigma>"
    and call: "finish_validation i w (sched \<sigma>) = Some s'"
  shows "system_ok (set_worker k (Running NoTask) fin s' \<sigma>)"
proof -
  obtain vs where "s' = set_val_status i vs (sched \<sigma>)"
    using call by (auto simp: finish_validation_def Let_def split: if_splits)
  then show ?thesis
    using system_ok_quiet [OF at inv, of s' "Running NoTask"] ok_parts(1) [OF inv] by (simp add: fun_eq_iff)
qed

lemma step_abort_ok:
  assumes at: "worker_at k (Running (ValidationTask (i, inc) w)) fin \<sigma>" and inv: "system_ok \<sigma>"
    and call: "try_abort i inc (sched \<sigma>) = Some (True, s')"
  shows "system_ok (set_worker k (Aborted (i, inc)) fin s' \<sigma>)"
proof -
  let ?s = "sched \<sigma>"
  note ok = ok_parts [OF inv]
  have i: "i < num_txns ?s" "\<not> fin" using ok(4) [OF at] by auto
  have st: "exec_status ?s i = Executed inc" "s' = set_exec_status i (Aborting inc) ?s" "i < length (txn_status ?s)"
    using call by (auto simp: try_abort_def status_eq_iff split: if_splits)
  have ex: "exec_status s' = (exec_status ?s)(i := Aborting inc)" using st by (auto simp: fun_eq_iff)
  have g: "good {} s'"
    unfolding st(2) using ok(1) i st(1,3)
    by (intro good_set_exec) (auto simp: unexecuted_def is_executed_def)
  show ?thesis
    by (rule system_ok_move [OF at inv g]) (use st ex i ok(2) in \<open>auto simp: is_committed_def split: if_splits\<close>)
qed

lemma step_finish_abort_ok:
  assumes at: "worker_at k (Aborted (i, inc)) fin \<sigma>" and inv: "system_ok \<sigma>"
    and call: "finish_abort i inc (sched \<sigma>) = Some (t, s')"
  shows "system_ok (set_worker k (Running t) fin s' \<sigma>)"
proof -
  let ?s = "sched \<sigma>"
  note ok = ok_parts [OF inv]
  have p: "i < num_txns ?s" "exec_status ?s i = Aborting inc" "\<not> fin" using ok(4) [OF at] by auto
  then have "i < 2 ^ 32" using ok(1) by (simp add: good_def sched_wf_def)
  then have v: "val_idx s' = min i (val_idx ?s)" if "validation_idx s' = lowered i (validation_idx ?s)"
    using that val_idx_lowered by (simp add: val_idx_def)
  have "good {} s'" "num_txns s' = num_txns ?s" "done_marker s' = done_marker ?s" "val_idx s' = min i (val_idx ?s)"
      "starts t (set_exec_status i (ReadyToExecute (inc + 1) None) ?s) s'"
    using good_finish_abort [OF ok(1) p(1,2) finish_abort_room [OF call]] call v by auto
  then show ?thesis
    using system_ok_starts [OF at inv, of s' t i "ReadyToExecute (inc + 1) None"] p by simp
qed

theorem step_system_ok:
  assumes "step \<sigma> \<sigma>'" "system_ok \<sigma>"
  shows "system_ok \<sigma>'"
  using assms
proof (induction rule: step.induct)
  case (signatures k fin \<sigma> idx)
  then show ?case
    using system_ok_quiet [OF signatures(1) signatures(4)] ok_parts(1) [OF signatures(4)] by simp
next
  case (prologue k fin \<sigma>)
  then show ?case
    using system_ok_quiet [OF prologue(1) prologue(2)] ok_parts(1) [OF prologue(2)] by simp
next
  case (side_task k t fin \<sigma> p pm)
  then show ?case
    using system_ok_quiet [OF side_task(1) side_task(3)] ok_parts(1) [OF side_task(3)] by auto
next
  case (mark_prologue k i inc cv fin \<sigma> pm)
  then show ?case
    unfolding set_worker_same [OF mark_prologue(1)]
    using system_ok_quiet [OF mark_prologue] ok_parts(1) [OF mark_prologue(2)] ok_parts(4) [OF mark_prologue(2,1)] by auto
next
  case (exit k fin \<sigma>)
  then show ?case
    using system_ok_quiet [OF exit(1) exit(2)] ok_parts(1) [OF exit(2)] ok_parts(4) [OF exit(2) exit(1)] by simp
qed (rule step_commit_ok step_next_task_ok step_lock_ok step_past_end_ok step_load_ok step_check_ok step_take_ok step_wait_ok step_execute_ok step_validate_ok step_abort_ok
      step_finish_abort_ok; assumption)+

section \<open>The initial state\<close>

lemma scan_parents_spec:
  assumes "\<forall>d \<in> set nodes. unat d < n \<and> uint (path_cost ! unat d) \<le> K" "n \<le> length path_cost" "length ch = n"
    and "uint my_cost \<le> K"
  shows "\<exists>c p ch'. scan_parents i path_cost nodes (my_cost, parent, ch) = Some (c, p, ch')
     \<and> length ch' = n \<and> (p = parent \<or> p \<in> unat ` set nodes) \<and> uint c \<le> K"
  using assms
proof (induction nodes arbitrary: my_cost parent ch)
  case (Cons d nodes)
  let ?n = "unat d"
  have "\<exists>c p ch'. scan_parents i path_cost nodes (if path_cost ! ?n > my_cost then path_cost ! ?n else my_cost,
      if path_cost ! ?n > my_cost then ?n else parent, ch[?n := ch ! ?n @ [i]]) = Some (c, p, ch')
     \<and> length ch' = n \<and> (p = (if path_cost ! ?n > my_cost then ?n else parent) \<or> p \<in> unat ` set nodes)
     \<and> uint c \<le> K"
    using Cons.prems by (intro Cons.IH) auto
  with Cons.prems show ?case by (auto simp: Let_def split: if_splits)
qed simp

text \<open>
  Hints are 16-bit indices and gas estimates 16-bit amounts, so the cost of the longest path to a
  transaction stays within 32 bits.
\<close>

definition cost_bound :: "nat \<Rightarrow> int" where
  "cost_bound j = 65535 * (min (int j) 65536 + 1)"

lemma cost_bound_less: "cost_bound j < 2 ^ 32"
  by (auto simp: cost_bound_def)

lemma cost_bound_parent: "d < i \<Longrightarrow> d < 65536 \<Longrightarrow> cost_bound d + 65535 \<le> cost_bound i"
  by (auto simp: cost_bound_def min_def)

lemma build_graph_spec:
  assumes "\<forall>i \<in> set is. i < n \<and> (\<forall>d \<in> set (hints ! i). unat d < i) \<and> uint (pc ! i) \<le> 65535" "distinct is"
    "n \<le> length pc" "length ch = n" "length cpp = n" "\<forall>j < n. uint (pc ! j) \<le> cost_bound j"
  shows "\<exists>pc' ch' sv' cpp'. build_graph hints is (pc, ch, sv, cpp) = Some (pc', ch', sv', cpp')
     \<and> length ch' = n \<and> length cpp' = n \<and> set sv \<subseteq> set sv'
     \<and> (\<forall>d < n. set (cpp ! d) \<subseteq> set (cpp' ! d) \<and> set (cpp' ! d) \<subseteq> set (cpp ! d) \<union> set is)
     \<and> (\<forall>j \<in> set is. j \<in> set sv' \<or> (\<exists>d \<in> unat ` set (hints ! j). j \<in> set (cpp' ! d)))"
  using assms
proof (induction "is" arbitrary: pc ch sv cpp)
  case (Cons i "is")
  have in_range: "\<forall>d \<in> set (hints ! i). unat d < n" using Cons.prems(1) by force
  have "uint (pc ! unat d) \<le> cost_bound i - 65535" if "d \<in> set (hints ! i)" for d
  proof -
    have d: "unat d < i" "unat d < n" "unat d < 65536"
      using that Cons.prems(1) in_range unsigned_less [of d, where 'a = nat] by auto
    then have "uint (pc ! unat d) \<le> cost_bound (unat d)" using Cons.prems(6) by blast
    with cost_bound_parent [OF d(1,3)] show ?thesis by linarith
  qed
  moreover have "uint (0 :: u32) \<le> cost_bound i - 65535" by (simp add: cost_bound_def)
  ultimately obtain c p ch1 where sp: "scan_parents i pc (hints ! i) (0, 50000, ch) = Some (c, p, ch1)"
      "length ch1 = n" "p = 50000 \<or> p \<in> unat ` set (hints ! i)" "uint c \<le> cost_bound i - 65535"
    using scan_parents_spec [of "hints ! i" n pc "cost_bound i - 65535" ch 0 i 50000] Cons.prems(3,4) in_range
    by blast
  have i: "i < n" "i \<notin> set is" "uint (pc ! i) \<le> 65535" using Cons.prems(1,2) by auto
  have fits: "uint (pc ! i) + uint c \<le> cost_bound i" using i(3) sp(4) by linarith
  then have "add_chk (pc ! i) c \<noteq> None"
    using cost_bound_less [of i] by (simp add: add_chk_None)
  then obtain cost where cost: "add_chk (pc ! i) c = Some cost" by blast
  let ?pc = "pc[i := cost]"
  have "uint cost = uint (pc ! i) + uint c" using cost by (simp add: add_chk_Some)
  then have bound: "\<forall>j < n. uint (?pc ! j) \<le> cost_bound j"
    using Cons.prems(3,6) i(1) fits by (simp add: nth_list_update)
  have rest: "\<forall>j \<in> set is. j < n \<and> (\<forall>d \<in> set (hints ! j). unat d < j) \<and> uint (?pc ! j) \<le> 65535"
    using Cons.prems(1) i(2) by (metis list.set_intros(2) nth_list_update_neq)
  note IH = Cons.IH [OF rest _ _ sp(2) _ bound]
  show ?case
  proof (cases "p = 50000")
    case True
    from IH [of cpp "sv @ [i]"] Cons.prems
    obtain pc' ch' sv' cpp' where
      *: "build_graph hints is (?pc, ch1, sv @ [i], cpp) = Some (pc', ch', sv', cpp')"
        "length ch' = n" "length cpp' = n" "set (sv @ [i]) \<subseteq> set sv'"
        "\<forall>d < n. set (cpp ! d) \<subseteq> set (cpp' ! d) \<and> set (cpp' ! d) \<subseteq> set (cpp ! d) \<union> set is"
        "\<forall>j \<in> set is. j \<in> set sv' \<or> (\<exists>d \<in> unat ` set (hints ! j). j \<in> set (cpp' ! d))"
      by auto
    with True sp cost show ?thesis by auto
  next
    case False
    then have p: "p \<in> unat ` set (hints ! i)" "p < n" using sp(3) in_range by auto
    let ?cpp = "cpp[p := cpp ! p @ [i]]"
    from IH [of ?cpp sv] Cons.prems
    obtain pc' ch' sv' cpp' where
      *: "build_graph hints is (?pc, ch1, sv, ?cpp) = Some (pc', ch', sv', cpp')"
        "length ch' = n" "length cpp' = n" "set sv \<subseteq> set sv'"
        "\<forall>d < n. set (?cpp ! d) \<subseteq> set (cpp' ! d) \<and> set (cpp' ! d) \<subseteq> set (?cpp ! d) \<union> set is"
        "\<forall>j \<in> set is. j \<in> set sv' \<or> (\<exists>d \<in> unat ` set (hints ! j). j \<in> set (cpp' ! d))"
      by auto
    have "i \<in> set (cpp' ! p)" using *(5) p(2) Cons.prems(5) by (auto simp: subset_iff)
    moreover have "set (cpp ! d) \<subseteq> set (cpp' ! d) \<and> set (cpp' ! d) \<subseteq> set (cpp ! d) \<union> set (i # is)"
      if "d < n" for d
    proof -
      have "set (?cpp ! d) = (if d = p then insert i (set (cpp ! d)) else set (cpp ! d))"
        using that p(2) Cons.prems(5) by auto
      with *(5) [rule_format, OF that] show ?thesis by (auto split: if_splits)
    qed
    ultimately show ?thesis using False sp cost * p(1) by auto
  qed
qed auto

text \<open>The hints the block filler emits: every dependency of a transaction precedes it.\<close>

definition hints_ok :: "nat \<Rightarrow> u16 list list \<Rightarrow> bool" where
  "hints_ok n deps \<longleftrightarrow> n < 2 ^ 32 - 1 \<and> n \<le> length deps \<and> (\<forall>i < n. \<forall>d \<in> set (deps ! i). unat d < i)"

lemma scheduler_new_spec:
  assumes "hints_ok n deps" "n \<le> length gas"
  shows "\<exists>s. scheduler_new n deps gas conc md pmap = Some s \<and> good {} s \<and> num_txns s = n
     \<and> val_idx s = 0 \<and> \<not> done_marker s \<and> (\<forall>i < n. exec_status s i = ReadyToExecute 0 None)"
proof -
  have h: "n < 2 ^ 32 - 1" "n \<le> length deps" "\<And>i. i < n \<Longrightarrow> \<forall>d \<in> set (deps ! i). unat d < i"
    using assms(1) by (auto simp: hints_ok_def)
  have gas_bound: "uint (ucast g :: u32) \<le> 65535" for g :: u16
    using uint_lt2p [of g] by (simp add: unsigned_ucast_eq take_bit_eq_mod)
  have gas_bound': "uint (ucast g :: u32) \<le> cost_bound j" for g :: u16 and j
    using gas_bound [of g] by (simp add: cost_bound_def)
  obtain pc ch sv cpp where g: "build_graph deps [0..<n] (map ucast gas, replicate n [], [], replicate n [])
        = Some (pc, ch, sv, cpp)" "length ch = n" "length cpp = n"
      "\<forall>d < n. set (cpp ! d) \<subseteq> set (replicate n [] ! d) \<union> set [0..<n]"
      "\<forall>j \<in> set [0..<n]. j \<in> set sv \<or> (\<exists>d \<in> unat ` set (deps ! j). j \<in> set (cpp ! d))"
    using build_graph_spec [of "[0..<n]" n deps "map ucast gas" "replicate n []" "replicate n []" "[]"]
      h assms(2) gas_bound gas_bound' by auto
  define s where "s = \<lparr>num_txns = n, execution_idx = 0, validation_idx = 0, done_marker = False,
                  txn_status = replicate n (ReadyToExecute 0 None, validation_status_new),
                  hint_graph = deps, concurrency_level = conc,
                  channels = filter (\<lambda>i. ch ! i = []) sv,
                  priochannels = filter (\<lambda>i. ch ! i \<noteq> []) sv,
                  sig_val_idx = 0, prologue_map = pmap, prologue_index = 0, mode = md,
                  critical_path_parent = cpp, children = ch\<rparr>"
  have new: "scheduler_new n deps gas conc md pmap = Some s"
    using assms(2) h(2) g(1) by (simp add: scheduler_new_def s_def)
  have ex: "exec_status s i = ReadyToExecute 0 None" if "i < n" for i
    using that by (simp add: s_def exec_status_def)
  have "x < n" if "d < n" "x \<in> set (cpp ! d)" for d x
    using g(4) that by fastforce
  then have wf: "sched_wf s"
    using h g(2,3) by (simp add: sched_wf_def s_def hint_deps_def)
  have "tracked s j" if "j < n" for j
  proof (cases "j \<in> set sv")
    case True
    then show ?thesis by (auto simp: tracked_def s_def)
  next
    case False
    with g(5) that obtain d where d: "d \<in> set (deps ! j)" "j \<in> set (cpp ! unat d)" by auto
    with h(3) that have "unat d < n" by (meson less_trans)
    then have "unexecuted s (unat d)" using ex by (simp add: unexecuted_def is_executed_def)
    with d show ?thesis by (auto simp: tracked_def waits_def hint_deps_def s_def)
  qed
  then have "no_lost {} s" by (simp add: no_lost_def s_def)
  moreover have "no_condvars s" using ex by (simp add: no_condvars_def) (simp add: s_def)
  moreover have "val_idx s = 0" by (simp add: val_idx_def s_def unpack_validation_idx_def)
  ultimately show ?thesis using new wf ex by (simp add: good_def s_def)
qed

lemma system_new_ok:
  assumes "hints_ok n deps" "scheduler_new n deps gas conc md pmap = Some s" "0 < num_workers"
  shows "system_ok (system_new num_workers s)"
proof -
  have "n \<le> length gas" using assms(2) by (simp add: scheduler_new_def split: if_splits)
  from scheduler_new_spec [OF assms(1) this, of conc md pmap] assms(2)
  have s: "good {} s" "num_txns s = n" "val_idx s = 0" "\<not> done_marker s"
      "\<forall>i < n. exec_status s i = ReadyToExecute 0 None" by simp_all
  then show ?thesis
    using assms(3)
    by (auto simp: system_ok_def system_new_def workers_ok_def owned_def lock_ok_def commit_ok_def validation_ok_def
        is_committed_def intro: exI [of _ 0])
qed

section \<open>Reachable states\<close>

text \<open>
  The states a block of \<open>n\<close> transactions with the hints \<open>deps\<close> and the gas estimates \<open>gas\<close> can be in
  under \<open>num_workers\<close> workers.
\<close>

definition reachable ::
  "nat \<Rightarrow> u16 list list \<Rightarrow> u16 list \<Rightarrow> execution_mode \<Rightarrow> nat \<Rightarrow> system \<Rightarrow> bool" where
  "reachable n deps gas md num_workers \<sigma> \<longleftrightarrow> hints_ok n deps \<and> 0 < num_workers
     \<and> (\<exists>s conc pmap. scheduler_new n deps gas conc md pmap = Some s
          \<and> step\<^sup>*\<^sup>* (system_new num_workers s) \<sigma>)"

lemma steps_system_ok: "step\<^sup>*\<^sup>* \<sigma> \<sigma>' \<Longrightarrow> system_ok \<sigma> \<Longrightarrow> system_ok \<sigma>'"
  by (induction rule: rtranclp_induct) (auto intro: step_system_ok)

lemma reachable_ok: "reachable n deps gas md num_workers \<sigma> \<Longrightarrow> system_ok \<sigma>"
  using steps_system_ok system_new_ok unfolding reachable_def by blast

lemma reachable_step:
  "reachable n deps gas md num_workers \<sigma> \<Longrightarrow> step \<sigma> \<sigma>' \<Longrightarrow> reachable n deps gas md num_workers \<sigma>'"
  unfolding reachable_def by (meson rtranclp.rtrancl_into_rtrancl)

text \<open>The edges of the status diagram of the source.\<close>

inductive edge :: "execution_status \<Rightarrow> execution_status \<Rightarrow> bool" where
  "edge (ReadyToExecute inc None) (Executing inc)"
| "edge (Executing inc) (Executed inc)"
| "edge (Executed inc) (Committed inc)"
| "edge (Executed inc) (Aborting inc)"
| "edge (Aborting inc) (ReadyToExecute (inc + 1) None)"

lemmas edge_steps = edge.intros [THEN r_into_rtranclp [of edge]]

inductive_cases edge_committed [elim!]: "edge (Committed inc) st"

lemma committed_final: "edge\<^sup>*\<^sup>* a b \<Longrightarrow> a = Committed inc \<Longrightarrow> b = a"
  by (induction rule: rtranclp_induct) auto

fun rank :: "execution_status \<Rightarrow> nat" where
  "rank (ReadyToExecute inc _) = 5 * inc"
| "rank (Suspended inc _) = 5 * inc"
| "rank (Executing inc) = 5 * inc + 1"
| "rank (Executed inc) = 5 * inc + 2"
| "rank (Committed inc) = 5 * inc + 3"
| "rank (Aborting inc) = 5 * inc + 4"

lemma edge_rank: "edge a b \<Longrightarrow> rank a < rank b"
  by (cases rule: edge.cases) auto

lemma edges_rank: "edge\<^sup>*\<^sup>* a b \<Longrightarrow> a = b \<or> rank a < rank b"
  by (induction rule: rtranclp_induct) (use edge_rank in \<open>auto intro: less_trans\<close>)

lemma starts_edge: "starts t s s' \<Longrightarrow> edge\<^sup>*\<^sup>* (exec_status s i) (exec_status s' i)"
  using starts_cases [of t s s' i] by (auto intro: edge_steps)

lemma set_exec_edge:
  "edge (exec_status s i) v \<Longrightarrow> edge\<^sup>*\<^sup>* (exec_status s j) (exec_status (set_exec_status i v s) j)"
  by auto

lemma step_edges:
  assumes "step \<sigma> \<sigma>'" "system_ok \<sigma>"
  shows "edge\<^sup>*\<^sup>* (exec_status (sched \<sigma>) i) (exec_status (sched \<sigma>') i)"
  using assms
proof (induction rule: step.induct)
  case (commit t fin \<sigma> locked r cs s)
  obtain c w where c: "commit_state \<sigma> = (c, w)" by fastforce
  then have "c \<le> num_txns (sched \<sigma>)" using commit by (auto simp: system_ok_def commit_ok_def)
  from try_commit_cases [OF commit(2) [unfolded c] this] show ?case
    by (auto intro: edge_steps)
next
  case (next_task k fin \<sigma> t fin' s)
  from good_next_task [OF ok_parts(1) [OF next_task(3)] next_task(2)] show ?case
    using starts_edge [of t "sched \<sigma>" s i] by (auto simp: set_worker_def)
next
  case (lock k \<sigma> s)
  from good_try_exec [OF ok_parts(1) [OF lock(4)]] lock(3) show ?case by (auto simp: set_worker_def starts_def)
next
  case (take k idx inc fin \<sigma> ver w s)
  have "val_idx (sched \<sigma>) < num_txns (sched \<sigma>)" using ok_parts(4) [OF take(3,1)] by auto
  from good_take_validation(7) [OF ok_parts(1) [OF take(3)] this take(2)] show ?case by (simp add: set_worker_def)
next
  case (wait k j inc cv fin \<sigma> dep r s)
  then have "txn_status s = txn_status (sched \<sigma>)"
    by (auto simp: wait_for_dependency_def push_child_def split: if_splits)
  then show ?case by (simp add: exec_status_def)
next
  case (execute k j inc fin \<sigma> updates_outside t s)
  note ok = ok_parts [OF execute(3)]
  have p: "j < num_txns (sched \<sigma>)" "exec_status (sched \<sigma>) j = Executing inc"
    using ok(4) [OF execute(1)] by auto
  have "starts t (set_exec_status j (Executed inc) (sched \<sigma>)) s"
    using good_finish_execution [OF ok(1) p, of updates_outside] execute(2) by auto
  then have "edge\<^sup>*\<^sup>* (exec_status (set_exec_status j (Executed inc) (sched \<sigma>)) i) (exec_status s i)"
    by (rule starts_edge)
  moreover have "edge\<^sup>*\<^sup>* (exec_status (sched \<sigma>) i) (exec_status (set_exec_status j (Executed inc) (sched \<sigma>)) i)"
    using p(2) by (intro set_exec_edge) (auto intro: edge.intros)
  ultimately show ?case by (simp add: set_worker_def)
next
  case (validate k j inc w fin \<sigma> valid s)
  then show ?case
    by (auto simp: finish_validation_def set_worker_def Let_def split: if_splits)
next
  case (abort k j inc w fin \<sigma> s)
  then show ?case
    by (auto simp: try_abort_def status_eq_iff set_worker_def intro: edge_steps split: if_splits)
next
  case (finish_abort k j inc fin \<sigma> t s)
  note ok = ok_parts [OF finish_abort(3)]
  have p: "j < num_txns (sched \<sigma>)" "exec_status (sched \<sigma>) j = Aborting inc"
    using ok(4) [OF finish_abort(1)] by auto
  let ?v = "ReadyToExecute (inc + 1) None"
  have "starts t (set_exec_status j ?v (sched \<sigma>)) s"
    using good_finish_abort [OF ok(1) p finish_abort_room [OF finish_abort(2)]] finish_abort(2) by auto
  then have "edge\<^sup>*\<^sup>* (exec_status (set_exec_status j ?v (sched \<sigma>)) i) (exec_status s i)"
    by (rule starts_edge)
  moreover have "edge\<^sup>*\<^sup>* (exec_status (sched \<sigma>) i) (exec_status (set_exec_status j ?v (sched \<sigma>)) i)"
    by (intro set_exec_edge) (simp only: p(2) edge.intros)
  ultimately show ?case by (simp add: set_worker_def)
qed (simp_all add: set_worker_def)

section \<open>Calls that are not interrupted\<close>

text \<open>A worker that asks for a validation without being interrupted does what \<open>next_task\<close> as a whole does.\<close>

lemma set_worker_twice [simp]:
  "set_worker k p fin s (set_worker k p' fin' s' \<sigma>) = set_worker k p fin s \<sigma>" "sched (set_worker k p fin s \<sigma>) = s"
  by (simp_all add: set_worker_def)

lemma worker_at_set: "worker_at k q fin' \<sigma> \<Longrightarrow> worker_at k p fin (set_worker k p fin s \<sigma>)"
  by (simp add: worker_at_def set_worker_def)

lemma asked_alone:
  assumes "worker_at k Locked False \<sigma>" "try_validate_next_version True False (sched \<sigma>) = (r, fin, s)"
  shows "step\<^sup>*\<^sup>* \<sigma> (set_worker k (Running (case r of None \<Rightarrow> NoTask | Some (ver, w) \<Rightarrow> ValidationTask ver w)) fin s \<sigma>)"
proof (cases "load_validation (sched \<sigma>)")
  case None
  with assms(2) step.past_end [OF assms(1) None] show ?thesis by (auto simp: try_validate_accesses)
next
  case (Some idx)
  let ?\<sigma> = "set_worker k (Loaded idx) False (sched \<sigma>) \<sigma>"
  note ask = step.load [OF assms(1) Some] step.check [OF worker_at_set [OF assms(1)], of idx False "sched \<sigma>"]
  show ?thesis
  proof (cases "is_executed idx False (sched \<sigma>)")
    case None
    have "step\<^sup>*\<^sup>* \<sigma> (set_worker k (Running NoTask) False (sched \<sigma>) \<sigma>)"
      using ask None by (auto intro: converse_rtranclp_into_rtranclp)
    with assms(2) Some None show ?thesis by (auto simp: try_validate_accesses)
  next
    case (Some inc)
    obtain ver w s' where t: "take_validation inc (sched \<sigma>) = ((ver, w), s')" by (metis surj_pair)
    let ?\<tau> = "set_worker k (Checked idx inc) False (sched \<sigma>) \<sigma>"
    have "step ?\<tau> (set_worker k (Running (ValidationTask ver w)) False s' ?\<tau>)"
      by (rule step.take [OF worker_at_set [OF assms(1)]]) (simp add: t)
    moreover have "step\<^sup>*\<^sup>* \<sigma> ?\<tau>" using ask Some by (auto intro: converse_rtranclp_into_rtranclp)
    ultimately have "step\<^sup>*\<^sup>* \<sigma> (set_worker k (Running (ValidationTask ver w)) False s' \<sigma>)" by simp
    with assms(2) Some t \<open>load_validation (sched \<sigma>) = Some idx\<close> show ?thesis by (auto simp: try_validate_accesses)
  qed
qed

lemma next_task_alone:
  assumes at: "worker_at k (Running NoTask) fin \<sigma>" and free: "valock_free \<sigma>"
    and call: "next_task True fin (sched \<sigma>) = Some (t, fin', s)"
  shows "step\<^sup>*\<^sup>* \<sigma> (set_worker k (Running t) fin' s \<sigma>)"
proof (cases "\<exists>s1. try_exec (sched \<sigma>) = Some (NoTask, s1) \<and> \<not> fin")
  case True
  then obtain s1 where s1: "try_exec (sched \<sigma>) = Some (NoTask, s1)" "\<not> fin" by blast
  obtain r fin2 s2 where v: "try_validate_next_version True False s1 = (r, fin2, s2)" by (metis surj_pair)
  let ?\<sigma> = "set_worker k Locked False s1 \<sigma>"
  have "step \<sigma> ?\<sigma>" using step.lock [OF _ free s1(1)] at s1(2) by simp
  moreover have "step\<^sup>*\<^sup>* ?\<sigma> (set_worker k (Running t) fin' s \<sigma>)"
    using asked_alone [OF worker_at_set [OF at], of s1] v call s1
    by (auto simp: next_task_def split: option.splits)
  ultimately show ?thesis by (rule converse_rtranclp_into_rtranclp)
next
  case False
  then have "next_task False fin (sched \<sigma>) = Some (t, fin', s)"
    using call by (auto simp: next_task_def split: if_splits option.splits)
  from step.next_task [OF at this] show ?thesis by simp
qed

section \<open>Executable runs\<close>

text \<open>The deterministic reading of the step relation: which worker moves, and how its calls come out.\<close>

datatype action = Commit | Next nat | Execute nat | Validate nat | Abort nat | FinishAbort nat | Exit nat

fun perform :: "action \<Rightarrow> system \<Rightarrow> system option" where
  "perform Commit \<sigma> =
     (if 0 < length (workers \<sigma>)
      then (case wpc (workers \<sigma> ! 0) of
              Running t \<Rightarrow>
                (case try_commit True (commit_state \<sigma>) (sched \<sigma>) of
                   Some (r, cs, s) \<Rightarrow> Some (\<sigma>\<lparr>sched := s, commit_state := cs\<rparr>)
                 | None \<Rightarrow> None)
            | _ \<Rightarrow> None)
      else None)"
| "perform (Next k) \<sigma> =
     (if k < length (workers \<sigma>) \<and> wpc (workers \<sigma> ! k) = Running NoTask \<and> valock_free \<sigma>
      then (case next_task True (finished_val_flag (workers \<sigma> ! k)) (sched \<sigma>) of
              Some (t, fin, s) \<Rightarrow> Some (set_worker k (Running t) fin s \<sigma>) | None \<Rightarrow> None)
      else None)"
| "perform (Execute k) \<sigma> =
     (if k < length (workers \<sigma>)
      then (case wpc (workers \<sigma> ! k) of
              Running (ExecutionTask (i, inc) None) \<Rightarrow>
                (case finish_execution i inc False (sched \<sigma>) of
                   Some (t, s) \<Rightarrow> Some (set_worker k (Running t) (finished_val_flag (workers \<sigma> ! k)) s \<sigma>)
                 | None \<Rightarrow> None)
            | _ \<Rightarrow> None)
      else None)"
| "perform (Validate k) \<sigma> =
     (if k < length (workers \<sigma>)
      then (case wpc (workers \<sigma> ! k) of
              Running (ValidationTask (i, inc) w) \<Rightarrow>
                (case finish_validation i w (sched \<sigma>) of
                   Some s \<Rightarrow> Some (set_worker k (Running NoTask) (finished_val_flag (workers \<sigma> ! k)) s \<sigma>)
                 | None \<Rightarrow> None)
            | _ \<Rightarrow> None)
      else None)"
| "perform (Abort k) \<sigma> =
     (if k < length (workers \<sigma>)
      then (case wpc (workers \<sigma> ! k) of
              Running (ValidationTask (i, inc) w) \<Rightarrow>
                (case try_abort i inc (sched \<sigma>) of
                   Some (True, s) \<Rightarrow> Some (set_worker k (Aborted (i, inc)) (finished_val_flag (workers \<sigma> ! k)) s \<sigma>)
                 | _ \<Rightarrow> None)
            | _ \<Rightarrow> None)
      else None)"
| "perform (FinishAbort k) \<sigma> =
     (if k < length (workers \<sigma>)
      then (case wpc (workers \<sigma> ! k) of
              Aborted (i, inc) \<Rightarrow>
                (case finish_abort i inc (sched \<sigma>) of
                   Some (t, s) \<Rightarrow> Some (set_worker k (Running t) (finished_val_flag (workers \<sigma> ! k)) s \<sigma>)
                 | None \<Rightarrow> None)
            | _ \<Rightarrow> None)
      else None)"
| "perform (Exit k) \<sigma> =
     (if k < length (workers \<sigma>) \<and> wpc (workers \<sigma> ! k) = Running Done
      then Some (set_worker k Exited (finished_val_flag (workers \<sigma> ! k)) (sched \<sigma>) \<sigma>)
      else None)"

fun perform_all :: "action list \<Rightarrow> system \<Rightarrow> system option" where
  "perform_all [] \<sigma> = Some \<sigma>"
| "perform_all (a # as) \<sigma> = (case perform a \<sigma> of None \<Rightarrow> None | Some \<sigma>' \<Rightarrow> perform_all as \<sigma>')"

lemma worker_atI: "k < length (workers \<sigma>) \<Longrightarrow> wpc (workers \<sigma> ! k) = p \<Longrightarrow>
    worker_at k p (finished_val_flag (workers \<sigma> ! k)) \<sigma>"
  by (simp add: worker_at_def)

lemma perform_commit_step: "perform Commit \<sigma> = Some \<sigma>' \<Longrightarrow> step \<sigma> \<sigma>'"
  using worker_atI [of 0 \<sigma>] step.commit
  by (fastforce split: if_splits option.splits pc.splits prod.splits)

lemma perform_next_steps: "perform (Next k) \<sigma> = Some \<sigma>' \<Longrightarrow> step\<^sup>*\<^sup>* \<sigma> \<sigma>'"
  by (auto split: if_splits option.splits dest!: worker_atI intro: next_task_alone)

lemma perform_steps: "perform a \<sigma> = Some \<sigma>' \<Longrightarrow> step\<^sup>*\<^sup>* \<sigma> \<sigma>'"
  by (cases "(a, \<sigma>)" rule: perform.cases)
     (use perform_next_steps in blast | fastforce dest: perform_commit_step
      | auto split: if_splits option.splits pc.splits scheduler_task.splits bool.splits prod.splits
        dest!: worker_atI intro: step.intros r_into_rtranclp)+

lemma perform_all_steps: "perform_all as \<sigma> = Some \<sigma>' \<Longrightarrow> step\<^sup>*\<^sup>* \<sigma> \<sigma>'"
  by (induction as arbitrary: \<sigma>) (auto split: option.splits dest!: perform_steps intro: rtranclp_trans)

definition run ::
  "nat \<Rightarrow> u16 list list \<Rightarrow> u16 list \<Rightarrow> execution_mode \<Rightarrow> nat \<Rightarrow> action list \<Rightarrow> system option" where
  "run n deps gas md num_workers as =
     (case scheduler_new n deps gas num_workers md [] of
        None \<Rightarrow> None
      | Some s \<Rightarrow> perform_all as (system_new num_workers s))"

lemma run_reachable:
  "hints_ok n deps \<Longrightarrow> 0 < num_workers \<Longrightarrow> run n deps gas md num_workers as = Some \<sigma> \<Longrightarrow>
     reachable n deps gas md num_workers \<sigma>"
  unfolding run_def reachable_def
  by (auto split: option.splits intro: perform_all_steps)

end
