(* ===== verification/Waves.thy ===== *)
theory Waves
  imports SchedulerSystem
begin

text \<open>
  What the validation waves of the scheduler guarantee. A validation of transaction \<open>i\<close> in wave \<open>w\<close>
  is fresh as long as no transaction up to \<open>i\<close> has triggered a later wave; what is committed has been
  validated in a fresh wave, along every run. As long as validations are handed out in time, that is,
  no abort comes between the look at a transaction's status and the increment of the validation
  index, two more things hold: the index passes executed transactions only, and while a validation is
  fresh, no transaction up to \<open>i\<close> has been sent back to execution since it was handed out.
\<close>

section \<open>Fresh validations\<close>

definition trig :: "scheduler \<Rightarrow> txn_index \<Rightarrow> wave" where
  "trig s j = max_triggered_wave (val_status s j)"

definition validated :: "scheduler \<Rightarrow> txn_index \<Rightarrow> wave option" where
  "validated s j = maybe_max_validated_wave (val_status s j)"

definition fresh :: "scheduler \<Rightarrow> txn_index \<Rightarrow> wave \<Rightarrow> bool" where
  "fresh s i w \<longleftrightarrow> (\<forall>j \<le> i. trig s j \<le> w)"

text \<open>A status that incarnation \<open>inc\<close> has reached by finishing its execution.\<close>

fun ran_as :: "incarnation \<Rightarrow> execution_status \<Rightarrow> bool" where
  "ran_as inc (Executed i) \<longleftrightarrow> i = inc"
| "ran_as inc (Aborting i) \<longleftrightarrow> i = inc"
| "ran_as inc (Committed i) \<longleftrightarrow> i = inc"
| "ran_as inc _ \<longleftrightarrow> False"

definition task_fresh :: "scheduler \<Rightarrow> pc \<Rightarrow> bool" where
  "task_fresh s p = (case p of
     Running (ValidationTask (i, inc) w) \<Rightarrow>
       w \<le> cur_wave s \<and> (fresh s i w \<longrightarrow> i < val_idx s \<and> ran_as inc (exec_status s i))
   | _ \<Rightarrow> True)"

text \<open>Everything below the validation index has been executed, and is at most being aborted.\<close>

definition executed_below :: "scheduler \<Rightarrow> bool" where
  "executed_below s \<longleftrightarrow> (\<forall>i < val_idx s. has_run (exec_status s i))"

definition wave_ok :: "system \<Rightarrow> bool" where
  "wave_ok \<sigma> \<longleftrightarrow> executed_below (sched \<sigma>)
     \<and> (\<forall>j < num_txns (sched \<sigma>). trig (sched \<sigma>) j \<le> cur_wave (sched \<sigma>))
     \<and> (\<forall>k < length (workers \<sigma>). task_fresh (sched \<sigma>) (wpc (workers \<sigma> ! k)))
     \<and> (\<forall>i < num_txns (sched \<sigma>). \<forall>w. validated (sched \<sigma>) i = Some w \<longrightarrow>
          w \<le> cur_wave (sched \<sigma>) \<and> (fresh (sched \<sigma>) i w \<longrightarrow> i < val_idx (sched \<sigma>)))"

text \<open>The waves that committed transactions have triggered are not later than the commit wave.\<close>

definition commit_waves :: "system \<Rightarrow> bool" where
  "commit_waves \<sigma> \<longleftrightarrow> (\<forall>j < fst (commit_state \<sigma>). trig (sched \<sigma>) j \<le> snd (commit_state \<sigma>))"

text \<open>
  The step is in time: a worker that increments the validation index gets the index of a transaction
  that is executed, in the incarnation the worker has read before.
\<close>

definition in_time :: "system \<Rightarrow> system \<Rightarrow> bool" where
  "in_time \<sigma> \<sigma>' \<longleftrightarrow> list_all2 (\<lambda>w w'.
     case wpc w of
       Checked idx inc \<Rightarrow> wpc w' = wpc w \<or> exec_status (sched \<sigma>) (val_idx (sched \<sigma>)) = Executed inc
     | _ \<Rightarrow> True) (workers \<sigma>) (workers \<sigma>')"

lemma in_time_taken:
  assumes "in_time \<sigma> \<sigma>'" "worker_at k (Checked idx inc) fin \<sigma>" "wpc (workers \<sigma>' ! k) \<noteq> Checked idx inc"
  shows "exec_status (sched \<sigma>) (val_idx (sched \<sigma>)) = Executed inc"
  using assms by (auto simp: in_time_def list_all2_conv_all_nth worker_at_def)

lemma wave_okD:
  assumes "wave_ok \<sigma>"
  shows "j < num_txns (sched \<sigma>) \<Longrightarrow> trig (sched \<sigma>) j \<le> cur_wave (sched \<sigma>)"
    "worker_at k p fin \<sigma> \<Longrightarrow> task_fresh (sched \<sigma>) p"
    "i < num_txns (sched \<sigma>) \<Longrightarrow> validated (sched \<sigma>) i = Some w \<Longrightarrow> w \<le> cur_wave (sched \<sigma>)"
    "i < num_txns (sched \<sigma>) \<Longrightarrow> validated (sched \<sigma>) i = Some w \<Longrightarrow> fresh (sched \<sigma>) i w \<Longrightarrow> i < val_idx (sched \<sigma>)"
    "i < val_idx (sched \<sigma>) \<Longrightarrow> has_run (exec_status (sched \<sigma>) i)"
  using assms by (auto simp: wave_ok_def executed_below_def worker_at_def)

text \<open>Calls that leave the validation statuses alone and take back no execution.\<close>

definition advances :: "scheduler \<Rightarrow> scheduler \<Rightarrow> bool" where
  "advances s s' \<longleftrightarrow> num_txns s' = num_txns s \<and> (\<forall>j. val_status s' j = val_status s j)
     \<and> cur_wave s' = cur_wave s \<and> val_idx s \<le> val_idx s'
     \<and> (\<forall>i < val_idx s'. val_idx s \<le> i \<longrightarrow> has_run (exec_status s' i))
     \<and> (\<forall>i inc. ran_as inc (exec_status s i) \<longrightarrow> ran_as inc (exec_status s' i))"

lemma advances_fresh: "advances s s' \<Longrightarrow> fresh s' i w = fresh s i w"
  "advances s s' \<Longrightarrow> trig s' j = trig s j" "advances s s' \<Longrightarrow> validated s' j = validated s j"
  by (simp_all add: advances_def fresh_def trig_def validated_def)

lemma has_run_as: "has_run st \<longleftrightarrow> (\<exists>inc. ran_as inc st)"
  by (cases st) auto

lemma advances_executed: "advances s s' \<Longrightarrow> executed_below s \<Longrightarrow> executed_below s'"
  unfolding advances_def executed_below_def has_run_as by (meson not_le)

lemma task_fresh_advances:
  assumes "advances s s'" "task_fresh s p"
  shows "task_fresh s' p"
  using assms advances_fresh [OF assms(1)] unfolding task_fresh_def advances_def
  by (fastforce split: pc.splits scheduler_task.splits)

lemma wave_ok_advances:
  assumes "wave_ok \<sigma>" "advances (sched \<sigma>) s'" "task_fresh s' p'"
  shows "wave_ok (set_worker k p' fin' s' \<sigma>)"
proof -
  note f = advances_fresh [OF assms(2)]
  have "task_fresh s' (wpc ((workers \<sigma>)[k := \<lparr>wpc = p', finished_val_flag = fin'\<rparr>] ! l))"
    if "l < length (workers \<sigma>)" for l
    using that assms(1,3) task_fresh_advances [OF assms(2)]
    by (cases "l = k") (simp_all add: wave_ok_def)
  then show ?thesis
    using assms(1,2) advances_executed [OF assms(2)] unfolding wave_ok_def set_worker_def
    by (auto simp: f advances_def dest: less_le_trans)
qed

lemma starts_ran_as: "starts t s s' \<Longrightarrow> ran_as inc (exec_status s i) \<Longrightarrow> ran_as inc (exec_status s' i)"
  using starts_cases [of t s s' i] by auto

lemma starts_not_validation: "starts t s s' \<Longrightarrow> task_fresh s'' (Running t)"
  by (auto simp: starts_def task_fresh_def split: scheduler_task.splits)

lemma frame_advances:
  assumes "frame s s'" "\<And>i inc. ran_as inc (exec_status s i) \<Longrightarrow> ran_as inc (exec_status s' i)"
  shows "advances s s'"
  using assms frame_val_idx [OF assms(1)] frame_cur_wave [OF assms(1)] by (simp add: advances_def frame_def)

section \<open>The calls\<close>

lemma wave_next_task:
  assumes at: "worker_at k (Running NoTask) fin \<sigma>" and inv: "system_ok \<sigma>" "wave_ok \<sigma>"
    and call: "next_task False fin (sched \<sigma>) = Some (t, fin', s')"
  shows "wave_ok (set_worker k (Running t) fin' s' \<sigma>)"
proof -
  let ?s = "sched \<sigma>"
  have n: "frame ?s s'" and alt: "t = Done \<and> s' = ?s \<or> starts t ?s s'"
    using good_next_task [OF ok_parts(1) [OF inv(1)] call] by auto
  have "advances ?s s'"
    using alt starts_ran_as [of t ?s s'] by (intro frame_advances [OF n]) auto
  moreover have "task_fresh s' (Running t)"
    using alt starts_not_validation [of t ?s s' s'] by (auto simp: task_fresh_def)
  ultimately show ?thesis by (rule wave_ok_advances [OF inv(2)])
qed

lemma wave_lock:
  assumes inv: "system_ok \<sigma>" "wave_ok \<sigma>" and call: "try_exec (sched \<sigma>) = Some (NoTask, s')"
  shows "wave_ok (set_worker k Locked fin s' \<sigma>)"
proof -
  have "frame (sched \<sigma>) s'" "exec_status s' = exec_status (sched \<sigma>)"
    using good_try_exec [OF ok_parts(1) [OF inv(1)]] call by (auto simp: starts_def)
  then have "advances (sched \<sigma>) s'" by (intro frame_advances) auto
  from wave_ok_advances [OF inv(2) this] show ?thesis by (simp add: task_fresh_def)
qed

lemma wave_take:
  assumes at: "worker_at k (Checked idx inc) fin \<sigma>" and inv: "system_ok \<sigma>" "wave_ok \<sigma>"
    and call: "take_validation inc (sched \<sigma>) = ((ver, w), s')"
    and ready: "exec_status (sched \<sigma>) (val_idx (sched \<sigma>)) = Executed inc"
  shows "wave_ok (set_worker k (Running (ValidationTask ver w)) fin s' \<sigma>)"
proof -
  have p: "val_idx (sched \<sigma>) < num_txns (sched \<sigma>)" using ok_parts(4) [OF inv(1) at] by auto
  note t = good_take_validation [OF ok_parts(1) [OF inv(1)] p call]
  have "advances (sched \<sigma>) s'" using t ready by (auto simp: advances_def less_Suc_eq)
  moreover have "task_fresh s' (Running (ValidationTask ver w))" using t ready by (auto simp: task_fresh_def)
  ultimately show ?thesis by (rule wave_ok_advances [OF inv(2)])
qed

lemma wave_execute:
  assumes at: "worker_at k (Running (ExecutionTask (i, inc) None)) fin \<sigma>" and inv: "system_ok \<sigma>" "wave_ok \<sigma>"
    and call: "finish_execution i inc reval (sched \<sigma>) = Some (t, s')"
  shows "wave_ok (set_worker k (Running t) fin s' \<sigma>)"
proof -
  let ?s = "sched \<sigma>"
  note ok = ok_parts [OF inv(1)]
  have p: "i < num_txns ?s" "exec_status ?s i = Executing inc" using ok(4) [OF at] by auto
  have s': "frame ?s s'" "starts t (set_exec_status i (Executed inc) ?s) s'"
    using good_finish_execution [OF ok(1) p, of reval] call by auto
  have "ran_as inc' (exec_status s' j)" if "ran_as inc' (exec_status ?s j)" for inc' j
    using starts_ran_as [OF s'(2), of inc' j] that p(2) by (cases "j = i") auto
  with frame_advances [OF s'(1)] have "advances ?s s'" by blast
  from wave_ok_advances [OF inv(2) this starts_not_validation [OF s'(2)]] show ?thesis .
qed

lemma wave_abort:
  assumes at: "worker_at k (Running (ValidationTask (i, inc) w)) fin \<sigma>" and inv: "wave_ok \<sigma>"
    and call: "try_abort i inc (sched \<sigma>) = Some (True, s')"
  shows "wave_ok (set_worker k (Aborted (i, inc)) fin s' \<sigma>)"
proof -
  have "s' = set_exec_status i (Aborting inc) (sched \<sigma>)" "exec_status (sched \<sigma>) i = Executed inc"
    using call by (auto simp: try_abort_def status_eq_iff split: if_splits)
  then have "advances (sched \<sigma>) s'" by (auto simp: advances_def cur_wave_def)
  then show ?thesis by (rule wave_ok_advances [OF inv]) (simp add: task_fresh_def)
qed

lemma wave_validate:
  assumes at: "worker_at k (Running (ValidationTask (i, inc) w)) fin \<sigma>" and inv: "system_ok \<sigma>" "wave_ok \<sigma>"
    and call: "finish_validation i w (sched \<sigma>) = Some s'"
  shows "wave_ok (set_worker k (Running NoTask) fin s' \<sigma>)"
proof -
  let ?s = "sched \<sigma>"
  have i: "i < num_txns ?s" using ok_parts(4) [OF inv(1) at] by simp
  have len: "i < length (txn_status ?s)" using ok_parts(1) [OF inv(1)] i by (simp add: good_def sched_wf_def)
  define v where "v = (case validated ?s i of None \<Rightarrow> w | Some prev \<Rightarrow> max prev w)"
  have s': "s' = set_val_status i ((val_status ?s i)\<lparr>maybe_max_validated_wave := Some v\<rparr>) ?s"
    using call by (simp add: finish_validation_def Let_def v_def validated_def split: if_splits)
  have same: "trig s' j = trig ?s j" "cur_wave s' = cur_wave ?s" "val_idx s' = val_idx ?s"
      "exec_status s' = exec_status ?s" "num_txns s' = num_txns ?s" for j
    using len by (auto simp: s' trig_def cur_wave_def fun_eq_iff)
  have fr: "fresh s' j w' = fresh ?s j w'" for j w' by (simp add: fresh_def same)
  have tf: "task_fresh s' p = task_fresh ?s p" for p by (simp add: task_fresh_def fr same split: pc.split scheduler_task.split)
  have val: "validated s' j = (if j = i then Some v else validated ?s j)" for j
    using len by (simp add: s' validated_def)
  have w: "w \<le> cur_wave ?s \<and> (fresh ?s i w \<longrightarrow> i < val_idx ?s)"
    using wave_okD(2) [OF inv(2) at] by (simp add: task_fresh_def)
  have "v \<le> cur_wave ?s \<and> (fresh ?s i v \<longrightarrow> i < val_idx ?s)"
    using w wave_okD(3,4) [OF inv(2) i] by (auto simp: v_def max_def split: option.split)
  then have "wave_ok (\<sigma>\<lparr>sched := s'\<rparr>)"
    using inv(2) by (simp add: wave_ok_def executed_below_def same fr tf val)
  then show ?thesis
    using wave_ok_advances [of "\<sigma>\<lparr>sched := s'\<rparr>" s' "Running NoTask" k fin]
    by (simp add: advances_def task_fresh_def set_worker_def)
qed

text \<open>Sending transaction \<open>i\<close> back ends every validation of \<open>i\<close> and above that was handed out before.\<close>

lemma finish_abort_waves:
  assumes inv: "system_ok \<sigma>" and i: "i < num_txns (sched \<sigma>)" "exec_status (sched \<sigma>) i = Aborting inc"
    and call: "finish_abort i inc (sched \<sigma>) = Some (t, s')"
  shows "starts t (set_exec_status i (ReadyToExecute (inc + 1) None) (sched \<sigma>)) s'"
    "num_txns s' = num_txns (sched \<sigma>)" "val_idx s' = min i (val_idx (sched \<sigma>))"
    "validated s' j = validated (sched \<sigma>) j" "j \<noteq> i \<Longrightarrow> trig s' j = trig (sched \<sigma>) j"
    "i < val_idx (sched \<sigma>) \<Longrightarrow> trig s' i = cur_wave s' \<and> cur_wave (sched \<sigma>) < cur_wave s'"
    "\<not> i < val_idx (sched \<sigma>) \<Longrightarrow> trig s' i = trig (sched \<sigma>) i \<and> cur_wave s' = cur_wave (sched \<sigma>)"
proof -
  let ?s = "sched \<sigma>"
  note ok = ok_parts [OF inv]
  have i32: "i < 2 ^ 32" using ok(1) i(1) by (simp add: good_def sched_wf_def)
  have room: "wave_room i ?s" by (rule finish_abort_room [OF call])
  have s': "num_txns s' = num_txns ?s" "validation_idx s' = lowered i (validation_idx ?s)"
      "\<forall>k. val_status s' k = (if k = i then case triggered i ?s of None \<Rightarrow> val_status ?s i
          | Some w \<Rightarrow> (val_status ?s i)\<lparr>max_triggered_wave := w\<rparr> else val_status ?s k)"
      "starts t (set_exec_status i (ReadyToExecute (inc + 1) None) ?s) s'"
    using good_finish_abort [OF ok(1) i room] call by auto
  then show "starts t (set_exec_status i (ReadyToExecute (inc + 1) None) ?s) s'" "num_txns s' = num_txns ?s"
    "j \<noteq> i \<Longrightarrow> trig s' j = trig ?s j" by (simp_all add: trig_def)
  show "val_idx s' = min i (val_idx ?s)" using s'(2) val_idx_lowered [OF i32] by (simp add: val_idx_def)
  show "validated s' j = validated ?s j" using s'(3) by (auto simp: validated_def split: option.split)
  obtain idx w where iw: "unpack_validation_idx (validation_idx ?s) = (idx, w)" by fastforce
  { assume "i < val_idx ?s"
    then have "i < idx" using iw by (simp add: val_idx_def)
    then have t: "triggered i ?s = Some (w + 1)" "uint w < 2 ^ 32 - 1" "cur_wave s' = w + 1" "cur_wave ?s = w"
      using iw room s'(2) unpack_pack [OF i32, of w]
      by (simp_all add: triggered_def wave_room_def cur_wave_def lowered_def)
    then have "uint (w + 1) = uint w + 1" by (simp add: uint_word_ariths)
    then have "w < w + 1" by (simp add: word_less_def)
    with t s'(3) show "trig s' i = cur_wave s' \<and> cur_wave ?s < cur_wave s'" by (simp add: trig_def) }
  { assume "\<not> i < val_idx ?s"
    then have "triggered i ?s = None" "lowered i (validation_idx ?s) = validation_idx ?s"
      using iw by (simp_all add: val_idx_def triggered_def lowered_def)
    with s'(2,3) show "trig s' i = trig ?s i \<and> cur_wave s' = cur_wave ?s" by (simp add: trig_def cur_wave_def) }
qed

text \<open>What was fresh stays fresh only below \<open>i\<close>.\<close>

lemma finish_abort_fresh:
  assumes inv: "system_ok \<sigma>" and i: "i < num_txns (sched \<sigma>)" "exec_status (sched \<sigma>) i = Aborting inc"
    and call: "finish_abort i inc (sched \<sigma>) = Some (t, s')"
    and w: "w \<le> cur_wave (sched \<sigma>)" "fresh (sched \<sigma>) l w \<Longrightarrow> l < val_idx (sched \<sigma>)" and fr: "fresh s' l w"
  shows "l < i" "fresh (sched \<sigma>) l w" "l < val_idx s'"
proof -
  let ?s = "sched \<sigma>"
  note fa = finish_abort_waves [OF inv i call]
  show l: "l < i"
  proof (rule ccontr)
    assume "\<not> l < i"
    show False
    proof (cases "i < val_idx ?s")
      case True
      then have "w < trig s' i" using fa(6) w(1) by auto
      moreover have "trig s' i \<le> w" using fr \<open>\<not> l < i\<close> unfolding fresh_def by simp
      ultimately show False by simp
    next
      case False
      then have "trig s' j = trig ?s j" for j using fa(5,7) by (cases "j = i") auto
      then have "fresh ?s l w" using fr by (simp add: fresh_def)
      with w(2) False \<open>\<not> l < i\<close> show False by simp
    qed
  qed
  then have "trig s' j = trig ?s j" if "j \<le> l" for j using fa(5) [of j] that by simp
  then show "fresh ?s l w" using fr by (simp add: fresh_def)
  then show "l < val_idx s'" using fa(3) w(2) l by simp
qed

lemma wave_finish_abort:
  assumes at: "worker_at k (Aborted (i, inc)) fin \<sigma>" and inv: "system_ok \<sigma>" "wave_ok \<sigma>"
    and call: "finish_abort i inc (sched \<sigma>) = Some (t, s')"
  shows "wave_ok (set_worker k (Running t) fin s' \<sigma>)"
proof -
  let ?s = "sched \<sigma>"
  have i: "i < num_txns ?s" "exec_status ?s i = Aborting inc" using ok_parts(4) [OF inv(1) at] by auto
  note fa = finish_abort_waves [OF inv(1) i call] and ff = finish_abort_fresh [OF inv(1) i call]
  have up: "cur_wave ?s \<le> cur_wave s'" using fa(6,7) by (cases "i < val_idx ?s") auto
  have ran: "ran_as inc' (exec_status s' j)" if "ran_as inc' (exec_status ?s j)" "j \<noteq> i" for inc' j
    using starts_ran_as [OF fa(1), of inc' j] that by simp
  have keep: "task_fresh s' p" if "task_fresh ?s p" for p
  proof (cases "\<exists>l inc' w. p = Running (ValidationTask (l, inc') w)")
    case True
    then obtain l inc' w where p: "p = Running (ValidationTask (l, inc') w)" by blast
    with that have w: "w \<le> cur_wave ?s" "fresh ?s l w \<Longrightarrow> l < val_idx ?s \<and> ran_as inc' (exec_status ?s l)"
      by (simp_all add: task_fresh_def)
    have "l < val_idx s' \<and> ran_as inc' (exec_status s' l)" if "fresh s' l w"
      using ff [OF w(1) _ that] w(2) ran by blast
    with p w(1) up show ?thesis by (simp add: task_fresh_def)
  qed (auto simp: task_fresh_def split: pc.split scheduler_task.split)
  have "task_fresh s' (wpc ((workers \<sigma>)[k := \<lparr>wpc = Running t, finished_val_flag = fin\<rparr>] ! l))"
    if "l < length (workers \<sigma>)" for l
    using that inv(2) keep starts_not_validation [OF fa(1)] by (cases "l = k") (simp_all add: wave_ok_def)
  moreover have "trig s' j \<le> cur_wave s'" if "j < num_txns ?s" for j
    using wave_okD(1) [OF inv(2) that] fa(5,6,7) up by (cases "j = i"; cases "i < val_idx ?s") (auto intro: order_trans)
  moreover have "w \<le> cur_wave s' \<and> (fresh s' j w \<longrightarrow> j < val_idx s')" if "j < num_txns ?s" "validated ?s j = Some w" for j w
    using wave_okD(3,4) [OF inv(2) that] ff(3) [of w j] up by (auto intro: order_trans)
  moreover have "executed_below s'"
    unfolding executed_below_def has_run_as
  proof (intro allI impI)
    fix j assume "j < val_idx s'"
    then have "has_run (exec_status ?s j)" "j \<noteq> i" using wave_okD(5) [OF inv(2), of j] fa(3) by simp_all
    then show "\<exists>inc. ran_as inc (exec_status s' j)" using ran unfolding has_run_as by blast
  qed
  ultimately show ?thesis using fa(2,4) by (simp add: wave_ok_def set_worker_def)
qed

lemma try_commit_wave:
  assumes "try_commit locked (c, w) s = Some (r, cs, s')" "c < length (txn_status s)"
  shows "(cs = (c, w) \<or> cs = (c, max w (trig s c))) \<and> r = None
    \<or> (\<exists>v. cs = (c + 1, max w (trig s c)) \<and> validated s c = Some v \<and> max w (trig s c) \<le> v)"
  using assms
  by (auto simp: try_commit_def trig_def validated_def Let_def
      split: if_splits execution_status.splits option.splits)

lemma wave_commit:
  assumes at: "worker_at 0 (Running t) fin \<sigma>" and inv: "system_ok \<sigma>" "wave_ok \<sigma>"
    and call: "try_commit locked (commit_state \<sigma>) (sched \<sigma>) = Some (r, cs, s')"
  shows "wave_ok (\<sigma>\<lparr>sched := s', commit_state := cs\<rparr>)"
proof -
  let ?s = "sched \<sigma>"
  obtain c w where c: "commit_state \<sigma> = (c, w)" by fastforce
  have ck: "c \<le> num_txns ?s" using inv(1) c by (simp add: system_ok_def commit_ok_def)
  have "advances ?s s'"
    using try_commit_cases [OF call [unfolded c] ck] ok_parts(3) [OF inv(1)]
    by (auto simp: advances_def cur_wave_def)
  then have "wave_ok (set_worker 0 (Running t) fin s' \<sigma>)"
    using wave_ok_advances [OF inv(2)] task_fresh_advances wave_okD(2) [OF inv(2) at] by blast
  then show ?thesis
    unfolding set_worker_same [OF at, symmetric] by (simp add: wave_ok_def)
qed

text \<open>A step that changes neither statuses nor the validation index.\<close>

lemma wave_ok_same:
  assumes "wave_ok \<sigma>" "num_txns s' = num_txns (sched \<sigma>)" "val_status s' = val_status (sched \<sigma>)"
    "validation_idx s' = validation_idx (sched \<sigma>)" "exec_status s' = exec_status (sched \<sigma>)" "task_fresh s' p'"
  shows "wave_ok (set_worker k p' fin' s' \<sigma>)"
  by (rule wave_ok_advances [OF assms(1) _ assms(6)]) (use assms in \<open>auto simp: advances_def cur_wave_def val_idx_def\<close>)

theorem step_wave_ok:
  assumes "step \<sigma> \<sigma>'" "in_time \<sigma> \<sigma>'" "system_ok \<sigma>" "wave_ok \<sigma>"
  shows "wave_ok \<sigma>'"
  using assms
proof (induction rule: step.induct)
  case (take k idx inc fin \<sigma> ver w s)
  have "exec_status (sched \<sigma>) (val_idx (sched \<sigma>)) = Executed inc"
    by (rule in_time_taken [OF take(3,1)]) (use take(1) in \<open>simp add: worker_at_def set_worker_def\<close>)
  with wave_take [OF take(1,4,5,2)] show ?case .
next
  case (lock k \<sigma> s)
  then show ?case by (intro wave_lock)
next
  case (check k idx fin \<sigma>)
  then show ?case by (intro wave_ok_same) (auto simp: task_fresh_def split: option.split)
next
  case (wait k i inc cv fin \<sigma> dep r s)
  have "frame (sched \<sigma>) s \<and> exec_status s = exec_status (sched \<sigma>)"
    using good_push_child [OF ok_parts(1) [OF wait(5)], of dep i s] ok_parts(4) [OF wait(5) wait(1)] wait(2,3)
    by (auto simp: wait_for_dependency_def)
  then show ?case
    unfolding set_worker_same [OF wait(1)]
    by (intro wave_ok_same [OF wait(6)]) (auto simp: task_fresh_def frame_def fun_eq_iff)
next
  case (mark_prologue k i inc cv fin \<sigma> pm)
  show ?case
    unfolding set_worker_same [OF mark_prologue(1)]
    by (rule wave_ok_same [OF mark_prologue(4)]) (auto simp: task_fresh_def val_status_def)
qed (rule wave_commit wave_next_task wave_execute wave_validate wave_abort wave_finish_abort; assumption
     | rule wave_ok_same; auto simp: task_fresh_def val_status_def)+

section \<open>Commit waves\<close>

text \<open>Along every run, in time or not: a committed transaction triggers no further wave.\<close>

lemma commit_waves_same:
  assumes "commit_waves \<sigma>" "system_ok \<sigma>" "\<And>j. is_committed (sched \<sigma>) j \<Longrightarrow> trig s' j = trig (sched \<sigma>) j"
  shows "commit_waves (set_worker k p' fin' s' \<sigma>)"
  using assms by (auto simp: commit_waves_def set_worker_def system_ok_def commit_ok_def)

lemma frame_trig: "frame s s' \<Longrightarrow> trig s' j = trig s j"
  by (simp add: frame_def trig_def)

lemma commit_waves_commit:
  assumes inv: "system_ok \<sigma>" "commit_waves \<sigma>"
    and call: "try_commit locked (commit_state \<sigma>) (sched \<sigma>) = Some (r, cs, s')"
  shows "commit_waves (\<sigma>\<lparr>sched := s', commit_state := cs\<rparr>)"
proof -
  let ?s = "sched \<sigma>"
  obtain c w where c: "commit_state \<sigma> = (c, w)" by fastforce
  have ck: "c \<le> num_txns ?s" using inv(1) c by (simp add: system_ok_def commit_ok_def)
  have t: "trig s' j = trig ?s j" for j
    using try_commit_cases [OF call [unfolded c] ck] by (auto simp: trig_def)
  have old: "j < c \<Longrightarrow> trig ?s j \<le> w" for j using inv(2) c by (simp add: commit_waves_def)
  have "trig ?s j \<le> snd cs" if "j < fst cs" for j
  proof (cases "c = num_txns ?s")
    case True
    then have "cs = (c, w)" using call c by (auto simp: try_commit_def)
    with that old show ?thesis by simp
  next
    case False
    then have "c < length (txn_status ?s)" using ck ok_parts(3) [OF inv(1)] by simp
    from try_commit_wave [OF call [unfolded c] this] that old [of j] show ?thesis
      by (cases "j = c") (auto simp: max_def intro: order_trans)
  qed
  with t show ?thesis by (simp add: commit_waves_def)
qed

theorem step_commit_waves:
  assumes "step \<sigma> \<sigma>'" "system_ok \<sigma>" "commit_waves \<sigma>"
  shows "commit_waves \<sigma>'"
  using assms
proof (induction rule: step.induct)
  case (commit t fin \<sigma> locked r cs s)
  then show ?case by (intro commit_waves_commit)
next
  case (next_task k fin \<sigma> t fin' s)
  from good_next_task [OF ok_parts(1) [OF next_task(3)] next_task(2)] next_task(3,4) show ?case
    by (intro commit_waves_same) (auto intro: frame_trig)
next
  case (lock k \<sigma> s)
  from good_try_exec [OF ok_parts(1) [OF lock(4)]] lock(3-5) show ?case
    by (intro commit_waves_same) (auto intro: frame_trig)
next
  case (take k idx inc fin \<sigma> ver w s)
  have "val_idx (sched \<sigma>) < num_txns (sched \<sigma>)" using ok_parts(4) [OF take(3,1)] by auto
  from good_take_validation(8) [OF ok_parts(1) [OF take(3)] this take(2)] take(3,4) show ?case
    by (intro commit_waves_same) (simp_all add: trig_def)
next
  case (wait k i inc cv fin \<sigma> dep r s)
  have "frame (sched \<sigma>) s"
    using good_push_child [OF ok_parts(1) [OF wait(4)], of dep i s] ok_parts(4) [OF wait(4) wait(1)] wait(2,3)
    by (auto simp: wait_for_dependency_def)
  then show ?case
    unfolding set_worker_same [OF wait(1)] using wait by (intro commit_waves_same) (auto intro: frame_trig)
next
  case (execute k i inc fin \<sigma> reval t s)
  have "frame (sched \<sigma>) s"
    using good_finish_execution [OF ok_parts(1) [OF execute(3)], of i inc reval] ok_parts(4) [OF execute(3,1)] execute(2) by auto
  with execute show ?case by (intro commit_waves_same) (auto intro: frame_trig)
next
  case (validate k i inc w fin \<sigma> valid s)
  then have "i < length (txn_status (sched \<sigma>))" by (auto simp: finish_validation_def split: if_splits)
  with validate show ?case
    by (intro commit_waves_same) (auto simp: finish_validation_def trig_def Let_def)
next
  case (abort k i inc w fin \<sigma> s)
  then show ?case by (intro commit_waves_same) (auto simp: try_abort_def trig_def split: if_splits)
next
  case (finish_abort k i inc fin \<sigma> t s)
  have i: "i < num_txns (sched \<sigma>)" "exec_status (sched \<sigma>) i = Aborting inc" using ok_parts(4) [OF finish_abort(3,1)] by auto
  have "trig s j = trig (sched \<sigma>) j" if "is_committed (sched \<sigma>) j" for j
    using finish_abort_waves(5) [OF finish_abort(3) i finish_abort(2), of j] that i(2) by (cases "j = i") (simp_all add: is_committed_def)
  with finish_abort show ?case by (intro commit_waves_same)
next
  case (mark_prologue k i inc cv fin \<sigma> pm)
  then show ?case
    unfolding set_worker_same [OF mark_prologue(1)] by (intro commit_waves_same) (simp_all add: trig_def val_status_def)
qed (auto simp: trig_def val_status_def intro!: commit_waves_same)

lemma wave_ok_new:
  assumes "scheduler_new n deps gas conc md pmap = Some s"
  shows "wave_ok (system_new num_workers s)"
proof -
  have s: "num_txns s = n" "txn_status s = replicate n (ReadyToExecute 0 None, validation_status_new)"
    using assms by (auto simp: scheduler_new_def split: if_splits option.splits)
  then have "trig s j = 0" "validated s j = None" if "j < n" for j
    using that by (simp_all add: trig_def validated_def val_status_def validation_status_new_def)
  moreover have "val_idx s = 0"
    using assms by (auto simp: scheduler_new_def val_idx_def unpack_validation_idx_def split: if_splits option.splits)
  ultimately show ?thesis using s(1) by (simp add: wave_ok_def executed_below_def system_new_def task_fresh_def)
qed

lemma reachable_commit_waves:
  assumes "reachable n deps gas md num_workers \<sigma>"
  shows "commit_waves \<sigma>"
proof -
  obtain s where s: "system_ok (system_new num_workers s)" "step\<^sup>*\<^sup>* (system_new num_workers s) \<sigma>"
    using assms system_new_ok unfolding reachable_def by blast
  from s(2) show ?thesis
  proof (induction rule: rtranclp_induct)
    case base
    show ?case by (simp add: commit_waves_def system_new_def)
  next
    case (step \<tau> \<upsilon>)
    from step_commit_waves [OF step(2) steps_system_ok [OF step(1) s(1)] step(3)] show ?case .
  qed
qed

end
