(* ===== verification/SchedulerSafety.thy ===== *)
theory SchedulerSafety
  imports Waves
begin

text \<open>
  What the scheduler guarantees to the block executor in every interleaving of its workers.
\<close>

section \<open>A small block\<close>

text \<open>Two transactions, the second hinted to depend on the first, under two workers.\<close>

definition demo_sched :: scheduler where
  "demo_sched =
     \<lparr>num_txns = 2, execution_idx = 0, validation_idx = 0, done_marker = False,
      txn_status = [(ReadyToExecute 0 None, validation_status_new), (ReadyToExecute 0 None, validation_status_new)],
      hint_graph = [[], [0]], concurrency_level = 2, channels = [], priochannels = [0],
      sig_val_idx = 0, prologue_map = [], prologue_index = 0, mode = Standard,
      critical_path_parent = [[1], []], children = [[1], []]\<rparr>"

definition demo :: "action list \<Rightarrow> system" where
  "demo as = the (perform_all as (system_new 2 demo_sched))"

lemma replicate_2: "replicate 2 x = [x, x]"
  by (simp add: numeral_2_eq_2)

lemma demo_sched_new: "scheduler_new 2 [[], [0]] [10, 10] 2 Standard [] = Some demo_sched"
proof -
  have "[0..<2] = [0, 1::nat]" by (simp add: upt_rec)
  then show ?thesis by (simp add: scheduler_new_def demo_sched_def replicate_2 add_chk_def)
qed

lemma demo_hints: "hints_ok 2 [[], [0]]"
  by (simp add: hints_ok_def less_2_cases_iff)

lemma demo_reachable:
  assumes "perform_all as (system_new 2 demo_sched) \<noteq> None"
  shows "reachable 2 [[], [0]] [10, 10] Standard 2 (demo as)"
proof -
  have "run 2 [[], [0]] [10, 10] Standard 2 as = Some (demo as)"
    using assms by (auto simp: run_def demo_sched_new demo_def)
  then show ?thesis using run_reachable [OF demo_hints] by simp
qed

section \<open>The methods never panic\<close>

text \<open>
  C4. In every reachable state each call of the scheduler that the worker loop and the reads of a run
  make returns, when it runs without another call inside it: no index is out of range, no debug
  assertion of the status changes fails, no execution task carries a condition variable, and a
  transaction that waits for a lower one is registered with it. The exception is the wave counter:
  finishing an abort panics when, and only when, it has to start a new validation wave after wave
  \<open>2 ^ 32 - 1\<close>. What another call may see of a \<open>boxcar::Vec\<close> while an element is being pushed is not
  covered: the vector is a list here.
\<close>

theorem scheduler_calls_return:
  assumes "reachable n deps gas md num_workers \<sigma>" "worker_at k p fin \<sigma>"
  shows "try_commit locked (commit_state \<sigma>) (sched \<sigma>) \<noteq> None
    \<and> next_task got_lock fin (sched \<sigma>) \<noteq> None
    \<and> (case p of
         Running (ExecutionTask (i, inc) cv) \<Rightarrow>
           cv = None \<and> finish_execution i inc updates_outside (sched \<sigma>) \<noteq> None
           \<and> (dep < i \<longrightarrow> wait_for_dependency i dep (sched \<sigma>) \<noteq> None)
       | Running (ValidationTask (i, inc) w) \<Rightarrow>
           try_abort i inc (sched \<sigma>) \<noteq> None \<and> finish_validation i w (sched \<sigma>) \<noteq> None
       | Aborted (i, inc) \<Rightarrow> finish_abort i inc (sched \<sigma>) = None \<longleftrightarrow>
           i < fst (unpack_validation_idx (validation_idx (sched \<sigma>)))
           \<and> uint (snd (unpack_validation_idx (validation_idx (sched \<sigma>)))) = 2 ^ 32 - 1
       | _ \<Rightarrow> True)"
proof -
  note ok = ok_parts [OF reachable_ok [OF assms(1)]]
  have len: "length (txn_status (sched \<sigma>)) = num_txns (sched \<sigma>)"
    using ok(1) by (simp add: good_def sched_wf_def)
  have "fst (commit_state \<sigma>) \<le> num_txns (sched \<sigma>)"
    using reachable_ok [OF assms(1)] by (simp add: system_ok_def commit_ok_def)
  then have "try_commit locked (commit_state \<sigma>) (sched \<sigma>) \<noteq> None"
    using len by (auto simp: try_commit_def Let_def split: prod.split execution_status.split option.split)
  moreover have "next_task got_lock fin (sched \<sigma>) \<noteq> None"
    using good_try_exec [OF ok(1)] by (auto simp: next_task_def split: prod.split option.split)
  moreover have "finish_abort i inc (sched \<sigma>) = None \<longleftrightarrow>
      i < fst (unpack_validation_idx (validation_idx (sched \<sigma>)))
      \<and> uint (snd (unpack_validation_idx (validation_idx (sched \<sigma>)))) = 2 ^ 32 - 1"
    if "p = Aborted (i, inc)" for i inc
  proof -
    have "finish_abort i inc (sched \<sigma>) = None \<longleftrightarrow> \<not> wave_room i (sched \<sigma>)"
      using ok(4) [OF assms(2)] that good_finish_abort [OF ok(1), of i inc] finish_abort_room [of i inc "sched \<sigma>"]
      by (cases "finish_abort i inc (sched \<sigma>)") auto
    then show ?thesis
      using uint_lt2p [of "snd (unpack_validation_idx (validation_idx (sched \<sigma>)))"]
      by (auto simp: wave_room_def split: prod.splits)
  qed
  moreover have "wait_for_dependency i dep (sched \<sigma>) \<noteq> None"
    if "p = Running (ExecutionTask (i, inc) cv)" "dep < i" for i inc cv
    using ok(1) ok(4) [OF assms(2)] that push_child_spec [of "sched \<sigma>" dep i]
    by (auto simp: wait_for_dependency_def good_def)
  moreover note ok(4) [OF assms(2)] good_finish_execution [OF ok(1)]
  ultimately show ?thesis
    using len
    by (cases p rule: holds.cases)
       (fastforce simp: try_abort_def finish_validation_def Let_def split: scheduler_task.split)+
qed

theorem scheduler_calls_return_witness:
  "finish_execution 1 0 True (sched (demo [Next 0, Execute 0, Next 1])) \<noteq> None
     \<and> wait_for_dependency 1 0 (sched (demo [Next 0, Execute 0, Next 1])) \<noteq> None"
proof -
  let ?as = "[Next 0, Execute 0, Next 1]"
  have at: "worker_at 1 (Running (ExecutionTask (1, 0) None)) False (demo ?as)" by code_simp
  have run: "perform_all ?as (system_new 2 demo_sched) \<noteq> None" by code_simp
  show ?thesis
    using scheduler_calls_return [OF demo_reachable [OF run] at, where dep = 0 and updates_outside = True] by simp
qed

section \<open>Exclusive execution\<close>

text \<open>
  C5. No two workers execute the same transaction at the same time, and the version a worker
  executes is the one the scheduler has on record.
\<close>

theorem exclusive_execution:
  assumes "reachable n deps gas md num_workers \<sigma>"
    and "k < length (workers \<sigma>)" "wpc (workers \<sigma> ! k) = Running (ExecutionTask (i, a) cv)"
    and "l < length (workers \<sigma>)" "wpc (workers \<sigma> ! l) = Running (ExecutionTask (i, b) cv')"
  shows "k = l \<and> exec_status (sched \<sigma>) i = Executing a"
proof -
  have ok: "workers_ok \<sigma>" "owned \<sigma>"
    using reachable_ok [OF assms(1)] by (simp_all add: system_ok_def)
  have "holds (wpc (workers \<sigma> ! k)) = Some i" "holds (wpc (workers \<sigma> ! l)) = Some i"
    using assms(3,5) by simp_all
  with ok(2) assms(2,4) have "k = l" unfolding owned_def by blast
  moreover have "pc_ok (sched \<sigma>) (finished_val_flag (workers \<sigma> ! k)) (wpc (workers \<sigma> ! k))"
    using ok(1) assms(2) by (simp add: workers_ok_def)
  ultimately show ?thesis using assms(3) by simp
qed

theorem exclusive_execution_witness:
  "exec_status (sched (demo [Next 0, Execute 0, Next 1])) 1 = Executing 0"
proof -
  let ?as = "[Next 0, Execute 0, Next 1]"
  have "perform_all ?as (system_new 2 demo_sched) \<noteq> None" by code_simp
  moreover have "1 < length (workers (demo ?as))
      \<and> wpc (workers (demo ?as) ! 1) = Running (ExecutionTask (1, 0) None)" by code_simp
  ultimately show ?thesis
    using exclusive_execution [OF demo_reachable, of ?as 1 1 0 None 1 0 None] by simp
qed

section \<open>Commits\<close>

lemma steps_edges:
  "step\<^sup>*\<^sup>* \<sigma> \<sigma>' \<Longrightarrow> system_ok \<sigma> \<Longrightarrow> edge\<^sup>*\<^sup>* (exec_status (sched \<sigma>) i) (exec_status (sched \<sigma>') i)"
proof (induction rule: rtranclp_induct)
  case (step \<sigma>1 \<sigma>2)
  then have "edge\<^sup>*\<^sup>* (exec_status (sched \<sigma>1) i) (exec_status (sched \<sigma>2) i)"
    using step_edges steps_system_ok by blast
  with step show ?case by auto
qed simp

text \<open>
  C6. Commits are final and in block order: once a version is committed it stays committed, with
  its incarnation, along every further run, and all lower transactions are committed.
\<close>

theorem commits_final_and_in_order:
  assumes "reachable n deps gas md num_workers \<sigma>" "step\<^sup>*\<^sup>* \<sigma> \<sigma>'"
    and "i < num_txns (sched \<sigma>)" "exec_status (sched \<sigma>) i = Committed inc" "j < i"
  shows "exec_status (sched \<sigma>') i = Committed inc \<and> is_committed (sched \<sigma>') j"
proof -
  note ok = reachable_ok [OF assms(1)]
  have "is_committed (sched \<sigma>) i" using assms(4) by (simp add: is_committed_def)
  with ok assms(3,5) have "is_committed (sched \<sigma>) j" by (auto simp: system_ok_def commit_ok_def)
  then obtain inc' where "exec_status (sched \<sigma>) j = Committed inc'"
    by (auto simp: is_committed_def split: execution_status.splits)
  then have "exec_status (sched \<sigma>') j = Committed inc'"
    using committed_final [OF steps_edges [OF assms(2) ok, of j]] by simp
  moreover have "exec_status (sched \<sigma>') i = Committed inc"
    using committed_final [OF steps_edges [OF assms(2) ok, of i]] assms(4) by simp
  ultimately show ?thesis by (simp add: is_committed_def)
qed

theorem commits_final_and_in_order_witness:
  "exec_status (sched (demo [Next 0, Execute 0, Next 1, Execute 1, Next 0, Validate 0, Next 0, Validate 0, Commit, Commit, Commit])) 1
     = Committed 0"
proof -
  let ?as = "[Next 0, Execute 0, Next 1, Execute 1, Next 0, Validate 0, Next 0, Validate 0, Commit, Commit]"
  have run: "perform_all ?as (system_new 2 demo_sched) \<noteq> None"
    and more: "perform Commit (demo ?as) = Some (demo (?as @ [Commit]))"
    by code_simp+
  have "1 < num_txns (sched (demo ?as)) \<and> exec_status (sched (demo ?as)) 1 = Committed 0" by code_simp
  then show ?thesis
    using commits_final_and_in_order [OF demo_reachable [OF run] perform_steps [OF more], of 1 0 0] by simp
qed

text \<open>
  C10. Statuses only move along the edges of the diagram in the source, so the incarnation of a
  transaction never decreases and no version is executed twice.
\<close>

theorem status_follows_diagram:
  assumes "reachable n deps gas md num_workers \<sigma>" "step \<sigma> \<sigma>'"
  shows "edge\<^sup>*\<^sup>* (exec_status (sched \<sigma>) i) (exec_status (sched \<sigma>') i)
    \<and> (exec_status (sched \<sigma>') i = exec_status (sched \<sigma>) i
       \<or> rank (exec_status (sched \<sigma>) i) < rank (exec_status (sched \<sigma>') i))"
  using step_edges [OF assms(2) reachable_ok [OF assms(1)]] edges_rank by metis

theorem status_follows_diagram_witness:
  "edge\<^sup>*\<^sup>* (exec_status (sched (demo [])) 0) (exec_status (sched (demo [Next 0])) 0)"
proof -
  have run: "perform_all [] (system_new 2 demo_sched) \<noteq> None" by code_simp
  have "worker_at 0 (Running NoTask) False (demo [])
      \<and> next_task False False (sched (demo [])) = Some (ExecutionTask (0, 0) None, False, sched (demo [Next 0]))"
    by code_simp
  then have "step (demo []) (set_worker 0 (Running (ExecutionTask (0, 0) None)) False (sched (demo [Next 0])) (demo []))"
    using step.next_task by blast
  from status_follows_diagram [OF demo_reachable [OF run] this, of 0] show ?thesis by simp
qed

text \<open>
  C11. What a commit does, in every reachable state: it commits exactly the next transaction of the block,
  whose current incarnation has been executed, it turns that status to committed, changes nothing
  else of the scheduler and advances the commit index; and the transaction has been validated in a
  wave that is not older than any wave triggered by the transaction or by one below it, nor than the
  wave the transaction requires.
\<close>

theorem commit_is_next_and_validated:
  assumes "reachable n deps gas md num_workers \<sigma>"
    and "try_commit locked (commit_state \<sigma>) (sched \<sigma>) = Some (Some i, cs, s')"
  shows "i = fst (commit_state \<sigma>) \<and> fst cs = i + 1 \<and> (\<forall>j < i. is_committed (sched \<sigma>) j)
    \<and> (\<exists>inc v. exec_status (sched \<sigma>) i = Executed inc \<and> exec_status s' i = Committed inc
         \<and> s' = set_exec_status i (Committed inc) (sched \<sigma>)
         \<and> maybe_max_validated_wave (val_status (sched \<sigma>) i) = Some v \<and> required_wave (val_status (sched \<sigma>) i) \<le> v
         \<and> (\<forall>j \<le> i. max_triggered_wave (val_status (sched \<sigma>) j) \<le> v))"
proof -
  let ?s = "sched \<sigma>"
  note inv = reachable_ok [OF assms(1)]
  obtain c w where c: "commit_state \<sigma> = (c, w)" by fastforce
  have ck: "c \<le> num_txns ?s" "\<And>j. j < num_txns ?s \<Longrightarrow> is_committed ?s j = (j < c)"
    using inv c by (simp_all add: system_ok_def commit_ok_def)
  obtain inc where s': "c < num_txns ?s" "exec_status ?s c = Executed inc" "fst cs = c + 1" "i = c"
      "s' = set_exec_status c (Committed inc) ?s"
    using try_commit_cases [OF assms(2) [unfolded c] ck(1)] by auto
  have len: "c < length (txn_status ?s)" using s'(1) ok_parts(3) [OF inv] by simp
  obtain v where v: "validated ?s c = Some v" "max w (trig ?s c) \<le> v"
    using try_commit_wave [OF assms(2) [unfolded c] len] by auto
  have "required_wave (val_status ?s c) \<le> v"
    using assms(2) c s'(1,2) v(1) len by (auto simp: try_commit_def validated_def Let_def split: if_splits)
  moreover have "trig ?s j \<le> v" if "j \<le> c" for j
    using reachable_commit_waves [OF assms(1)] c v(2) that
    by (cases "j = c") (auto simp: commit_waves_def dest!: spec [of _ j] intro: order_trans)
  ultimately show ?thesis
    using s' v(1) len ck c by (auto simp: validated_def trig_def)
qed

theorem commit_is_next_and_validated_witness:
  "is_committed (sched (demo [Next 0, Execute 0, Next 1, Execute 1, Next 0, Validate 0, Next 0, Validate 0, Commit])) 0
     \<and> exec_status (sched (demo [Next 0, Execute 0, Next 1, Execute 1, Next 0, Validate 0, Next 0, Validate 0, Commit])) 1 = Executed 0"
proof -
  let ?as = "[Next 0, Execute 0, Next 1, Execute 1, Next 0, Validate 0, Next 0, Validate 0, Commit]"
  let ?bs = "?as @ [Commit]"
  have run: "perform_all ?as (system_new 2 demo_sched) \<noteq> None" by code_simp
  have call: "try_commit True (commit_state (demo ?as)) (sched (demo ?as)) = Some (Some 1, (2, 0), sched (demo ?bs))" by code_simp
  have "exec_status (sched (demo ?bs)) 1 = Committed 0" by code_simp
  with commit_is_next_and_validated [OF demo_reachable [OF run] call] show ?thesis by auto
qed

section \<open>Progress\<close>

text \<open>
  C7. Nothing is lost: when both channels are empty and no worker holds an execution or an abort,
  every transaction of the block has been executed.
\<close>

theorem idle_means_executed:
  assumes "reachable n deps gas md num_workers \<sigma>"
    and "channels (sched \<sigma>) = []" "priochannels (sched \<sigma>) = []"
    and "\<forall>w \<in> set (workers \<sigma>). holds (wpc w) = None" "i < num_txns (sched \<sigma>)"
  shows "is_executed i True (sched \<sigma>) \<noteq> None"
  using assms(5)
proof (induction i rule: less_induct)
  case (less i)
  let ?s = "sched \<sigma>"
  note ok = reachable_ok [OF assms(1)]
  have g: "sched_wf ?s" "no_lost {} ?s" "no_condvars ?s"
    using ok by (simp_all add: system_ok_def good_def)
  have "holds (wpc (workers \<sigma> ! k)) \<noteq> Some i" if "k < length (workers \<sigma>)" for k
    using assms(4) that nth_mem by fastforce
  with ok less.prems have idle: "\<not> busy (exec_status ?s i)" by (auto simp: system_ok_def owned_def)
  show ?case
  proof (rule ccontr)
    assume "\<not> is_executed i True ?s \<noteq> None"
    then have "unexecuted ?s i" by (simp add: unexecuted_def)
    have "\<nexists>inc c. exec_status ?s i = Suspended inc c"
      using g(3) less.prems by (simp add: no_condvars_def)
    with idle \<open>unexecuted ?s i\<close> have "\<exists>inc cv. exec_status ?s i = ReadyToExecute inc cv"
      unfolding unexecuted_iff [OF g(1) less.prems] by (cases "exec_status ?s i") auto
    with g(2) less.prems assms(2,3) have "waits ?s i" by (auto simp: no_lost_def tracked_def)
    then obtain d where d: "d \<in> hint_deps ?s i" "unexecuted ?s d" by (auto simp: waits_def)
    have "is_executed d True ?s \<noteq> None"
      by (rule less.IH [OF hint_dep_less [OF g(1) less.prems d(1)]])
    with d(2) show False by (simp add: unexecuted_def)
  qed
qed

theorem idle_means_executed_witness:
  "is_executed 1 True (sched (demo [Next 0, Execute 0, Next 1, Execute 1])) \<noteq> None"
proof -
  let ?as = "[Next 0, Execute 0, Next 1, Execute 1]"
  have "channels (sched (demo ?as)) = [] \<and> priochannels (sched (demo ?as)) = []
      \<and> (\<forall>w \<in> set (workers (demo ?as)). holds (wpc w) = None) \<and> 1 < num_txns (sched (demo ?as))"
    by code_simp
  moreover have "perform_all ?as (system_new 2 demo_sched) \<noteq> None" by code_simp
  ultimately show ?thesis
    using idle_means_executed [OF demo_reachable, of ?as 1] by blast
qed

text \<open>
  As long as the validation index has not reached the end of the block, some worker still asks for
  validations: \<open>finish_abort\<close>, which takes the index back, is called by a worker that has not stopped.
\<close>

lemma validation_attended:
  assumes "reachable n deps gas md num_workers \<sigma>" "val_idx (sched \<sigma>) < num_txns (sched \<sigma>)"
  shows "\<exists>w \<in> set (workers \<sigma>). \<not> finished_val_flag w \<and> wpc w \<noteq> Exited"
proof -
  note ok = reachable_ok [OF assms(1)]
  obtain k where k: "k < length (workers \<sigma>)" "\<not> finished_val_flag (workers \<sigma> ! k)"
    using ok assms(2) by (auto simp: system_ok_def validation_ok_def)
  with ok have "pc_ok (sched \<sigma>) False (wpc (workers \<sigma> ! k))"
    by (auto simp: system_ok_def workers_ok_def)
  then have "wpc (workers \<sigma> ! k) \<noteq> Exited" by (metis pc_ok.simps(5))
  with k nth_mem show ?thesis by blast
qed

text \<open>
  C9. A worker leaves its loop only when the whole block is committed.
\<close>

theorem exit_means_committed:
  assumes "reachable n deps gas md num_workers \<sigma>" "w \<in> set (workers \<sigma>)" "wpc w = Exited"
    and "i < num_txns (sched \<sigma>)"
  shows "is_committed (sched \<sigma>) i"
proof -
  note ok = reachable_ok [OF assms(1)]
  from assms(2) obtain k where k: "k < length (workers \<sigma>)" "workers \<sigma> ! k = w"
    by (auto simp: in_set_conv_nth)
  with ok assms(3) have "done_marker (sched \<sigma>)" by (auto simp: system_ok_def workers_ok_def)
  with ok assms(4) show ?thesis by (auto simp: system_ok_def commit_ok_def)
qed

theorem exit_means_committed_witness:
  "is_committed (sched (demo [Next 0, Execute 0, Next 1, Execute 1, Next 0, Validate 0, Next 0, Validate 0,
     Commit, Commit, Commit, Next 0, Next 0, Exit 0])) 1"
proof -
  let ?as = "[Next 0, Execute 0, Next 1, Execute 1, Next 0, Validate 0, Next 0, Validate 0,
     Commit, Commit, Commit, Next 0, Next 0, Exit 0]"
  have run: "perform_all ?as (system_new 2 demo_sched) \<noteq> None" by code_simp
  have "0 < length (workers (demo ?as)) \<and> wpc (workers (demo ?as) ! 0) = Exited \<and> 1 < num_txns (sched (demo ?as))"
    by code_simp
  then show ?thesis
    using exit_means_committed [OF demo_reachable [OF run], of "workers (demo ?as) ! 0" 1] nth_mem by blast
qed

section \<open>The packed validation index\<close>

text \<open>
  Lowering the packed validation index to \<open>target\<close>: when the index is above the target, it
  becomes the target with the next wave, which is also returned; otherwise nothing changes. Index
  and wave never disturb each other in the machine word.
\<close>

theorem decrease_validation_idx_spec:
  assumes "target < 2 ^ 32" "unpack_validation_idx (validation_idx s) = (idx, w)"
    and "decrease_validation_idx target s = Some (r, s')"
  shows "unpack_validation_idx (validation_idx s') = (if target < idx then (target, w + 1) else (idx, w))
    \<and> r = (if target < idx then Some (w + 1) else None)
    \<and> s' = s\<lparr>validation_idx := validation_idx s'\<rparr>"
  using assms unpack_pack [OF assms(1)]
  by (auto simp: decrease_validation_idx_def add_chk_def split: if_splits)

theorem decrease_validation_idx_spec_witness:
  "unpack_validation_idx (validation_idx (snd (the (decrease_validation_idx 3
      (demo_sched\<lparr>validation_idx := 12884901895\<rparr>))))) = (3, 4)"
proof -
  let ?s = "demo_sched\<lparr>validation_idx := 12884901895\<rparr>"
  let ?s' = "demo_sched\<lparr>validation_idx := 17179869187\<rparr>"
  have "unpack_validation_idx (validation_idx ?s) = (7, 3)" by code_simp
  moreover have run: "decrease_validation_idx 3 ?s = Some (Some 4, ?s')" by code_simp
  ultimately show ?thesis
    using decrease_validation_idx_spec [of 3 ?s 7 3 "Some 4" ?s'] by simp
qed

end
