(* ===== verification/Transaction.thy ===== *)
theory Transaction
  imports StateKey SchedulerSystem
begin

text \<open>
  Transactions as the mempool and the executor see them (\<open>types/src/transaction/mod.rs\<close>): the
  accessors of a signed transaction, and the transaction register that carries the gas estimates
  and the dependency hints of a block from the filler to the scheduler. Payload and authenticator
  are opaque bytes; the serialized length is computed by \<open>bcs\<close> and is an argument.
\<close>

record raw_transaction =
  raw_sender :: address
  raw_sequence_number :: u64
  raw_payload :: bytes
  raw_max_gas_amount :: u64
  raw_gas_unit_price :: u64
  raw_expiration_timestamp_secs :: u64
  raw_chain_id :: u8

record signed_transaction =
  raw_txn :: raw_transaction
  authenticator :: bytes

definition sender :: "signed_transaction \<Rightarrow> address" where
  "sender t = raw_sender (raw_txn t)"

definition sequence_number :: "signed_transaction \<Rightarrow> u64" where
  "sequence_number t = raw_sequence_number (raw_txn t)"

definition max_gas_amount :: "signed_transaction \<Rightarrow> u64" where
  "max_gas_amount t = raw_max_gas_amount (raw_txn t)"

definition gas_unit_price :: "signed_transaction \<Rightarrow> u64" where
  "gas_unit_price t = raw_gas_unit_price (raw_txn t)"

definition expiration_timestamp_secs :: "signed_transaction \<Rightarrow> u64" where
  "expiration_timestamp_secs t = raw_expiration_timestamp_secs (raw_txn t)"

definition raw_txn_bytes_len :: "(raw_transaction \<Rightarrow> nat) \<Rightarrow> signed_transaction \<Rightarrow> nat" where
  "raw_txn_bytes_len serialized_size t = serialized_size (raw_txn t)"

record 't transaction_register =
  reg_txns :: "'t list"
  gas_estimates :: "u16 list"
  reg_dependency_graph :: "u16 list list"

definition register_empty :: "'t transaction_register" where
  "register_empty = \<lparr>reg_txns = [], gas_estimates = [], reg_dependency_graph = []\<rparr>"

definition register_new :: "'t list \<Rightarrow> u16 list \<Rightarrow> u16 list list \<Rightarrow> 't transaction_register" where
  "register_new ts gs ds = \<lparr>reg_txns = ts, gas_estimates = gs, reg_dependency_graph = ds\<rparr>"

definition register_len :: "'t transaction_register \<Rightarrow> nat" where
  "register_len r = length (reg_txns r)"

definition register_is_empty :: "'t transaction_register \<Rightarrow> bool" where
  "register_is_empty r \<longleftrightarrow> reg_txns r = []"

definition map_par_txns :: "('t \<Rightarrow> 'p) \<Rightarrow> 't transaction_register \<Rightarrow> 'p transaction_register" where
  "map_par_txns f r =
     \<lparr>reg_txns = map f (reg_txns r), gas_estimates = gas_estimates r,
      reg_dependency_graph = reg_dependency_graph r\<rparr>"

text \<open>\<open>Into<TransactionRegister> for Vec\<close>: all but the first and the last depend on the first.\<close>

definition register_of_vec :: "'t list \<Rightarrow> 't transaction_register" where
  "register_of_vec ts =
     \<lparr>reg_txns = ts, gas_estimates = map (\<lambda>_. 0) ts,
      reg_dependency_graph = map (\<lambda>i. if i = 0 \<or> i = length ts - 1 then [] else [0]) [0..<length ts]\<rparr>"

text \<open>A register the scheduler accepts: one hint list and one estimate per transaction, hints backwards.\<close>

definition register_ok :: "'t transaction_register \<Rightarrow> bool" where
  "register_ok r \<longleftrightarrow> length (reg_txns r) \<le> length (gas_estimates r)
     \<and> hints_ok (length (reg_txns r)) (reg_dependency_graph r)"

lemma register_of_vec_ok: "length ts < 2 ^ 32 - 1 \<Longrightarrow> register_ok (register_of_vec ts)"
  by (auto simp: register_ok_def register_of_vec_def hints_ok_def split: if_splits)

lemma map_par_txns_ok: "register_ok (map_par_txns f r) = register_ok r"
  by (simp add: register_ok_def map_par_txns_def)

end
