(* ===== verification/Filler.thy ===== *)
theory Filler
  imports Transaction WriteSet "HOL-Library.Sublist"
begin

text \<open>
  The block fillers (\<open>mempool/src/core_mempool/filler.rs\<close>). \<open>SimpleFiller\<close> takes transactions one
  by one. \<open>DependencyFiller\<close> is the scheduler of the batch: from the speculated read and write sets
  it estimates when each transaction can start and finish on unlimited cores, rejects what would
  make the critical path too long or reads too many hot keys, and records for each accepted
  transaction its gas estimate and the transactions it depends on. The serialized length of a
  transaction is an argument (\<open>bcs\<close>). Overflow of an addition panics (\<open>None\<close>); casts truncate.
\<close>

section \<open>The simple filler\<close>

record simple_filler =
  sf_max_bytes :: u64
  sf_max_txns :: u64
  sf_current_bytes :: u64
  sf_full :: bool
  sf_block :: "signed_transaction list"

definition simple_filler_new :: "u64 \<Rightarrow> u64 \<Rightarrow> simple_filler" where
  "simple_filler_new mb mt =
     \<lparr>sf_max_bytes = mb, sf_max_txns = mt, sf_current_bytes = 0, sf_full = False, sf_block = []\<rparr>"

definition simple_add ::
  "(raw_transaction \<Rightarrow> nat) \<Rightarrow> signed_transaction \<Rightarrow> simple_filler \<Rightarrow> (bool \<times> simple_filler) option" where
  "simple_add serialized_size t f =
     (if sf_full f then Some (False, f)
      else
       (case add_chk (sf_current_bytes f) (of_nat (raw_txn_bytes_len serialized_size t)) of
          None \<Rightarrow> None
        | Some n \<Rightarrow>
            if n > sf_max_bytes f then Some (False, f\<lparr>sf_full := True\<rparr>)
            else
             (let f' = f\<lparr>sf_block := sf_block f @ [t]\<rparr>
              in Some (True, if of_nat (length (sf_block f')) = sf_max_txns f'
                             then f'\<lparr>sf_full := True\<rparr> else f'))))"

fun simple_add_seq ::
  "(raw_transaction \<Rightarrow> nat) \<Rightarrow> signed_transaction list \<Rightarrow> simple_filler \<Rightarrow> simple_filler option" where
  "simple_add_seq sz [] f = Some f"
| "simple_add_seq sz (t # ts) f =
     (case simple_add sz t f of None \<Rightarrow> None | Some (_, f') \<Rightarrow> simple_add_seq sz ts f')"

section \<open>The dependency filler\<close>

record dependency_filler =
  gas_per_core :: u64
  gas_per_core_init :: u64
  total_max_gas :: u64
  max_bytes :: u64
  max_txns :: u64
  cores :: u32
  total_bytes :: u64
  total_estimated_gas :: u64
  full :: bool
  dependency_graph :: "u16 set list"
  block :: "signed_transaction list"
  estimated_gas :: "u16 list"

definition mul_chk :: "'a::len word \<Rightarrow> 'a word \<Rightarrow> 'a word option" where
  "mul_chk a b = (if uint a * uint b < 2 ^ LENGTH('a) then Some (a * b) else None)"

definition dependency_filler_new :: "u64 \<Rightarrow> u64 \<Rightarrow> u64 \<Rightarrow> u32 \<Rightarrow> dependency_filler option" where
  "dependency_filler_new gpc mb mt c =
     map_option (\<lambda>tot.
       \<lparr>gas_per_core = gpc, gas_per_core_init = gpc, total_max_gas = tot, max_bytes = mb,
        max_txns = mt, cores = c, total_bytes = 0, total_estimated_gas = 0, full = False,
        dependency_graph = [], block = [], estimated_gas = []\<rparr>)
       (mul_chk gpc (ucast c))"

definition get_gas_estimates :: "dependency_filler \<Rightarrow> u16 list \<times> dependency_filler" where
  "get_gas_estimates f = (estimated_gas f, f\<lparr>estimated_gas := []\<rparr>)"

text \<open>The sets are hash sets: \<open>iter\<close> is the order in which one of them is walked.\<close>

definition get_dependency_graph :: "(u16 set \<Rightarrow> u16 list) \<Rightarrow> dependency_filler \<Rightarrow> u16 list list" where
  "get_dependency_graph iter f = map iter (dependency_graph f)"

definition dependency_add ::
  "(raw_transaction \<Rightarrow> nat) \<Rightarrow> signed_transaction \<Rightarrow> dependency_filler \<Rightarrow> (bool \<times> dependency_filler) option" where
  "dependency_add serialized_size t f =
     (if full f then Some (False, f)
      else
       (case add_chk (total_bytes f) (of_nat (raw_txn_bytes_len serialized_size t)) of
          None \<Rightarrow> None
        | Some n \<Rightarrow> if n > max_bytes f then Some (False, f\<lparr>full := True\<rparr>) else Some (False, f)))"

definition set_gas_per_core :: "u64 \<Rightarrow> dependency_filler \<Rightarrow> dependency_filler option" where
  "set_gas_per_core last_max f =
     (if cores f = 0 then None else Some (f\<lparr>gas_per_core := last_max div ucast (cores f)\<rparr>))"

text \<open>A candidate: its write set, its read set, its gas and the transaction.\<close>

record candidate =
  writeset :: "state_key write_set"
  read_set :: "state_key list"
  gas :: u32
  tx :: signed_transaction

type_synonym touched = "bytes \<rightharpoonup> u32 \<times> u16"

text \<open>
  The loop over the read set: the arrival time, the dependencies and the number of hot reads seen
  so far, and whether it was left because of too many hot reads.
\<close>

fun scan_reads ::
  "bool \<Rightarrow> u32 \<Rightarrow> touched \<Rightarrow> state_key list \<Rightarrow> u32 \<times> u16 set \<times> nat \<Rightarrow> bool \<times> u32 \<times> u16 set" where
  "scan_reads limit_hot_reads hot_read_limit lt [] (arrival, deps, hot) = (False, arrival, deps)"
| "scan_reads limit_hot_reads hot_read_limit lt (r # rs) (arrival, deps, hot) =
     (let (arrival', deps', hot') =
        (case lt (get_raw_ref r) of
           Some (time, k) \<Rightarrow>
             (max arrival time, insert k deps,
              if limit_hot_reads \<and> time > hot_read_limit then hot + 1 else hot)
         | None \<Rightarrow> (arrival, deps, hot))
      in if hot' \<ge> 4 then (True, arrival', deps')
         else scan_reads limit_hot_reads hot_read_limit lt rs (arrival', deps', hot'))"

definition touch :: "bytes \<Rightarrow> u32 \<Rightarrow> u16 \<Rightarrow> touched \<Rightarrow> touched" where
  "touch k finish_time idx lt =
     (let curr_max = (case lt k of Some (t, _) \<Rightarrow> t | None \<Rightarrow> 0)
      in if finish_time > curr_max then lt(k \<mapsto> (finish_time, idx)) else lt)"

record fill =
  filler :: dependency_filler
  last_touched :: touched
  skipped_users :: "bytes set"
  return_vec :: "candidate list"
  non_user_skip :: nat
  len :: nat

definition give_back :: "candidate \<Rightarrow> fill \<Rightarrow> fill" where
  "give_back c s = s\<lparr>return_vec := return_vec s @ [c]\<rparr>"

definition skip_user :: "bytes \<Rightarrow> candidate \<Rightarrow> fill \<Rightarrow> fill" where
  "skip_user user c s =
     (give_back c s)\<lparr>skipped_users := insert user (skipped_users s), non_user_skip := non_user_skip s + 1\<rparr>"

definition accept ::
  "bytes \<Rightarrow> u16 \<Rightarrow> u64 \<Rightarrow> u32 \<Rightarrow> u16 set \<Rightarrow> candidate \<Rightarrow> fill \<Rightarrow> fill" where
  "accept user g tot finish_time deps c s =
     (let f = filler s;
          current_idx = of_nat (length (block f));
          f' = f\<lparr>total_estimated_gas := tot, estimated_gas := estimated_gas f @ [g],
                 dependency_graph := dependency_graph f @ [deps], block := block f @ [tx c]\<rparr>;
          lt = fold (\<lambda>w. touch (get_raw_ref (fst w)) finish_time current_idx) (writeset c) (last_touched s);
          lt' = touch user finish_time current_idx lt;
          len' = len s + 1
      in s\<lparr>filler := if len' \<ge> unat (max_txns f') then f'\<lparr>full := True\<rparr> else f',
           last_touched := lt', len := len'\<rparr>)"

definition user_key :: "candidate \<Rightarrow> bytes" where
  "user_key c = address_bytes (sender (tx c))"

definition gas_used :: "candidate \<Rightarrow> u16" where
  "gas_used c = ucast (gas c div 10)"

definition fill_step :: "bool \<Rightarrow> candidate \<Rightarrow> fill \<Rightarrow> fill option" where
  "fill_step good_block c s =
     (let f = filler s; user = user_key c
      in if full f then Some (give_back c s)
         else if good_block \<and> user \<in> skipped_users s then Some (give_back c s)
         else if cores f = 0 then None
         else
          (let limit_hot_reads = (good_block \<and> 1000 \<le> len s \<and> len s \<le> 9000);
               hot_read_limit = ucast (total_estimated_gas f) div cores f;
               (bail, arrival, deps) = scan_reads limit_hot_reads hot_read_limit (last_touched s) (read_set c) (0, {}, 0)
           in if bail then Some (skip_user user c s)
              else
               (let (arrival', deps') =
                  (case last_touched s user of
                     Some (time, k) \<Rightarrow> (max arrival time, insert k deps)
                   | None \<Rightarrow> (arrival, deps))
                in case add_chk arrival' (ucast (gas_used c)) of
                     None \<Rightarrow> None
                   | Some finish_time \<Rightarrow>
                       if good_block \<and> finish_time > ucast (gas_per_core f) then Some (skip_user user c s)
                       else
                        (case add_chk (total_estimated_gas f) (ucast (gas_used c)) of
                           None \<Rightarrow> None
                         | Some tot \<Rightarrow>
                             if tot > total_max_gas f
                             then Some (give_back c (s\<lparr>filler := f\<lparr>full := True\<rparr>\<rparr>))
                             else Some (accept user (gas_used c) tot finish_time deps' c s)))))"

fun fill_loop :: "bool \<Rightarrow> candidate list \<Rightarrow> fill \<Rightarrow> fill option" where
  "fill_loop good_block [] s = Some s"
| "fill_loop good_block (c # cs) s =
     (case fill_step good_block c s of None \<Rightarrow> None | Some s' \<Rightarrow> fill_loop good_block cs s')"

definition add_all ::
  "bool \<Rightarrow> candidate list \<Rightarrow> touched \<Rightarrow> bytes set \<Rightarrow> dependency_filler
    \<Rightarrow> ((candidate list \<times> bool) \<times> touched \<times> bytes set \<times> dependency_filler) option" where
  "add_all good_block result lt skipped f =
     map_option (\<lambda>s. ((return_vec s, non_user_skip s + 25 \<ge> length result),
                       last_touched s, skipped_users s, filler s))
       (fill_loop good_block result
          \<lparr>filler = f, last_touched = lt, skipped_users = skipped, return_vec = [], non_user_skip = 0,
           len = length (block f)\<rparr>)"

section \<open>One candidate\<close>

text \<open>The entries of \<open>last_touched\<close> a candidate looks up: those of its reads and of its sender.\<close>

definition looked_up :: "touched \<Rightarrow> candidate \<Rightarrow> (u32 \<times> u16) set" where
  "looked_up lt c = {e. \<exists>k \<in> insert (user_key c) (get_raw_ref ` set (read_set c)). lt k = Some e}"

definition latest :: "(u32 \<times> u16) set \<Rightarrow> u32 \<Rightarrow> bool" where
  "latest E t \<longleftrightarrow> (\<forall>e \<in> E. fst e \<le> t) \<and> (t = 0 \<or> t \<in> fst ` E)"

lemma latest_empty: "latest {} 0"
  by (simp add: latest_def)

lemma latest_insert: "latest E t \<Longrightarrow> latest (insert (t', k) E) (max t t')"
  by (fastforce simp: latest_def max_def)

lemma scan_reads_spec:
  assumes "scan_reads lim hl lt rs (arr, deps, hot) = (False, arr', deps')" "latest E arr" "deps = snd ` E"
  shows "latest (E \<union> {e. \<exists>r \<in> set rs. lt (get_raw_ref r) = Some e}) arr'
    \<and> deps' = snd ` (E \<union> {e. \<exists>r \<in> set rs. lt (get_raw_ref r) = Some e})"
  using assms
proof (induction rs arbitrary: arr deps hot E)
  case (Cons r rs)
  show ?case
  proof (cases "lt (get_raw_ref r)")
    case None
    with Cons show ?thesis by (auto simp: Let_def split: if_splits)
  next
    case (Some e)
    obtain t k where e: "e = (t, k)" by (cases e)
    have *: "{e. \<exists>r \<in> set (r # rs). lt (get_raw_ref r) = Some e} =
        insert (t, k) {e. \<exists>r \<in> set rs. lt (get_raw_ref r) = Some e}"
      using Some e by auto
    from Cons.prems(1) Some e obtain hot' where
      "scan_reads lim hl lt rs (max arr t, insert k deps, hot') = (False, arr', deps')"
      by (auto simp: Let_def split: if_splits)
    from Cons.IH [OF this latest_insert [OF Cons.prems(2)]] Cons.prems(3)
    show ?thesis unfolding * by (simp add: Un_commute insert_commute)
  qed
qed auto

lemma scan_reads_bail:
  "scan_reads lim hl lt rs (arr, deps, hot) = (True, arr', deps') \<Longrightarrow> hot < 4 \<Longrightarrow> lim"
  by (induction rs arbitrary: arr deps hot) (auto simp: Let_def not_le split: if_splits option.splits)

lemma uint_ucast_gas: "uint (ucast (g :: u16) :: u32) = uint g" "uint (ucast (g :: u16) :: u64) = uint g"
  using uint_lt2p [of g] by (simp_all add: unsigned_ucast_eq take_bit_eq_mod)

text \<open>A candidate is either given back or accepted.\<close>

definition returned :: "bool \<Rightarrow> candidate \<Rightarrow> fill \<Rightarrow> fill \<Rightarrow> bool" where
  "returned good_block c s s' \<longleftrightarrow>
     (filler s' = filler s \<or> filler s' = (filler s)\<lparr>full := True\<rparr>) \<and> last_touched s' = last_touched s
     \<and> return_vec s' = return_vec s @ [c] \<and> len s' = len s \<and> skipped_users s \<subseteq> skipped_users s'
     \<and> (full (filler s') \<or> good_block \<and> user_key c \<in> skipped_users s')"

definition accepted :: "bool \<Rightarrow> candidate \<Rightarrow> fill \<Rightarrow> fill \<Rightarrow> bool" where
  "accepted good_block c s s' \<longleftrightarrow>
     \<not> full (filler s) \<and> \<not> (good_block \<and> user_key c \<in> skipped_users s) \<and>
     (\<exists>arr fin tot. latest (looked_up (last_touched s) c) arr \<and> uint fin = uint arr + uint (gas_used c)
        \<and> (good_block \<longrightarrow> fin \<le> ucast (gas_per_core (filler s)))
        \<and> uint tot = uint (total_estimated_gas (filler s)) + uint (gas_used c) \<and> tot \<le> total_max_gas (filler s)
        \<and> s' = accept (user_key c) (gas_used c) tot fin (snd ` looked_up (last_touched s) c) c s)"

lemma looked_up_user:
  "looked_up lt c = {e. \<exists>r \<in> set (read_set c). lt (get_raw_ref r) = Some e}
     \<union> (case lt (user_key c) of None \<Rightarrow> {} | Some e \<Rightarrow> {e})"
  by (auto simp: looked_up_def split: option.split)

lemma arrival_spec:
  assumes "scan_reads lim hl lt (read_set c) (0, {}, 0) = (False, arr, deps)"
    "(case lt (user_key c) of None \<Rightarrow> (arr, deps) | Some (time, k) \<Rightarrow> (max arr time, insert k deps)) = (arr', deps')"
  shows "latest (looked_up lt c) arr'" "deps' = snd ` looked_up lt c"
proof -
  define E where "E = {e. \<exists>r \<in> set (read_set c). lt (get_raw_ref r) = Some e}"
  have E: "latest E arr" "deps = snd ` E"
    using scan_reads_spec [of lim hl lt "read_set c" 0 "{}" 0 arr deps "{}"] assms(1) latest_empty
    by (simp_all add: E_def)
  then show "latest (looked_up lt c) arr'" "deps' = snd ` looked_up lt c"
    using assms(2) latest_insert [OF E(1)]
    by (auto simp: looked_up_user E_def Un_commute split: option.splits)
qed

lemma fill_step_cases:
  assumes "fill_step g c s = Some s'"
  shows "returned g c s s' \<or> accepted g c s s'"
proof -
  let ?f = "filler s" and ?lt = "last_touched s"
  consider (full) "full ?f" | (skipped) "\<not> full ?f" "g \<and> user_key c \<in> skipped_users s"
    | (attempt) "\<not> full ?f" "\<not> (g \<and> user_key c \<in> skipped_users s)" "cores ?f \<noteq> 0"
    using assms by (auto simp: fill_step_def Let_def split: if_splits)
  then show ?thesis
  proof cases
    case full
    with assms show ?thesis by (auto simp: fill_step_def returned_def give_back_def Let_def)
  next
    case skipped
    with assms show ?thesis by (auto simp: fill_step_def returned_def give_back_def Let_def)
  next
    case attempt
    let ?lim = "g \<and> 1000 \<le> len s \<and> len s \<le> 9000" and ?hl = "ucast (total_estimated_gas ?f) div cores ?f"
    obtain bail arr deps where sc: "scan_reads ?lim ?hl ?lt (read_set c) (0, {}, 0) = (bail, arr, deps)"
      by (cases "scan_reads ?lim ?hl ?lt (read_set c) (0, {}, 0)") auto
    show ?thesis
    proof (cases bail)
      case True
      with sc have "scan_reads ?lim ?hl ?lt (read_set c) (0, {}, 0) = (True, arr, deps)" by simp
      from scan_reads_bail [OF this] have "g" by simp
      with True sc assms attempt show ?thesis
        by (auto simp: fill_step_def returned_def skip_user_def give_back_def Let_def)
    next
      case False
      obtain arr' deps' where split:
          "(case ?lt (user_key c) of None \<Rightarrow> (arr, deps) | Some (time, k) \<Rightarrow> (max arr time, insert k deps)) = (arr', deps')"
        by fastforce
      note L = arrival_spec [OF sc [simplified False] split]
      obtain fin where fin: "add_chk arr' (ucast (gas_used c)) = Some fin"
        using assms attempt sc False split by (auto simp: fill_step_def Let_def split: option.splits)
      show ?thesis
      proof (cases "g \<and> fin > ucast (gas_per_core ?f)")
        case True
        with assms attempt sc False split fin show ?thesis
          by (auto simp: fill_step_def returned_def skip_user_def give_back_def Let_def)
      next
        case ok: False
        obtain tot where tot: "add_chk (total_estimated_gas ?f) (ucast (gas_used c)) = Some tot"
          using assms attempt sc False split fin ok by (auto simp: fill_step_def Let_def split: option.splits)
        show ?thesis
        proof (cases "tot > total_max_gas ?f")
          case True
          with assms attempt sc False split fin ok tot show ?thesis
            by (auto simp: fill_step_def returned_def give_back_def Let_def)
        next
          case room: False
          have "s' = accept (user_key c) (gas_used c) tot fin deps' c s"
            using assms attempt sc False split fin ok tot room by (auto simp: fill_step_def Let_def)
          moreover have "uint fin = uint arr' + uint (gas_used c)"
              "uint tot = uint (total_estimated_gas ?f) + uint (gas_used c)"
            using fin tot by (simp_all add: add_chk_Some uint_ucast_gas)
          ultimately have "accepted g c s s'"
            unfolding accepted_def using attempt(1,2) L ok room by (metis not_le)
          then show ?thesis ..
        qed
      qed
    qed
  qed
qed

lemma accept_fields [simp]:
  "last_touched (accept u g tot fin deps c s) =
     touch u fin (of_nat (length (block (filler s))))
       (fold (\<lambda>w. touch (get_raw_ref (fst w)) fin (of_nat (length (block (filler s))))) (writeset c) (last_touched s))"
  "skipped_users (accept u g tot fin deps c s) = skipped_users s"
  "return_vec (accept u g tot fin deps c s) = return_vec s"
  "len (accept u g tot fin deps c s) = len s + 1"
  "block (filler (accept u g tot fin deps c s)) = block (filler s) @ [tx c]"
  "dependency_graph (filler (accept u g tot fin deps c s)) = dependency_graph (filler s) @ [deps]"
  "estimated_gas (filler (accept u g tot fin deps c s)) = estimated_gas (filler s) @ [g]"
  "total_estimated_gas (filler (accept u g tot fin deps c s)) = tot"
  "total_max_gas (filler (accept u g tot fin deps c s)) = total_max_gas (filler s)"
  "gas_per_core (filler (accept u g tot fin deps c s)) = gas_per_core (filler s)"
  "max_txns (filler (accept u g tot fin deps c s)) = max_txns (filler s)"
  "cores (filler (accept u g tot fin deps c s)) = cores (filler s)"
  by (simp_all add: accept_def Let_def)

lemma accept_full: "full (filler (accept u g tot fin deps c s)) \<longleftrightarrow>
    full (filler s) \<or> unat (max_txns (filler s)) \<le> len s + 1"
  by (simp add: accept_def Let_def)

section \<open>What the filler keeps\<close>

text \<open>
  The cost of the longest dependency path that ends in a transaction, in the order of the block.
\<close>

definition path_cost :: "int list \<Rightarrow> u16 \<times> u16 set \<Rightarrow> int list" where
  "path_cost cs gd = cs @ [uint (fst gd) + Max (insert 0 ((\<lambda>d. cs ! unat d) ` snd gd))]"

definition path_costs :: "u16 list \<Rightarrow> u16 set list \<Rightarrow> int list" where
  "path_costs gs ds = foldl path_cost [] (zip gs ds)"

lemma path_costs_snoc:
  "length gs = length ds \<Longrightarrow> path_costs (gs @ [g]) (ds @ [D]) =
     path_costs gs ds @ [uint g + Max (insert 0 ((\<lambda>d. path_costs gs ds ! unat d) ` D))]"
  by (simp add: path_costs_def path_cost_def)

lemma length_path_costs: "length gs = length ds \<Longrightarrow> length (path_costs gs ds) = length gs"
  by (induction gs ds rule: rev_induct2) (simp_all add: path_costs_snoc path_costs_def [of "[]"])

abbreviation costs :: "dependency_filler \<Rightarrow> int list" where
  "costs f \<equiv> path_costs (estimated_gas f) (dependency_graph f)"

text \<open>
  One estimate and one set of hints per transaction, hints point backwards, the entries of
  \<open>last_touched\<close> are finish times of transactions of the block, and the estimated gas is the sum of
  the estimates, which bounds every path.
\<close>

definition filler_ok :: "dependency_filler \<Rightarrow> touched \<Rightarrow> bool" where
  "filler_ok f lt \<longleftrightarrow> length (dependency_graph f) = length (block f) \<and> length (estimated_gas f) = length (block f)
     \<and> (\<forall>i < length (block f). \<forall>d \<in> dependency_graph f ! i. unat d < i)
     \<and> (\<forall>t i. (t, i) \<in> ran lt \<longrightarrow> unat i < length (block f) \<and> uint t = costs f ! unat i)
     \<and> uint (total_estimated_gas f) = sum_list (map uint (estimated_gas f))
     \<and> uint (total_estimated_gas f) \<le> uint (total_max_gas f)
     \<and> (\<forall>p \<in> set (costs f). p \<le> uint (total_estimated_gas f))"

lemma filler_ok_cong:
  assumes "filler_ok f lt" "block f' = block f" "dependency_graph f' = dependency_graph f"
    "estimated_gas f' = estimated_gas f" "total_estimated_gas f' = total_estimated_gas f" "total_max_gas f' = total_max_gas f"
  shows "filler_ok f' lt"
  using assms by (auto simp: filler_ok_def)

lemma ran_touch: "ran (touch k t i lt) \<subseteq> insert (t, i) (ran lt)"
  by (auto simp: touch_def Let_def ran_def split: option.splits)

lemma ran_touch_fold: "ran (fold (\<lambda>w. touch (f w) t i) ws lt) \<subseteq> insert (t, i) (ran lt)"
proof (induction ws arbitrary: lt)
  case (Cons w ws)
  have "ran (fold (\<lambda>w. touch (f w) t i) ws (touch (f w) t i lt)) \<subseteq> insert (t, i) (ran (touch (f w) t i lt))"
    by (rule Cons)
  with ran_touch show ?case by fastforce
qed auto

lemma ran_touched:
  "ran (touch u t i (fold (\<lambda>w. touch (f w) t i) ws lt)) \<subseteq> insert (t, i) (ran lt)"
  using ran_touch [of u t i "fold (\<lambda>w. touch (f w) t i) ws lt"] ran_touch_fold [of f t i ws lt] by blast

lemma finite_looked_up: "finite (looked_up lt c)"
proof (rule finite_subset)
  show "looked_up lt c \<subseteq> (\<lambda>k. the (lt k)) ` insert (user_key c) (get_raw_ref ` set (read_set c))"
  proof
    fix e assume "e \<in> looked_up lt c"
    then obtain k where "k \<in> insert (user_key c) (get_raw_ref ` set (read_set c))" "e = the (lt k)"
      unfolding looked_up_def by force
    then show "e \<in> (\<lambda>k. the (lt k)) ` insert (user_key c) (get_raw_ref ` set (read_set c))" by blast
  qed
qed simp

lemma looked_up_ran: "looked_up lt c \<subseteq> ran lt"
  by (auto simp: looked_up_def ran_def)

lemma accepted_filler_ok:
  assumes acc: "accepted g c s s'" and ok: "filler_ok (filler s) (last_touched s)"
    and room: "length (block (filler s)) < 65536"
  shows "filler_ok (filler s') (last_touched s')
    \<and> (g \<longrightarrow> last (costs (filler s')) \<le> uint (ucast (gas_per_core (filler s)) :: u32))
    \<and> costs (filler s') = costs (filler s) @ [last (costs (filler s'))]"
proof -
  let ?f = "filler s" and ?lt = "last_touched s" and ?f' = "filler s'"
  let ?n = "length (block ?f)" and ?E = "looked_up ?lt c"
  obtain arr fin tot where a: "latest ?E arr" "uint fin = uint arr + uint (gas_used c)"
      "g \<longrightarrow> fin \<le> ucast (gas_per_core ?f)"
      "uint tot = uint (total_estimated_gas ?f) + uint (gas_used c)" "tot \<le> total_max_gas ?f"
      "s' = accept (user_key c) (gas_used c) tot fin (snd ` ?E) c s"
    using acc unfolding accepted_def by blast
  have ok': "length (dependency_graph ?f) = ?n" "length (estimated_gas ?f) = ?n"
      "\<forall>i < ?n. \<forall>d \<in> dependency_graph ?f ! i. unat d < i"
      "\<And>t i. (t, i) \<in> ran ?lt \<Longrightarrow> unat i < ?n \<and> uint t = costs ?f ! unat i"
      "uint (total_estimated_gas ?f) = sum_list (map uint (estimated_gas ?f))"
      "\<forall>p \<in> set (costs ?f). p \<le> uint (total_estimated_gas ?f)"
    using ok by (auto simp: filler_ok_def)
  have len: "length (costs ?f) = ?n" using length_path_costs ok'(1,2) by metis
  have E: "\<And>t i. (t, i) \<in> ?E \<Longrightarrow> unat i < ?n \<and> uint t = costs ?f ! unat i"
    using ok'(4) looked_up_ran by blast
  have "(\<lambda>d. costs ?f ! unat d) ` snd ` ?E = (\<lambda>e. uint (fst e)) ` ?E"
    using E by force
  moreover have "Max (insert 0 ((\<lambda>e. uint (fst e)) ` ?E)) = uint arr"
  proof (rule Max_eqI)
    show "finite (insert 0 ((\<lambda>e. uint (fst e)) ` ?E))" by (simp add: finite_looked_up)
    show "y \<le> uint arr" if "y \<in> insert 0 ((\<lambda>e. uint (fst e)) ` ?E)" for y
      using that a(1) by (auto simp: latest_def word_le_def)
    show "uint arr \<in> insert 0 ((\<lambda>e. uint (fst e)) ` ?E)"
      using a(1) by (auto simp: latest_def)
  qed
  ultimately have costs': "costs ?f' = costs ?f @ [uint fin]"
    using a(2,6) ok'(1,2) by (simp add: path_costs_snoc)
  have n: "unat (of_nat ?n :: u16) = ?n" using room by (simp add: unat_of_nat)
  have ran': "ran (last_touched s') \<subseteq> insert (fin, of_nat ?n) (ran ?lt)"
    unfolding a(6) accept_fields(1) by (rule ran_touched)
  have fin_le: "uint fin \<le> uint tot"
  proof -
    have "uint arr \<le> uint (total_estimated_gas ?f)"
    proof (cases "arr = 0")
      case False
      with a(1) obtain i where "(arr, i) \<in> ?E" by (auto simp: latest_def)
      with E ok'(6) len show ?thesis by (metis nth_mem)
    qed simp
    with a(2,4) show ?thesis by simp
  qed
  have "filler_ok ?f' (last_touched s')"
    unfolding filler_ok_def
  proof (intro conjI)
    show "length (dependency_graph ?f') = length (block ?f')" "length (estimated_gas ?f') = length (block ?f')"
      using a(6) ok'(1,2) by simp_all
    show "\<forall>i < length (block ?f'). \<forall>d \<in> dependency_graph ?f' ! i. unat d < i"
      using a(6) ok'(1,3) E by (auto simp: nth_append less_Suc_eq)
    show "\<forall>t i. (t, i) \<in> ran (last_touched s') \<longrightarrow> unat i < length (block ?f') \<and> uint t = costs ?f' ! unat i"
      using ran' ok'(4) a(6) n len unfolding costs' by (fastforce simp: nth_append)
    show "uint (total_estimated_gas ?f') = sum_list (map uint (estimated_gas ?f'))"
      using a(4,6) ok'(5) by simp
    show "uint (total_estimated_gas ?f') \<le> uint (total_max_gas ?f')"
      using a(5,6) by (simp add: word_le_def)
    show "\<forall>p \<in> set (costs ?f'). p \<le> uint (total_estimated_gas ?f')"
    proof -
      have "uint (total_estimated_gas ?f) \<le> uint tot" using a(4) uint_ge_0 [of "gas_used c"] by linarith
      with ok'(6) fin_le a(6) show ?thesis unfolding costs' by force
    qed
  qed
  with costs' a(3) show ?thesis by (simp add: word_le_def)
qed

lemma fill_step_const:
  assumes "fill_step g c s = Some s'"
  shows "max_txns (filler s') = max_txns (filler s)" "total_max_gas (filler s') = total_max_gas (filler s)"
    "cores (filler s') = cores (filler s)" "gas_per_core (filler s') = gas_per_core (filler s)"
  using fill_step_cases [OF assms] by (auto simp: returned_def accepted_def)

lemma fill_loop_const:
  assumes "fill_loop g cs s = Some s'"
  shows "max_txns (filler s') = max_txns (filler s) \<and> total_max_gas (filler s') = total_max_gas (filler s)
    \<and> cores (filler s') = cores (filler s) \<and> gas_per_core (filler s') = gas_per_core (filler s)"
  using assms
proof (induction cs arbitrary: s)
  case (Cons c cs)
  then obtain s1 where s1: "fill_step g c s = Some s1" "fill_loop g cs s1 = Some s'"
    by (auto split: option.splits)
  with Cons.IH [OF s1(2)] fill_step_const [OF s1(1)] show ?case by simp
qed simp

lemma fill_step_None:
  assumes "fill_step g c s = None" "cores (filler s) \<noteq> 0"
  shows "\<exists>arr. latest (looked_up (last_touched s) c) arr
    \<and> (add_chk arr (ucast (gas_used c)) = None \<or> add_chk (total_estimated_gas (filler s)) (ucast (gas_used c)) = None)"
proof -
  let ?f = "filler s" and ?lt = "last_touched s"
  let ?lim = "g \<and> 1000 \<le> len s \<and> len s \<le> 9000" and ?hl = "ucast (total_estimated_gas ?f) div cores ?f"
  obtain bail arr deps where sc: "scan_reads ?lim ?hl ?lt (read_set c) (0, {}, 0) = (bail, arr, deps)"
    by (cases "scan_reads ?lim ?hl ?lt (read_set c) (0, {}, 0)") auto
  obtain arr' deps' where split:
      "(case ?lt (user_key c) of None \<Rightarrow> (arr, deps) | Some (time, k) \<Rightarrow> (max arr time, insert k deps)) = (arr', deps')"
    by fastforce
  have nb: "\<not> bail" using assms sc by (auto simp: fill_step_def Let_def split: if_splits)
  have "add_chk arr' (ucast (gas_used c)) = None \<or> add_chk (total_estimated_gas ?f) (ucast (gas_used c)) = None"
    using assms sc nb split by (auto simp: fill_step_def Let_def split: if_splits option.splits)
  then show ?thesis using arrival_spec(1) [OF sc [simplified nb] split] by blast
qed

lemma latest_bound:
  assumes "filler_ok f lt" "latest (looked_up lt c) t"
  shows "uint t \<le> uint (total_estimated_gas f)"
proof (cases "t = 0")
  case False
  with assms(2) obtain i where "(t, i) \<in> looked_up lt c" by (auto simp: latest_def)
  then have "(t, i) \<in> ran lt" using looked_up_ran by blast
  with assms(1) have i: "unat i < length (block f)" "uint t = costs f ! unat i"
    by (auto simp: filler_ok_def)
  moreover have "length (costs f) = length (block f)"
    using assms(1) by (simp add: filler_ok_def length_path_costs)
  ultimately have "uint t \<in> set (costs f)" by simp
  with assms(1) show ?thesis by (auto simp: filler_ok_def)
qed simp

text \<open>The state in the loop, for a filler whose indices fit 16 bits.\<close>

definition fill_inv :: "fill \<Rightarrow> bool" where
  "fill_inv s \<longleftrightarrow> filler_ok (filler s) (last_touched s) \<and> len s = length (block (filler s))
     \<and> unat (max_txns (filler s)) \<le> 65536 \<and> len s \<le> unat (max_txns (filler s))
     \<and> (full (filler s) \<or> len s < unat (max_txns (filler s)))"

lemma fill_step_inv:
  assumes "fill_step g c s = Some s'" "fill_inv s"
  shows "fill_inv s' \<and> gas_per_core (filler s') = gas_per_core (filler s) \<and> cores (filler s') = cores (filler s)
    \<and> total_max_gas (filler s') = total_max_gas (filler s)
    \<and> (\<exists>cs. costs (filler s') = costs (filler s) @ cs
         \<and> (g \<longrightarrow> (\<forall>p \<in> set cs. p \<le> uint (ucast (gas_per_core (filler s)) :: u32))))"
  using fill_step_cases [OF assms(1)]
proof
  assume r: "returned g c s s'"
  then have "filler_ok (filler s') (last_touched s')"
    using filler_ok_cong [of "filler s" "last_touched s" "filler s'"] assms(2)
    by (auto simp: returned_def fill_inv_def)
  with r assms(2) show ?thesis by (auto simp: returned_def fill_inv_def)
next
  assume a: "accepted g c s s'"
  have room: "len s < unat (max_txns (filler s))" "length (block (filler s)) < 65536"
    using a assms(2) by (auto simp: accepted_def fill_inv_def)
  have *: "filler_ok (filler s') (last_touched s')"
      "g \<longrightarrow> last (costs (filler s')) \<le> uint (ucast (gas_per_core (filler s)) :: u32)"
      "costs (filler s') = costs (filler s) @ [last (costs (filler s'))]"
    using accepted_filler_ok [OF a _ room(2)] assms(2) by (auto simp: fill_inv_def)
  moreover obtain tot fin where "s' = accept (user_key c) (gas_used c) tot fin (snd ` looked_up (last_touched s) c) c s"
    using a by (auto simp: accepted_def)
  ultimately show ?thesis
    using assms(2) room by (auto simp: fill_inv_def accept_full)
qed

lemma fill_loop_inv:
  assumes "fill_loop g cs s = Some s'" "fill_inv s"
  shows "fill_inv s' \<and> gas_per_core (filler s') = gas_per_core (filler s)
    \<and> (\<exists>ps. costs (filler s') = costs (filler s) @ ps
         \<and> (g \<longrightarrow> (\<forall>p \<in> set ps. p \<le> uint (ucast (gas_per_core (filler s)) :: u32))))"
  using assms
proof (induction cs arbitrary: s)
  case (Cons c cs)
  then obtain s1 where s1: "fill_step g c s = Some s1" "fill_loop g cs s1 = Some s'"
    by (auto split: option.splits)
  note st = fill_step_inv [OF s1(1) Cons.prems(2)]
  from st Cons.IH [OF s1(2)] show ?case by fastforce
qed auto

text \<open>No panic as long as the gas of a block and one more estimate fit 32 bits.\<close>

lemma fill_step_total:
  assumes "fill_inv s" "cores (filler s) \<noteq> 0" "uint (total_max_gas (filler s)) + 65535 < 2 ^ 32"
  shows "fill_step g c s \<noteq> None"
proof
  assume "fill_step g c s = None"
  from fill_step_None [OF this assms(2)] obtain arr where arr: "latest (looked_up (last_touched s) c) arr"
      "add_chk arr (ucast (gas_used c)) = None \<or> add_chk (total_estimated_gas (filler s)) (ucast (gas_used c)) = None"
    by blast
  have ok: "filler_ok (filler s) (last_touched s)" using assms(1) by (simp add: fill_inv_def)
  have "uint (gas_used c) \<le> 65535" using uint_lt2p [of "gas_used c"] by simp
  moreover have "uint (total_estimated_gas (filler s)) \<le> uint (total_max_gas (filler s))"
    using ok by (simp add: filler_ok_def)
  ultimately show False
    using latest_bound [OF ok arr(1)] assms(3) arr(2) by (auto simp: add_chk_None uint_ucast_gas)
qed

lemma fill_loop_total:
  assumes "fill_inv s" "cores (filler s) \<noteq> 0" "uint (total_max_gas (filler s)) + 65535 < 2 ^ 32"
  shows "fill_loop g cs s \<noteq> None"
  using assms
proof (induction cs arbitrary: s)
  case (Cons c cs)
  then obtain s1 where s1: "fill_step g c s = Some s1" using fill_step_total [of s g c] by blast
  have "fill_inv s1" using fill_step_inv [OF s1 Cons.prems(1)] by simp
  with Cons.IH [of s1] Cons.prems fill_step_const [OF s1] s1 show ?case by simp
qed simp

section \<open>Who gets in\<close>

definition blocked :: "bool \<Rightarrow> bytes \<Rightarrow> fill \<Rightarrow> bool" where
  "blocked g u s \<longleftrightarrow> full (filler s) \<or> g \<and> u \<in> skipped_users s"

lemma fill_step_blocked:
  assumes "fill_step g c s = Some s'"
  shows "blocked g u s \<Longrightarrow> blocked g u s'" "returned g c s s' \<Longrightarrow> blocked g (user_key c) s'"
    "blocked g (user_key c) s \<Longrightarrow> returned g c s s'"
  using fill_step_cases [OF assms] by (auto simp: blocked_def returned_def accepted_def accept_full)

definition taken_from :: "bool list \<Rightarrow> 'a list \<Rightarrow> 'a list" where
  "taken_from bs xs = map snd (filter fst (zip bs xs))"

definition left_from :: "bool list \<Rightarrow> 'a list \<Rightarrow> 'a list" where
  "left_from bs xs = map snd (filter (\<lambda>p. \<not> fst p) (zip bs xs))"

lemma taken_left_simps [simp]:
  "taken_from [] xs = []" "left_from [] xs = []"
  "taken_from (b # bs) (x # xs) = (if b then x # taken_from bs xs else taken_from bs xs)"
  "left_from (b # bs) (x # xs) = (if b then left_from bs xs else x # left_from bs xs)"
  by (simp_all add: taken_from_def left_from_def)

text \<open>No transaction of a sender is taken after an earlier one of the same sender was left.\<close>

definition in_order :: "bool list \<Rightarrow> candidate list \<Rightarrow> bool" where
  "in_order bs cs \<longleftrightarrow> (\<forall>j < length cs. \<forall>i < j. user_key (cs ! i) = user_key (cs ! j) \<and> bs ! j \<longrightarrow> bs ! i)"

lemma in_order_Cons:
  assumes "in_order bs cs" "\<not> b \<longrightarrow> (\<forall>j < length cs. user_key (cs ! j) = user_key c \<longrightarrow> \<not> bs ! j)"
  shows "in_order (b # bs) (c # cs)"
  using assms unfolding in_order_def by (auto simp: nth_Cons' less_Suc_eq_0_disj gr0_conv_Suc)

lemma fill_loop_split:
  assumes "fill_loop g cs s = Some s'"
  shows "\<exists>bs. length bs = length cs \<and> block (filler s') = block (filler s) @ map tx (taken_from bs cs)
     \<and> return_vec s' = return_vec s @ left_from bs cs \<and> in_order bs cs
     \<and> (\<forall>j < length cs. blocked g (user_key (cs ! j)) s \<longrightarrow> \<not> bs ! j)"
  using assms
proof (induction cs arbitrary: s)
  case Nil
  then show ?case by (auto simp: in_order_def)
next
  case (Cons c cs)
  then obtain s1 where s1: "fill_step g c s = Some s1" "fill_loop g cs s1 = Some s'"
    by (auto split: option.splits)
  from Cons.IH [OF s1(2)] obtain bs where bs: "length bs = length cs"
      "block (filler s') = block (filler s1) @ map tx (taken_from bs cs)"
      "return_vec s' = return_vec s1 @ left_from bs cs" "in_order bs cs"
      "\<forall>j < length cs. blocked g (user_key (cs ! j)) s1 \<longrightarrow> \<not> bs ! j"
    by blast
  note blk = fill_step_blocked [OF s1(1)]
  from fill_step_cases [OF s1(1)] show ?case
  proof
    assume r: "returned g c s s1"
    have "in_order (False # bs) (c # cs)"
      using bs(4,5) blk(2) [OF r] by (intro in_order_Cons) auto
    moreover have "\<forall>j < length (c # cs). blocked g (user_key ((c # cs) ! j)) s \<longrightarrow> \<not> (False # bs) ! j"
      using bs(5) blk(1) by (auto simp: nth_Cons' less_Suc_eq_0_disj)
    moreover have "block (filler s1) = block (filler s)" "return_vec s1 = return_vec s @ [c]"
      using r by (auto simp: returned_def)
    ultimately show ?thesis using bs by (intro exI [of _ "False # bs"]) simp
  next
    assume a: "accepted g c s s1"
    have "\<not> blocked g (user_key c) s" using a by (auto simp: accepted_def blocked_def)
    then have "\<forall>j < length (c # cs). blocked g (user_key ((c # cs) ! j)) s \<longrightarrow> \<not> (True # bs) ! j"
      using bs(5) blk(1) by (auto simp: nth_Cons' less_Suc_eq_0_disj)
    moreover have "in_order (True # bs) (c # cs)" using bs(4) by (intro in_order_Cons) auto
    moreover have "block (filler s1) = block (filler s) @ [tx c]" "return_vec s1 = return_vec s"
      using a by (auto simp: accepted_def)
    ultimately show ?thesis using bs by (intro exI [of _ "True # bs"]) simp
  qed
qed

end
