(* ===== verification/FillerBlocks.thy ===== *)
theory FillerBlocks
  imports Filler
begin

text \<open>
  What a block built by the dependency filler promises: whatever batches are fed to one filler, in
  the way \<open>get_transaction_register\<close> (\<open>aptos-move/e2e-testsuite/tests/run_benchmark.rs\<close>) feeds
  them, the block stays within its budget, keeps the order of each sender's transactions, and its
  estimates and hints are accepted by the scheduler.
\<close>

section \<open>Feeding batches\<close>

type_synonym filling = "touched \<times> bytes set \<times> dependency_filler"

text \<open>
  One round of the driver: a batch is offered to the filler, the limit on the critical path is
  changed, or a batch is passed over and its senders with it.
\<close>

datatype filler_event = Offer bool "candidate list" | Relax u64 | PassOver "candidate list"

fun filler_event_step :: "filler_event \<Rightarrow> filling \<Rightarrow> filling option" where
  "filler_event_step (Offer good_block b) (lt, skipped, f) = map_option snd (add_all good_block b lt skipped f)"
| "filler_event_step (Relax last_max) (lt, skipped, f) =
     map_option (\<lambda>f'. (lt, skipped, f')) (set_gas_per_core last_max f)"
| "filler_event_step (PassOver b) (lt, skipped, f) = Some (lt, skipped \<union> user_key ` set b, f)"

fun feed :: "filler_event list \<Rightarrow> filling \<Rightarrow> filling option" where
  "feed [] s = Some s"
| "feed (e # es) s = (case filler_event_step e s of None \<Rightarrow> None | Some s' \<Rightarrow> feed es s')"

definition build_register ::
  "(u16 set \<Rightarrow> u16 list) \<Rightarrow> dependency_filler \<Rightarrow> signed_transaction transaction_register" where
  "build_register iter f =
     (let (gs, f') = get_gas_estimates f in register_new (block f') gs (get_dependency_graph iter f'))"

section \<open>The invariant over all rounds\<close>

definition filling_ok :: "filling \<Rightarrow> bool" where
  "filling_ok s = (case s of (lt, skipped, f) \<Rightarrow>
     fill_inv \<lparr>filler = f, last_touched = lt, skipped_users = skipped, return_vec = [], non_user_skip = 0,
               len = length (block f)\<rparr>)"

lemma fill_inv_cong:
  "fill_inv s \<Longrightarrow> filler s' = filler s \<Longrightarrow> last_touched s' = last_touched s \<Longrightarrow> len s' = len s \<Longrightarrow> fill_inv s'"
  by (auto simp: fill_inv_def)

lemma add_all_SomeE:
  assumes "add_all g b lt sk f = Some ((ret, skipped_all), lt', sk', f')"
  obtains s' where "fill_loop g b \<lparr>filler = f, last_touched = lt, skipped_users = sk, return_vec = [],
      non_user_skip = 0, len = length (block f)\<rparr> = Some s'"
    "filler s' = f'" "last_touched s' = lt'" "return_vec s' = ret"
  using assms unfolding add_all_def by auto

lemma add_all_ok:
  assumes "add_all g b lt sk f = Some ((ret, skipped_all), lt', sk', f')" "filling_ok (lt, sk, f)"
  shows "filling_ok (lt', sk', f')" "gas_per_core f' = gas_per_core f"
    "\<exists>ps. costs f' = costs f @ ps \<and> (g \<longrightarrow> (\<forall>p \<in> set ps. p \<le> uint (ucast (gas_per_core f) :: u32)))"
proof -
  obtain s' where s': "fill_loop g b \<lparr>filler = f, last_touched = lt, skipped_users = sk, return_vec = [],
      non_user_skip = 0, len = length (block f)\<rparr> = Some s'" "filler s' = f'" "last_touched s' = lt'"
    using assms(1) by (rule add_all_SomeE)
  note inv = fill_loop_inv [OF s'(1)]
  have i: "fill_inv s'" using inv assms(2) by (simp add: filling_ok_def)
  then have "fill_inv \<lparr>filler = f', last_touched = lt', skipped_users = sk', return_vec = [], non_user_skip = 0,
      len = length (block f')\<rparr>"
    using s'(2,3) by (intro fill_inv_cong [OF i]) (auto simp: fill_inv_def)
  then show "filling_ok (lt', sk', f')" by (simp add: filling_ok_def)
  show "gas_per_core f' = gas_per_core f"
    "\<exists>ps. costs f' = costs f @ ps \<and> (g \<longrightarrow> (\<forall>p \<in> set ps. p \<le> uint (ucast (gas_per_core f) :: u32)))"
    using inv assms(2) s'(2,3) by (auto simp: filling_ok_def)
qed

lemma set_gas_per_core_ok:
  "set_gas_per_core m f = Some f' \<Longrightarrow> filling_ok (lt, sk, f) \<Longrightarrow> filling_ok (lt, sk', f')"
  by (auto simp: set_gas_per_core_def filling_ok_def fill_inv_def filler_ok_def split: if_splits)

lemma filler_event_step_ok: "filler_event_step e s = Some s' \<Longrightarrow> filling_ok s \<Longrightarrow> filling_ok s'"
proof (cases e)
  case (Offer g b)
  then show "filler_event_step e s = Some s' \<Longrightarrow> filling_ok s \<Longrightarrow> filling_ok s'"
    by (cases s; cases s') (auto intro: add_all_ok(1))
next
  case (Relax m)
  then show "filler_event_step e s = Some s' \<Longrightarrow> filling_ok s \<Longrightarrow> filling_ok s'"
    by (cases s; cases s') (auto intro: set_gas_per_core_ok)
next
  case (PassOver b)
  then show "filler_event_step e s = Some s' \<Longrightarrow> filling_ok s \<Longrightarrow> filling_ok s'"
    by (cases s; cases s') (auto simp: filling_ok_def fill_inv_def)
qed

lemma feed_ok: "feed es s = Some s' \<Longrightarrow> filling_ok s \<Longrightarrow> filling_ok s'"
  by (induction es arbitrary: s) (auto split: option.splits dest: filler_event_step_ok)

lemma filling_ok_new:
  assumes "dependency_filler_new gpc mb mt c = Some f" "0 < mt" "mt \<le> 65536"
  shows "filling_ok (Map.empty, sk, f)"
proof -
  have "0 < unat mt" "unat mt \<le> 65536"
    using assms(2,3) unat_mono [of 0 mt] by (simp_all add: word_le_nat_alt)
  then show ?thesis
    using assms(1)
    by (auto simp: filling_ok_def fill_inv_def filler_ok_def dependency_filler_new_def path_costs_def)
qed

lemma filler_event_step_const:
  assumes "filler_event_step e (lt, sk, f) = Some (lt', sk', f')"
  shows "max_txns f' = max_txns f \<and> total_max_gas f' = total_max_gas f \<and> cores f' = cores f"
  using assms by (cases e) (auto simp: add_all_def set_gas_per_core_def split: if_splits dest!: fill_loop_const)

lemma feed_const:
  assumes "feed es (lt, sk, f) = Some (lt', sk', f')"
  shows "max_txns f' = max_txns f \<and> total_max_gas f' = total_max_gas f \<and> cores f' = cores f"
  using assms
proof (induction es arbitrary: lt sk f)
  case (Cons e es)
  then obtain lt1 sk1 f1 where "filler_event_step e (lt, sk, f) = Some (lt1, sk1, f1)"
      "feed es (lt1, sk1, f1) = Some (lt', sk', f')"
    by (auto split: option.splits)
  with Cons.IH filler_event_step_const show ?case by metis
qed simp

lemma filler_event_step_total:
  assumes "filling_ok (lt, sk, f)" "cores f \<noteq> 0" "uint (total_max_gas f) + 65535 < 2 ^ 32"
  shows "filler_event_step e (lt, sk, f) \<noteq> None"
proof (cases e)
  case (Offer g b)
  have "fill_loop g b \<lparr>filler = f, last_touched = lt, skipped_users = sk, return_vec = [], non_user_skip = 0,
      len = length (block f)\<rparr> \<noteq> None"
    using assms by (intro fill_loop_total) (simp_all add: filling_ok_def)
  with Offer show ?thesis by (simp add: add_all_def)
qed (use assms in \<open>auto simp: set_gas_per_core_def\<close>)

lemma feed_total:
  assumes "filling_ok (lt, sk, f)" "cores f \<noteq> 0" "uint (total_max_gas f) + 65535 < 2 ^ 32"
  shows "feed es (lt, sk, f) \<noteq> None"
  using assms
proof (induction es arbitrary: lt sk f)
  case (Cons e es)
  obtain lt1 sk1 f1 where e: "filler_event_step e (lt, sk, f) = Some (lt1, sk1, f1)"
    using filler_event_step_total [OF Cons.prems, of e] by auto
  have "feed es (lt1, sk1, f1) \<noteq> None"
    using filler_event_step_ok [OF e Cons.prems(1)] filler_event_step_const [OF e] Cons.prems
    by (intro Cons.IH) simp_all
  with e show ?case by simp
qed simp

lemma filling_ok_bounds:
  assumes "filling_ok (lt, sk, f)"
  shows "length (block f) \<le> unat (max_txns f)" "sum_list (map uint (estimated_gas f)) \<le> uint (total_max_gas f)"
    "length (estimated_gas f) = length (block f)"
  using assms by (auto simp: filling_ok_def fill_inv_def filler_ok_def)

lemma filling_ok_register:
  assumes "filling_ok (lt, sk, f)" "\<And>S. finite S \<Longrightarrow> set (iter S) = S"
  shows "register_ok (build_register iter f)"
proof -
  have "length (block f) \<le> 65536" using assms(1) by (auto simp: filling_ok_def fill_inv_def)
  moreover have "set (iter S) = S" for S by (rule assms(2)) simp
  ultimately show ?thesis
    using assms(1)
    by (auto simp: filling_ok_def fill_inv_def filler_ok_def register_ok_def build_register_def hints_ok_def
        register_new_def get_gas_estimates_def get_dependency_graph_def)
qed

section \<open>An example\<close>

text \<open>
  Two senders: the second transaction reads what the first wrote, the third follows its sender's
  second and no longer fits on the critical path.
\<close>

definition demo_txn :: "address \<Rightarrow> u64 \<Rightarrow> signed_transaction" where
  "demo_txn a n =
     \<lparr>raw_txn = \<lparr>raw_sender = a, raw_sequence_number = n, raw_payload = [], raw_max_gas_amount = 100,
        raw_gas_unit_price = 1, raw_expiration_timestamp_secs = 10, raw_chain_id = 1\<rparr>, authenticator = []\<rparr>"

definition demo_batch :: "candidate list" where
  "demo_batch =
     [\<lparr>writeset = [(Raw [7], Modification [1])], read_set = [], gas = 300, tx = demo_txn 1 0\<rparr>,
      \<lparr>writeset = [], read_set = [Raw [7]], gas = 500, tx = demo_txn 2 0\<rparr>,
      \<lparr>writeset = [], read_set = [], gas = 400, tx = demo_txn 2 1\<rparr>]"

definition demo_filler :: dependency_filler where
  "demo_filler = the (dependency_filler_new 100 1000 50 4)"

definition demo_filling :: "(candidate list \<times> bool) \<times> filling" where
  "demo_filling = the (add_all True demo_batch Map.empty {} demo_filler)"

definition demo_block :: dependency_filler where
  "demo_block = snd (snd (snd demo_filling))"

lemma demo_filler_new: "dependency_filler_new 100 1000 50 4 = Some demo_filler"
  by (simp add: demo_filler_def dependency_filler_new_def mul_chk_def)

lemma demo_add_all:
  "add_all True demo_batch Map.empty {} demo_filler
     = Some ((fst (fst demo_filling), snd (fst demo_filling)), fst (snd demo_filling), fst (snd (snd demo_filling)), demo_block)"
proof -
  have "\<not> Option.is_none (add_all True demo_batch Map.empty {} demo_filler)" by code_simp
  then show ?thesis by (simp add: demo_filling_def demo_block_def Option.is_none_def)
qed

lemma demo_feed:
  "feed [Offer True demo_batch] (Map.empty, {}, demo_filler)
     = Some (fst (snd demo_filling), fst (snd (snd demo_filling)), demo_block)"
  by (simp add: demo_add_all)

lemma demo_block_eq: "block demo_block = [demo_txn 1 0, demo_txn 2 0]"
  "fst (fst demo_filling) = [demo_batch ! 2]" "estimated_gas demo_block = [30, 50]"
  by code_simp+

section \<open>Properties\<close>

text \<open>
  C36. Nothing is lost or invented: a batch is split into what enters the block, in order, and what
  is handed back, in order; and a transaction enters only when every earlier transaction of its
  sender in the batch did.
\<close>

theorem add_all_splits_batch:
  assumes "add_all good_block b lt skipped f = Some ((ret, skipped_all), lt', skipped', f')"
  shows "\<exists>chosen. length chosen = length b \<and> block f' = block f @ map tx (taken_from chosen b)
    \<and> ret = left_from chosen b \<and> in_order chosen b"
proof -
  obtain s' where s': "fill_loop good_block b \<lparr>filler = f, last_touched = lt, skipped_users = skipped, return_vec = [],
      non_user_skip = 0, len = length (block f)\<rparr> = Some s'" "filler s' = f'" "return_vec s' = ret"
    using assms by (rule add_all_SomeE)
  from fill_loop_split [OF s'(1)] s'(2,3) show ?thesis by auto
qed

theorem add_all_splits_batch_witness:
  "fst (fst demo_filling) = [demo_batch ! 2]
   \<and> (\<exists>chosen. length chosen = length demo_batch \<and> block demo_block = block demo_filler @ map tx (taken_from chosen demo_batch)
        \<and> fst (fst demo_filling) = left_from chosen demo_batch \<and> in_order chosen demo_batch)"
  using add_all_splits_batch [OF demo_add_all] demo_block_eq by simp

text \<open>
  C34. From the filler to the scheduler: whatever is fed to a new filler, the register it ends with
  has one estimate and one list of hints per transaction, every hint points to an earlier
  transaction, and the scheduler can be built from it.
\<close>

theorem filler_feeds_scheduler:
  assumes "dependency_filler_new gpc mb mt c = Some f0" "0 < mt" "mt \<le> 65536"
    and "feed es (Map.empty, skipped, f0) = Some (lt, skipped', f)"
    and "\<And>S. finite S \<Longrightarrow> set (iter S) = S"
  shows "register_ok (build_register iter f)
    \<and> (\<exists>s. scheduler_new (length (block f)) (reg_dependency_graph (build_register iter f))
               (gas_estimates (build_register iter f)) conc md pmap = Some s)"
proof
  have ok: "filling_ok (lt, skipped', f)"
    using feed_ok [OF assms(4)] filling_ok_new [OF assms(1-3)] by simp
  then show r: "register_ok (build_register iter f)" by (rule filling_ok_register [OF _ assms(5)])
  have "reg_txns (build_register iter f) = block f"
    by (simp add: build_register_def get_gas_estimates_def register_new_def)
  with r scheduler_new_spec show "\<exists>s. scheduler_new (length (block f)) (reg_dependency_graph (build_register iter f))
      (gas_estimates (build_register iter f)) conc md pmap = Some s"
    by (metis register_ok_def)
qed

theorem filler_feeds_scheduler_witness:
  "block demo_block = [demo_txn 1 0, demo_txn 2 0] \<and> register_ok (build_register sorted_list_of_set demo_block)
   \<and> (\<exists>s. scheduler_new (length (block demo_block)) (reg_dependency_graph (build_register sorted_list_of_set demo_block))
             (gas_estimates (build_register sorted_list_of_set demo_block)) 4 Standard [] = Some s)"
  using filler_feeds_scheduler [OF demo_filler_new _ _ demo_feed, of sorted_list_of_set 4 Standard "[]"] demo_block_eq
  by simp

text \<open>
  C35. The budget of a block: however a new filler is fed, it never holds more than \<open>max_txns\<close>
  transactions and the estimates add up to at most \<open>gas_per_core * cores\<close>; and one good batch
  leaves no dependency path longer than \<open>gas_per_core\<close>.
\<close>

theorem filler_budget:
  assumes "dependency_filler_new gpc mb mt c = Some f0" "0 < mt" "mt \<le> 65536"
  shows "(feed es (Map.empty, skipped, f0) = Some (lt, skipped', f) \<longrightarrow>
        length (block f) \<le> unat mt \<and> sum_list (map uint (estimated_gas f)) \<le> uint gpc * uint c)
    \<and> (add_all True b Map.empty skipped f0 = Some (r, lt, skipped', f) \<longrightarrow>
        list_all (\<lambda>p. p \<le> uint (ucast gpc :: u32)) (costs f))"
proof (intro conjI impI)
  have new: "filling_ok (Map.empty, skipped, f0)" by (rule filling_ok_new [OF assms])
  have f0: "max_txns f0 = mt" "gas_per_core f0 = gpc" "costs f0 = []" "uint (total_max_gas f0) = uint gpc * uint c"
    using assms(1)
    by (auto simp: dependency_filler_new_def mul_chk_def path_costs_def uint_word_ariths uint_up_ucast is_up split: if_splits)
  {
    assume "feed es (Map.empty, skipped, f0) = Some (lt, skipped', f)"
    note feed_ok [OF this new] feed_const [OF this]
    with filling_ok_bounds f0 show "length (block f) \<le> unat mt"
      "sum_list (map uint (estimated_gas f)) \<le> uint gpc * uint c" by metis+
  next
    assume "add_all True b Map.empty skipped f0 = Some (r, lt, skipped', f)"
    then show "list_all (\<lambda>p. p \<le> uint (ucast gpc :: u32)) (costs f)"
      using add_all_ok(3) [of True b Map.empty skipped f0 "fst r" "snd r" lt skipped' f] new f0
      by (auto simp: list_all_iff)
  }
qed

theorem filler_budget_witness:
  "length (block demo_block) \<le> 50 \<and> sum_list (map uint (estimated_gas demo_block)) \<le> 400
   \<and> list_all (\<lambda>p. p \<le> 100) (costs demo_block) \<and> estimated_gas demo_block = [30, 50]"
proof -
  have "length (block demo_block) \<le> 50 \<and> sum_list (map uint (estimated_gas demo_block)) \<le> 400"
    using filler_budget [OF demo_filler_new, of "[Offer True demo_batch]" "{}" "fst (snd demo_filling)"
        "fst (snd (snd demo_filling))" demo_block] demo_feed by simp
  moreover have "list_all (\<lambda>p. p \<le> 100) (costs demo_block)"
    using filler_budget [OF demo_filler_new, of _ "{}" "fst (snd demo_filling)"
        "fst (snd (snd demo_filling))" demo_block demo_batch] demo_add_all by simp
  ultimately show ?thesis using demo_block_eq by simp
qed

text \<open>
  C37. The filler returns: with at least one core and a total gas that leaves room for one more
  estimate in 32 bits, no sequence of batches makes it panic on an addition or a division.
\<close>

theorem filler_returns:
  assumes "dependency_filler_new gpc mb mt c = Some f0" "0 < mt" "mt \<le> 65536" "c \<noteq> 0"
    and "uint gpc * uint c + 65535 < 2 ^ 32"
  shows "\<exists>s. feed es (Map.empty, skipped, f0) = Some s"
proof -
  have "cores f0 = c" "uint (total_max_gas f0) = uint gpc * uint c"
    using assms(1)
    by (auto simp: dependency_filler_new_def mul_chk_def uint_word_ariths uint_up_ucast is_up split: if_splits)
  with feed_total [OF filling_ok_new [OF assms(1-3)], where sk = skipped and es = es] assms(4,5) show ?thesis by auto
qed

theorem filler_returns_witness:
  "\<exists>s. feed [Offer True demo_batch, Relax 1000, PassOver demo_batch, Offer False demo_batch] (Map.empty, {}, demo_filler) = Some s"
  by (rule filler_returns [OF demo_filler_new]) simp_all

text \<open>
  \<open>SimpleFiller\<close> never adds to \<open>current_bytes\<close>, so its byte limit applies to each transaction alone:
  two transactions of 600 bytes both enter a block of at most 1000.
\<close>

lemma simple_filler_exceeds_bytes:
  "map_option sf_block (simple_add_seq (\<lambda>_. 600) [demo_txn 1 0, demo_txn 1 1] (simple_filler_new 1000 10))
     = Some [demo_txn 1 0, demo_txn 1 1]"
  by code_simp

end
