(* ===== verification/TxnIO.thy ===== *)
theory TxnIO
  imports MVHashMap StateKey
begin

text \<open>
  What the parallel executor remembers of the last execution of every transaction
  (\<open>block-executor/src/txn_last_input_output.rs\<close>): the reads it captured, with enough to repeat and
  compare them, its output, and the modules that were read and written in any execution. The
  output type is opaque: the methods of the \<open>TransactionOutput\<close> and \<open>ModulePath\<close> traits
  (\<open>task.rs\<close>) are arguments.
\<close>

section \<open>Results of an execution\<close>

datatype ('o, 'e) task_status = Success 'o | Aborts 'e | SkipRest 'o

datatype 'e block_error = ModulePathReadWrite | UserError 'e | SKIP

text \<open>\<open>ModulePath for StateKey\<close>: the keys that hold code.\<close>

fun module_path :: "state_key \<Rightarrow> access_path option" where
  "module_path (AccessPath ap) = (if ap_is_code ap then Some ap else None)"
| "module_path _ = None"

section \<open>Read descriptors\<close>

datatype read_kind =
    KVersion txn_index incarnation
  | KResolved u128
  | KUnresolved delta_op
  | KStorage
  | KDeltaApplicationFailure

record 'k read_descriptor =
  rd_path :: 'k
  rd_kind :: read_kind

definition from_version :: "'k \<Rightarrow> txn_index \<Rightarrow> incarnation \<Rightarrow> 'k read_descriptor" where
  "from_version k i inc = \<lparr>rd_path = k, rd_kind = KVersion i inc\<rparr>"

definition from_resolved :: "'k \<Rightarrow> u128 \<Rightarrow> 'k read_descriptor" where
  "from_resolved k v = \<lparr>rd_path = k, rd_kind = KResolved v\<rparr>"

definition from_unresolved :: "'k \<Rightarrow> delta_op \<Rightarrow> 'k read_descriptor" where
  "from_unresolved k d = \<lparr>rd_path = k, rd_kind = KUnresolved d\<rparr>"

definition from_storage :: "'k \<Rightarrow> 'k read_descriptor" where
  "from_storage k = \<lparr>rd_path = k, rd_kind = KStorage\<rparr>"

definition from_delta_application_failure :: "'k \<Rightarrow> 'k read_descriptor" where
  "from_delta_application_failure k = \<lparr>rd_path = k, rd_kind = KDeltaApplicationFailure\<rparr>"

definition validate_version :: "version \<Rightarrow> 'k read_descriptor \<Rightarrow> bool" where
  "validate_version ver r \<longleftrightarrow> rd_kind r = KVersion (fst ver) (snd ver)"

definition validate_resolved :: "u128 \<Rightarrow> 'k read_descriptor \<Rightarrow> bool" where
  "validate_resolved v r \<longleftrightarrow> rd_kind r = KResolved v"

definition validate_unresolved :: "delta_op \<Rightarrow> 'k read_descriptor \<Rightarrow> bool" where
  "validate_unresolved d r \<longleftrightarrow> rd_kind r = KUnresolved d"

definition validate_storage :: "'k read_descriptor \<Rightarrow> bool" where
  "validate_storage r \<longleftrightarrow> rd_kind r = KStorage"

definition validate_delta_application_failure :: "'k read_descriptor \<Rightarrow> bool" where
  "validate_delta_application_failure r \<longleftrightarrow> rd_kind r = KDeltaApplicationFailure"

section \<open>The recorded inputs and outputs\<close>

record ('k, 'o, 'e) txn_last_input_output =
  inputs :: "'k read_descriptor list option list"
  outputs :: "('o, 'e block_error) task_status option list"
  module_writes :: "access_path set"
  module_reads :: "access_path set"
  module_read_write_intersection :: bool

definition io_new :: "nat \<Rightarrow> ('k, 'o, 'e) txn_last_input_output" where
  "io_new n =
     \<lparr>inputs = replicate n None, outputs = replicate n None, module_writes = {}, module_reads = {},
      module_read_write_intersection = False\<rparr>"

fun append_and_check :: "access_path list \<Rightarrow> access_path set \<Rightarrow> access_path set \<Rightarrow> bool \<times> access_path set" where
  "append_and_check [] set_to_append set_to_check = (False, set_to_append)"
| "append_and_check (p # ps) set_to_append set_to_check =
     (let appended = insert p set_to_append
      in if p \<in> set_to_check then (True, appended) else append_and_check ps appended set_to_check)"

fun written_keys :: "('o \<Rightarrow> ('k \<times> 'v) list) \<Rightarrow> ('o, 'e) task_status \<Rightarrow> 'k list" where
  "written_keys get_writes (Success out) = map fst (get_writes out)"
| "written_keys get_writes (SkipRest out) = map fst (get_writes out)"
| "written_keys get_writes (Aborts _) = []"

definition io_record ::
  "('k \<Rightarrow> access_path option) \<Rightarrow> ('o \<Rightarrow> ('k \<times> 'v) list) \<Rightarrow> txn_index \<Rightarrow> 'k read_descriptor list
    \<Rightarrow> ('o, 'e block_error) task_status \<Rightarrow> ('k, 'o, 'e) txn_last_input_output
    \<Rightarrow> ('k, 'o, 'e) txn_last_input_output option" where
  "io_record path_of get_writes txn_idx input outp io =
     (let read_modules = List.map_filter (\<lambda>r. path_of (rd_path r)) input;
          written_modules = List.map_filter path_of (written_keys get_writes outp);
          io1 =
            (if module_read_write_intersection io then io
             else
              (let (hit_r, reads') = append_and_check read_modules (module_reads io) (module_writes io);
                   (hit_w, writes') =
                     (if hit_r then (True, module_writes io)
                      else append_and_check written_modules (module_writes io) reads')
               in io\<lparr>module_reads := reads', module_writes := writes',
                     module_read_write_intersection := hit_w\<rparr>))
      in if txn_idx < length (inputs io) \<and> txn_idx < length (outputs io)
         then Some (io1\<lparr>inputs := (inputs io)[txn_idx := Some input],
                        outputs := (outputs io)[txn_idx := Some outp]\<rparr>)
         else None)"

definition module_publishing_may_race :: "('k, 'o, 'e) txn_last_input_output \<Rightarrow> bool" where
  "module_publishing_may_race io = module_read_write_intersection io"

definition io_read_set ::
  "txn_index \<Rightarrow> ('k, 'o, 'e) txn_last_input_output \<Rightarrow> 'k read_descriptor list option option" where
  "io_read_set txn_idx io = (if txn_idx < length (inputs io) then Some (inputs io ! txn_idx) else None)"

fun status_keys ::
  "('o \<Rightarrow> ('k \<times> 'v) list) \<Rightarrow> ('o \<Rightarrow> ('k \<times> delta_op) list) \<Rightarrow> ('o, 'e) task_status \<Rightarrow> 'k set" where
  "status_keys get_writes get_deltas (Success out) = fst ` set (get_writes out) \<union> fst ` set (get_deltas out)"
| "status_keys get_writes get_deltas (SkipRest out) = fst ` set (get_writes out) \<union> fst ` set (get_deltas out)"
| "status_keys get_writes get_deltas (Aborts _) = {}"

definition modified_keys ::
  "('o \<Rightarrow> ('k \<times> 'v) list) \<Rightarrow> ('o \<Rightarrow> ('k \<times> delta_op) list) \<Rightarrow> txn_index
    \<Rightarrow> ('k, 'o, 'e) txn_last_input_output \<Rightarrow> 'k set option" where
  "modified_keys get_writes get_deltas txn_idx io =
     (if txn_idx < length (outputs io)
      then Some (case outputs io ! txn_idx of None \<Rightarrow> {} | Some st \<Rightarrow> status_keys get_writes get_deltas st)
      else None)"

definition take_output ::
  "txn_index \<Rightarrow> ('k, 'o, 'e) txn_last_input_output
    \<Rightarrow> (('o, 'e block_error) task_status \<times> ('k, 'o, 'e) txn_last_input_output) option" where
  "take_output txn_idx io =
     (if txn_idx < length (outputs io)
      then map_option (\<lambda>st. (st, io\<lparr>outputs := (outputs io)[txn_idx := None]\<rparr>)) (outputs io ! txn_idx)
      else None)"

section \<open>The race detector\<close>

text \<open>
  The modules that recorded executions read and wrote. As long as the flag is off, the two sets
  hold exactly these and have nothing in common; one common module turns the flag on.
\<close>

lemma append_and_check_spec:
  "append_and_check ps S T = (hit, S') \<Longrightarrow>
     hit = (set ps \<inter> T \<noteq> {}) \<and> S \<subseteq> S' \<and> S' \<subseteq> S \<union> set ps \<and> (\<not> hit \<longrightarrow> S' = S \<union> set ps)"
  by (induction ps arbitrary: S) (auto simp: Let_def split: if_splits)

definition read_modules_of :: "('k \<Rightarrow> access_path option) \<Rightarrow> 'k read_descriptor list \<Rightarrow> access_path set" where
  "read_modules_of path_of input = {p. \<exists>r \<in> set input. path_of (rd_path r) = Some p}"

definition written_modules_of ::
  "('k \<Rightarrow> access_path option) \<Rightarrow> ('o \<Rightarrow> ('k \<times> 'v) list) \<Rightarrow> ('o, 'e) task_status \<Rightarrow> access_path set" where
  "written_modules_of path_of get_writes st = {p. \<exists>k \<in> set (written_keys get_writes st). path_of k = Some p}"

lemma set_map_filter_path: "set (List.map_filter f xs) = {y. \<exists>x \<in> set xs. f x = Some y}"
  by (force simp: map_filter_def)

fun record_all ::
  "('k \<Rightarrow> access_path option) \<Rightarrow> ('o \<Rightarrow> ('k \<times> 'v) list)
    \<Rightarrow> (txn_index \<times> 'k read_descriptor list \<times> ('o, 'e block_error) task_status) list
    \<Rightarrow> ('k, 'o, 'e) txn_last_input_output \<Rightarrow> ('k, 'o, 'e) txn_last_input_output option" where
  "record_all path_of gw [] io = Some io"
| "record_all path_of gw ((i, inp, outp) # rs) io =
     (case io_record path_of gw i inp outp io of None \<Rightarrow> None | Some io' \<Rightarrow> record_all path_of gw rs io')"

definition modules_ok :: "access_path set \<Rightarrow> access_path set \<Rightarrow> ('k, 'o, 'e) txn_last_input_output \<Rightarrow> bool" where
  "modules_ok R W io \<longleftrightarrow>
     (if module_read_write_intersection io then R \<inter> W \<noteq> {}
      else module_reads io = R \<and> module_writes io = W \<and> R \<inter> W = {})"

lemma io_record_modules:
  assumes "io_record path_of gw i inp outp io = Some io'" "modules_ok R W io"
  shows "modules_ok (R \<union> read_modules_of path_of inp) (W \<union> written_modules_of path_of gw outp) io'"
proof (cases "module_read_write_intersection io")
  case True
  with assms have "R \<inter> W \<noteq> {}" "module_read_write_intersection io'"
    by (auto simp: modules_ok_def io_record_def Let_def split: if_splits)
  then show ?thesis by (auto simp: modules_ok_def)
next
  case False
  let ?ps = "List.map_filter (\<lambda>r. path_of (rd_path r)) inp" and ?qs = "List.map_filter path_of (written_keys gw outp)"
  obtain hit_r reads' where a: "append_and_check ?ps (module_reads io) (module_writes io) = (hit_r, reads')"
    by fastforce
  obtain hit_w writes' where b:
      "(if hit_r then (True, module_writes io) else append_and_check ?qs (module_writes io) reads') = (hit_w, writes')"
    by fastforce
  have io': "module_reads io' = reads'" "module_writes io' = writes'" "module_read_write_intersection io' = hit_w"
    using assms(1) False a b by (auto simp: io_record_def Let_def split: if_splits)
  have m: "module_reads io = R" "module_writes io = W" "R \<inter> W = {}"
    using assms(2) False by (simp_all add: modules_ok_def)
  let ?P = "read_modules_of path_of inp" and ?Q = "written_modules_of path_of gw outp"
  have sets: "set ?ps = ?P" "set ?qs = ?Q"
    by (simp_all add: set_map_filter_path read_modules_of_def written_modules_of_def)
  have A: "hit_r = (?P \<inter> W \<noteq> {})" "\<not> hit_r \<longrightarrow> reads' = R \<union> ?P"
    using append_and_check_spec [OF a] by (simp_all add: m sets)
  show ?thesis
  proof (cases hit_r)
    case True
    with A(1) b io' show ?thesis by (auto simp: modules_ok_def)
  next
    case False
    with b m have "append_and_check ?qs W reads' = (hit_w, writes')" by simp
    from append_and_check_spec [OF this] False A(2)
    have "hit_w = (?Q \<inter> (R \<union> ?P) \<noteq> {})" "\<not> hit_w \<longrightarrow> writes' = W \<union> ?Q" by (simp_all add: sets)
    with False A m(3) io' show ?thesis unfolding modules_ok_def by (cases hit_w) (simp, blast, simp, blast)
  qed
qed

lemma modules_ok_new: "modules_ok {} {} (io_new n)"
  by (simp add: modules_ok_def io_new_def)

lemma record_all_modules:
  assumes "record_all path_of gw rs io = Some io'" "modules_ok R W io"
  shows "modules_ok (R \<union> (\<Union>r \<in> set rs. read_modules_of path_of (fst (snd r))))
           (W \<union> (\<Union>r \<in> set rs. written_modules_of path_of gw (snd (snd r)))) io'"
  using assms
proof (induction rs arbitrary: io R W)
  case (Cons r rs)
  obtain i inp outp where r: "r = (i, inp, outp)" by (cases r)
  with Cons.prems obtain io1 where io1: "io_record path_of gw i inp outp io = Some io1"
      "record_all path_of gw rs io1 = Some io'"
    by (auto split: option.splits)
  from Cons.IH [OF io1(2) io_record_modules [OF io1(1) Cons.prems(2)]] show ?case
    by (simp add: r Un_assoc)
qed simp

text \<open>
  C40. The fallback is triggered exactly when needed: after any executions have been recorded, the
  executor reports a possible race on modules if and only if some module was read by one of these
  executions and written by one of them.
\<close>

theorem race_reported_iff:
  assumes "record_all path_of get_writes rs (io_new n) = Some io"
  shows "module_publishing_may_race io \<longleftrightarrow>
    (\<Union>r \<in> set rs. read_modules_of path_of (fst (snd r))) \<inter> (\<Union>r \<in> set rs. written_modules_of path_of get_writes (snd (snd r))) \<noteq> {}"
  using record_all_modules [OF assms modules_ok_new]
  by (auto simp: module_publishing_may_race_def modules_ok_def split: if_splits)

definition demo_code :: access_path where
  "demo_code = \<lparr>ap_address = 1, ap_path = [3], ap_is_code = True\<rparr>"

definition demo_records ::
  "(txn_index \<times> state_key read_descriptor list \<times> ((state_key \<times> nat) list, nat block_error) task_status) list" where
  "demo_records =
     [(1, [from_storage (AccessPath demo_code)], Success []), (0, [], Success [(AccessPath demo_code, 5)])]"

theorem race_reported_iff_witness:
  "\<exists>io. record_all module_path (\<lambda>ws. ws) demo_records (io_new 2) = Some io \<and> module_publishing_may_race io"
proof -
  obtain io where io: "record_all module_path (\<lambda>ws. ws) demo_records (io_new 2) = Some io"
    by (simp add: demo_records_def io_record_def io_new_def Let_def map_filter_def from_storage_def demo_code_def)
  from race_reported_iff [OF io] have "module_publishing_may_race io"
    by (simp add: demo_records_def read_modules_of_def written_modules_of_def from_storage_def demo_code_def)
  with io show ?thesis by blast
qed

end
