(* ===== verification/View.thy ===== *)
theory View
  imports TxnIO Scheduler
begin

text \<open>
  How a transaction sees the state while it runs (\<open>block-executor/src/view.rs\<close>). In a parallel
  execution a read goes to the multi-version map first and is captured for validation; in a
  sequential one it goes to the writes of the preceding transactions. The traits the executor is
  generic in are a record of functions, and one run of the virtual machine is a tree of reads:
  what it does next depends on the answers it was given and on nothing else; a panic in it ends the
  run with \<open>None\<close>.
\<close>

section \<open>The executor task\<close>

text \<open>An error of the underlying storage view, or a status the view itself reports.\<close>

datatype 'x view_error = BaseError 'x | ViewStatus vm_status

type_synonym 'x state_value = "'x view_error + bytes option"

datatype ('k, 'a, 'r) vm_run = Finished 'r | Get 'k "'a \<Rightarrow> ('k, 'a, 'r) vm_run"

text \<open>
  \<open>ExecutorTask\<close>, \<open>TransactionOutput\<close>, \<open>TransactionWrite\<close> and \<open>ModulePath\<close> (\<open>task.rs\<close>), with the \<open>bcs\<close>
  codec of aggregator values and the order in which a hash set is walked.
\<close>

record ('t, 'k, 'v, 'o, 'e, 'x) executor_task =
  execute_transaction ::
    "'t \<Rightarrow> txn_index \<Rightarrow> bool \<Rightarrow> bool \<times> bool \<Rightarrow> ('k, 'x state_value, ('o, 'e) task_status option) vm_run"
  execute_prologue :: "'t \<Rightarrow> txn_index \<Rightarrow> ('k, 'x state_value, bool) vm_run"
  verify_transaction :: "'t \<Rightarrow> bool"
  get_writes :: "'o \<Rightarrow> ('k \<times> 'v) list"
  get_deltas :: "'o \<Rightarrow> ('k \<times> delta_op) list"
  skip_output :: 'o
  raw_bytes :: "'v \<Rightarrow> bytes option"
  path_of :: "'k \<Rightarrow> access_path option"
  deserialize :: "bytes \<Rightarrow> u128 option"
  serialize :: "u128 \<Rightarrow> bytes"
  hash_iter :: "'k set \<Rightarrow> 'k list"

type_synonym ('k, 'x) base_view = "'k \<Rightarrow> 'x + bytes option"

section \<open>Reads through the multi-version map\<close>

datatype 'v read_result = RValue 'v | RU128 u128 | RUnresolved delta_op | RNone

text \<open>
  One round of the loop of \<open>MVHashMapView::read\<close>: the read was answered and captured, or an estimate
  was found, and the loop goes round after the transaction was entered behind the one it waits for.
\<close>

datatype ('k, 'v) read_round = Answered "'k read_descriptor" "'v read_result" | Waiting txn_index

definition read_round ::
  "('t, 'k, 'v, 'o, 'e, 'x) executor_task \<Rightarrow> ('k, 'v) mvhashmap \<Rightarrow> 'k \<Rightarrow> txn_index \<Rightarrow> ('k, 'v) read_round option" where
  "read_round env mv k txn_idx =
     (case mv_read (deserialize env) (raw_bytes env) mv k txn_idx of
        None \<Rightarrow> None
      | Some (Inr (Version (idx, inc) v)) \<Rightarrow> Some (Answered (from_version k idx inc) (RValue v))
      | Some (Inr (Resolved value)) \<Rightarrow> Some (Answered (from_resolved k value) (RU128 value))
      | Some (Inl NotFound) \<Rightarrow> Some (Answered (from_storage k) RNone)
      | Some (Inl (Unresolved d)) \<Rightarrow> Some (Answered (from_unresolved k d) (RUnresolved d))
      | Some (Inl (Dependency dep_idx)) \<Rightarrow> Some (Waiting dep_idx)
      | Some (Inl DeltaApplicationFailure) \<Rightarrow> Some (Answered (from_delta_application_failure k) (RU128 0)))"

text \<open>\<open>LatestView::get_state_value\<close> for either kind of view; \<open>None\<close> where decoding panics.\<close>

fun mv_state_value ::
  "('t, 'k, 'v, 'o, 'e, 'x) executor_task \<Rightarrow> ('k, 'x) base_view \<Rightarrow> 'k \<Rightarrow> 'v read_result \<Rightarrow> 'x state_value option" where
  "mv_state_value env base k (RValue v) = Some (Inr (raw_bytes env v))"
| "mv_state_value env base k (RU128 v) = Some (Inr (Some (serialize env v)))"
| "mv_state_value env base k (RUnresolved d) =
     (case base k of
        Inl e \<Rightarrow> Some (Inl (BaseError e))
      | Inr None \<Rightarrow> Some (Inl (ViewStatus STORAGE_ERROR))
      | Inr (Some bs) \<Rightarrow>
          (case deserialize env bs of
             None \<Rightarrow> None
           | Some stored \<Rightarrow>
               Some (case apply_to d stored of
                       Inl pe \<Rightarrow> Inl (ViewStatus (FromPartial pe))
                     | Inr r \<Rightarrow> Inr (Some (serialize env r)))))"
| "mv_state_value env base k RNone = Some (case base k of Inl e \<Rightarrow> Inl (BaseError e) | Inr b \<Rightarrow> Inr b)"

definition btree_state_value ::
  "('t, 'k, 'v, 'o, 'e, 'x) executor_task \<Rightarrow> ('k, 'x) base_view \<Rightarrow> ('k, 'v) btree \<Rightarrow> 'k \<Rightarrow> 'x state_value" where
  "btree_state_value env base m k =
     (case bt_get m k of
        None \<Rightarrow> (case base k of Inl e \<Rightarrow> Inl (BaseError e) | Inr b \<Rightarrow> Inr b)
      | Some v \<Rightarrow> Inr (raw_bytes env v))"

section \<open>Runs\<close>

text \<open>
  A run against an unchanging multi-version map, with the reads it captures. It does not return
  while a read meets an estimate; \<open>Inl\<close> says which transaction it waits for.
\<close>

primrec mv_run ::
  "('t, 'k, 'v, 'o, 'e, 'x) executor_task \<Rightarrow> ('k, 'x) base_view \<Rightarrow> ('k, 'v) mvhashmap \<Rightarrow> txn_index
    \<Rightarrow> ('k, 'x state_value, 'r) vm_run \<Rightarrow> 'k read_descriptor list \<Rightarrow> (txn_index + 'r \<times> 'k read_descriptor list) option" where
  "mv_run env base mv i (Finished r) captured = Some (Inr (r, captured))"
| "mv_run env base mv i (Get k f) captured =
     (case read_round env mv k i of
        None \<Rightarrow> None
      | Some (Waiting dep) \<Rightarrow> Some (Inl dep)
      | Some (Answered d rr) \<Rightarrow>
          (case mv_state_value env base k rr of
             None \<Rightarrow> None
           | Some a \<Rightarrow> mv_run env base mv i (f a) (captured @ [d])))"

text \<open>A run against a function from keys to values, which is what a sequential execution gives it.\<close>

primrec view_run :: "('k \<Rightarrow> 'a) \<Rightarrow> ('k, 'a, 'r) vm_run \<Rightarrow> 'r" where
  "view_run view (Finished r) = r"
| "view_run view (Get k f) = view_run view (f (view k))"

text \<open>The keys a run asks for under a view.\<close>

primrec run_reads :: "('k \<Rightarrow> 'a) \<Rightarrow> ('k, 'a, 'r) vm_run \<Rightarrow> 'k list" where
  "run_reads view (Finished r) = []"
| "run_reads view (Get k f) = k # run_reads view (f (view k))"

text \<open>The results a run can have, whatever answers it is given.\<close>

primrec leaves :: "('k, 'a, 'r) vm_run \<Rightarrow> 'r set" where
  "leaves (Finished r) = {r}"
| "leaves (Get k f) = (\<Union>a. leaves (f a))"

lemma view_run_leaves: "view_run view r \<in> leaves r"
  by (induction r) auto

lemma view_run_cong: "(\<And>k. k \<in> set (run_reads view r) \<Longrightarrow> view' k = view k) \<Longrightarrow> view_run view' r = view_run view r"
  by (induction r) auto

end
