(* ===== verification/Executor.thy ===== *)
theory Executor
  imports View WriteSet Transaction SchedulerSystem
begin

text \<open>
  The block executor (\<open>block-executor/src/executor.rs\<close>, \<open>output_delta_resolver.rs\<close>): executing and
  validating one transaction, the rounds of a worker, the sequential executor, and what the
  parallel executor does with the results once all workers have left. The functions here run
  without interference; the interleaving of workers is a step relation on top of them.
\<close>

section \<open>Executing a transaction\<close>

text \<open>
  The state the workers share: the multi-version map, the recorded inputs and outputs, and the
  scheduler.
\<close>

record ('k, 'v, 'o, 'e) shared =
  versioned_data_cache :: "('k, 'v) mvhashmap"
  last_input_output :: "('k, 'o, 'e) txn_last_input_output"
  shared_sched :: scheduler

text \<open>
  Applying the writes, then the deltas: the keys of the previous incarnation that have not been
  written again, and whether a key outside of them was written.
\<close>

fun apply_writes ::
  "version \<Rightarrow> ('k \<times> 'v) list \<Rightarrow> 'k set \<times> bool \<times> ('k, 'v) mvhashmap \<Rightarrow> ('k set \<times> bool \<times> ('k, 'v) mvhashmap) option" where
  "apply_writes ver [] st = Some st"
| "apply_writes ver ((k, v) # ws) (prev, outside, mv) =
     (case add_write k ver v mv of
        None \<Rightarrow> None
      | Some mv' \<Rightarrow> apply_writes ver ws (prev - {k}, outside \<or> k \<notin> prev, mv'))"

fun apply_deltas ::
  "txn_index \<Rightarrow> ('k \<times> delta_op) list \<Rightarrow> 'k set \<times> bool \<times> ('k, 'v) mvhashmap \<Rightarrow> 'k set \<times> bool \<times> ('k, 'v) mvhashmap" where
  "apply_deltas i [] st = st"
| "apply_deltas i ((k, d) # ds) (prev, outside, mv) =
     apply_deltas i ds (prev - {k}, outside \<or> k \<notin> prev, add_delta k i d mv)"

definition apply_updates ::
  "('t, 'k, 'v, 'o, 'e, 'x) executor_task \<Rightarrow> version \<Rightarrow> 'o \<Rightarrow> 'k set \<Rightarrow> ('k, 'v) mvhashmap
    \<Rightarrow> ('k set \<times> bool \<times> ('k, 'v) mvhashmap) option" where
  "apply_updates env ver out prev mv =
     map_option (apply_deltas (fst ver) (get_deltas env out)) (apply_writes ver (get_writes env out) (prev, False, mv))"

fun delete_keys :: "txn_index \<Rightarrow> 'k list \<Rightarrow> ('k, 'v) mvhashmap \<Rightarrow> ('k, 'v) mvhashmap option" where
  "delete_keys i [] mv = Some mv"
| "delete_keys i (k # ks) mv = (case mv_delete k i mv of None \<Rightarrow> None | Some mv' \<Rightarrow> delete_keys i ks mv')"

fun user_error :: "('o, 'e) task_status \<Rightarrow> ('o, 'e block_error) task_status" where
  "user_error (Success out) = Success out"
| "user_error (SkipRest out) = SkipRest out"
| "user_error (Aborts err) = Aborts (UserError err)"

fun status_output :: "('o, 'e) task_status \<Rightarrow> 'o option" where
  "status_output (Success out) = Some out"
| "status_output (SkipRest out) = Some out"
| "status_output (Aborts err) = None"

text \<open>After the run: publish the result, remove stale entries, record, tell the scheduler.\<close>

definition publish ::
  "('t, 'k, 'v, 'o, 'e, 'x) executor_task \<Rightarrow> version \<Rightarrow> ('o, 'e) task_status \<Rightarrow> 'k read_descriptor list
    \<Rightarrow> ('k, 'v, 'o, 'e) shared \<Rightarrow> (scheduler_task \<times> ('k, 'v, 'o, 'e) shared) option" where
  "publish env ver result reads sh =
     (case modified_keys (get_writes env) (get_deltas env) (fst ver) (last_input_output sh) of
        None \<Rightarrow> None
      | Some prev_modified_keys \<Rightarrow>
          (case (case status_output result of
                   Some out \<Rightarrow> apply_updates env ver out prev_modified_keys (versioned_data_cache sh)
                 | None \<Rightarrow> Some (prev_modified_keys, False, versioned_data_cache sh)) of
             None \<Rightarrow> None
           | Some (left, updates_outside, mv) \<Rightarrow>
               (case delete_keys (fst ver) (hash_iter env left) mv of
                  None \<Rightarrow> None
                | Some mv' \<Rightarrow>
                    (case io_record (path_of env) (get_writes env) (fst ver) reads (user_error result) (last_input_output sh) of
                       None \<Rightarrow> None
                     | Some io \<Rightarrow>
                         map_option (\<lambda>(t, s). (t, \<lparr>versioned_data_cache = mv', last_input_output = io, shared_sched = s\<rparr>))
                           (finish_execution (fst ver) (snd ver) updates_outside (shared_sched sh))))))"

definition execute ::
  "('t, 'k, 'v, 'o, 'e, 'x) executor_task \<Rightarrow> ('k, 'x) base_view \<Rightarrow> 't list \<Rightarrow> version
    \<Rightarrow> ('k, 'v, 'o, 'e) shared \<Rightarrow> (txn_index + scheduler_task \<times> ('k, 'v, 'o, 'e) shared) option" where
  "execute env base txns ver sh =
     (let idx_to_execute = fst ver in
      if idx_to_execute < length txns \<and> idx_to_execute < length (prologue_map (shared_sched sh))
      then
       (case mv_run env base (versioned_data_cache sh) idx_to_execute
               (execute_transaction env (txns ! idx_to_execute) idx_to_execute False
                  (prologue_map (shared_sched sh) ! idx_to_execute)) [] of
          None \<Rightarrow> None
        | Some (Inl dep) \<Rightarrow> Some (Inl dep)
        | Some (Inr (None, reads)) \<Rightarrow> None
        | Some (Inr (Some result, reads)) \<Rightarrow> map_option Inr (publish env ver result reads sh))
      else None)"

definition run_prologue ::
  "('t, 'k, 'v, 'o, 'e, 'x) executor_task \<Rightarrow> ('k, 'x) base_view \<Rightarrow> 't list \<Rightarrow> txn_index
    \<Rightarrow> ('k, 'v) mvhashmap \<Rightarrow> (txn_index + bool) option" where
  "run_prologue env base txns i mv =
     (if i < length txns
      then map_option (map_sum id fst) (mv_run env base mv i (execute_prologue env (txns ! i) i) [])
      else None)"

section \<open>Validating a transaction\<close>

definition validate_read ::
  "('t, 'k, 'v, 'o, 'e, 'x) executor_task \<Rightarrow> ('k, 'v) mvhashmap \<Rightarrow> txn_index \<Rightarrow> 'k read_descriptor \<Rightarrow> bool option" where
  "validate_read env mv i r =
     (case mv_read (deserialize env) (raw_bytes env) mv (rd_path r) i of
        None \<Rightarrow> None
      | Some (Inr (Version ver _)) \<Rightarrow> Some (validate_version ver r)
      | Some (Inr (Resolved value)) \<Rightarrow> Some (validate_resolved value r)
      | Some (Inl (Dependency _)) \<Rightarrow> Some False
      | Some (Inl (Unresolved d)) \<Rightarrow> Some (validate_unresolved d r)
      | Some (Inl NotFound) \<Rightarrow> Some (validate_storage r)
      | Some (Inl DeltaApplicationFailure) \<Rightarrow> Some (validate_delta_application_failure r))"

fun validate_reads ::
  "('t, 'k, 'v, 'o, 'e, 'x) executor_task \<Rightarrow> ('k, 'v) mvhashmap \<Rightarrow> txn_index \<Rightarrow> 'k read_descriptor list \<Rightarrow> bool option" where
  "validate_reads env mv i [] = Some True"
| "validate_reads env mv i (r # rs) =
     (case validate_read env mv i r of
        None \<Rightarrow> None
      | Some False \<Rightarrow> Some False
      | Some True \<Rightarrow> validate_reads env mv i rs)"

fun mark_estimates :: "txn_index \<Rightarrow> 'k list \<Rightarrow> ('k, 'v) mvhashmap \<Rightarrow> ('k, 'v) mvhashmap option" where
  "mark_estimates i [] mv = Some mv"
| "mark_estimates i (k # ks) mv = (case mark_estimate k i mv of None \<Rightarrow> None | Some mv' \<Rightarrow> mark_estimates i ks mv')"

definition validate ::
  "('t, 'k, 'v, 'o, 'e, 'x) executor_task \<Rightarrow> version \<Rightarrow> wave \<Rightarrow> ('k, 'v, 'o, 'e) shared
    \<Rightarrow> (scheduler_task \<times> ('k, 'v, 'o, 'e) shared) option" where
  "validate env ver validation_wave sh =
     (let (i, inc) = ver in
      case io_read_set i (last_input_output sh) of
        None \<Rightarrow> None
      | Some None \<Rightarrow> None
      | Some (Some reads) \<Rightarrow>
          (case validate_reads env (versioned_data_cache sh) i reads of
             None \<Rightarrow> None
           | Some valid \<Rightarrow>
               (case (if valid then Some (False, shared_sched sh) else try_abort i inc (shared_sched sh)) of
                  None \<Rightarrow> None
                | Some (True, s) \<Rightarrow>
                    (case modified_keys (get_writes env) (get_deltas env) i (last_input_output sh) of
                       None \<Rightarrow> None
                     | Some ks \<Rightarrow>
                         (case mark_estimates i (hash_iter env ks) (versioned_data_cache sh) of
                            None \<Rightarrow> None
                          | Some mv \<Rightarrow>
                              map_option (\<lambda>(t, s'). (t, sh\<lparr>versioned_data_cache := mv, shared_sched := s'\<rparr>))
                                (finish_abort i inc s)))
                | Some (False, s) \<Rightarrow>
                    map_option (\<lambda>s'. (NoTask, sh\<lparr>shared_sched := s'\<rparr>)) (finish_validation i validation_wave s))))"

section \<open>A worker\<close>

text \<open>The inner loop of the committing worker: commit until nothing more can be committed.\<close>

lemma try_commit_advances:
  assumes "try_commit locked cs s = Some (Some i, cs', s')"
  shows "length (txn_status s') - fst cs' < length (txn_status s) - fst cs"
  using assms
  by (auto simp: try_commit_def Let_def set_exec_status_def split: prod.splits if_splits execution_status.splits option.splits)

function commit_all :: "txn_index \<times> wave \<Rightarrow> scheduler \<Rightarrow> ((txn_index \<times> wave) \<times> scheduler) option" where
  "commit_all cs s =
     (case try_commit True cs s of
        None \<Rightarrow> None
      | Some (None, cs', s') \<Rightarrow> Some (cs', s')
      | Some (Some _, cs', s') \<Rightarrow> commit_all cs' s')"
  by auto
termination
  by (relation "measure (\<lambda>(cs, s). length (txn_status s) - fst cs)") (auto dest!: try_commit_advances)

declare commit_all.simps [simp del]

text \<open>The indices whose signatures one \<open>SigTask\<close> verifies.\<close>

definition sig_batch :: "nat \<Rightarrow> nat \<Rightarrow> nat list" where
  "sig_batch len index = filter (\<lambda>j. j < len) (map (\<lambda>n. index + n) [0..<24])"

text \<open>The local variables of \<open>work_task_with_scope\<close>.\<close>

record worker_locals =
  local_task :: scheduler_task
  local_val_finished :: bool
  last_ind :: u16
  local_commit :: "txn_index \<times> wave"

text \<open>
  What a worker does when the scheduler has no task for it: prologues until they are used up, then
  signatures in the mode that has them. The length of the block is cast to 16 bits.
\<close>

definition idle_task :: "'t list \<Rightarrow> u16 \<Rightarrow> scheduler \<Rightarrow> scheduler_task \<times> scheduler" where
  "idle_task txns last_seen s =
     (if last_seen \<ge> of_nat (length txns)
      then if mode s = Pythia_Sig
           then let idx = sig_val_idx s
                in (if idx \<le> num_txns s then SigTask idx else NoTask, s\<lparr>sig_val_idx := idx + 25\<rparr>)
           else (NoTask, s)
      else (PrologueTask, s))"

definition prologue_task ::
  "('t, 'k, 'v, 'o, 'e, 'x) executor_task \<Rightarrow> ('k, 'x) base_view \<Rightarrow> 't list \<Rightarrow> u16
    \<Rightarrow> ('k, 'v, 'o, 'e) shared \<Rightarrow> (txn_index + u16 \<times> ('k, 'v, 'o, 'e) shared) option" where
  "prologue_task env base txns last_seen sh =
     (if last_seen \<ge> of_nat (length txns) then Some (Inr (last_seen, sh))
      else
       (let s = shared_sched sh; ind = prologue_index s; s' = s\<lparr>prologue_index := ind + 1\<rparr>;
            sh' = sh\<lparr>shared_sched := s'\<rparr>; i = unat ind
        in if ind < of_nat (length txns)
           then if i < length (prologue_map s)
                then if prologue_map s ! i = (True, False)
                     then
                      (case run_prologue env base txns i (versioned_data_cache sh) of
                         None \<Rightarrow> None
                       | Some (Inl dep) \<Rightarrow> Some (Inl dep)
                       | Some (Inr res) \<Rightarrow>
                           Some (Inr (ind, sh'\<lparr>shared_sched := s'\<lparr>prologue_map := (prologue_map s)[i := (True, res)]\<rparr>\<rparr>)))
                     else Some (Inr (ind, sh'))
                else None
           else Some (Inr (ind, sh'))))"

text \<open>
  One round of the loop of a worker that runs undisturbed: \<open>Inl dep\<close> when it is stuck on an estimate
  of \<open>dep\<close>, \<open>Inr None\<close> when it leaves.
\<close>

definition work_round ::
  "('t, 'k, 'v, 'o, 'e, 'x) executor_task \<Rightarrow> ('k, 'x) base_view \<Rightarrow> 't list \<Rightarrow> bool
    \<Rightarrow> worker_locals \<Rightarrow> ('k, 'v, 'o, 'e) shared
    \<Rightarrow> (txn_index + (worker_locals \<times> ('k, 'v, 'o, 'e) shared) option) option" where
  "work_round env base txns committing w sh =
     (case (if committing then commit_all (local_commit w) (shared_sched sh)
            else Some (local_commit w, shared_sched sh)) of
        None \<Rightarrow> None
      | Some (cs, s) \<Rightarrow>
          (let w = w\<lparr>local_commit := cs\<rparr>; sh = sh\<lparr>shared_sched := s\<rparr> in
           case local_task w of
             ValidationTask ver wv \<Rightarrow>
               map_option (\<lambda>(t, sh'). Inr (Some (w\<lparr>local_task := t\<rparr>, sh'))) (validate env ver wv sh)
           | SigTask index \<Rightarrow> Some (Inr (Some (w\<lparr>local_task := NoTask\<rparr>, sh)))
           | NoTask \<Rightarrow>
               (case next_task True (local_val_finished w) s of
                  None \<Rightarrow> None
                | Some (t, fin, s') \<Rightarrow>
                    (let (t', s'') = (if t = NoTask then idle_task txns (last_ind w) s' else (t, s'))
                     in Some (Inr (Some (w\<lparr>local_task := t', local_val_finished := fin\<rparr>,
                                         sh\<lparr>shared_sched := s''\<rparr>)))))
           | Done \<Rightarrow> Some (Inr None)
           | ExecutionTask ver None \<Rightarrow>
               (case execute env base txns ver sh of
                  None \<Rightarrow> None
                | Some (Inl dep) \<Rightarrow> Some (Inl dep)
                | Some (Inr (t, sh')) \<Rightarrow> Some (Inr (Some (w\<lparr>local_task := t\<rparr>, sh'))))
           | ExecutionTask ver (Some cv) \<Rightarrow> Some (Inr None)
           | PrologueTask \<Rightarrow>
               (case prologue_task env base txns (last_ind w) sh of
                  None \<Rightarrow> None
                | Some (Inl dep) \<Rightarrow> Some (Inl dep)
                | Some (Inr (last_seen, sh')) \<Rightarrow>
                    Some (Inr (Some (w\<lparr>local_task := NoTask, last_ind := last_seen\<rparr>, sh'))))))"

section \<open>Resolving the deltas of the outputs\<close>

fun resolve_entries ::
  "('t, 'k, 'v, 'o, 'e, 'x) executor_task \<Rightarrow> 'k \<Rightarrow> (txn_index \<times> 'v entry) list \<Rightarrow> u128 option
    \<Rightarrow> ('k \<times> write_op) list list \<Rightarrow> ('k \<times> write_op) list list option" where
  "resolve_entries env key [] latest_value ret = Some ret"
| "resolve_entries env key ((idx, e) # es) latest_value ret =
     (case cell e of
        CWrite _ data \<Rightarrow>
          (case raw_bytes env data of
             None \<Rightarrow> resolve_entries env key es None ret
           | Some bs \<Rightarrow>
               (case deserialize env bs of
                  None \<Rightarrow> None
                | Some value \<Rightarrow> resolve_entries env key es (Some value) ret))
      | CDelta d \<Rightarrow>
          (case latest_value of
             None \<Rightarrow> None
           | Some value \<Rightarrow>
               (case apply_to d value of
                  Inl _ \<Rightarrow> None
                | Inr aggregator_value \<Rightarrow>
                    if idx < length ret
                    then resolve_entries env key es (Some aggregator_value)
                           (ret[idx := ret ! idx @ [(key, Modification (serialize env aggregator_value))]])
                    else None)))"

definition stored_value ::
  "('t, 'k, 'v, 'o, 'e, 'x) executor_task \<Rightarrow> ('k, 'x) base_view \<Rightarrow> 'k \<Rightarrow> u128 option option" where
  "stored_value env base key =
     (case base key of Inr (Some bs) \<Rightarrow> map_option Some (deserialize env bs) | _ \<Rightarrow> Some None)"

fun resolve_keys ::
  "('t, 'k, 'v, 'o, 'e, 'x) executor_task \<Rightarrow> ('k, 'x) base_view \<Rightarrow> 'k list \<Rightarrow> ('k, 'v) mvhashmap
    \<Rightarrow> ('k \<times> write_op) list list \<Rightarrow> ('k \<times> write_op) list list option" where
  "resolve_keys env base [] mv ret = Some ret"
| "resolve_keys env base (key # ks) mv ret =
     (case stored_value env base key of
        None \<Rightarrow> None
      | Some latest_value \<Rightarrow>
          (case entry_map_for_key key mv of
             (None, _) \<Rightarrow> None
           | (Some indexed_entries, mv') \<Rightarrow>
               (case resolve_entries env key indexed_entries latest_value ret of
                  None \<Rightarrow> None
                | Some ret' \<Rightarrow> resolve_keys env base ks mv' ret')))"

definition resolve ::
  "('t, 'k, 'v, 'o, 'e, 'x) executor_task \<Rightarrow> ('k, 'x) base_view \<Rightarrow> nat \<Rightarrow> ('k, 'v) mvhashmap
    \<Rightarrow> ('k \<times> write_op) list list option" where
  "resolve env base block_size mv =
     (let (ks, mv') = aggregator_keys mv in resolve_keys env base ks mv' (replicate block_size []))"

section \<open>Sequential execution\<close>

definition resize_with :: "nat \<Rightarrow> 'a \<Rightarrow> 'a list \<Rightarrow> 'a list" where
  "resize_with n d xs = take n xs @ replicate (n - length xs) d"

definition insert_writes :: "('k::linorder \<times> 'v) list \<Rightarrow> ('k, 'v) btree \<Rightarrow> ('k, 'v) btree" where
  "insert_writes ws m = fold (\<lambda>(k, v). bt_insert k v) ws m"

fun sequential_loop ::
  "('t, 'k::linorder, 'v, 'o, 'e, 'x) executor_task \<Rightarrow> ('k, 'x) base_view \<Rightarrow> txn_index \<Rightarrow> 't list
    \<Rightarrow> ('k, 'v) btree \<Rightarrow> 'o list \<Rightarrow> ('e block_error + 'o list) option" where
  "sequential_loop env base idx [] data_map ret = Some (Inr ret)"
| "sequential_loop env base idx (txn # txns) data_map ret =
     (case view_run (btree_state_value env base data_map) (execute_transaction env txn idx True (False, True)) of
        None \<Rightarrow> None
      | Some (Success outp) \<Rightarrow>
          if get_deltas env outp = []
          then sequential_loop env base (idx + 1) txns (insert_writes (get_writes env outp) data_map) (ret @ [outp])
          else None
      | Some (SkipRest outp) \<Rightarrow> if get_deltas env outp = [] then Some (Inr (ret @ [outp])) else None
      | Some (Aborts err) \<Rightarrow> Some (Inl (UserError err)))"

definition execute_transactions_sequential ::
  "('t, 'k::linorder, 'v, 'o, 'e, 'x) executor_task \<Rightarrow> ('k, 'x) base_view \<Rightarrow> 't list
    \<Rightarrow> ('e block_error + ('o \<times> ('k \<times> write_op) list) list) option" where
  "execute_transactions_sequential env base txns =
     map_option (map_sum id (\<lambda>ret. map (\<lambda>outp. (outp, [])) (resize_with (length txns) (skip_output env) ret)))
       (sequential_loop env base 0 txns [] [])"

section \<open>The results of a parallel execution\<close>

text \<open>The outputs are taken chunk by chunk; a chunk ends early after \<open>SkipRest\<close>.\<close>

fun chunks :: "nat \<Rightarrow> 'a list \<Rightarrow> 'a list list" where
  "chunks sz xs = (if sz = 0 \<or> xs = [] then [] else take sz xs # chunks sz (drop sz xs))"

declare chunks.simps [simp del]

fun extract_chunk ::
  "txn_index list \<Rightarrow> ('k, 'o, 'e) txn_last_input_output \<Rightarrow> 'o list
    \<Rightarrow> (('e block_error + 'o list) \<times> ('k, 'o, 'e) txn_last_input_output) option" where
  "extract_chunk [] io inner_results = Some (Inr inner_results, io)"
| "extract_chunk (idx # idxs) io inner_results =
     (case take_output idx io of
        None \<Rightarrow> None
      | Some (Success t, io') \<Rightarrow> extract_chunk idxs io' (inner_results @ [t])
      | Some (SkipRest t, io') \<Rightarrow> Some (Inr (inner_results @ [t]), io')
      | Some (Aborts err, io') \<Rightarrow> Some (Inl err, io'))"

fun extract_chunks ::
  "txn_index list list \<Rightarrow> ('k, 'o, 'e) txn_last_input_output \<Rightarrow> ('e block_error + 'o list) list option" where
  "extract_chunks [] io = Some []"
| "extract_chunks (c # cs) io =
     (case extract_chunk c io [] of
        None \<Rightarrow> None
      | Some (r, io') \<Rightarrow> map_option (Cons r) (extract_chunks cs io'))"

fun gather_results :: "('e block_error + 'o list) list \<Rightarrow> 'o list \<Rightarrow> 'e block_error option \<times> 'o list" where
  "gather_results [] final_results = (None, final_results)"
| "gather_results (Inl err # rs) final_results = (Some err, final_results)"
| "gather_results (Inr v # rs) final_results = gather_results rs (final_results @ v)"

definition chunk_size :: "nat \<Rightarrow> nat \<Rightarrow> nat" where
  "chunk_size n concurrency = (n + 4 * concurrency - 1) div (4 * concurrency)"

text \<open>
  What \<open>execute_transactions_parallel\<close> does after its workers have left, with the recorded outputs
  and the multi-version map they left behind.
\<close>

definition parallel_results ::
  "('t, 'k, 'v, 'o, 'e, 'x) executor_task \<Rightarrow> ('k, 'x) base_view \<Rightarrow> nat \<Rightarrow> nat
    \<Rightarrow> ('k, 'o, 'e) txn_last_input_output \<Rightarrow> ('k, 'v) mvhashmap
    \<Rightarrow> ('e block_error + ('o \<times> ('k \<times> write_op) list) list) option" where
  "parallel_results env base n concurrency io mv =
     (case extract_chunks (chunks (chunk_size n concurrency) [0..<n]) io of
        None \<Rightarrow> None
      | Some interm \<Rightarrow>
          (let race = (if module_publishing_may_race io then Some ModulePathReadWrite else None);
               (err, final_results) = gather_results interm [];
               maybe_err = (case err of None \<Rightarrow> race | Some e \<Rightarrow> Some e)
           in case maybe_err of
                Some ModulePathReadWrite \<Rightarrow> Some (Inl ModulePathReadWrite)
              | Some (UserError e) \<Rightarrow> Some (Inl (UserError e))
              | _ \<Rightarrow>
                  map_option (\<lambda>deltas. Inr (zip (resize_with n (skip_output env) final_results) deltas))
                    (resolve env base n mv)))"

text \<open>The choice of the executor, and the sequential fallback.\<close>

definition execute_block ::
  "nat \<Rightarrow> ('e block_error + 'r) option \<Rightarrow> ('e block_error + 'r) option \<Rightarrow> ('e block_error + 'r) option" where
  "execute_block concurrency parallel sequential =
     (case (if concurrency > 1 then parallel else sequential) of
        Some (Inl ModulePathReadWrite) \<Rightarrow> sequential
      | ret \<Rightarrow> ret)"

end
