(* ===== verification/ChangeSetExt.thy ===== *)
theory ChangeSetExt
  imports Aggregator WriteSet
begin

text \<open>
  Change sets with deltas (\<open>aptos-aggregator/src/transaction.rs\<close>, \<open>types/src/transaction/change_set.rs\<close>):
  what a session of the virtual machine produces, and the squashing of two successive ones. The
  \<open>bcs\<close> codec of aggregator values and the checker of change sets are arguments.
\<close>

section \<open>Change sets\<close>

record ('k, 'ev) change_set =
  cs_write_set :: "'k write_set"
  cs_events :: "'ev list"

datatype 'c ext_error = CannotSquash | DeletedAggregator | ExtPartial partial_vm_error | ExtBcs | CheckFailed 'c

definition change_set_new ::
  "'k write_set \<Rightarrow> 'ev list \<Rightarrow> (('k, 'ev) change_set \<Rightarrow> 'c option) \<Rightarrow> 'c ext_error + ('k, 'ev) change_set" where
  "change_set_new ws evs check =
     (let myself = \<lparr>cs_write_set = ws, cs_events = evs\<rparr>
      in case check myself of Some e \<Rightarrow> Inl (CheckFailed e) | None \<Rightarrow> Inr myself)"

record ('k, 'ev, 'c) change_set_ext =
  ext_delta_change_set :: "'k delta_change_set"
  ext_change_set :: "('k, 'ev) change_set"
  ext_checker :: "('k, 'ev) change_set \<Rightarrow> 'c option"

definition change_set_ext_new ::
  "'k delta_change_set \<Rightarrow> ('k, 'ev) change_set \<Rightarrow> (('k, 'ev) change_set \<Rightarrow> 'c option) \<Rightarrow> ('k, 'ev, 'c) change_set_ext" where
  "change_set_ext_new ds cs check =
     \<lparr>ext_delta_change_set = ds, ext_change_set = cs, ext_checker = check\<rparr>"

definition ext_into_inner :: "('k, 'ev, 'c) change_set_ext \<Rightarrow> 'k delta_change_set \<times> ('k, 'ev) change_set" where
  "ext_into_inner e = (ext_delta_change_set e, ext_change_set e)"

text \<open>The pair of deltas and writes that the two loops update.\<close>

type_synonym 'k ext_ops = "'k delta_change_set \<times> 'k write_set"

definition apply_to_data ::
  "(bytes \<Rightarrow> u128 option) \<Rightarrow> (u128 \<Rightarrow> bytes) \<Rightarrow> delta_op \<Rightarrow> bytes \<Rightarrow> 'c ext_error + bytes" where
  "apply_to_data deser ser d data =
     (case deser data of
        None \<Rightarrow> Inl ExtBcs
      | Some val \<Rightarrow> (case apply_to d val of Inl e \<Rightarrow> Inl (ExtPartial e) | Inr r \<Rightarrow> Inr (ser r)))"

definition squash_delta_entry ::
  "(bytes \<Rightarrow> u128 option) \<Rightarrow> (u128 \<Rightarrow> bytes) \<Rightarrow> 'k::linorder \<times> delta_op \<Rightarrow> 'k ext_ops \<Rightarrow> 'c ext_error + 'k ext_ops" where
  "squash_delta_entry deser ser e st =
     (let (k, d) = e; (deltas, writes) = st in
      case bt_get writes k of
        Some (Creation data) \<Rightarrow>
          rbind (apply_to_data deser ser d data) (\<lambda>bs. Inr (deltas, bt_insert k (Creation bs) writes))
      | Some (Modification data) \<Rightarrow>
          rbind (apply_to_data deser ser d data) (\<lambda>bs. Inr (deltas, bt_insert k (Modification bs) writes))
      | Some Deletion \<Rightarrow> Inl DeletedAggregator
      | None \<Rightarrow>
          (case bt_get deltas k of
             Some prev \<Rightarrow>
               (case merge_onto d prev of
                  Inl err \<Rightarrow> Inl (ExtPartial err)
                | Inr d' \<Rightarrow> Inr (bt_insert k d' deltas, writes))
           | None \<Rightarrow> Inr (bt_insert k d deltas, writes)))"

definition squash_delta_change_set ::
  "(bytes \<Rightarrow> u128 option) \<Rightarrow> (u128 \<Rightarrow> bytes) \<Rightarrow> 'k::linorder delta_change_set \<Rightarrow> ('k, 'ev, 'c) change_set_ext
    \<Rightarrow> 'c ext_error + ('k, 'ev, 'c) change_set_ext" where
  "squash_delta_change_set deser ser other self =
     (let (delta_set, cs) = ext_into_inner self
      in rbind (rfold (squash_delta_entry deser ser) other (delta_set, cs_write_set cs)) (\<lambda>(deltas, writes).
         rbind (change_set_new writes (cs_events cs) (ext_checker self)) (\<lambda>cs'.
         Inr (change_set_ext_new deltas cs' (ext_checker self)))))"

definition squash_change_entry :: "'k::linorder \<times> write_op \<Rightarrow> 'k ext_ops \<Rightarrow> 'c ext_error + 'k ext_ops" where
  "squash_change_entry e st =
     (let (k, op) = e; (deltas, writes) = st in
      case bt_get writes k of
        Some r \<Rightarrow>
          (case squash_op r op of
             Inl _ \<Rightarrow> Inl CannotSquash
           | Inr (Some op') \<Rightarrow> Inr (deltas, bt_insert k op' writes)
           | Inr None \<Rightarrow> Inr (deltas, bt_remove k writes))
      | None \<Rightarrow> Inr (snd (dcs_remove k deltas), bt_insert k op writes))"

definition squash_change_set ::
  "('k::linorder, 'ev) change_set \<Rightarrow> ('k, 'ev, 'c) change_set_ext \<Rightarrow> 'c ext_error + ('k, 'ev, 'c) change_set_ext" where
  "squash_change_set other self =
     (let (delta, cs) = ext_into_inner self
      in rbind (rfold squash_change_entry (cs_write_set other) (delta, cs_write_set cs)) (\<lambda>(deltas, writes).
         rbind (change_set_new writes (cs_events cs @ cs_events other) (ext_checker self)) (\<lambda>cs'.
         Inr (change_set_ext_new deltas cs' (ext_checker self)))))"

definition ext_squash ::
  "(bytes \<Rightarrow> u128 option) \<Rightarrow> (u128 \<Rightarrow> bytes) \<Rightarrow> ('k::linorder, 'ev, 'c) change_set_ext \<Rightarrow> ('k, 'ev, 'c) change_set_ext
    \<Rightarrow> 'c ext_error + ('k, 'ev, 'c) change_set_ext" where
  "ext_squash deser ser self other =
     (let (ds, cs) = ext_into_inner other
      in rbind (squash_change_set cs self) (squash_delta_change_set deser ser ds))"

section \<open>What a change set with deltas means\<close>

text \<open>
  The value an entry leaves under its key, and when it can have been produced there: the deltas of
  a key share one limit (\<open>lim\<close>) and apply to the value they were produced on.
\<close>

definition apply_delta :: "(bytes \<Rightarrow> u128 option) \<Rightarrow> (u128 \<Rightarrow> bytes) \<Rightarrow> delta_op \<Rightarrow> bytes option \<Rightarrow> bytes option" where
  "apply_delta deser ser d v =
     Option.bind v (\<lambda>bs. Option.bind (deser bs) (\<lambda>x. map_option ser (ok (apply_to d x))))"

definition key_effect ::
  "(bytes \<Rightarrow> u128 option) \<Rightarrow> (u128 \<Rightarrow> bytes) \<Rightarrow> 'k ext_ops \<Rightarrow> 'k \<Rightarrow> bytes option \<Rightarrow> bytes option" where
  "key_effect deser ser st k v =
     (case bt_get (snd st) k of
        Some op \<Rightarrow> extract_raw_bytes op
      | None \<Rightarrow> (case bt_get (fst st) k of None \<Rightarrow> v | Some d \<Rightarrow> apply_delta deser ser d v))"

definition key_applicable ::
  "(bytes \<Rightarrow> u128 option) \<Rightarrow> (u128 \<Rightarrow> bytes) \<Rightarrow> ('k \<Rightarrow> u128) \<Rightarrow> 'k ext_ops \<Rightarrow> 'k \<Rightarrow> bytes option \<Rightarrow> bool" where
  "key_applicable deser ser lim st k v \<longleftrightarrow>
     (case bt_get (snd st) k of
        Some op \<Rightarrow> op_applicable op v \<and> bt_get (fst st) k = None
      | None \<Rightarrow>
          (case bt_get (fst st) k of
             None \<Rightarrow> True
           | Some d \<Rightarrow> delta_wf d \<and> limit d = lim k \<and> apply_delta deser ser d v \<noteq> None))"

lemma apply_delta_Some:
  "apply_delta deser ser d v = Some bs \<longleftrightarrow>
     (\<exists>b x r. v = Some b \<and> deser b = Some x \<and> apply_to d x = Inr r \<and> bs = ser r)"
  by (auto simp: apply_delta_def bind_eq_Some_conv)

text \<open>Two states of the loop that agree outside of one key.\<close>

definition same_but :: "'k \<Rightarrow> 'k::linorder ext_ops \<Rightarrow> 'k ext_ops \<Rightarrow> bool" where
  "same_but k st st' \<longleftrightarrow> (\<forall>k'. k' \<noteq> k \<longrightarrow> bt_get (fst st') k' = bt_get (fst st) k' \<and> bt_get (snd st') k' = bt_get (snd st) k')
     \<and> (bt_wf (fst st) \<and> bt_wf (snd st) \<longrightarrow> bt_wf (fst st') \<and> bt_wf (snd st'))"

lemma same_but_key:
  assumes "same_but k st st'" "k' \<noteq> k"
  shows "key_effect deser ser st' k' v = key_effect deser ser st k' v"
    "key_applicable deser ser lim st' k' v = key_applicable deser ser lim st k' v"
  using assms by (auto simp: same_but_def key_effect_def key_applicable_def split: option.splits)

lemma squash_delta_entry_step:
  assumes bcs: "\<And>x. deser (ser x) = Some x"
    and app: "key_applicable deser ser lim st k v"
    and d: "delta_wf d" "limit d = lim k" "apply_delta deser ser d (key_effect deser ser st k v) \<noteq> None"
  shows "\<exists>st'. squash_delta_entry deser ser (k, d) st = Inr st' \<and> same_but k st st'
    \<and> key_applicable deser ser lim st' k v
    \<and> key_effect deser ser st' k v = apply_delta deser ser d (key_effect deser ser st k v)"
proof -
  obtain ds ws where st: "st = (ds, ws)" by (cases st)
  from d(3) obtain bs x r where x: "key_effect deser ser st k v = Some bs" "deser bs = Some x" "apply_to d x = Inr r"
    by (auto simp: apply_delta_Some)
  have new: "apply_delta deser ser d (key_effect deser ser st k v) = Some (ser r)"
    using x by (auto simp: apply_delta_Some)
  show ?thesis
  proof (cases "bt_get ws k")
    case (Some op)
    with app x st obtain data where op: "op = Creation bs \<and> v = None \<or> op = Modification bs \<and> v \<noteq> None"
        "bt_get ds k = None"
      by (cases op) (auto simp: key_effect_def key_applicable_def)
    with Some x st new show ?thesis
      by (auto simp: squash_delta_entry_def apply_to_data_def same_but_def key_applicable_def key_effect_def)
  next
    case None
    show ?thesis
    proof (cases "bt_get ds k")
      case (Some prev)
      with None app st have prev: "delta_wf prev" "limit prev = lim k" "apply_delta deser ser prev v = Some bs"
        using x by (auto simp: key_applicable_def key_effect_def)
      then obtain b y where y: "v = Some b" "deser b = Some y" "apply_to prev y = Inr x"
        using x(2) bcs by (auto simp: apply_delta_Some)
      obtain m where m: "merge_onto d prev = Inr m"
        using merge_onto_fails [OF d(1) prev(1) _ _ y(3)] d(2) prev(2) x(3) by (cases "merge_onto d prev") auto
      have "apply_to m y = Inr r"
        using merge_onto_sound [OF d(1) prev(1) _ m] d(2) prev(2) y(3) x(3) by auto
      with y have "apply_delta deser ser m v = Some (ser r)" by (auto simp: apply_delta_Some)
      moreover have "delta_wf m" "limit m = lim k"
        using merge_onto_wf [OF d(1) prev(1) m] merge_onto_eq_Inr(1) [OF m] d(2) by simp_all
      ultimately show ?thesis
        using None Some st m new
        by (simp add: squash_delta_entry_def same_but_def key_applicable_def key_effect_def)
    next
      case none: None
      with None st d x new show ?thesis
        by (auto simp: squash_delta_entry_def same_but_def key_applicable_def key_effect_def)
    qed
  qed
qed

lemma squash_change_entry_step:
  assumes app: "key_applicable deser ser lim st k v"
    and op: "op_applicable op (key_effect deser ser st k v)"
  shows "\<exists>st'. squash_change_entry (k, op) st = Inr st' \<and> same_but k st st'
    \<and> key_applicable deser ser lim st' k v \<and> key_effect deser ser st' k v = extract_raw_bytes op"
proof -
  obtain ds ws where st: "st = (ds, ws)" by (cases st)
  show ?thesis
  proof (cases "bt_get ws k")
    case (Some r)
    with app op st have r: "op_applicable r v" "bt_get ds k = None" "op_applicable op (extract_raw_bytes r)"
      by (auto simp: key_applicable_def key_effect_def)
    obtain r' where r': "squash_op r op = Inr r'" using squash_op_total [OF r(1,3)] by blast
    from squash_op_sound [OF r' r(1)] Some st r' r(2) show ?thesis
      by (cases r') (auto simp: squash_change_entry_def same_but_def key_applicable_def key_effect_def)
  next
    case None
    have "op_applicable op v"
    proof (cases "bt_get ds k")
      case (Some d)
      with None app st have "apply_delta deser ser d v \<noteq> None" by (auto simp: key_applicable_def)
      with op None Some st show ?thesis by (cases op) (auto simp: key_effect_def apply_delta_Some)
    qed (use op None st in \<open>auto simp: key_effect_def\<close>)
    with None st show ?thesis
      by (auto simp: squash_change_entry_def dcs_remove_def same_but_def key_applicable_def key_effect_def)
  qed
qed

section \<open>The loops\<close>

lemma squash_deltas_run:
  assumes bcs: "\<And>x. deser (ser x) = Some x" and wf: "bt_wf other"
    and app: "\<And>k. key_applicable deser ser lim st k (s k)"
    and ds: "\<And>k d. bt_get other k = Some d \<Longrightarrow> delta_wf d \<and> limit d = lim k
      \<and> apply_delta deser ser d (key_effect deser ser st k (s k)) \<noteq> None"
  shows "\<exists>st'. rfold (squash_delta_entry deser ser) other st = (Inr st' :: 'c ext_error + 'k::linorder ext_ops)
    \<and> (\<forall>k. key_applicable deser ser lim st' k (s k))
    \<and> (\<forall>k. key_effect deser ser st' k (s k) = (case bt_get other k of
          None \<Rightarrow> key_effect deser ser st k (s k) | Some d \<Rightarrow> apply_delta deser ser d (key_effect deser ser st k (s k))))"
  using wf app ds
proof (induction other arbitrary: st)
  case (Cons e other)
  obtain k d where e: "e = (k, d)" by (cases e)
  have rest: "bt_wf other" "bt_get other k = None"
    using Cons.prems(1) by (auto simp: e bt_wf_Cons bt_get_None)
  have get: "bt_get (e # other) k' = (if k' = k then Some d else bt_get other k')" for k'
    by (simp add: e bt_get_def)
  have d: "delta_wf d" "limit d = lim k" "apply_delta deser ser d (key_effect deser ser st k (s k)) \<noteq> None"
    using Cons.prems(3) [of k d] by (simp_all add: get)
  obtain st1 where st1: "squash_delta_entry deser ser (k, d) st = (Inr st1 :: 'c ext_error + 'k ext_ops)" "same_but k st st1"
      "key_applicable deser ser lim st1 k (s k)"
      "key_effect deser ser st1 k (s k) = apply_delta deser ser d (key_effect deser ser st k (s k))"
    using squash_delta_entry_step [OF bcs Cons.prems(2) [of k] d] by blast
  note other = same_but_key [OF st1(2)]
  have "key_applicable deser ser lim st1 k' (s k')" for k'
    using st1(3) Cons.prems(2) [of k'] other by (cases "k' = k") auto
  moreover have "delta_wf d' \<and> limit d' = lim k' \<and> apply_delta deser ser d' (key_effect deser ser st1 k' (s k')) \<noteq> None"
    if "bt_get other k' = Some d'" for k' d'
    using that Cons.prems(3) [of k' d'] rest(2) other by (cases "k' = k") (auto simp: get)
  ultimately obtain st' where st': "rfold (squash_delta_entry deser ser) other st1 = (Inr st' :: 'c ext_error + 'k ext_ops)"
      "\<forall>k. key_applicable deser ser lim st' k (s k)"
      "\<forall>k. key_effect deser ser st' k (s k) = (case bt_get other k of None \<Rightarrow> key_effect deser ser st1 k (s k)
          | Some d \<Rightarrow> apply_delta deser ser d (key_effect deser ser st1 k (s k)))"
    using Cons.IH [OF rest(1)] by blast
  have "key_effect deser ser st' k' (s k') = (case bt_get (e # other) k' of None \<Rightarrow> key_effect deser ser st k' (s k')
      | Some d \<Rightarrow> apply_delta deser ser d (key_effect deser ser st k' (s k')))" for k'
    using st'(3) st1(4) rest(2) other by (cases "k' = k") (simp_all add: get split: option.split)
  with st1(1) st'(1,2) show ?case by (simp add: e)
qed simp

lemma squash_changes_run:
  assumes wf: "bt_wf other" and app: "\<And>k. key_applicable deser ser lim st k (s k)"
    and ops: "\<And>k op. bt_get other k = Some op \<Longrightarrow> op_applicable op (key_effect deser ser st k (s k))"
  shows "\<exists>st'. rfold squash_change_entry other st = (Inr st' :: 'c ext_error + 'k::linorder ext_ops)
    \<and> (\<forall>k. key_applicable deser ser lim st' k (s k))
    \<and> (\<forall>k. key_effect deser ser st' k (s k) = (case bt_get other k of
          None \<Rightarrow> key_effect deser ser st k (s k) | Some op \<Rightarrow> extract_raw_bytes op))"
  using assms
proof (induction other arbitrary: st)
  case (Cons e other)
  obtain k op where e: "e = (k, op)" by (cases e)
  have rest: "bt_wf other" "bt_get other k = None"
    using Cons.prems(1) by (auto simp: e bt_wf_Cons bt_get_None)
  have get: "bt_get (e # other) k' = (if k' = k then Some op else bt_get other k')" for k'
    by (simp add: e bt_get_def)
  have op: "op_applicable op (key_effect deser ser st k (s k))"
    using Cons.prems(3) [of k op] by (simp add: get)
  obtain st1 where st1: "squash_change_entry (k, op) st = (Inr st1 :: 'c ext_error + 'k ext_ops)" "same_but k st st1"
      "key_applicable deser ser lim st1 k (s k)" "key_effect deser ser st1 k (s k) = extract_raw_bytes op"
    using squash_change_entry_step [OF Cons.prems(2) [of k] op] by blast
  note other = same_but_key [OF st1(2)]
  have "key_applicable deser ser lim st1 k' (s k')" for k'
    using st1(3) Cons.prems(2) [of k'] other by (cases "k' = k") auto
  moreover have "op_applicable op' (key_effect deser ser st1 k' (s k'))" if "bt_get other k' = Some op'" for k' op'
    using that Cons.prems(3) [of k' op'] rest(2) other by (cases "k' = k") (auto simp: get)
  ultimately obtain st' where st': "rfold squash_change_entry other st1 = (Inr st' :: 'c ext_error + 'k ext_ops)"
      "\<forall>k. key_applicable deser ser lim st' k (s k)"
      "\<forall>k. key_effect deser ser st' k (s k) = (case bt_get other k of None \<Rightarrow> key_effect deser ser st1 k (s k)
          | Some op \<Rightarrow> extract_raw_bytes op)"
    using Cons.IH [OF rest(1)] by blast
  have "key_effect deser ser st' k' (s k') = (case bt_get (e # other) k' of None \<Rightarrow> key_effect deser ser st k' (s k')
      | Some op \<Rightarrow> extract_raw_bytes op)" for k'
    using st'(3) st1(4) rest(2) other by (cases "k' = k") (simp_all add: get split: option.split)
  with st1(1) st'(1,2) show ?case by (simp add: e)
qed simp

section \<open>Properties\<close>

definition ext_ops :: "('k, 'ev, 'c) change_set_ext \<Rightarrow> 'k ext_ops" where
  "ext_ops e = (ext_delta_change_set e, cs_write_set (ext_change_set e))"

definition ext_effect ::
  "(bytes \<Rightarrow> u128 option) \<Rightarrow> (u128 \<Rightarrow> bytes) \<Rightarrow> ('k, 'ev, 'c) change_set_ext \<Rightarrow> ('k \<Rightarrow> bytes option) \<Rightarrow> 'k \<Rightarrow> bytes option" where
  "ext_effect deser ser e s k = key_effect deser ser (ext_ops e) k (s k)"

definition ext_applicable ::
  "(bytes \<Rightarrow> u128 option) \<Rightarrow> (u128 \<Rightarrow> bytes) \<Rightarrow> ('k::linorder \<Rightarrow> u128) \<Rightarrow> ('k, 'ev, 'c) change_set_ext
    \<Rightarrow> ('k \<Rightarrow> bytes option) \<Rightarrow> bool" where
  "ext_applicable deser ser lim e s \<longleftrightarrow> (\<forall>k. key_applicable deser ser lim (ext_ops e) k (s k))"

text \<open>
  C39. Squashing two successive change sets with deltas composes their effects: when the first was
  produced on a store and the second on what the first leaves, and the checker accepts, the squash
  succeeds, can itself be produced on the store, and leaves what the two leave in sequence; the
  events are those of both, in order.
\<close>

theorem ext_squash_compose:
  fixes a b :: "('k::linorder, 'ev, 'c) change_set_ext"
  assumes "\<And>x. deser (ser x) = Some x" "\<And>cs. ext_checker a cs = None"
    and "bt_wf (ext_delta_change_set b)" "bt_wf (cs_write_set (ext_change_set b))"
    and "ext_applicable deser ser lim a s" "ext_applicable deser ser lim b (ext_effect deser ser a s)"
  shows "\<exists>c. ext_squash deser ser a b = Inr c \<and> ext_applicable deser ser lim c s
    \<and> ext_effect deser ser c s = ext_effect deser ser b (ext_effect deser ser a s)
    \<and> cs_events (ext_change_set c) = cs_events (ext_change_set a) @ cs_events (ext_change_set b)"
proof -
  let ?D = "ext_delta_change_set b" and ?W = "cs_write_set (ext_change_set b)" and ?eff = "key_effect deser ser"
  let ?evs = "cs_events (ext_change_set a) @ cs_events (ext_change_set b)"
  have A: "key_applicable deser ser lim (ext_ops a) k (s k)" for k
    using assms(5) by (simp add: ext_applicable_def)
  have B: "key_applicable deser ser lim (?D, ?W) k (?eff (ext_ops a) k (s k))" for k
    using assms(6) by (simp add: ext_applicable_def ext_effect_def ext_ops_def)
  have W: "op_applicable op (?eff (ext_ops a) k (s k))" if "bt_get ?W k = Some op" for k op
    using B [of k] that by (simp add: key_applicable_def)
  obtain ds ws where st1: "rfold squash_change_entry ?W (ext_ops a) = (Inr (ds, ws) :: 'c ext_error + 'k ext_ops)"
      "\<And>k. key_applicable deser ser lim (ds, ws) k (s k)"
      "\<And>k. ?eff (ds, ws) k (s k) = (case bt_get ?W k of None \<Rightarrow> ?eff (ext_ops a) k (s k) | Some op \<Rightarrow> extract_raw_bytes op)"
    using squash_changes_run [OF assms(4) A W] by (metis surj_pair)
  have D: "delta_wf d \<and> limit d = lim k \<and> apply_delta deser ser d (?eff (ds, ws) k (s k)) \<noteq> None"
    if "bt_get ?D k = Some d" for k d
    using B [of k] that st1(3) [of k] by (auto simp: key_applicable_def split: option.splits)
  obtain ds' ws' where st2: "rfold (squash_delta_entry deser ser) ?D (ds, ws) = (Inr (ds', ws') :: 'c ext_error + 'k ext_ops)"
      "\<And>k. key_applicable deser ser lim (ds', ws') k (s k)"
      "\<And>k. ?eff (ds', ws') k (s k) = (case bt_get ?D k of None \<Rightarrow> ?eff (ds, ws) k (s k)
          | Some d \<Rightarrow> apply_delta deser ser d (?eff (ds, ws) k (s k)))"
    using squash_deltas_run [OF assms(1,3) st1(2) D] by (metis surj_pair)
  define c where "c = change_set_ext_new ds' \<lparr>cs_write_set = ws', cs_events = ?evs\<rparr> (ext_checker a)"
  have c: "ext_ops c = (ds', ws')" "cs_events (ext_change_set c) = ?evs"
    by (simp_all add: c_def ext_ops_def change_set_ext_new_def)
  have run: "ext_squash deser ser a b = Inr c"
    using st1(1) st2(1) assms(2)
    by (simp add: ext_squash_def squash_change_set_def squash_delta_change_set_def ext_into_inner_def
        ext_ops_def change_set_new_def change_set_ext_new_def c_def)
  have eff: "ext_effect deser ser c s k = ext_effect deser ser b (ext_effect deser ser a s) k" for k
  proof -
    have "ext_effect deser ser c s k = ?eff (ds', ws') k (s k)" by (simp add: ext_effect_def c)
    also have "\<dots> = ?eff (?D, ?W) k (?eff (ext_ops a) k (s k))"
      using B [of k] unfolding st2(3) st1(3)
      by (auto simp: key_effect_def [of _ _ "(?D, ?W)"] key_applicable_def split: option.splits)
    finally show ?thesis by (simp add: ext_effect_def ext_ops_def)
  qed
  have "ext_applicable deser ser lim c s" using st2(2) by (simp add: ext_applicable_def c)
  with run c(2) show ?thesis using eff by (intro exI [of _ c]) (simp add: fun_eq_iff)
qed

text \<open>
  An example with a codec that counts bytes: a first session raises a counter of two by three, a
  second one lowers it by one and creates a key.
\<close>

definition unary_ser :: "u128 \<Rightarrow> bytes" where
  "unary_ser x = replicate (unat x) 0"

definition unary_deser :: "bytes \<Rightarrow> u128 option" where
  "unary_deser bs = Some (of_nat (length bs))"

lemma unary_codec: "unary_deser (unary_ser x) = Some x"
  by (simp add: unary_ser_def unary_deser_def)

definition demo_first :: "(nat, nat, unit) change_set_ext" where
  "demo_first = change_set_ext_new [(1, delta_add 3 100)] \<lparr>cs_write_set = [], cs_events = [7]\<rparr> (\<lambda>_. None)"

definition demo_second :: "(nat, nat, unit) change_set_ext" where
  "demo_second = change_set_ext_new [(1, delta_sub 1 100)] \<lparr>cs_write_set = [(2, Creation [9])], cs_events = [8]\<rparr> (\<lambda>_. None)"

theorem ext_squash_compose_witness:
  "\<exists>c. ext_squash unary_deser unary_ser demo_first demo_second = Inr c
     \<and> ext_effect unary_deser unary_ser c (Map.empty(1 \<mapsto> [0, 0])) 1 = Some [0, 0, 0, 0]
     \<and> ext_effect unary_deser unary_ser c (Map.empty(1 \<mapsto> [0, 0])) 2 = Some [9]
     \<and> cs_events (ext_change_set c) = [7, 8]"
proof -
  let ?s = "Map.empty(1 \<mapsto> [0, 0]) :: nat \<Rightarrow> bytes option"
  let ?eff = "ext_effect unary_deser unary_ser"
  have step: "apply_delta unary_deser unary_ser (delta_add 3 100) (Some [0, 0]) = Some [0, 0, 0, 0, 0]"
    "apply_delta unary_deser unary_ser (delta_sub 1 100) (Some [0, 0, 0, 0, 0]) = Some [0, 0, 0, 0]"
    "delta_wf (delta_add 3 100)" "delta_wf (delta_sub 1 100)" "limit (delta_add 3 100) = 100" "limit (delta_sub 1 100) = 100"
    by code_simp+
  have ops: "ext_ops demo_first = ([(1, delta_add 3 100)], [])"
    "ext_ops demo_second = ([(1, delta_sub 1 100)], [(2, Creation [9])])"
    by (simp_all add: ext_ops_def demo_first_def demo_second_def change_set_ext_new_def)
  have eff: "?eff demo_first ?s = ?s(1 \<mapsto> [0, 0, 0, 0, 0])"
    using step(1) by (auto simp: ext_effect_def ops key_effect_def bt_get_def)
  have app: "ext_applicable unary_deser unary_ser (\<lambda>_. 100) demo_first ?s"
    "ext_applicable unary_deser unary_ser (\<lambda>_. 100) demo_second (?eff demo_first ?s)"
    unfolding eff using step by (auto simp: ext_applicable_def ops key_applicable_def bt_get_def)
  have wf: "bt_wf (ext_delta_change_set demo_second)" "bt_wf (cs_write_set (ext_change_set demo_second))"
    "\<And>cs. ext_checker demo_first cs = None" "cs_events (ext_change_set demo_first) @ cs_events (ext_change_set demo_second) = [7, 8]"
    by (simp_all add: demo_first_def demo_second_def change_set_ext_new_def bt_wf_def)
  have "?eff demo_second (?eff demo_first ?s) 1 = Some [0, 0, 0, 0]" "?eff demo_second (?eff demo_first ?s) 2 = Some [9]"
    unfolding eff using step(2) by (auto simp: ext_effect_def ops key_effect_def bt_get_def)
  with ext_squash_compose [OF unary_codec wf(3,1,2) app] wf(4) show ?thesis by auto
qed

end
