(* ===== verification/VmWrapper.thy ===== *)
theory VmWrapper
  imports Executor ChangeSetExt
begin

text \<open>
  The virtual machine as the block executor uses it (\<open>aptos-vm/src/block_executor/mod.rs\<close> and
  \<open>vm_wrapper.rs\<close>, with \<open>TransactionOutputExt\<close> of \<open>aptos-aggregator/src/transaction.rs\<close>): its outputs
  with deltas, turning the deltas into writes, and the block execution that hands out plain
  transaction outputs. The machine itself is an argument: for a transaction, a tree of reads that
  ends in an error or an output.
\<close>

section \<open>Outputs\<close>

datatype 's transaction_status = Discard u64 | Keep 's | Retry

fun is_discarded :: "'s transaction_status \<Rightarrow> bool" where
  "is_discarded (Discard _) = True"
| "is_discarded (Keep _) = False"
| "is_discarded Retry = True"

record ('k, 'ev, 's) transaction_output =
  out_write_set :: "'k write_set"
  out_events :: "'ev list"
  out_gas_used :: u64
  out_status :: "'s transaction_status"

record ('k, 'ev, 's) transaction_output_ext =
  oe_delta_change_set :: "'k delta_change_set"
  oe_output :: "('k, 'ev, 's) transaction_output"

definition output_ext_new ::
  "'k delta_change_set \<Rightarrow> ('k, 'ev, 's) transaction_output \<Rightarrow> ('k, 'ev, 's) transaction_output_ext" where
  "output_ext_new ds out = \<lparr>oe_delta_change_set = ds, oe_output = out\<rparr>"

definition output_ext_from :: "('k, 'ev, 's) transaction_output \<Rightarrow> ('k, 'ev, 's) transaction_output_ext" where
  "output_ext_from out = \<lparr>oe_delta_change_set = [], oe_output = out\<rparr>"

definition output_get_writes :: "('k, 'ev, 's) transaction_output_ext \<Rightarrow> ('k \<times> write_op) list" where
  "output_get_writes e = out_write_set (oe_output e)"

definition output_get_deltas :: "('k, 'ev, 's) transaction_output_ext \<Rightarrow> ('k \<times> delta_op) list" where
  "output_get_deltas e = oe_delta_change_set e"

definition output_skip :: "('k, 'ev, 's) transaction_output_ext" where
  "output_skip =
     output_ext_from \<lparr>out_write_set = [], out_events = [], out_gas_used = 0, out_status = Retry\<rparr>"

definition discard_error_output :: "u64 \<Rightarrow> ('k, 'ev, 's) transaction_output_ext" where
  "discard_error_output code =
     output_ext_from \<lparr>out_write_set = [], out_events = [], out_gas_used = 0, out_status = Discard code\<rparr>"

text \<open>Adding the writes that deltas have become; \<open>None\<close> where the squash is unwrapped in vain.\<close>

definition merge_delta_writes ::
  "('k::linorder, 'ev, 's) transaction_output \<Rightarrow> 'k write_set \<Rightarrow> ('k, 'ev, 's) transaction_output option" where
  "merge_delta_writes out delta_writes =
     (case ws_squash (out_write_set out) delta_writes of
        Inl _ \<Rightarrow> None
      | Inr ws \<Rightarrow> Some (out\<lparr>out_write_set := ws\<rparr>))"

definition into_transaction_output ::
  "(bytes \<Rightarrow> u128 option) \<Rightarrow> (u128 \<Rightarrow> bytes) \<Rightarrow> ('k::linorder \<Rightarrow> 'x state_value) \<Rightarrow> ('k, 'ev, 's) transaction_output_ext
    \<Rightarrow> ('k, 'ev, 's) transaction_output option" where
  "into_transaction_output deser ser view e =
     (if is_discarded (out_status (oe_output e)) \<or> oe_delta_change_set e = [] then Some (oe_output e)
      else
       (case try_into_write_set_mut deser ser view (oe_delta_change_set e) of
          Some (Inr ws) \<Rightarrow> merge_delta_writes (oe_output e) ws
        | _ \<Rightarrow> None))"

definition output_with_delta_writes ::
  "('k::linorder, 'ev, 's) transaction_output_ext \<Rightarrow> 'k write_set \<Rightarrow> ('k, 'ev, 's) transaction_output option" where
  "output_with_delta_writes e delta_writes =
     (if is_discarded (out_status (oe_output e)) \<or> oe_delta_change_set e = [] then Some (oe_output e)
      else if length (oe_delta_change_set e) = length delta_writes
      then merge_delta_writes (oe_output e) delta_writes
      else None)"

section \<open>Runs that materialize deltas\<close>

primrec vm_bind :: "('k, 'a, 'r) vm_run \<Rightarrow> ('r \<Rightarrow> ('k, 'a, 'q) vm_run) \<Rightarrow> ('k, 'a, 'q) vm_run" where
  "vm_bind (Finished r) f = f r"
| "vm_bind (Get k g) f = Get k (\<lambda>a. vm_bind (g a) f)"

lemma view_run_bind [simp]: "view_run view (vm_bind r f) = view_run view (f (view_run view r))"
  by (induction r) auto

text \<open>\<open>try_into_write_set_mut\<close> as reads of a view: one for each delta, until one fails.\<close>

fun materialize_run ::
  "(bytes \<Rightarrow> u128 option) \<Rightarrow> (u128 \<Rightarrow> bytes) \<Rightarrow> ('k \<times> delta_op) list
    \<Rightarrow> ('k, 'x state_value, (vm_status + ('k \<times> write_op) list) option) vm_run" where
  "materialize_run deser ser [] = Finished (Some (Inr []))"
| "materialize_run deser ser ((k, d) # ds) =
     Get k (\<lambda>a. case try_into_write_op deser ser (\<lambda>_. a) d k of
                  None \<Rightarrow> Finished None
                | Some (Inl e) \<Rightarrow> Finished (Some (Inl e))
                | Some (Inr op) \<Rightarrow>
                    vm_bind (materialize_run deser ser ds)
                      (\<lambda>r. Finished (case r of
                          None \<Rightarrow> None
                        | Some (Inl e) \<Rightarrow> Some (Inl e)
                        | Some (Inr ops) \<Rightarrow> Some (Inr ((k, op) # ops)))))"

lemma view_run_materialize: "view_run view (materialize_run deser ser ds) = materialize deser ser view ds"
  by (induction ds) (auto simp: try_into_write_op_def split: option.splits sum.splits)

definition into_output_run ::
  "(bytes \<Rightarrow> u128 option) \<Rightarrow> (u128 \<Rightarrow> bytes) \<Rightarrow> ('k::linorder, 'ev, 's) transaction_output_ext
    \<Rightarrow> ('k, 'x state_value, ('k, 'ev, 's) transaction_output option) vm_run" where
  "into_output_run deser ser e =
     (if is_discarded (out_status (oe_output e)) \<or> oe_delta_change_set e = [] then Finished (Some (oe_output e))
      else vm_bind (materialize_run deser ser (oe_delta_change_set e))
             (\<lambda>r. Finished (case r of
                 Some (Inr ops) \<Rightarrow> merge_delta_writes (oe_output e) (ws_new ops)
               | _ \<Rightarrow> None)))"

lemma view_run_into_output:
  "view_run view (into_output_run deser ser e) = into_transaction_output deser ser view e"
  by (auto simp: into_output_run_def into_transaction_output_def view_run_materialize
      try_into_write_set_mut_def split: option.splits sum.splits)

section \<open>The executor task\<close>

text \<open>
  What the machine does for a transaction, given its prologue entry, and whether the events of its
  output announce a new epoch.
\<close>

type_synonym ('t, 'k, 'ev, 's, 'e, 'x) vm =
  "'t \<Rightarrow> txn_index \<Rightarrow> bool \<times> bool \<Rightarrow> ('k, 'x state_value, 'e + ('k, 'ev, 's) transaction_output_ext) vm_run"

definition should_restart_execution :: "('ev \<Rightarrow> bool) \<Rightarrow> ('k, 'ev, 's) transaction_output \<Rightarrow> bool" where
  "should_restart_execution new_epoch out = list_ex new_epoch (out_events out)"

definition wrap_status ::
  "('ev \<Rightarrow> bool) \<Rightarrow> ('k, 'ev, 's) transaction_output_ext \<Rightarrow> (('k, 'ev, 's) transaction_output_ext, 'e) task_status" where
  "wrap_status new_epoch e = (if should_restart_execution new_epoch (oe_output e) then SkipRest e else Success e)"

definition vm_execute_transaction ::
  "(bytes \<Rightarrow> u128 option) \<Rightarrow> (u128 \<Rightarrow> bytes) \<Rightarrow> ('ev \<Rightarrow> bool) \<Rightarrow> ('t, 'k::linorder, 'ev, 's, 'e, 'x) vm
    \<Rightarrow> 't \<Rightarrow> txn_index \<Rightarrow> bool \<Rightarrow> bool \<times> bool
    \<Rightarrow> ('k, 'x state_value, (('k, 'ev, 's) transaction_output_ext, 'e) task_status option) vm_run" where
  "vm_execute_transaction deser ser new_epoch vm t i materialize_deltas prologue =
     vm_bind (vm t i prologue) (\<lambda>r. case r of
        Inl err \<Rightarrow> Finished (Some (Aborts err))
      | Inr e \<Rightarrow>
          if materialize_deltas
          then vm_bind (into_output_run deser ser e)
                 (\<lambda>out. Finished (map_option (wrap_status new_epoch \<circ> output_ext_new []) out))
          else Finished (Some (wrap_status new_epoch e)))"

text \<open>
  The gate in front of the prologue in \<open>execute_user_transaction\<close> (\<open>aptos_vm.rs\<close>): whether the
  transaction is discarded, and the new value of the shared entry.
\<close>

definition prologue_gate :: "bool \<Rightarrow> bool \<times> bool \<Rightarrow> bool \<Rightarrow> bool \<times> bool" where
  "prologue_gate skip_pro_epi prologue validates =
     (if skip_pro_epi then (False, snd prologue)
      else if \<not> fst prologue then (\<not> validates, snd prologue)
      else if \<not> snd prologue then (\<not> validates, True)
      else (False, snd prologue))"

section \<open>Executing a block\<close>

text \<open>The prologue entries: the first transaction of each sender may be checked ahead.\<close>

fun prologue_entries :: "'b set \<Rightarrow> 'b list \<Rightarrow> (bool \<times> bool) list" where
  "prologue_entries seen [] = []"
| "prologue_entries seen (v # vs) = (v \<notin> seen, False) # prologue_entries (insert v seen) vs"

definition combine_outputs ::
  "(('k::linorder, 'ev, 's) transaction_output_ext \<times> ('k \<times> write_op) list) list
    \<Rightarrow> ('k, 'ev, 's) transaction_output list option" where
  "combine_outputs rs = those (map (\<lambda>(e, delta_writes). output_with_delta_writes e (ws_new delta_writes)) rs)"

text \<open>\<open>BlockAptosVM::execute_block\<close> from the result of the block executor; \<open>None\<close> where it panics.\<close>

definition vm_execute_block ::
  "('e block_error + (('k::linorder, 'ev, 's) transaction_output_ext \<times> ('k \<times> write_op) list) list) option
    \<Rightarrow> ('e + ('k, 'ev, 's) transaction_output list) option" where
  "vm_execute_block ret =
     (case ret of
        None \<Rightarrow> None
      | Some (Inr results) \<Rightarrow> map_option Inr (combine_outputs results)
      | Some (Inl (UserError err)) \<Rightarrow> Some (Inl err)
      | Some (Inl ModulePathReadWrite) \<Rightarrow> None
      | Some (Inl SKIP) \<Rightarrow> None)"

end
