(* ===== verification/ParallelSystem.thy ===== *)
theory ParallelSystem
  imports Waves Executor
begin

text \<open>
  The workers of the parallel executor with the data they share: a step relation in which every
  access to the multi-version map, to the recorded inputs and outputs, and to the scheduler is one
  step, so that executions and validations of different workers interleave in any order. Each step
  is a step of the scheduler's system or leaves it alone.
\<close>

section \<open>The system\<close>

text \<open>
  Where a worker is inside \<open>execute\<close> or \<open>validate\<close>: at the top of its loop; in a run, with the reads
  captured so far; applying the updates of a finished run; after recording it; comparing the reads
  of a validation; after a comparison failed; marking the writes of an aborted version.
\<close>

datatype ('k, 'v, 'o, 'e, 'x) phase =
    AtTop
  | Reading "('k, 'x state_value, ('o, 'e) task_status option) vm_run" "'k read_descriptor list"
  | Publishing "('k, 'v) mv_update list" bool "('o, 'e) task_status" "'k read_descriptor list"
  | Recorded bool
  | Checking "'k read_descriptor list"
  | Failed
  | Marking "'k list"

text \<open>\<open>p_hist\<close> is not part of the program: it remembers the outcome of every run.\<close>

record ('k, 'v, 'o, 'e, 'x) psystem =
  p_sys :: system
  p_mv :: "('k, 'v) mvhashmap"
  p_io :: "('k, 'o, 'e) txn_last_input_output"
  p_phase :: "nat \<Rightarrow> ('k, 'v, 'o, 'e, 'x) phase"
  p_hist :: "version \<rightharpoonup> ('o, 'e) task_status \<times> 'k read_descriptor list"

text \<open>The updates of the multi-version map that \<open>execute\<close> makes after a run, in order.\<close>

definition updates ::
  "('t, 'k, 'v, 'o, 'e, 'x) executor_task \<Rightarrow> version \<Rightarrow> ('o, 'e) task_status \<Rightarrow> 'k set \<Rightarrow> ('k, 'v) mv_update list" where
  "updates env ver result prev =
     (case status_output result of
        None \<Rightarrow> map (\<lambda>k. UDelete k (fst ver)) (hash_iter env prev)
      | Some out \<Rightarrow>
          map (\<lambda>(k, v). UWrite k ver v) (get_writes env out)
          @ map (\<lambda>(k, d). UDelta k (fst ver) d) (get_deltas env out)
          @ map (\<lambda>k. UDelete k (fst ver))
              (hash_iter env (prev - fst ` set (get_writes env out) - fst ` set (get_deltas env out))))"

definition wrote_outside ::
  "('t, 'k, 'v, 'o, 'e, 'x) executor_task \<Rightarrow> ('o, 'e) task_status \<Rightarrow> 'k set \<Rightarrow> bool" where
  "wrote_outside env result prev \<longleftrightarrow> \<not> status_keys (get_writes env) (get_deltas env) result \<subseteq> prev"

definition run_of ::
  "('t, 'k, 'v, 'o, 'e, 'x) executor_task \<Rightarrow> 't list \<Rightarrow> txn_index \<Rightarrow> bool \<times> bool
    \<Rightarrow> ('k, 'x state_value, ('o, 'e) task_status option) vm_run" where
  "run_of env txns i prologue = execute_transaction env (txns ! i) i False prologue"

definition set_phase ::
  "nat \<Rightarrow> ('k, 'v, 'o, 'e, 'x) phase \<Rightarrow> ('k, 'v, 'o, 'e, 'x) psystem \<Rightarrow> ('k, 'v, 'o, 'e, 'x) psystem" where
  "set_phase l ph S = S\<lparr>p_phase := (p_phase S)(l := ph)\<rparr>"

definition moved ::
  "nat \<Rightarrow> pc \<Rightarrow> bool \<Rightarrow> scheduler \<Rightarrow> ('k, 'v, 'o, 'e, 'x) phase \<Rightarrow> ('k, 'v, 'o, 'e, 'x) psystem \<Rightarrow> ('k, 'v, 'o, 'e, 'x) psystem" where
  "moved l p fin s ph S = set_phase l ph (S\<lparr>p_sys := set_worker l p fin s (p_sys S)\<rparr>)"

definition is_at :: "nat \<Rightarrow> pc \<Rightarrow> bool \<Rightarrow> ('k, 'v, 'o, 'e, 'x) phase \<Rightarrow> ('k, 'v, 'o, 'e, 'x) psystem \<Rightarrow> bool" where
  "is_at l p fin ph S \<longleftrightarrow> worker_at l p fin (p_sys S) \<and> p_phase S l = ph"

text \<open>
  The flag of a prologue is locked, read and set somewhere inside a run: the run may find either
  value, and it may set the flag while it is under way.
\<close>

inductive pstep ::
  "('t, 'k, 'v, 'o, 'e, 'x) executor_task \<Rightarrow> ('k, 'x) base_view \<Rightarrow> 't list
    \<Rightarrow> ('k, 'v, 'o, 'e, 'x) psystem \<Rightarrow> ('k, 'v, 'o, 'e, 'x) psystem \<Rightarrow> bool"
  for env :: "('t, 'k, 'v, 'o, 'e, 'x) executor_task" and base :: "('k, 'x) base_view" and txns :: "'t list" where
  p_commit:
    "is_at 0 (Running t) fin AtTop S \<Longrightarrow>
     try_commit locked (commit_state (p_sys S)) (sched (p_sys S)) = Some (r, cs, s) \<Longrightarrow>
     pstep env base txns S (S\<lparr>p_sys := (p_sys S)\<lparr>sched := s, commit_state := cs\<rparr>\<rparr>)"
| p_next_task:
    "is_at l (Running NoTask) fin AtTop S \<Longrightarrow> next_task False fin (sched (p_sys S)) = Some (t, fin', s) \<Longrightarrow>
     pstep env base txns S (moved l (Running t) fin' s AtTop S)"
| p_lock:
    "is_at l (Running NoTask) False AtTop S \<Longrightarrow> valock_free (p_sys S) \<Longrightarrow>
     try_exec (sched (p_sys S)) = Some (NoTask, s) \<Longrightarrow>
     pstep env base txns S (moved l Locked False s AtTop S)"
| p_past_end:
    "is_at l Locked fin AtTop S \<Longrightarrow> load_validation (sched (p_sys S)) = None \<Longrightarrow>
     pstep env base txns S (moved l (Running NoTask) True (sched (p_sys S)) AtTop S)"
| p_load:
    "is_at l Locked fin AtTop S \<Longrightarrow> load_validation (sched (p_sys S)) = Some idx \<Longrightarrow>
     pstep env base txns S (moved l (Loaded idx) fin (sched (p_sys S)) AtTop S)"
| p_look:
    "is_at l (Loaded idx) fin AtTop S \<Longrightarrow>
     pstep env base txns S
       (moved l (case is_executed idx False (sched (p_sys S)) of None \<Rightarrow> Running NoTask | Some inc \<Rightarrow> Checked idx inc) fin
          (sched (p_sys S)) AtTop S)"
| p_take:
    "is_at l (Checked idx inc) fin AtTop S \<Longrightarrow> take_validation inc (sched (p_sys S)) = ((ver, w), s) \<Longrightarrow>
     pstep env base txns S (moved l (Running (ValidationTask ver w)) fin s AtTop S)"
| p_signatures:
    "is_at l (Running NoTask) fin AtTop S \<Longrightarrow> mode (sched (p_sys S)) = Pythia_Sig \<Longrightarrow>
     idx = sig_val_idx (sched (p_sys S)) \<Longrightarrow>
     pstep env base txns S
       (moved l (Running (if idx \<le> num_txns (sched (p_sys S)) then SigTask idx else NoTask)) fin
          ((sched (p_sys S))\<lparr>sig_val_idx := idx + 25\<rparr>) AtTop S)"
| p_prologue:
    "is_at l (Running NoTask) fin AtTop S \<Longrightarrow>
     pstep env base txns S (moved l (Running PrologueTask) fin (sched (p_sys S)) AtTop S)"
| p_side_task:
    "is_at l (Running t) fin AtTop S \<Longrightarrow> t = PrologueTask \<or> (\<exists>idx. t = SigTask idx) \<Longrightarrow>
     pstep env base txns S
       (moved l (Running NoTask) fin ((sched (p_sys S))\<lparr>prologue_index := p_idx, prologue_map := pm\<rparr>) AtTop S)"
| p_exit:
    "is_at l (Running Done) fin AtTop S \<Longrightarrow>
     pstep env base txns S (moved l Exited fin (sched (p_sys S)) AtTop S)"
| p_start:
    "is_at l (Running (ExecutionTask (i, inc) None)) fin AtTop S \<Longrightarrow> i < length txns \<Longrightarrow>
     i < length (prologue_map (sched (p_sys S))) \<Longrightarrow>
     pstep env base txns S
       (set_phase l (Reading (run_of env txns i (fst (prologue_map (sched (p_sys S)) ! i), prologue_done)) []) S)"
| p_mark_prologue:
    "is_at l (Running (ExecutionTask (i, inc) None)) fin (Reading r captured) S \<Longrightarrow>
     pstep env base txns S (S\<lparr>p_sys := (p_sys S)\<lparr>sched := (sched (p_sys S))\<lparr>prologue_map := pm\<rparr>\<rparr>\<rparr>)"
| p_read:
    "is_at l (Running (ExecutionTask (i, inc) None)) fin (Reading (Get k f) captured) S \<Longrightarrow>
     read_round env (p_mv S) k i = Some (Answered d rr) \<Longrightarrow> mv_state_value env base k rr = Some a \<Longrightarrow>
     pstep env base txns S (set_phase l (Reading (f a) (captured @ [d])) S)"
| p_wait:
    "is_at l (Running (ExecutionTask (i, inc) None)) fin (Reading (Get k f) captured) S \<Longrightarrow>
     read_round env (p_mv S) k i = Some (Waiting dep) \<Longrightarrow>
     wait_for_dependency i dep (sched (p_sys S)) = Some (r, s) \<Longrightarrow>
     pstep env base txns S (S\<lparr>p_sys := (p_sys S)\<lparr>sched := s\<rparr>\<rparr>)"
| p_finish_run:
    "is_at l (Running (ExecutionTask (i, inc) None)) fin (Reading (Finished (Some result)) captured) S \<Longrightarrow>
     modified_keys (get_writes env) (get_deltas env) i (p_io S) = Some prev \<Longrightarrow>
     pstep env base txns S
       (set_phase l (Publishing (updates env (i, inc) result prev) (wrote_outside env result prev) result captured)
          (S\<lparr>p_hist := (p_hist S)((i, inc) \<mapsto> (result, captured))\<rparr>))"
| p_publish:
    "is_at l (Running (ExecutionTask (i, inc) None)) fin (Publishing (u # us) outside result captured) S \<Longrightarrow>
     mv_apply u (p_mv S) = Some mv \<Longrightarrow>
     pstep env base txns S (set_phase l (Publishing us outside result captured) (S\<lparr>p_mv := mv\<rparr>))"
| p_record:
    "is_at l (Running (ExecutionTask (i, inc) None)) fin (Publishing [] outside result captured) S \<Longrightarrow>
     io_record (path_of env) (get_writes env) i captured (user_error result) (p_io S) = Some io \<Longrightarrow>
     pstep env base txns S (set_phase l (Recorded outside) (S\<lparr>p_io := io\<rparr>))"
| p_finish:
    "is_at l (Running (ExecutionTask (i, inc) None)) fin (Recorded outside) S \<Longrightarrow>
     finish_execution i inc outside (sched (p_sys S)) = Some (t, s) \<Longrightarrow>
     pstep env base txns S (moved l (Running t) fin s AtTop S)"
| p_start_validation:
    "is_at l (Running (ValidationTask (i, inc) w)) fin AtTop S \<Longrightarrow>
     io_read_set i (p_io S) = Some (Some reads) \<Longrightarrow>
     pstep env base txns S (set_phase l (Checking reads) S)"
| p_check:
    "is_at l (Running (ValidationTask (i, inc) w)) fin (Checking (r # reads)) S \<Longrightarrow>
     validate_read env (p_mv S) i r = Some matches \<Longrightarrow>
     pstep env base txns S (set_phase l (if matches then Checking reads else Failed) S)"
| p_valid:
    "is_at l (Running (ValidationTask (i, inc) w)) fin (Checking []) S \<Longrightarrow>
     finish_validation i w (sched (p_sys S)) = Some s \<Longrightarrow>
     pstep env base txns S (moved l (Running NoTask) fin s AtTop S)"
| p_too_late:
    "is_at l (Running (ValidationTask (i, inc) w)) fin Failed S \<Longrightarrow>
     try_abort i inc (sched (p_sys S)) = Some (False, sched (p_sys S)) \<Longrightarrow>
     finish_validation i w (sched (p_sys S)) = Some s \<Longrightarrow>
     pstep env base txns S (moved l (Running NoTask) fin s AtTop S)"
| p_abort:
    "is_at l (Running (ValidationTask (i, inc) w)) fin Failed S \<Longrightarrow>
     try_abort i inc (sched (p_sys S)) = Some (True, s) \<Longrightarrow>
     modified_keys (get_writes env) (get_deltas env) i (p_io S) = Some ks \<Longrightarrow>
     pstep env base txns S (moved l (Aborted (i, inc)) fin s (Marking (hash_iter env ks)) S)"
| p_mark:
    "is_at l (Aborted (i, inc)) fin (Marking (k # ks)) S \<Longrightarrow> mark_estimate k i (p_mv S) = Some mv \<Longrightarrow>
     pstep env base txns S (set_phase l (Marking ks) (S\<lparr>p_mv := mv\<rparr>))"
| p_finish_abort:
    "is_at l (Aborted (i, inc)) fin (Marking []) S \<Longrightarrow>
     finish_abort i inc (sched (p_sys S)) = Some (t, s) \<Longrightarrow>
     pstep env base txns S (moved l (Running t) fin s AtTop S)"

definition psystem_new :: "nat \<Rightarrow> nat \<Rightarrow> scheduler \<Rightarrow> ('k, 'v, 'o, 'e, 'x) psystem" where
  "psystem_new num_workers n s =
     \<lparr>p_sys = system_new num_workers s, p_mv = mv_new, p_io = io_new n, p_phase = (\<lambda>_. AtTop), p_hist = Map.empty\<rparr>"

section \<open>The scheduler underneath\<close>

lemma psystem_fields [simp]:
  "p_sys (set_phase l ph S) = p_sys S" "p_mv (set_phase l ph S) = p_mv S" "p_io (set_phase l ph S) = p_io S"
  "p_hist (set_phase l ph S) = p_hist S" "p_phase (set_phase l ph S) = (p_phase S)(l := ph)"
  "p_sys (moved l p fin s ph S) = set_worker l p fin s (p_sys S)" "p_mv (moved l p fin s ph S) = p_mv S"
  "p_io (moved l p fin s ph S) = p_io S" "p_hist (moved l p fin s ph S) = p_hist S"
  "p_phase (moved l p fin s ph S) = (p_phase S)(l := ph)"
  by (simp_all add: set_phase_def moved_def)

text \<open>A read meets estimates of lower transactions only.\<close>

lemma read_back_dependency:
  "read_back deser raw es acc = Some (Inl (Dependency d)) \<Longrightarrow> d \<in> fst ` set es"
  by (induction deser raw es acc rule: read_back.induct)
     (auto split: if_splits entry_cell.splits option.splits sum.splits)

lemma waiting_below: "read_round env mv k i = Some (Waiting dep) \<Longrightarrow> dep < i"
  by (auto simp: read_round_def mv_read_def bt_below_def
      split: option.splits sum.splits mv_output.splits mv_error.splits dest!: read_back_dependency)

lemma pstep_step:
  assumes "pstep env base txns S S'"
  shows "step (p_sys S) (p_sys S') \<or> p_sys S' = p_sys S"
  using assms
proof (induction rule: pstep.induct)
  case (p_wait l i inc fin k f captured S dep r s)
  then show ?case
    using step.wait [of l i inc None fin "p_sys S" dep r s] waiting_below [OF p_wait(2)] by (auto simp: is_at_def)
next
  case (p_signatures l fin S idx)
  then show ?case using step.signatures [of l fin "p_sys S" idx] by (simp add: is_at_def)
next
  case (p_valid l i inc w fin S s)
  then show ?case using step.validate [of l i inc w fin "p_sys S" True s] by (auto simp: is_at_def)
next
  case (p_too_late l i inc w fin S s)
  then show ?case using step.validate [of l i inc w fin "p_sys S" False s] by (auto simp: is_at_def)
qed (auto simp: is_at_def intro: step.intros)

section \<open>The entries of one transaction\<close>

definition ents :: "('k, 'v) mvhashmap \<Rightarrow> txn_index \<Rightarrow> 'k \<Rightarrow> 'v entry option" where
  "ents mv j k = Option.bind (mv_data mv k) (\<lambda>vv. bt_get (versioned_map vv) j)"

fun ent_upd :: "('k, 'v) mv_update \<Rightarrow> ('k \<Rightarrow> 'v entry option) \<Rightarrow> 'k \<Rightarrow> 'v entry option" where
  "ent_upd (UWrite k ver v) E = E(k \<mapsto> new_write_from FLAG_DONE (snd ver) v)"
| "ent_upd (UDelta k i d) E = E(k \<mapsto> new_delta_from FLAG_DONE d)"
| "ent_upd (UEstimate k i) E = E(k := map_option entry_mark_estimate (E k))"
| "ent_upd (UDelete k i) E = E(k := None)"

lemma ents_default: "ents mv j k = bt_get (versioned_map (entry_or_default mv k)) j"
  by (simp add: ents_def entry_or_default_def versioned_value_new_def split: option.split)

lemma ents_mv_apply:
  assumes "mv_wf m" "mv_apply u m = Some m'"
  shows "ents m' j = (if j = writer u then ent_upd u (ents m j) else ents m j)"
proof (cases u)
  case (UWrite k ver v)
  with assms(2) add_write_eq [of k "fst ver" "snd ver" v m m'] show ?thesis
    by (auto simp: fun_eq_iff ents_def entry_or_default_def versioned_value_new_def split: option.split)
next
  case (UDelta k i d)
  with assms(2) have "m' = add_delta k i d m" by simp
  with UDelta show ?thesis
    by (auto simp: fun_eq_iff ents_def add_delta_def Let_def entry_or_default_def versioned_value_new_def split: option.split)
next
  case (UEstimate k i)
  then have "mark_estimate k i m = Some m'" using assms(2) by simp
  then show ?thesis
    by (rule mark_estimate_eq) (auto simp: UEstimate fun_eq_iff ents_def)
next
  case (UDelete k i)
  then have "mv_delete k i m = Some m'" using assms(2) by simp
  then show ?thesis by (rule mv_delete_eq) (auto simp: UDelete fun_eq_iff ents_def)
qed

text \<open>The entries that a finished execution leaves.\<close>

definition target ::
  "('t, 'k, 'v, 'o, 'e, 'x) executor_task \<Rightarrow> incarnation \<Rightarrow> ('o, 'e) task_status \<Rightarrow> 'k \<Rightarrow> 'v entry option" where
  "target env inc st k =
     (case status_output st of
        None \<Rightarrow> None
      | Some out \<Rightarrow>
          (case map_of (get_deltas env out) k of
             Some d \<Rightarrow> Some (new_delta_from FLAG_DONE d)
           | None \<Rightarrow> map_option (new_write_from FLAG_DONE inc) (map_of (get_writes env out) k)))"

text \<open>What the executor relies on: an output names a key once, and a hash set is walked completely.\<close>

definition distinct_keys :: "('t, 'k, 'v, 'o, 'e, 'x) executor_task \<Rightarrow> ('o, 'e) task_status \<Rightarrow> bool" where
  "distinct_keys env st \<longleftrightarrow> (\<forall>out. status_output st = Some out \<longrightarrow>
     distinct (map fst (get_writes env out) @ map fst (get_deltas env out)))"

definition walks_sets :: "('t, 'k, 'v, 'o, 'e, 'x) executor_task \<Rightarrow> bool" where
  "walks_sets env \<longleftrightarrow> (\<forall>S. finite S \<longrightarrow> set (hash_iter env S) = S)"

definition keys_ok :: "('t, 'k, 'v, 'o, 'e, 'x) executor_task \<Rightarrow> 't list \<Rightarrow> bool" where
  "keys_ok env txns \<longleftrightarrow> walks_sets env
     \<and> (\<forall>i p st. i < length txns \<longrightarrow> Some st \<in> leaves (run_of env txns i p) \<longrightarrow> distinct_keys env st)"

lemma fold_writes:
  "fold ent_upd (map (\<lambda>(k, v). UWrite k ver v) ws) E k =
     (case map_of (rev ws) k of Some v \<Rightarrow> Some (new_write_from FLAG_DONE (snd ver) v) | None \<Rightarrow> E k)"
  by (induction ws arbitrary: E) (auto simp: map_add_def split: option.splits)

lemma fold_deltas:
  "fold ent_upd (map (\<lambda>(k, d). UDelta k i d) ds) E k =
     (case map_of (rev ds) k of Some d \<Rightarrow> Some (new_delta_from FLAG_DONE d) | None \<Rightarrow> E k)"
  by (induction ds arbitrary: E) (auto simp: map_add_def split: option.splits)

lemma fold_deletes: "fold ent_upd (map (\<lambda>k. UDelete k i) ks) E k = (if k \<in> set ks then None else E k)"
  by (induction ks arbitrary: E) auto

lemma map_of_fst: "map_of xs k = None \<longleftrightarrow> k \<notin> fst ` set xs"
  by (rule map_of_eq_None_iff)

lemma fold_updates:
  assumes "walks_sets env" "distinct_keys env st" "finite prev" "\<And>k. E k \<noteq> None \<Longrightarrow> k \<in> prev"
  shows "fold ent_upd (updates env (i, inc) st prev) E = target env inc st"
proof (rule ext)
  fix k
  show "fold ent_upd (updates env (i, inc) st prev) E k = target env inc st k"
  proof (cases "status_output st")
    case None
    have "set (hash_iter env prev) = prev" using assms(1,3) by (simp add: walks_sets_def)
    moreover have "k \<notin> prev \<Longrightarrow> E k = None" using assms(4) [of k] by (cases "E k") auto
    ultimately show ?thesis using None by (simp add: updates_def target_def fold_deletes)
  next
    case (Some out)
    let ?ws = "get_writes env out" and ?ds = "get_deltas env out"
    let ?left = "prev - fst ` set ?ws - fst ` set ?ds"
    have left: "set (hash_iter env ?left) = ?left" using assms(1,3) by (simp add: walks_sets_def)
    have dist: "distinct (map fst ?ws)" "distinct (map fst ?ds)"
      using assms(2) Some by (simp_all add: distinct_keys_def)
    note rev = distinct_map_of_rev [OF dist(1)] distinct_map_of_rev [OF dist(2)]
    have eq: "fold ent_upd (updates env (i, inc) st prev) E k =
        (if k \<in> ?left then None else case map_of ?ds k of Some d \<Rightarrow> Some (new_delta_from FLAG_DONE d)
          | None \<Rightarrow> (case map_of ?ws k of Some v \<Rightarrow> Some (new_write_from FLAG_DONE inc v) | None \<Rightarrow> E k))"
      by (simp add: updates_def Some fold_deletes fold_deltas fold_writes left rev cong: option.case_cong)
    show ?thesis
    proof (cases "k \<in> ?left")
      case True
      then have "map_of ?ds k = None" "map_of ?ws k = None" by (simp_all add: map_of_fst)
      with True eq Some show ?thesis by (simp add: target_def)
    next
      case False
      then have "map_of ?ds k = None \<Longrightarrow> map_of ?ws k = None \<Longrightarrow> E k = None"
        using assms(4) [of k] by (cases "E k") (auto simp: map_of_fst)
      with False eq Some show ?thesis by (auto simp: target_def split: option.split)
    qed
  qed
qed

lemma target_keys:
  assumes "target env inc st k \<noteq> None"
  shows "k \<in> status_keys (get_writes env) (get_deltas env) (user_error st)"
  using assms
  by (cases st) (auto simp: target_def split: option.splits dest!: map_of_SomeD, (force dest: map_of_SomeD)+)

lemma target_write:
  assumes "target env inc st k = Some e" "cell e = CWrite inc' v"
  shows "inc' = inc \<and> (\<exists>out. status_output st = Some out \<and> (k, v) \<in> set (get_writes env out))"
  using assms
  by (auto simp: target_def new_delta_from_def new_write_from_def split: option.splits dest: map_of_SomeD)

section \<open>What a captured read says\<close>

text \<open>
  The answer behind a read descriptor: for a version, a value that this version wrote; the other
  kinds carry their answer.
\<close>

definition answer_ok ::
  "('t, 'k, 'v, 'o, 'e, 'x) executor_task \<Rightarrow> (version \<rightharpoonup> ('o, 'e) task_status \<times> 'k read_descriptor list)
    \<Rightarrow> 'k read_descriptor \<Rightarrow> 'v read_result \<Rightarrow> bool" where
  "answer_ok env h d rr =
     (case rd_kind d of
        KVersion j inc \<Rightarrow> \<exists>v st rs out. rr = RValue v \<and> h (j, inc) = Some (st, rs) \<and> status_output st = Some out
          \<and> (rd_path d, v) \<in> set (get_writes env out)
      | KResolved x \<Rightarrow> rr = RU128 x
      | KUnresolved dl \<Rightarrow> rr = RUnresolved dl
      | KStorage \<Rightarrow> rr = RNone
      | KDeltaApplicationFailure \<Rightarrow> rr = RU128 0)"

text \<open>The captured reads lead from a run to what is left of it.\<close>

inductive explains ::
  "('t, 'k, 'v, 'o, 'e, 'x) executor_task \<Rightarrow> ('k, 'x) base_view
    \<Rightarrow> (version \<rightharpoonup> ('o, 'e) task_status \<times> 'k read_descriptor list) \<Rightarrow> ('k, 'x state_value, 'r) vm_run
    \<Rightarrow> 'k read_descriptor list \<Rightarrow> ('k, 'x state_value, 'r) vm_run \<Rightarrow> bool"
  for env :: "('t, 'k, 'v, 'o, 'e, 'x) executor_task" and base :: "('k, 'x) base_view"
    and h :: "version \<rightharpoonup> ('o, 'e) task_status \<times> 'k read_descriptor list" where
  explains_start: "explains env base h vr [] vr"
| explains_read:
    "explains env base h vr captured (Get k f) \<Longrightarrow> rd_path d = k \<Longrightarrow> answer_ok env h d rr \<Longrightarrow>
     mv_state_value env base k rr = Some a \<Longrightarrow> explains env base h vr (captured @ [d]) (f a)"

lemma explains_leaves: "explains env base h vr captured rest \<Longrightarrow> leaves rest \<subseteq> leaves vr"
  by (induction rule: explains.induct) auto

definition grows :: "('a \<rightharpoonup> 'b) \<Rightarrow> ('a \<rightharpoonup> 'b) \<Rightarrow> bool" where
  "grows h h' \<longleftrightarrow> (\<forall>a b. h a = Some b \<longrightarrow> h' a = Some b)"

lemma grows_refl [simp]: "grows h h"
  by (simp add: grows_def)

lemma grows_upd: "h a = None \<Longrightarrow> grows h (h(a \<mapsto> b))"
  by (auto simp: grows_def)

lemma answer_ok_grows: "answer_ok env h d rr \<Longrightarrow> grows h h' \<Longrightarrow> answer_ok env h' d rr"
  unfolding answer_ok_def grows_def by (cases "rd_kind d") (simp_all, blast)

lemma explains_grows:
  assumes "explains env base h vr captured rest" "grows h h'"
  shows "explains env base h' vr captured rest"
  using assms(1)
proof (induction rule: explains.induct)
  case (explains_read vr captured k f d rr a)
  from explains.explains_read [OF explains_read(5,2) answer_ok_grows [OF explains_read(3) assms(2)] explains_read(4)]
  show ?case .
qed (rule explains.explains_start)

text \<open>A read is explained by the entries it found.\<close>

lemma read_back_version:
  assumes "read_back deser raw es acc = Some (Inr (Version (j, inc) v))"
  shows "\<exists>e. (j, e) \<in> set es \<and> cell e = CWrite inc v"
  using assms
proof (induction deser raw es acc rule: read_back.induct)
  case (2 deser raw idx e es acc)
  show ?case
  proof (cases "cell e")
    case (CWrite inc' v')
    with 2(3) have "idx = j \<and> inc' = inc \<and> v' = v" by (auto split: if_splits option.splits sum.splits)
    with CWrite show ?thesis by auto
  next
    case (CDelta d)
    with 2 show ?thesis by (fastforce split: if_splits option.splits)
  qed
qed (auto split: option.splits sum.splits)

lemma mv_read_version:
  assumes "mv_wf mv" "mv_read deser raw mv k i = Some (Inr (Version (j, inc) v))"
  shows "\<exists>e. ents mv j k = Some e \<and> cell e = CWrite inc v"
proof -
  obtain vv where vv: "mv_data mv k = Some vv"
      "read_back deser raw (rev (bt_below i (versioned_map vv))) None = Some (Inr (Version (j, inc) v))"
    using assms(2) by (auto simp: mv_read_def split: option.splits)
  from read_back_version [OF vv(2)] obtain e where e: "(j, e) \<in> set (versioned_map vv)" "cell e = CWrite inc v"
    by (auto simp: bt_below_def)
  have "bt_wf (versioned_map vv)" using mv_wf_vv [OF assms(1) vv(1)] by (simp add: vv_wf_def)
  with bt_mem_get [OF this e(1)] e(2) vv(1) show ?thesis by (simp add: ents_def)
qed

definition writes_ok ::
  "('t, 'k, 'v, 'o, 'e, 'x) executor_task \<Rightarrow> (version \<rightharpoonup> ('o, 'e) task_status \<times> 'k read_descriptor list)
    \<Rightarrow> ('k, 'v) mvhashmap \<Rightarrow> bool" where
  "writes_ok env h mv \<longleftrightarrow> (\<forall>j k e inc v. ents mv j k = Some e \<and> cell e = CWrite inc v \<longrightarrow>
     (\<exists>st rs out. h (j, inc) = Some (st, rs) \<and> status_output st = Some out \<and> (k, v) \<in> set (get_writes env out)))"

lemma read_round_answer:
  assumes "mv_wf mv" "writes_ok env h mv" "read_round env mv k i = Some (Answered d rr)"
  shows "rd_path d = k \<and> answer_ok env h d rr"
proof (cases "mv_read (deserialize env) (raw_bytes env) mv k i")
  case (Some x)
  show ?thesis
  proof (cases x)
    case (Inr out)
    show ?thesis
    proof (cases out)
      case (Version ver v)
      obtain j inc where ver: "ver = (j, inc)" by (cases ver)
      have "d = from_version k j inc" "rr = RValue v"
        using assms(3) by (simp_all add: read_round_def Some Inr Version ver)
      moreover have "\<exists>st rs out. h (j, inc) = Some (st, rs) \<and> status_output st = Some out \<and> (k, v) \<in> set (get_writes env out)"
        using mv_read_version [OF assms(1) Some [unfolded Inr Version ver]] assms(2) unfolding writes_ok_def by blast
      ultimately show ?thesis by (simp add: answer_ok_def from_version_def)
    qed (use assms(3) Some Inr in \<open>auto simp: read_round_def answer_ok_def from_resolved_def\<close>)
  next
    case (Inl err)
    with assms(3) Some show ?thesis
      by (cases err) (auto simp: read_round_def answer_ok_def from_storage_def from_unresolved_def
          from_delta_application_failure_def)
  qed
qed (use assms(3) in \<open>simp add: read_round_def\<close>)

text \<open>A validated read would be answered by the same descriptor again, and with the same answer.\<close>

lemma validate_read_round:
  assumes "validate_read env mv i r = Some True"
  shows "\<exists>rr. read_round env mv (rd_path r) i = Some (Answered r rr)"
  using assms
  by (cases r)
     (auto simp: validate_read_def read_round_def validate_version_def validate_resolved_def validate_unresolved_def
      validate_storage_def validate_delta_application_failure_def from_version_def from_resolved_def
      from_unresolved_def from_storage_def from_delta_application_failure_def
      split: option.splits sum.splits mv_output.splits mv_error.splits)

definition hist_distinct ::
  "('t, 'k, 'v, 'o, 'e, 'x) executor_task \<Rightarrow> (version \<rightharpoonup> ('o, 'e) task_status \<times> 'k read_descriptor list) \<Rightarrow> bool" where
  "hist_distinct env h \<longleftrightarrow> (\<forall>ver st rs. h ver = Some (st, rs) \<longrightarrow> distinct_keys env st)"

lemma answer_unique:
  assumes "hist_distinct env h" "answer_ok env h d rr" "answer_ok env h d rr'"
  shows "rr = rr'"
proof (cases "rd_kind d")
  case (KVersion j inc)
  with assms(2,3) obtain v v' st rs out where "h (j, inc) = Some (st, rs)" "status_output st = Some out" "rr = RValue v" "rr' = RValue v'"
      "(rd_path d, v) \<in> set (get_writes env out)" "(rd_path d, v') \<in> set (get_writes env out)"
    by (auto simp: answer_ok_def)
  moreover from this(1,2) have "distinct (map fst (get_writes env out))"
    using assms(1) by (auto simp: hist_distinct_def distinct_keys_def)
  ultimately show ?thesis by (metis eq_key_imp_eq_value)
qed (use assms(2,3) in \<open>auto simp: answer_ok_def\<close>)

definition all_valid ::
  "('t, 'k, 'v, 'o, 'e, 'x) executor_task \<Rightarrow> ('k, 'v) mvhashmap \<Rightarrow> txn_index \<Rightarrow> 'k read_descriptor list \<Rightarrow> bool" where
  "all_valid env mv i rs \<longleftrightarrow> (\<forall>r \<in> set rs. validate_read env mv i r = Some True)"

text \<open>
  A run whose captured reads are all valid is the run that the multi-version map gives when nothing
  changes any more.
\<close>

lemma explains_mv_run:
  assumes "explains env base h vr captured rest" "hist_distinct env h" "mv_wf mv" "writes_ok env h mv"
    "all_valid env mv i captured"
  shows "mv_run env base mv i vr [] = mv_run env base mv i rest captured"
  using assms(1,5)
proof (induction rule: explains.induct)
  case (explains_read vr captured k f d rr a)
  obtain rr' where rr': "read_round env mv k i = Some (Answered d rr')"
    using validate_read_round [of env mv i d] explains_read.prems explains_read(2) by (auto simp: all_valid_def)
  have "rr' = rr"
    using answer_unique [OF assms(2)] read_round_answer [OF assms(3,4) rr'] explains_read(3) by blast
  with explains_read rr' show ?case by (simp add: all_valid_def)
qed simp

end
