(* ===== verification/KeyValues.thy ===== *)
theory KeyValues
  imports ParallelSystem
begin

text \<open>
  The value of a key below a transaction, as the entries of the multi-version map determine it: a
  write replaces it, a delta is applied to it. A read through the map returns this value, and
  resolving the deltas of a finished block (\<open>output_delta_resolver.rs\<close>) writes down exactly these
  values, provided that every delta can be applied, which is what a resolution that does not panic
  shows.
\<close>

section \<open>Values\<close>

definition base_bytes :: "('k, 'x) base_view \<Rightarrow> 'k \<Rightarrow> bytes option" where
  "base_bytes base k = (case base k of Inr b \<Rightarrow> b | Inl _ \<Rightarrow> None)"

fun entry_value :: "('t, 'k, 'v, 'o, 'e, 'x) executor_task \<Rightarrow> 'v entry \<Rightarrow> bytes option \<Rightarrow> bytes option" where
  "entry_value env e b =
     (case cell e of
        CWrite _ v \<Rightarrow> raw_bytes env v
      | CDelta d \<Rightarrow> Option.bind (Option.bind b (deserialize env)) (\<lambda>x. map_option (serialize env) (ok (apply_to d x))))"

declare entry_value.simps [simp del]

definition applicable :: "('t, 'k, 'v, 'o, 'e, 'x) executor_task \<Rightarrow> 'v entry \<Rightarrow> bytes option \<Rightarrow> bool" where
  "applicable env e b \<longleftrightarrow> (is_delta e \<longrightarrow> entry_value env e b \<noteq> None)"

fun entries_value :: "('t, 'k, 'v, 'o, 'e, 'x) executor_task \<Rightarrow> (txn_index \<times> 'v entry) list \<Rightarrow> bytes option \<Rightarrow> bytes option" where
  "entries_value env [] b = b"
| "entries_value env ((i, e) # es) b = entries_value env es (entry_value env e b)"

fun all_applicable :: "('t, 'k, 'v, 'o, 'e, 'x) executor_task \<Rightarrow> (txn_index \<times> 'v entry) list \<Rightarrow> bytes option \<Rightarrow> bool" where
  "all_applicable env [] b \<longleftrightarrow> True"
| "all_applicable env ((i, e) # es) b \<longleftrightarrow> applicable env e b \<and> all_applicable env es (entry_value env e b)"

lemma entries_value_append: "entries_value env (es @ fs) b = entries_value env fs (entries_value env es b)"
  by (induction es arbitrary: b) auto

lemma all_applicable_append:
  "all_applicable env (es @ fs) b \<longleftrightarrow> all_applicable env es b \<and> all_applicable env fs (entries_value env es b)"
  by (induction es arbitrary: b) auto

lemma write_value [simp]: "cell e = CWrite inc v \<Longrightarrow> entry_value env e b = raw_bytes env v"
  by (simp add: entry_value.simps)

lemma delta_value: "cell e = CDelta d \<Longrightarrow> entry_value env e b =
    Option.bind (Option.bind b (deserialize env)) (\<lambda>x. map_option (serialize env) (ok (apply_to d x)))"
  by (simp add: entry_value.simps)

lemma applicable_delta:
  assumes "applicable env e b" "cell e = CDelta d"
  obtains bs x r where "b = Some bs" "deserialize env bs = Some x" "apply_to d x = Inr r"
    "entry_value env e b = Some (serialize env r)"
  using assms by (auto simp: applicable_def is_delta_def delta_value bind_eq_Some_conv)

text \<open>What is relied on of the codec of aggregator values.\<close>

definition codec_ok :: "('t, 'k, 'v, 'o, 'e, 'x) executor_task \<Rightarrow> bool" where
  "codec_ok env \<longleftrightarrow> (\<forall>x. deserialize env (serialize env x) = Some x)"

section \<open>Reads\<close>

text \<open>Entries without estimates, with well-formed deltas that agree on their limit.\<close>

definition done_entry :: "u128 \<Rightarrow> 'v entry \<Rightarrow> bool" where
  "done_entry lim e \<longleftrightarrow> flag e \<noteq> FLAG_ESTIMATE \<and> (is_delta e \<longrightarrow> is_done_delta lim e)"

lemma done_deltas_value:
  assumes "done_deltas lim ds" "ds \<noteq> []" "all_applicable env ds (Some bs)" "deserialize env bs = Some x" "codec_ok env"
  shows "\<exists>r. rfold apply_to (deltas_of ds) x = Inr r \<and> entries_value env ds (Some bs) = Some (serialize env r)"
  using assms
proof (induction ds arbitrary: bs x)
  case (Cons ie ds)
  obtain i e where ie: "ie = (i, e)" by (cases ie)
  from Cons.prems(1) obtain d where d: "cell e = CDelta d" "done_deltas lim ds"
    by (auto simp: ie done_deltas_def is_done_delta_def split: entry_cell.splits)
  have "applicable env e (Some bs)" using Cons.prems(3) by (simp add: ie)
  then obtain r where r: "apply_to d x = Inr r" "entry_value env e (Some bs) = Some (serialize env r)"
    using applicable_delta [OF _ d(1), of env "Some bs"] Cons.prems(4) by (metis option.inject)
  have dl: "entry_delta e = d" using d(1) by (simp add: entry_delta_def)
  show ?case
  proof (cases "ds = []")
    case True
    with r dl show ?thesis by (simp add: ie)
  next
    case False
    have "deserialize env (serialize env r) = Some r" using Cons.prems(5) by (simp add: codec_ok_def)
    with Cons.IH [OF d(2) False _ _ Cons.prems(5), of "serialize env r" r] Cons.prems(3) r dl show ?thesis
      by (simp add: ie)
  qed
qed simp

lemma last_write:
  "(\<exists>pre i w ds inc v. es = pre @ (i, w) # ds \<and> cell w = CWrite inc v \<and> (\<forall>ie \<in> set ds. is_delta (snd ie)))
    \<or> (\<forall>ie \<in> set es. is_delta (snd ie))"
proof (cases "\<exists>ie \<in> set es. \<not> is_delta (snd ie)")
  case True
  from split_list_last_prop [OF this] obtain pre ie ds where "es = pre @ ie # ds" "\<not> is_delta (snd ie)"
    "\<forall>ie \<in> set ds. is_delta (snd ie)" by auto
  moreover then obtain i w inc v where "ie = (i, w)" "cell w = CWrite inc v"
    by (cases ie) (auto simp: is_delta_def split: entry_cell.splits)
  ultimately show ?thesis by blast
qed simp

lemma all_deltas_done: "\<forall>ie \<in> set ds. is_delta (snd ie) \<Longrightarrow> \<forall>ie \<in> set ds. done_entry lim (snd ie) \<Longrightarrow> done_deltas lim ds"
  by (simp add: done_deltas_def done_entry_def)

definition state_value ::
  "('t, 'k, 'v, 'o, 'e, 'x) executor_task \<Rightarrow> ('k, 'x) base_view \<Rightarrow> ('k, 'v) mvhashmap \<Rightarrow> 'k \<Rightarrow> txn_index \<Rightarrow> 'x state_value" where
  "state_value env base mv k i =
     (if entries_below mv k i = [] then (case base k of Inl e \<Rightarrow> Inl (BaseError e) | Inr b \<Rightarrow> Inr b)
      else Inr (entries_value env (entries_below mv k i) (base_bytes base k)))"

lemma read_value:
  assumes fin: "\<forall>ie \<in> set (entries_below mv k i). done_entry lim (snd ie)"
    and app: "all_applicable env (entries_below mv k i) (base_bytes base k)" and codec: "codec_ok env"
    and read: "read_round env mv k i = Some (Answered d rr)" "mv_state_value env base k rr = Some a"
  shows "a = state_value env base mv k i"
proof -
  let ?es = "entries_below mv k i" and ?deser = "deserialize env" and ?raw = "raw_bytes env"
  consider (empty) "?es = []"
    | (latest) pre j w inc v where "?es = pre @ [(j, w)]" "cell w = CWrite inc v"
    | (above) pre j w ds inc v where "?es = pre @ (j, w) # ds" "cell w = CWrite inc v" "ds \<noteq> []" "done_deltas lim ds"
    | (deltas) "?es \<noteq> []" "done_deltas lim ?es"
  proof -
    consider (w) pre j w ds inc v where "?es = pre @ (j, w) # ds" "cell w = CWrite inc v" "\<forall>ie \<in> set ds. is_delta (snd ie)"
      | (d) "\<forall>ie \<in> set ?es. is_delta (snd ie)"
      using last_write [of ?es] by blast
    then show thesis
    proof cases
      case w
      then show thesis using latest above all_deltas_done [of ds lim] fin by (cases "ds = []") auto
    next
      case d
      then show thesis using empty deltas all_deltas_done [OF d fin] by blast
    qed
  qed
  then show ?thesis
  proof cases
    case empty
    then have "rr = RNone" using read(1) by (simp add: read_round_def mv_read_entries)
    with empty read(2) show ?thesis by (simp add: state_value_def)
  next
    case latest
    then have "flag w \<noteq> FLAG_ESTIMATE" using fin by (simp add: done_entry_def)
    with latest read(1) have "rr = RValue v" by (simp add: read_round_def mv_read_entries)
    with latest read(2) show ?thesis by (simp add: state_value_def entries_value_append)
  next
    case above
    have fl: "flag w \<noteq> FLAG_ESTIMATE" using fin above(1) by (simp add: done_entry_def)
    have ap: "all_applicable env ds (?raw v)" using app above(1,2) by (simp add: all_applicable_append)
    obtain j' e ds' where ds: "ds = (j', e) # ds'" using above(3) by (cases ds) auto
    then obtain dl where "cell e = CDelta dl" using above(4)
      by (auto simp: done_deltas_def is_done_delta_def split: entry_cell.splits)
    then obtain bs x where bs: "?raw v = Some bs" "?deser bs = Some x"
      using ap ds by (auto elim: applicable_delta)
    obtain r where r: "rfold apply_to (deltas_of ds) x = Inr r" "entries_value env ds (Some bs) = Some (serialize env r)"
      using done_deltas_value [OF above(4,3) ap [unfolded bs(1)] bs(2) codec] by blast
    have "from_write ?deser ?raw v = Some (Some x)" using bs by (simp add: from_write_def)
    from mv_read_resolves [OF above(1,3,4) fl above(2) this] r(1) read(1) have "rr = RU128 r"
      by (simp add: read_round_def)
    with read(2) above(1,2) bs(1) r(2) show ?thesis by (simp add: state_value_def entries_value_append)
  next
    case deltas
    obtain j' e es' where es: "?es = (j', e) # es'" using deltas(1) by (cases ?es) auto
    then obtain dl where "cell e = CDelta dl" using deltas(2)
      by (auto simp: done_deltas_def is_done_delta_def split: entry_cell.splits)
    then obtain bs x where bs: "base_bytes base k = Some bs" "?deser bs = Some x"
      using app es by (auto elim: applicable_delta)
    obtain r where r: "rfold apply_to (deltas_of ?es) x = Inr r" "entries_value env ?es (Some bs) = Some (serialize env r)"
      using done_deltas_value [OF deltas(2,1) app [unfolded bs(1)] bs(2) codec] by blast
    have base: "base k = Inr (Some bs)" using bs(1) by (auto simp: base_bytes_def split: sum.splits)
    from mv_read_unresolved [OF refl deltas, of ?deser ?raw] r(1)
    obtain u where u: "mv_read ?deser ?raw mv k i = Some (Inl (Unresolved u))" "ok (apply_to u x) = Some r"
      by (metis ok_simps(2) option.distinct(1))
    then have "rr = RUnresolved u" using read(1) by (simp add: read_round_def)
    with read(2) base bs(2) u(2) deltas(1) r(2) bs(1) show ?thesis by (simp add: state_value_def)
  qed
qed

text \<open>A run against an unchanging map whose reads are these values.\<close>

lemma mv_run_view:
  assumes "mv_run env base mv i r captured = Some (Inr (res, rs))"
    and "\<And>k d rr a. read_round env mv k i = Some (Answered d rr) \<Longrightarrow> mv_state_value env base k rr = Some a \<Longrightarrow> view k = a"
  shows "view_run view r = res"
  using assms(1)
  by (induction r arbitrary: captured) (auto split: option.splits read_round.splits dest: assms(2))

section \<open>Resolution\<close>

definition decoded :: "('t, 'k, 'v, 'o, 'e, 'x) executor_task \<Rightarrow> bytes option \<Rightarrow> u128 option \<Rightarrow> bool" where
  "decoded env b latest \<longleftrightarrow> (case b of None \<Rightarrow> latest = None | Some bs \<Rightarrow> deserialize env bs = latest \<and> latest \<noteq> None)"

text \<open>What resolution adds to the writes of transaction \<open>j\<close> for a key.\<close>

definition delta_write ::
  "('t, 'k, 'v, 'o, 'e, 'x) executor_task \<Rightarrow> 'k \<Rightarrow> (txn_index \<times> 'v entry) list \<Rightarrow> bytes option \<Rightarrow> txn_index \<Rightarrow> ('k \<times> write_op) list" where
  "delta_write env k es b j =
     (case bt_get es j of
        None \<Rightarrow> []
      | Some e \<Rightarrow> if is_delta e then [(k, Modification (the (entries_value env (bt_below (Suc j) es) b)))] else [])"

lemma delta_write_Cons:
  assumes "bt_wf ((i, e) # es)"
  shows "delta_write env k ((i, e) # es) b j =
    (if j = i then (if is_delta e then [(k, Modification (the (entry_value env e b)))] else [])
     else delta_write env k es (entry_value env e b) j)"
proof (cases "j = i")
  case True
  have "bt_below (Suc i) es = []" using assms by (auto simp: bt_wf_Cons bt_below_def filter_empty_conv)
  then show ?thesis using True by (simp add: delta_write_def bt_get_def bt_below_def)
next
  case False
  have "i < j" if "bt_get es j = Some e'" for e'
    using assms bt_get_mem [OF that] by (force simp: bt_wf_Cons)
  then show ?thesis using False by (auto simp: delta_write_def bt_get_def bt_below_def split: option.split)
qed

lemma resolve_entries_spec:
  assumes "resolve_entries env k es latest ret = Some ret'" "decoded env b latest" "bt_wf es" "codec_ok env"
  shows "all_applicable env es b" "length ret' = length ret"
    "j < length ret \<Longrightarrow> ret' ! j = ret ! j @ delta_write env k es b j"
proof -
  have "all_applicable env es b \<and> length ret' = length ret
     \<and> (j < length ret \<longrightarrow> ret' ! j = ret ! j @ delta_write env k es b j)"
    using assms(1-3)
  proof (induction es arbitrary: latest b ret)
    case Nil
    then show ?case by (simp add: delta_write_def)
  next
    case (Cons ie es)
    obtain i e where ie: "ie = (i, e)" by (cases ie)
    have wf: "bt_wf es" using Cons.prems(3) by (simp add: ie bt_wf_Cons)
    note dw = delta_write_Cons [OF Cons.prems(3) [unfolded ie], of env k b j]
    show ?case
    proof (cases "cell e")
      case (CWrite inc v)
      then have e: "\<not> is_delta e" "entry_value env e b = raw_bytes env v" by (simp_all add: is_delta_def)
      obtain latest' where l: "resolve_entries env k es latest' ret = Some ret'" "decoded env (raw_bytes env v) latest'"
        using Cons.prems(1) CWrite by (auto simp: ie decoded_def split: option.splits)
      have no: "delta_write env k es (raw_bytes env v) i = []"
      proof -
        have "bt_get es i = None" using Cons.prems(3) by (auto simp: ie bt_get_None bt_wf_Cons)
        then show ?thesis by (simp add: delta_write_def)
      qed
      from Cons.IH [OF l wf] e no show ?thesis by (auto simp: ie dw applicable_def)
    next
      case (CDelta d)
      obtain x r where x: "latest = Some x" "apply_to d x = Inr r" "i < length ret"
          "resolve_entries env k es (Some r) (ret[i := ret ! i @ [(k, Modification (serialize env r))]]) = Some ret'"
        using Cons.prems(1) CDelta by (auto simp: ie split: option.splits sum.splits if_splits)
      obtain bs where bs: "b = Some bs" "deserialize env bs = Some x"
        using Cons.prems(2) x(1) by (auto simp: decoded_def split: option.splits)
      have v: "entry_value env e b = Some (serialize env r)" "is_delta e"
        using CDelta bs x(2) by (simp_all add: delta_value is_delta_def)
      have dec: "decoded env (Some (serialize env r)) (Some r)" using assms(4) by (simp add: decoded_def codec_ok_def)
      have no: "delta_write env k es (Some (serialize env r)) i = []"
      proof -
        have "bt_get es i = None" using Cons.prems(3) by (auto simp: ie bt_get_None bt_wf_Cons)
        then show ?thesis by (simp add: delta_write_def)
      qed
      from Cons.IH [OF x(4) dec wf] v no x(3) show ?thesis by (auto simp: ie dw applicable_def nth_list_update)
    qed
  qed
  then show "all_applicable env es b" "length ret' = length ret"
    "j < length ret \<Longrightarrow> ret' ! j = ret ! j @ delta_write env k es b j" by blast+
qed

lemma stored_decoded: "stored_value env base k = Some latest \<Longrightarrow> decoded env (base_bytes base k) latest"
  by (auto simp: stored_value_def decoded_def base_bytes_def split: sum.splits option.splits)

definition key_entries :: "('k, 'v) mvhashmap \<Rightarrow> 'k \<Rightarrow> (txn_index \<times> 'v entry) list" where
  "key_entries mv k = (case mv_data mv k of None \<Rightarrow> [] | Some vv \<Rightarrow> versioned_map vv)"

lemma resolve_keys_spec:
  assumes "resolve_keys env base ks mv ret = Some ret'" "distinct ks" "mv_wf m"
    "\<And>k. k \<in> set ks \<Longrightarrow> mv_data mv k = mv_data m k" "codec_ok env"
  shows "(\<forall>k \<in> set ks. all_applicable env (key_entries m k) (base_bytes base k)) \<and> length ret' = length ret
    \<and> (\<forall>j < length ret. ret' ! j = ret ! j @ concat (map (\<lambda>k. delta_write env k (key_entries m k) (base_bytes base k) j) ks))"
  using assms(1,2,4)
proof (induction ks arbitrary: mv ret)
  case (Cons k ks)
  obtain latest vv ret1 where k: "stored_value env base k = Some latest" "mv_data mv k = Some vv"
      "resolve_entries env k (versioned_map vv) latest ret = Some ret1"
      "resolve_keys env base ks (mv\<lparr>mv_data := (mv_data mv)(k := None)\<rparr>) ret1 = Some ret'"
    using Cons.prems(1) by (auto simp: entry_map_for_key_def split: option.splits)
  have m: "mv_data m k = Some vv" using Cons.prems(3) [of k] k(2) by simp
  then have es: "key_entries m k = versioned_map vv" "bt_wf (versioned_map vv)"
    using mv_wf_vv [OF assms(3)] by (auto simp: key_entries_def vv_wf_def)
  note r = resolve_entries_spec [OF k(3) stored_decoded [OF k(1)] es(2) assms(5)]
  have "mv_data (mv\<lparr>mv_data := (mv_data mv)(k := None)\<rparr>) k' = mv_data m k'" if "k' \<in> set ks" for k'
    using Cons.prems(2,3) that by auto
  from Cons.IH [OF k(4) _ this] Cons.prems(2) r es(1) show ?case by auto
qed simp

lemma resolve_spec:
  assumes "resolve env base n mv = Some ret" "mv_wf mv" "codec_ok env"
  shows "k \<in> set (delta_keys mv) \<Longrightarrow> all_applicable env (key_entries mv k) (base_bytes base k)" "length ret = n"
    "j < n \<Longrightarrow> ret ! j = concat (map (\<lambda>k. delta_write env k (key_entries mv k) (base_bytes base k) j) (delta_keys mv))"
proof -
  have "resolve_keys env base (delta_keys mv) (mv\<lparr>delta_keys := []\<rparr>) (replicate n []) = Some ret"
    using assms(1) by (simp add: resolve_def aggregator_keys_def)
  from resolve_keys_spec [OF this _ assms(2) _ assms(3)] assms(2)
  show "k \<in> set (delta_keys mv) \<Longrightarrow> all_applicable env (key_entries mv k) (base_bytes base k)" "length ret = n"
    "j < n \<Longrightarrow> ret ! j = concat (map (\<lambda>k. delta_write env k (key_entries mv k) (base_bytes base k) j) (delta_keys mv))"
    by (simp_all add: mv_wf_def)
qed

text \<open>Keys that were never given a delta need no resolution.\<close>

lemma no_deltas_applicable: "\<forall>ie \<in> set es. \<not> is_delta (snd ie) \<Longrightarrow> all_applicable env es b"
  by (induction es arbitrary: b) (auto simp: applicable_def)

lemma resolve_applicable:
  assumes "resolve env base n mv = Some ret" "mv_wf mv" "codec_ok env"
  shows "all_applicable env (key_entries mv k) (base_bytes base k)"
proof (cases "k \<in> set (delta_keys mv)")
  case True
  then show ?thesis by (rule resolve_spec(1) [OF assms])
next
  case False
  have "\<not> is_delta (snd ie)" if "ie \<in> set (key_entries mv k)" for ie
  proof (cases "mv_data mv k")
    case (Some vv)
    with mv_wf_vv [OF assms(2) this] False that show ?thesis by (force simp: key_entries_def vv_wf_def)
  qed (use that in \<open>simp add: key_entries_def\<close>)
  then show ?thesis by (intro no_deltas_applicable) blast
qed

end
