(* ===== verification/ParallelData.thy ===== *)
theory ParallelData
  imports ParallelSystem
begin

text \<open>
  The data of the parallel executor in every reachable state: what the multi-version map, the
  recorded inputs and outputs and the history of runs hold for a transaction, by its status and by
  the phase of the worker that holds it. In particular an executed transaction has exactly the
  entries that its recorded output asks for, and its recorded reads explain that output.
\<close>

section \<open>The data of one transaction\<close>

definition stale ::
  "('t, 'k, 'v, 'o, 'e, 'x) executor_task \<Rightarrow> ('k \<Rightarrow> 'v entry option) \<Rightarrow> ('o, 'e block_error) task_status option \<Rightarrow> bool" where
  "stale env E outp \<longleftrightarrow> (\<forall>k. E k \<noteq> None \<longrightarrow> (\<exists>st. outp = Some st \<and> k \<in> status_keys (get_writes env) (get_deltas env) st))"

definition unrun :: "(version \<rightharpoonup> ('o, 'e) task_status \<times> 'k read_descriptor list) \<Rightarrow> txn_index \<Rightarrow> incarnation \<Rightarrow> bool" where
  "unrun h j inc \<longleftrightarrow> (\<forall>inc' \<ge> inc. h (j, inc') = None)"

text \<open>The result of incarnation \<open>inc\<close> is recorded.\<close>

definition recorded ::
  "(version \<rightharpoonup> ('o, 'e) task_status \<times> 'k read_descriptor list) \<Rightarrow> txn_index \<Rightarrow> incarnation \<Rightarrow> ('o, 'e) task_status
    \<Rightarrow> ('o, 'e block_error) task_status option \<Rightarrow> 'k read_descriptor list option \<Rightarrow> bool" where
  "recorded h j inc st outp inp \<longleftrightarrow> outp = Some (user_error st) \<and> (\<exists>rs. h (j, inc) = Some (st, rs) \<and> inp = Some rs)"

definition settled ::
  "('t, 'k, 'v, 'o, 'e, 'x) executor_task \<Rightarrow> (version \<rightharpoonup> ('o, 'e) task_status \<times> 'k read_descriptor list)
    \<Rightarrow> ('k \<Rightarrow> 'v entry option) \<Rightarrow> ('o, 'e block_error) task_status option \<Rightarrow> 'k read_descriptor list option
    \<Rightarrow> txn_index \<Rightarrow> incarnation \<Rightarrow> bool" where
  "settled env h E outp inp j inc \<longleftrightarrow>
     unrun h j (inc + 1) \<and> (\<exists>st. recorded h j inc st outp inp \<and> E = target env inc st)"

text \<open>The same, except that some entries may be estimates.\<close>

definition tainted ::
  "('t, 'k, 'v, 'o, 'e, 'x) executor_task \<Rightarrow> (version \<rightharpoonup> ('o, 'e) task_status \<times> 'k read_descriptor list)
    \<Rightarrow> ('k \<Rightarrow> 'v entry option) \<Rightarrow> ('o, 'e block_error) task_status option \<Rightarrow> 'k read_descriptor list option
    \<Rightarrow> txn_index \<Rightarrow> incarnation \<Rightarrow> bool" where
  "tainted env h E outp inp j inc \<longleftrightarrow>
     unrun h j (inc + 1) \<and> (\<exists>st. recorded h j inc st outp inp
       \<and> (\<forall>k. map_option cell (E k) = map_option cell (target env inc st k)))"

definition update_of ::
  "('t, 'k, 'v, 'o, 'e, 'x) executor_task \<Rightarrow> version \<Rightarrow> ('o, 'e) task_status \<Rightarrow> ('k, 'v) mv_update \<Rightarrow> bool" where
  "update_of env ver st u \<longleftrightarrow> writer u = fst ver \<and> (\<forall>k ver' v. u = UWrite k ver' v \<longrightarrow>
     ver' = ver \<and> (\<exists>out. status_output st = Some out \<and> (k, v) \<in> set (get_writes env out)))"

text \<open>Captured reads of transaction \<open>j\<close> lead from the start of its run to \<open>r\<close>.\<close>

definition explained ::
  "('t, 'k, 'v, 'o, 'e, 'x) executor_task \<Rightarrow> ('k, 'x) base_view \<Rightarrow> 't list
    \<Rightarrow> (version \<rightharpoonup> ('o, 'e) task_status \<times> 'k read_descriptor list) \<Rightarrow> txn_index \<Rightarrow> 'k read_descriptor list
    \<Rightarrow> ('k, 'x state_value, ('o, 'e) task_status option) vm_run \<Rightarrow> bool" where
  "explained env base txns h j captured r \<longleftrightarrow> (\<exists>p. explains env base h (run_of env txns j p) captured r)"

lemma explained_grows: "explained env base txns h j captured r \<Longrightarrow> grows h h' \<Longrightarrow> explained env base txns h' j captured r"
  unfolding explained_def by (blast intro: explains_grows)

lemma explained_leaves:
  assumes "explained env base txns h j captured (Finished r)"
  shows "\<exists>p. r \<in> leaves (run_of env txns j p)"
proof -
  obtain p where "explains env base h (run_of env txns j p) captured (Finished r)" using assms by (auto simp: explained_def)
  from explains_leaves [OF this] have "r \<in> leaves (run_of env txns j p)" by simp
  then show ?thesis by blast
qed

lemma explained_start: "explained env base txns h j [] (run_of env txns j p)"
  unfolding explained_def by (blast intro: explains_start)

text \<open>What the data of \<open>j\<close> look like while the holder of \<open>j\<close> is in a phase of its execution.\<close>

fun data_running ::
  "('t, 'k, 'v, 'o, 'e, 'x) executor_task \<Rightarrow> ('k, 'x) base_view \<Rightarrow> 't list
    \<Rightarrow> (version \<rightharpoonup> ('o, 'e) task_status \<times> 'k read_descriptor list) \<Rightarrow> ('k \<Rightarrow> 'v entry option)
    \<Rightarrow> ('o, 'e block_error) task_status option \<Rightarrow> 'k read_descriptor list option
    \<Rightarrow> txn_index \<Rightarrow> incarnation \<Rightarrow> ('k, 'v, 'o, 'e, 'x) phase \<Rightarrow> bool" where
  "data_running env base txns h E outp inp j inc AtTop \<longleftrightarrow> stale env E outp \<and> unrun h j inc"
| "data_running env base txns h E outp inp j inc (Reading r captured) \<longleftrightarrow>
     stale env E outp \<and> unrun h j inc \<and> explained env base txns h j captured r"
| "data_running env base txns h E outp inp j inc (Publishing us outside st rs) \<longleftrightarrow>
     unrun h j (inc + 1) \<and> h (j, inc) = Some (st, rs) \<and> (\<forall>u \<in> set us. update_of env (j, inc) st u)
     \<and> fold ent_upd us E = target env inc st"
| "data_running env base txns h E outp inp j inc (Recorded outside) \<longleftrightarrow> settled env h E outp inp j inc"
| "data_running env base txns h E outp inp j inc _ \<longleftrightarrow> False"

fun data_at ::
  "('t, 'k, 'v, 'o, 'e, 'x) executor_task \<Rightarrow> ('k, 'x) base_view \<Rightarrow> 't list
    \<Rightarrow> (version \<rightharpoonup> ('o, 'e) task_status \<times> 'k read_descriptor list) \<Rightarrow> ('k \<Rightarrow> 'v entry option)
    \<Rightarrow> ('o, 'e block_error) task_status option \<Rightarrow> 'k read_descriptor list option
    \<Rightarrow> txn_index \<Rightarrow> execution_status \<Rightarrow> ('k, 'v, 'o, 'e, 'x) phase \<Rightarrow> bool" where
  "data_at env base txns h E outp inp j (ReadyToExecute inc cv) ph \<longleftrightarrow> stale env E outp \<and> unrun h j inc"
| "data_at env base txns h E outp inp j (Executing inc) ph \<longleftrightarrow> data_running env base txns h E outp inp j inc ph"
| "data_at env base txns h E outp inp j (Executed inc) ph \<longleftrightarrow> settled env h E outp inp j inc"
| "data_at env base txns h E outp inp j (Committed inc) ph \<longleftrightarrow> settled env h E outp inp j inc"
| "data_at env base txns h E outp inp j (Aborting inc) ph \<longleftrightarrow> (\<exists>ks. ph = Marking ks) \<and> tainted env h E outp inp j inc"
| "data_at env base txns h E outp inp j (Suspended inc cv) ph \<longleftrightarrow> False"

definition same_history :: "txn_index \<Rightarrow> (version \<rightharpoonup> 'a) \<Rightarrow> (version \<rightharpoonup> 'a) \<Rightarrow> bool" where
  "same_history j h h' \<longleftrightarrow> (\<forall>inc. h' (j, inc) = h (j, inc))"

lemma data_at_grows:
  assumes "data_at env base txns h E outp inp j st ph" "grows h h'" "same_history j h h'"
  shows "data_at env base txns h' E outp inp j st ph"
proof (cases st)
  case (Executing inc)
  with assms show ?thesis
    by (cases ph) (auto simp: unrun_def settled_def recorded_def same_history_def intro: explained_grows)
qed (use assms in \<open>auto simp: unrun_def settled_def tainted_def recorded_def same_history_def\<close>)

section \<open>The invariant\<close>

definition hist_ok ::
  "('t, 'k, 'v, 'o, 'e, 'x) executor_task \<Rightarrow> ('k, 'x) base_view \<Rightarrow> 't list \<Rightarrow> nat
    \<Rightarrow> (version \<rightharpoonup> ('o, 'e) task_status \<times> 'k read_descriptor list) \<Rightarrow> bool" where
  "hist_ok env base txns n h \<longleftrightarrow> (\<forall>j inc st rs. h (j, inc) = Some (st, rs) \<longrightarrow>
     j < n \<and> explained env base txns h j rs (Finished (Some st)))"

abbreviation data_of where
  "data_of env base txns S j \<equiv>
     data_at env base txns (p_hist S) (ents (p_mv S) j) (outputs (p_io S) ! j) (inputs (p_io S) ! j) j"

abbreviation p_sched where "p_sched S \<equiv> sched (p_sys S)"

definition data_ok ::
  "('t, 'k, 'v, 'o, 'e, 'x) executor_task \<Rightarrow> ('k, 'x) base_view \<Rightarrow> 't list \<Rightarrow> ('k, 'v, 'o, 'e, 'x) psystem \<Rightarrow> bool" where
  "data_ok env base txns S \<longleftrightarrow>
     length txns = num_txns (p_sched S) \<and> mv_wf (p_mv S) \<and> length (inputs (p_io S)) = num_txns (p_sched S) \<and> length (outputs (p_io S)) = num_txns (p_sched S)
     \<and> writes_ok env (p_hist S) (p_mv S) \<and> hist_ok env base txns (num_txns (p_sched S)) (p_hist S)
     \<and> (\<forall>j \<ge> num_txns (p_sched S). ents (p_mv S) j = Map.empty)
     \<and> (\<forall>j < num_txns (p_sched S). \<not> busy (exec_status (p_sched S) j) \<longrightarrow>
          data_of env base txns S j (exec_status (p_sched S) j) AtTop)
     \<and> (\<forall>l < length (workers (p_sys S)). \<forall>j. holds (wpc (workers (p_sys S) ! l)) = Some j \<longrightarrow>
          data_of env base txns S j (exec_status (p_sched S) j) (p_phase S l))"

lemma data_okD:
  assumes "data_ok env base txns S"
  shows "mv_wf (p_mv S)" "length (inputs (p_io S)) = num_txns (p_sched S)"
    "length (outputs (p_io S)) = num_txns (p_sched S)" "writes_ok env (p_hist S) (p_mv S)"
    "hist_ok env base txns (num_txns (p_sched S)) (p_hist S)"
    "num_txns (p_sched S) \<le> j \<Longrightarrow> ents (p_mv S) j = Map.empty"
    "j < num_txns (p_sched S) \<Longrightarrow> \<not> busy (exec_status (p_sched S) j) \<Longrightarrow>
       data_of env base txns S j (exec_status (p_sched S) j) AtTop"
    "length txns = num_txns (p_sched S)"
    "is_at l p fin ph S \<Longrightarrow> holds p = Some j \<Longrightarrow> data_of env base txns S j (exec_status (p_sched S) j) ph"
  using assms by (auto simp: data_ok_def is_at_def worker_at_def)

text \<open>A worker that moves with the scheduler and leaves the data alone.\<close>

lemma data_moved:
  assumes at: "is_at l p fin ph S" and inv: "data_ok env base txns S" "system_ok (p_sys S)"
    and num: "num_txns s' = num_txns (p_sched S)"
    and others: "\<And>j. busy (exec_status (p_sched S) j) \<Longrightarrow> holds p \<noteq> Some j \<Longrightarrow> exec_status s' j = exec_status (p_sched S) j"
    and free: "\<And>j. j < num_txns (p_sched S) \<Longrightarrow> \<not> busy (exec_status s' j) \<Longrightarrow>
      holds p = Some j \<or> exec_status s' j \<noteq> exec_status (p_sched S) j \<Longrightarrow> data_of env base txns S j (exec_status s' j) AtTop"
    and mine: "\<And>j. holds p' = Some j \<Longrightarrow> data_of env base txns S j (exec_status s' j) ph'"
  shows "data_ok env base txns (moved l p' fin' s' ph' S)"
proof -
  let ?w = "workers (p_sys S)" and ?s = "p_sched S"
  have l: "l < length ?w" "wpc (?w ! l) = p" using at by (auto simp: is_at_def worker_at_def)
  have "data_of env base txns S j (exec_status s' j) AtTop" if "j < num_txns ?s" "\<not> busy (exec_status s' j)" for j
    using free [OF that] data_okD(7) [OF inv(1) that(1)] that(2) by (cases "exec_status s' j = exec_status ?s j") auto
  moreover have "data_of env base txns S j (exec_status s' j) (((p_phase S)(l := ph')) m)"
    if m: "m < length ?w" "holds (wpc (?w[l := \<lparr>wpc = p', finished_val_flag = fin'\<rparr>] ! m)) = Some j" for m j
  proof (cases "m = l")
    case True
    with m l(1) mine show ?thesis by simp
  next
    case False
    then have h: "holds (wpc (?w ! m)) = Some j" using m by simp
    then have "busy (exec_status ?s j)"
      using pc_ok_holds [OF ok_parts(4) [OF inv(2) worker_atI [OF m(1) refl]]] by simp
    moreover have "holds p \<noteq> Some j"
    proof
      assume "holds p = Some j"
      with inv(2) h m(1) l have "m = l" unfolding system_ok_def owned_def by blast
      with False show False by simp
    qed
    ultimately have "exec_status s' j = exec_status ?s j" by (rule others)
    with False inv(1) m(1) h show ?thesis by (simp add: data_ok_def)
  qed
  ultimately show ?thesis
    using inv(1) num by (simp add: data_ok_def set_worker_def)
qed

text \<open>The holder of \<open>i\<close> changes the data of \<open>i\<close>.\<close>

lemma data_changed:
  assumes at: "is_at l p fin ph S" "holds p = Some i" and inv: "data_ok env base txns S" "system_ok (p_sys S)"
    and sys: "p_sys S' = p_sys S" "\<And>m. m \<noteq> l \<Longrightarrow> p_phase S' m = p_phase S m"
    and mv: "mv_wf (p_mv S')" "\<And>j. j \<noteq> i \<Longrightarrow> ents (p_mv S') j = ents (p_mv S) j"
    and io: "length (inputs (p_io S')) = length (inputs (p_io S))" "length (outputs (p_io S')) = length (outputs (p_io S))"
      "\<And>j. j \<noteq> i \<Longrightarrow> inputs (p_io S') ! j = inputs (p_io S) ! j" "\<And>j. j \<noteq> i \<Longrightarrow> outputs (p_io S') ! j = outputs (p_io S) ! j"
    and h: "grows (p_hist S) (p_hist S')" "\<And>j. j \<noteq> i \<Longrightarrow> same_history j (p_hist S) (p_hist S')"
      "writes_ok env (p_hist S') (p_mv S')" "hist_ok env base txns (num_txns (p_sched S)) (p_hist S')"
    and mine: "data_of env base txns S' i (exec_status (p_sched S) i) (p_phase S' l)"
  shows "data_ok env base txns S'"
proof -
  let ?w = "workers (p_sys S)" and ?s = "p_sched S"
  have l: "l < length ?w" "wpc (?w ! l) = p" using at(1) by (auto simp: is_at_def worker_at_def)
  have i: "i < num_txns ?s" "busy (exec_status ?s i)"
    using pc_ok_holds [OF ok_parts(4) [OF inv(2)] at(2)] at(1) by (auto simp: is_at_def)
  have other: "data_of env base txns S' j st ph'" if "data_of env base txns S j st ph'" "j \<noteq> i" for j st ph'
    using data_at_grows [OF that(1) h(1) h(2) [OF that(2)]] mv(2) io(3,4) that(2) by simp
  have "data_of env base txns S' j (exec_status ?s j) AtTop" if "j < num_txns ?s" "\<not> busy (exec_status ?s j)" for j
    using other [OF data_okD(7) [OF inv(1) that]] that(2) i(2) by blast
  moreover have "data_of env base txns S' j (exec_status ?s j) (p_phase S' m)"
    if m: "m < length ?w" "holds (wpc (?w ! m)) = Some j" for m j
  proof (cases "m = l")
    case True
    with m l at(2) mine show ?thesis by simp
  next
    case False
    then have "j \<noteq> i" using inv(2) m l at(2) unfolding system_ok_def owned_def by blast
    moreover have "data_of env base txns S j (exec_status ?s j) (p_phase S m)"
      using inv(1) m by (simp add: data_ok_def)
    ultimately show ?thesis using other sys(2) [OF False] by simp
  qed
  moreover have "ents (p_mv S') j = Map.empty" if "num_txns ?s \<le> j" for j
    using mv(2) [of j] data_okD(6) [OF inv(1) that] i(1) that by fastforce
  ultimately show ?thesis
    using mv(1) io(1,2) h(3,4) inv(1) sys(1) by (simp add: data_ok_def)
qed

lemma data_phase:
  assumes "data_ok env base txns S" "is_at l p fin ph S" "holds p = None"
  shows "data_ok env base txns (set_phase l ph' S)"
  using assms by (auto simp: data_ok_def is_at_def worker_at_def)

section \<open>Steps with the scheduler\<close>

lemma moved_same:
  assumes "is_at l p fin ph S"
  shows "S\<lparr>p_sys := (p_sys S)\<lparr>sched := s\<rparr>\<rparr> = moved l p fin s ph S"
  using assms set_worker_same [of l p fin "p_sys S" s]
  by (cases S) (auto simp: is_at_def moved_def set_phase_def fun_upd_idem)

lemma at_pc: "is_at l p fin ph S \<Longrightarrow> system_ok (p_sys S) \<Longrightarrow> pc_ok (p_sched S) fin p"
  unfolding is_at_def by (blast intro: ok_parts(4))

lemma data_quiet:
  assumes "is_at l p fin ph S" "data_ok env base txns S" "system_ok (p_sys S)"
    and "num_txns s' = num_txns (p_sched S)" "exec_status s' = exec_status (p_sched S)" "holds p = None" "holds p' = None"
  shows "data_ok env base txns (moved l p' fin' s' ph' S)"
  by (rule data_moved [OF assms(1-4)]) (use assms(5-7) in simp_all)

lemma data_next_task:
  assumes at: "is_at l (Running NoTask) fin AtTop S" and inv: "data_ok env base txns S" "system_ok (p_sys S)"
    and call: "next_task False fin (p_sched S) = Some (t, fin', s')"
  shows "data_ok env base txns (moved l (Running t) fin' s' AtTop S)"
proof -
  let ?s = "p_sched S"
  have n: "num_txns s' = num_txns ?s" and alt: "t = Done \<and> s' = ?s \<or> starts t ?s s'"
    using good_next_task [OF ok_parts(1) [OF inv(2)] call] by (auto simp: frame_def)
  consider (start) "starts t ?s s'" | (quiet) "exec_status s' = exec_status ?s" "holds (Running t) = None"
    using alt by auto
  then show ?thesis
  proof cases
    case start
    show ?thesis
    proof (rule data_moved [OF at inv n])
      fix j assume "holds (Running t) = Some j"
      then obtain inc where "exec_status ?s j = ReadyToExecute inc None" "exec_status s' j = Executing inc" "j < num_txns ?s"
        using starts_holds [OF start] starts_cases [OF start, of j] starts_pc_ok [OF start n, of fin] n
        by (cases t rule: scheduler_task.exhaust) (auto split: if_splits)
      with data_okD(7) [OF inv(1), of j] show "data_of env base txns S j (exec_status s' j) AtTop" by simp
    qed (use starts_cases [OF start] in \<open>force+\<close>)
  next
    case quiet
    then show ?thesis by (intro data_quiet [OF at inv n]) simp_all
  qed
qed

text \<open>The steps of a worker that asks for a validation.\<close>

lemma data_lock:
  assumes at: "is_at l (Running NoTask) False AtTop S" and inv: "data_ok env base txns S" "system_ok (p_sys S)"
    and call: "try_exec (p_sched S) = Some (NoTask, s')"
  shows "data_ok env base txns (moved l Locked False s' AtTop S)"
  using good_try_exec [OF ok_parts(1) [OF inv(2)]] call
  by (intro data_quiet [OF at inv]) (auto simp: frame_def starts_def)

lemma data_take:
  assumes at: "is_at l (Checked idx inc) fin AtTop S" and inv: "data_ok env base txns S" "system_ok (p_sys S)"
    and call: "take_validation inc (p_sched S) = ((ver, w), s')"
  shows "data_ok env base txns (moved l (Running (ValidationTask ver w)) fin s' AtTop S)"
proof -
  have "val_idx (p_sched S) < num_txns (p_sched S)" using at_pc [OF at inv(2)] by auto
  note t = good_take_validation [OF ok_parts(1) [OF inv(2)] this call]
  show ?thesis by (rule data_quiet [OF at inv t(5,7)]) (simp_all add: t(1))
qed

text \<open>The holder of \<open>i\<close> gives it back with status \<open>v\<close> and starts the task it is given.\<close>

lemma data_starts:
  assumes at: "is_at l p fin ph S" "holds p = Some i" and inv: "data_ok env base txns S" "system_ok (p_sys S)"
    and n: "num_txns s' = num_txns (p_sched S)" and st: "starts t (set_exec_status i v (p_sched S)) s'"
    and v: "\<not> busy v" "data_of env base txns S i v AtTop"
  shows "data_ok env base txns (moved l (Running t) fin s' AtTop S)"
proof -
  let ?s = "p_sched S"
  have i: "i < num_txns ?s" using pc_ok_holds [OF ok_parts(4) [OF inv(2)] at(2)] at(1) by (auto simp: is_at_def)
  then have "i < length (txn_status ?s)" using ok_parts(1) [OF inv(2)] by (simp add: good_def sched_wf_def)
  then have s0: "exec_status (set_exec_status i v ?s) = (exec_status ?s)(i := v)" by (auto simp: fun_eq_iff)
  have start: "\<exists>inc. exec_status s' j = Executing inc \<and> data_of env base txns S j (Executing inc) AtTop"
    if *: "holds (Running t) = Some j" for j
  proof -
    obtain inc where r: "((exec_status ?s)(i := v)) j = ReadyToExecute inc None" "exec_status s' j = Executing inc"
      "j < num_txns ?s"
      using starts_holds [OF st *] starts_cases [OF st, of j] starts_pc_ok [OF st, of fin] n * s0
      by (cases t rule: scheduler_task.exhaust) (auto split: if_splits)
    have "data_of env base txns S j (ReadyToExecute inc None) AtTop"
      using r(1,3) v data_okD(7) [OF inv(1), of j] by (cases "j = i") auto
    with r(2) show ?thesis by simp
  qed
  show ?thesis
  proof (rule data_moved [OF at(1) inv n])
    fix j assume "holds (Running t) = Some j"
    with start [OF this] show "data_of env base txns S j (exec_status s' j) AtTop" by auto
  next
    fix j assume "busy (exec_status ?s j)" "holds p \<noteq> Some j"
    then show "exec_status s' j = exec_status ?s j" using starts_cases [OF st, of j] s0 at(2) by (auto split: if_splits)
  next
    fix j assume "\<not> busy (exec_status s' j)" "holds p = Some j \<or> exec_status s' j \<noteq> exec_status ?s j"
    then show "data_of env base txns S j (exec_status s' j) AtTop"
      using starts_cases [OF st, of j] s0 at(2) v by (auto split: if_splits)
  qed
qed

lemma data_finish:
  assumes at: "is_at l (Running (ExecutionTask (i, inc) None)) fin (Recorded outside) S"
    and inv: "data_ok env base txns S" "system_ok (p_sys S)"
    and call: "finish_execution i inc outside (p_sched S) = Some (t, s')"
  shows "data_ok env base txns (moved l (Running t) fin s' AtTop S)"
proof -
  note ok = ok_parts [OF inv(2)]
  have p: "i < num_txns (p_sched S)" "exec_status (p_sched S) i = Executing inc" using at_pc [OF at inv(2)] by auto
  have s': "frame (p_sched S) s'" "starts t (set_exec_status i (Executed inc) (p_sched S)) s'"
    using good_finish_execution [OF ok(1) p, of outside] call by auto
  show ?thesis
    by (rule data_starts [OF at _ inv _ s'(2)]) (use s'(1) data_okD(9) [OF inv(1) at, of i] p in \<open>simp_all add: frame_def\<close>)
qed

lemma tainted_stale: "tainted env h E outp inp j inc \<Longrightarrow> stale env E outp"
proof -
  assume "tainted env h E outp inp j inc"
  then obtain st where st: "outp = Some (user_error st)" "\<And>k. map_option cell (E k) = map_option cell (target env inc st k)"
    by (auto simp: tainted_def recorded_def)
  have "k \<in> status_keys (get_writes env) (get_deltas env) (user_error st)" if "E k \<noteq> None" for k
    using target_keys [of env inc st k] st(2) [of k] that by (cases "target env inc st k") auto
  with st(1) show ?thesis by (simp add: stale_def)
qed

lemma data_finish_abort:
  assumes at: "is_at l (Aborted (i, inc)) fin (Marking []) S" and inv: "data_ok env base txns S" "system_ok (p_sys S)"
    and call: "finish_abort i inc (p_sched S) = Some (t, s')"
  shows "data_ok env base txns (moved l (Running t) fin s' AtTop S)"
proof -
  have p: "i < num_txns (p_sched S)" "exec_status (p_sched S) i = Aborting inc"
    using at_pc [OF at inv(2)] by auto
  note fa = finish_abort_waves [OF inv(2) p call]
  have t: "tainted env (p_hist S) (ents (p_mv S) i) (outputs (p_io S) ! i) (inputs (p_io S) ! i) i inc"
    using data_okD(9) [OF inv(1) at, of i] p by simp
  then have "unrun (p_hist S) i (inc + 1)" by (simp add: tainted_def)
  with tainted_stale [OF t] show ?thesis
    by (intro data_starts [OF at _ inv fa(2,1)]) simp_all
qed

lemma settled_tainted: "settled env h E outp inp j inc \<Longrightarrow> tainted env h E outp inp j inc"
  by (auto simp: settled_def tainted_def)

lemma data_abort:
  assumes at: "is_at l (Running (ValidationTask (i, inc) w)) fin Failed S" and inv: "data_ok env base txns S" "system_ok (p_sys S)"
    and call: "try_abort i inc (p_sched S) = Some (True, s')"
  shows "data_ok env base txns (moved l (Aborted (i, inc)) fin s' (Marking ks) S)"
proof -
  let ?s = "p_sched S"
  have st: "exec_status ?s i = Executed inc" "s' = set_exec_status i (Aborting inc) ?s" "i < length (txn_status ?s)"
    using call by (auto simp: try_abort_def status_eq_iff split: if_splits)
  have ex: "exec_status s' = (exec_status ?s)(i := Aborting inc)" using st by (auto simp: fun_eq_iff)
  have i: "i < num_txns ?s" using ok_parts(1) [OF inv(2)] st(3) by (simp add: good_def sched_wf_def)
  have "settled env (p_hist S) (ents (p_mv S) i) (outputs (p_io S) ! i) (inputs (p_io S) ! i) i inc"
    using data_okD(7) [OF inv(1) i] st(1) by simp
  then show ?thesis
    by (intro data_moved [OF at inv]) (use ex st i in \<open>auto split: if_splits dest: settled_tainted\<close>)
qed

lemma data_commit:
  assumes at: "is_at 0 (Running t) fin AtTop S" and inv: "data_ok env base txns S" "system_ok (p_sys S)"
    and call: "try_commit locked (commit_state (p_sys S)) (p_sched S) = Some (r, cs, s')"
  shows "data_ok env base txns (S\<lparr>p_sys := (p_sys S)\<lparr>sched := s', commit_state := cs\<rparr>\<rparr>)"
proof -
  let ?s = "p_sched S"
  obtain c w where c: "commit_state (p_sys S) = (c, w)" by fastforce
  have ck: "c \<le> num_txns ?s" using inv(2) c by (simp add: system_ok_def commit_ok_def)
  have len: "length (txn_status ?s) = num_txns ?s" using ok_parts(1) [OF inv(2)] by (simp add: good_def sched_wf_def)
  note alt = try_commit_cases [OF call [unfolded c] ck]
  have n: "num_txns s' = num_txns ?s" using alt by auto
  have ex: "exec_status s' j = exec_status ?s j \<or> (\<exists>inc. exec_status ?s j = Executed inc \<and> exec_status s' j = Committed inc)" for j
    using alt len by auto
  have "data_ok env base txns (moved 0 (Running t) fin s' AtTop S)"
  proof (rule data_moved [OF at inv n])
    fix j assume "holds (Running t) = Some j"
    moreover from this have "busy (exec_status ?s j)"
      using pc_ok_holds [OF ok_parts(4) [OF inv(2)]] at by (auto simp: is_at_def)
    ultimately show "data_of env base txns S j (exec_status s' j) AtTop"
      using data_okD(9) [OF inv(1) at, of j] ex [of j] by auto
  next
    fix j assume "j < num_txns ?s" "holds (Running t) = Some j \<or> exec_status s' j \<noteq> exec_status ?s j" "\<not> busy (exec_status s' j)"
    moreover have "holds (Running t) = Some j \<Longrightarrow> busy (exec_status ?s j)"
      using pc_ok_holds [OF ok_parts(4) [OF inv(2)]] at by (auto simp: is_at_def)
    ultimately show "data_of env base txns S j (exec_status s' j) AtTop"
      using data_okD(7) [OF inv(1), of j] ex [of j] by auto
  next
    fix j assume "busy (exec_status ?s j)"
    then show "exec_status s' j = exec_status ?s j" using ex [of j] by auto
  qed
  then have "data_ok env base txns (S\<lparr>p_sys := (p_sys S)\<lparr>sched := s'\<rparr>\<rparr>)" unfolding moved_same [OF at] .
  then show ?thesis by (simp add: data_ok_def)
qed

lemma data_wait:
  assumes at: "is_at l (Running (ExecutionTask (i, inc) None)) fin ph S" and inv: "data_ok env base txns S" "system_ok (p_sys S)"
    and s': "num_txns s' = num_txns (p_sched S)" "exec_status s' = exec_status (p_sched S)"
  shows "data_ok env base txns (S\<lparr>p_sys := (p_sys S)\<lparr>sched := s'\<rparr>\<rparr>)"
proof -
  have p: "exec_status (p_sched S) i = Executing inc" using at_pc [OF at inv(2)] by auto
  show ?thesis
    unfolding moved_same [OF at]
    by (rule data_moved [OF at inv s'(1)]) (use s'(2) p data_okD(9) [OF inv(1) at] in auto)
qed

section \<open>Steps on the data\<close>

lemma at_holds:
  assumes "is_at l (Running (ExecutionTask (i, inc) None)) fin ph S" "data_ok env base txns S" "system_ok (p_sys S)"
  shows "exec_status (p_sched S) i = Executing inc" "i < num_txns (p_sched S)"
    "data_running env base txns (p_hist S) (ents (p_mv S) i) (outputs (p_io S) ! i) (inputs (p_io S) ! i) i inc ph"
  using at_pc [OF assms(1,3)] data_okD(9) [OF assms(2,1), of i] by simp_all

lemmas at_changed = data_changed [of _ "Running (ExecutionTask (i, inc) None)" _ _ _ i for i inc]

lemma data_read:
  assumes at: "is_at l (Running (ExecutionTask (i, inc) None)) fin (Reading (Get k f) captured) S"
    and inv: "data_ok env base txns S" "system_ok (p_sys S)"
    and rd: "read_round env (p_mv S) k i = Some (Answered d rr)" "mv_state_value env base k rr = Some a"
  shows "data_ok env base txns (set_phase l (Reading (f a) (captured @ [d])) S)"
proof -
  note h = at_holds [OF at inv]
  have "rd_path d = k \<and> answer_ok env (p_hist S) d rr"
    by (rule read_round_answer [OF data_okD(1,4) [OF inv(1)] rd(1)])
  moreover have "explained env base txns (p_hist S) i captured (Get k f)" using h(3) by simp
  ultimately have "explained env base txns (p_hist S) i (captured @ [d]) (f a)"
    unfolding explained_def using explains_read [OF _ _ _ rd(2)] by blast
  then show ?thesis
    by (intro at_changed [OF at _ inv]) (use h data_okD [OF inv(1)] in \<open>auto simp: same_history_def\<close>)
qed

lemma data_start:
  assumes at: "is_at l (Running (ExecutionTask (i, inc) None)) fin AtTop S" and inv: "data_ok env base txns S" "system_ok (p_sys S)"
  shows "data_ok env base txns (set_phase l (Reading (run_of env txns i p) []) S)"
  by (intro at_changed [OF at _ inv])
     (use at_holds [OF at inv] data_okD [OF inv(1)] explained_start [of env base txns "p_hist S" i p] in \<open>auto simp: same_history_def\<close>)

lemma updates_update_of: "u \<in> set (updates env (i, inc) st prev) \<Longrightarrow> update_of env (i, inc) st u"
  by (auto simp: updates_def update_of_def split: option.splits)

lemma finite_status_keys: "finite (status_keys gw gd st)"
  by (cases st) auto

lemma hist_ok_upd:
  assumes "hist_ok env base txns n h" "h (i, inc) = None" "i < n"
    "explained env base txns h i rs (Finished (Some st))"
  shows "hist_ok env base txns n (h((i, inc) \<mapsto> (st, rs)))"
proof -
  note g = grows_upd [of h "(i, inc)" "(st, rs)", OF assms(2)]
  show ?thesis
    unfolding hist_ok_def
  proof (intro allI impI)
    fix j inc' st' rs' assume a: "(h((i, inc) \<mapsto> (st, rs))) (j, inc') = Some (st', rs')"
    show "j < n \<and> explained env base txns (h((i, inc) \<mapsto> (st, rs))) j rs' (Finished (Some st'))"
    proof (cases "(j, inc') = (i, inc)")
      case True
      with a assms(3) explained_grows [OF assms(4) g] show ?thesis by auto
    next
      case False
      with a have "h (j, inc') = Some (st', rs')" by (auto split: if_splits)
      with assms(1) show ?thesis unfolding hist_ok_def by (blast intro: explained_grows [OF _ g])
    qed
  qed
qed

lemma writes_ok_grows: "writes_ok env h mv \<Longrightarrow> grows h h' \<Longrightarrow> writes_ok env h' mv"
  unfolding writes_ok_def grows_def by blast

lemma data_finish_run:
  assumes at: "is_at l (Running (ExecutionTask (i, inc) None)) fin (Reading (Finished (Some result)) captured) S"
    and inv: "data_ok env base txns S" "system_ok (p_sys S)" "keys_ok env txns"
    and prev: "modified_keys (get_writes env) (get_deltas env) i (p_io S) = Some prev"
  shows "data_ok env base txns (set_phase l (Publishing (updates env (i, inc) result prev) outside result captured)
      (S\<lparr>p_hist := (p_hist S)((i, inc) \<mapsto> (result, captured))\<rparr>))"
proof -
  note h = at_holds [OF at inv(1,2)]
  let ?h = "(p_hist S)((i, inc) \<mapsto> (result, captured))"
  have p: "explained env base txns (p_hist S) i captured (Finished (Some result))"
    and st: "stale env (ents (p_mv S) i) (outputs (p_io S) ! i)" and un: "unrun (p_hist S) i inc"
    using h(3) by simp_all
  have none: "p_hist S (i, inc) = None" using un by (simp add: unrun_def)
  have pr: "prev = (case outputs (p_io S) ! i of None \<Rightarrow> {} | Some st \<Rightarrow> status_keys (get_writes env) (get_deltas env) st)"
    using prev by (auto simp: modified_keys_def split: if_splits)
  then have "finite prev" "\<And>k. ents (p_mv S) i k \<noteq> None \<Longrightarrow> k \<in> prev"
    using st finite_status_keys by (auto simp: stale_def split: option.split)
  moreover have "walks_sets env" "distinct_keys env result"
    using inv(3) explained_leaves [OF p] h(2) data_okD(8) [OF inv(1)] by (auto simp: keys_ok_def)
  ultimately have "fold ent_upd (updates env (i, inc) result prev) (ents (p_mv S) i) = target env inc result"
    by (intro fold_updates) simp_all
  then have mine: "data_running env base txns ?h (ents (p_mv S) i) (outputs (p_io S) ! i) (inputs (p_io S) ! i) i inc
      (Publishing (updates env (i, inc) result prev) outside result captured)"
    using updates_update_of un by (auto simp: unrun_def)
  note g = grows_upd [of "p_hist S" "(i, inc)" "(result, captured)", OF none]
  show ?thesis
  proof (rule at_changed [OF at _ inv(1,2)])
    show "writes_ok env (p_hist (set_phase l (Publishing (updates env (i, inc) result prev) outside result captured) (S\<lparr>p_hist := ?h\<rparr>)))
      (p_mv (set_phase l (Publishing (updates env (i, inc) result prev) outside result captured) (S\<lparr>p_hist := ?h\<rparr>)))"
      using writes_ok_grows [OF data_okD(4) [OF inv(1)] g] by simp
  qed (use data_okD [OF inv(1)] g hist_ok_upd [OF data_okD(5) [OF inv(1)] none h(2) p] h(1) mine
       in \<open>auto simp: same_history_def\<close>)
qed

lemma ent_upd_write:
  assumes "ent_upd u E k = Some e" "cell e = CWrite inc v"
  shows "(\<exists>e'. E k = Some e' \<and> cell e' = CWrite inc v) \<or> (\<exists>j. u = UWrite k (j, inc) v)"
  using assms
  by (cases u) (auto simp: new_write_from_def new_delta_from_def entry_mark_estimate_def split: if_splits)

lemma writes_ok_apply:
  assumes "mv_wf mv" "mv_apply u mv = Some mv'" "writes_ok env h mv"
    "\<And>k j inc v. u = UWrite k (j, inc) v \<Longrightarrow>
       \<exists>st rs out. h (j, inc) = Some (st, rs) \<and> status_output st = Some out \<and> (k, v) \<in> set (get_writes env out)"
  shows "writes_ok env h mv'"
  unfolding writes_ok_def
proof (intro allI impI)
  fix j k e inc v assume a: "ents mv' j k = Some e \<and> cell e = CWrite inc v"
  then consider "\<exists>e'. ents mv j k = Some e' \<and> cell e' = CWrite inc v" | j' where "u = UWrite k (j', inc) v" "j = writer u"
    using ents_mv_apply [OF assms(1,2), of j] ent_upd_write [of u "ents mv j" k e inc v] by (cases "j = writer u") auto
  then show "\<exists>st rs out. h (j, inc) = Some (st, rs) \<and> status_output st = Some out \<and> (k, v) \<in> set (get_writes env out)"
  proof cases
    case 1
    with assms(3) show ?thesis unfolding writes_ok_def by blast
  next
    case 2
    with assms(4) show ?thesis by simp
  qed
qed

lemma data_publish:
  assumes at: "is_at l (Running (ExecutionTask (i, inc) None)) fin (Publishing (u # us) outside result captured) S"
    and inv: "data_ok env base txns S" "system_ok (p_sys S)" and upd: "mv_apply u (p_mv S) = Some mv"
  shows "data_ok env base txns (set_phase l (Publishing us outside result captured) (S\<lparr>p_mv := mv\<rparr>))"
proof -
  note h = at_holds [OF at inv] and d = data_okD [OF inv(1)]
  have u: "update_of env (i, inc) result u" "p_hist S (i, inc) = Some (result, captured)" using h(3) by simp_all
  then have w: "writer u = i" by (simp add: update_of_def)
  note e = ents_mv_apply [OF d(1) upd, unfolded w]
  have ok: "writes_ok env (p_hist S) mv"
    by (rule writes_ok_apply [OF d(1) upd d(4)]) (use u in \<open>auto simp: update_of_def\<close>)
  have mine: "data_running env base txns (p_hist S) (ents mv i) (outputs (p_io S) ! i) (inputs (p_io S) ! i) i inc
      (Publishing us outside result captured)"
    using h(3) e [of i] by simp
  show ?thesis
    by (rule at_changed [OF at _ inv]) (use d e mv_apply_wf [OF d(1) upd] ok mine h(1) in \<open>auto simp: same_history_def\<close>)
qed

lemma io_record_fields:
  assumes "io_record pf gw i input outp io = Some io'"
  shows "inputs io' = (inputs io)[i := Some input]" "outputs io' = (outputs io)[i := Some outp]"
    "i < length (inputs io)" "i < length (outputs io)"
  using assms by (auto simp: io_record_def Let_def split: if_splits)

lemma data_record:
  assumes at: "is_at l (Running (ExecutionTask (i, inc) None)) fin (Publishing [] outside result captured) S"
    and inv: "data_ok env base txns S" "system_ok (p_sys S)"
    and io: "io_record (path_of env) (get_writes env) i captured (user_error result) (p_io S) = Some io"
  shows "data_ok env base txns (set_phase l (Recorded outside) (S\<lparr>p_io := io\<rparr>))"
proof -
  note h = at_holds [OF at inv] and d = data_okD [OF inv(1)] and f = io_record_fields [OF io]
  have "settled env (p_hist S) (ents (p_mv S) i) (outputs io ! i) (inputs io ! i) i inc"
    using h(3) f by (simp add: settled_def recorded_def)
  then show ?thesis
    by (intro at_changed [OF at _ inv]) (use d f h(1) in \<open>auto simp: same_history_def\<close>)
qed

lemma data_mark:
  assumes at: "is_at l (Aborted (i, inc)) fin (Marking (k # ks)) S" and inv: "data_ok env base txns S" "system_ok (p_sys S)"
    and upd: "mark_estimate k i (p_mv S) = Some mv"
  shows "data_ok env base txns (set_phase l (Marking ks) (S\<lparr>p_mv := mv\<rparr>))"
proof -
  note d = data_okD [OF inv(1)]
  have st: "exec_status (p_sched S) i = Aborting inc" using at_pc [OF at inv(2)] by simp
  have apply_eq: "mv_apply (UEstimate k i) (p_mv S) = Some mv" using upd by simp
  note e = ents_mv_apply [OF d(1) apply_eq]
  have ok: "writes_ok env (p_hist S) mv" by (rule writes_ok_apply [OF d(1) apply_eq d(4)]) simp
  have "tainted env (p_hist S) (ents (p_mv S) i) (outputs (p_io S) ! i) (inputs (p_io S) ! i) i inc"
    using data_okD(9) [OF inv(1) at, of i] st by simp
  moreover have "map_option cell (ents mv i k') = map_option cell (ents (p_mv S) i k')" for k'
    using e [of i] by (cases "ents (p_mv S) i k'") (auto simp: entry_mark_estimate_def)
  ultimately have mine: "tainted env (p_hist S) (ents mv i) (outputs (p_io S) ! i) (inputs (p_io S) ! i) i inc"
    by (simp add: tainted_def)
  show ?thesis
    by (rule data_changed [OF at _ inv]) (use d e mv_apply_wf [OF d(1) apply_eq] ok mine st in \<open>auto simp: same_history_def\<close>)
qed

section \<open>Every step keeps the invariant\<close>

theorem pstep_data_ok:
  assumes "pstep env base txns S S'" "system_ok (p_sys S)" "data_ok env base txns S" "keys_ok env txns"
  shows "data_ok env base txns S'"
  using assms
proof (induction rule: pstep.induct)
  case (p_wait l i inc fin k f captured S dep r s)
  have "frame (p_sched S) s \<and> exec_status s = exec_status (p_sched S)"
    using good_push_child [OF ok_parts(1) [OF p_wait(4)], of dep i s] at_pc [OF p_wait(1,4)] p_wait(3) waiting_below [OF p_wait(2)]
    by (auto simp: wait_for_dependency_def)
  then show ?case by (intro data_wait [OF p_wait(1,5,4)]) (auto simp: frame_def)
next
  case (p_valid l i inc w fin S s)
  then show ?case
    by (intro data_quiet [OF p_valid(1,4,3)]) (auto simp: finish_validation_def Let_def split: if_splits)
next
  case (p_too_late l i inc w fin S s)
  then show ?case
    by (intro data_quiet [OF p_too_late(1,5,4)]) (auto simp: finish_validation_def Let_def split: if_splits)
next
  case (p_mark_prologue l i inc fin r captured S pm)
  then show ?case by (intro data_wait [OF p_mark_prologue(1,3,2)]) auto
next
  case (p_side_task l t fin S p_idx pm)
  then show ?case by (intro data_quiet [OF p_side_task(1,4,3)]) auto
next
  case (p_look l idx fin S)
  then show ?case by (intro data_quiet [OF p_look(1,3,2)]) (auto split: option.split)
qed (auto intro: data_commit data_next_task data_lock data_take data_quiet data_start data_read data_finish_run data_publish data_record
      data_finish data_phase data_abort data_mark data_finish_abort)

lemma data_ok_new:
  assumes "scheduler_new n deps gas conc md pmap = Some s" "n = length txns"
  shows "data_ok env base txns (psystem_new num_workers n s)"
proof -
  have s: "num_txns s = n" "txn_status s = replicate n (ReadyToExecute 0 None, validation_status_new)"
    using assms by (auto simp: scheduler_new_def split: if_splits option.splits)
  have "exec_status s j = ReadyToExecute 0 None" if "j < n" for j using that s(2) by (simp add: exec_status_def)
  moreover have "ents mv_new j = Map.empty" for j by (simp add: ents_def mv_new_def fun_eq_iff)
  ultimately show ?thesis
    using s(1) mv_wf_new assms(2)
    by (auto simp: data_ok_def psystem_new_def system_new_def io_new_def writes_ok_def hist_ok_def stale_def unrun_def)
qed

end
