(* ===== verification/ParallelValidity.thy ===== *)
theory ParallelValidity
  imports ParallelData
begin

text \<open>
  What validation achieves in the parallel executor: a validation that no later wave has overtaken
  compares the reads with entries that have not changed since, so that every committed transaction
  has reads that are valid now, and stay valid.
\<close>

section \<open>Valid reads\<close>

definition aborting :: "scheduler \<Rightarrow> txn_index \<Rightarrow> bool" where
  "aborting s j \<longleftrightarrow> (\<exists>inc. exec_status s j = Aborting inc)"

definition reads_valid ::
  "('t, 'k, 'v, 'o, 'e, 'x) executor_task \<Rightarrow> ('k, 'v) mvhashmap \<Rightarrow> ('k, 'o, 'e) txn_last_input_output \<Rightarrow> txn_index \<Rightarrow> bool" where
  "reads_valid env mv io i \<longleftrightarrow> (\<exists>rs. inputs io ! i = Some rs \<and> all_valid env mv i rs)"

definition check_ok ::
  "('t, 'k, 'v, 'o, 'e, 'x) executor_task \<Rightarrow> scheduler \<Rightarrow> ('k, 'v) mvhashmap \<Rightarrow> ('k, 'o, 'e) txn_last_input_output
    \<Rightarrow> txn_index \<Rightarrow> 'k read_descriptor list \<Rightarrow> bool" where
  "check_ok env s mv io i rest \<longleftrightarrow> (\<exists>checked. inputs io ! i = Some (checked @ rest)
     \<and> ((\<forall>j < i. \<not> aborting s j) \<longrightarrow> all_valid env mv i checked))"

definition task_ok ::
  "('t, 'k, 'v, 'o, 'e, 'x) executor_task \<Rightarrow> scheduler \<Rightarrow> ('k, 'v) mvhashmap \<Rightarrow> ('k, 'o, 'e) txn_last_input_output
    \<Rightarrow> pc \<Rightarrow> ('k, 'v, 'o, 'e, 'x) phase \<Rightarrow> bool" where
  "task_ok env s mv io p ph \<longleftrightarrow> (\<forall>i inc w rest.
     p = Running (ValidationTask (i, inc) w) \<and> ph = Checking rest \<and> fresh s i w \<longrightarrow> check_ok env s mv io i rest)"

definition valid_ok :: "('t, 'k, 'v, 'o, 'e, 'x) executor_task \<Rightarrow> ('k, 'v, 'o, 'e, 'x) psystem \<Rightarrow> bool" where
  "valid_ok env S \<longleftrightarrow>
     (\<forall>l < length (workers (p_sys S)). task_ok env (p_sched S) (p_mv S) (p_io S) (wpc (workers (p_sys S) ! l)) (p_phase S l))
     \<and> (\<forall>i < num_txns (p_sched S). \<forall>w. validated (p_sched S) i = Some w \<and> fresh (p_sched S) i w
          \<and> (\<forall>j \<le> i. \<not> aborting (p_sched S) j) \<longrightarrow> reads_valid env (p_mv S) (p_io S) i)
     \<and> (\<forall>i < num_txns (p_sched S). is_committed (p_sched S) i \<longrightarrow> reads_valid env (p_mv S) (p_io S) i)"

lemma valid_okD:
  assumes "valid_ok env S"
  shows "is_at l p fin ph S \<Longrightarrow> task_ok env (p_sched S) (p_mv S) (p_io S) p ph"
    "i < num_txns (p_sched S) \<Longrightarrow> validated (p_sched S) i = Some w \<Longrightarrow> fresh (p_sched S) i w \<Longrightarrow>
       (\<And>j. j \<le> i \<Longrightarrow> \<not> aborting (p_sched S) j) \<Longrightarrow> reads_valid env (p_mv S) (p_io S) i"
    "i < num_txns (p_sched S) \<Longrightarrow> is_committed (p_sched S) i \<Longrightarrow> reads_valid env (p_mv S) (p_io S) i"
  using assms by (auto simp: valid_ok_def is_at_def worker_at_def)

section \<open>Steps with the scheduler\<close>

text \<open>Steps that leave the validation statuses alone and give back no aborted transaction.\<close>

definition calm :: "scheduler \<Rightarrow> scheduler \<Rightarrow> bool" where
  "calm s s' \<longleftrightarrow> num_txns s' = num_txns s \<and> (\<forall>j. val_status s' j = val_status s j)
     \<and> (\<forall>j. aborting s j \<longrightarrow> aborting s' j) \<and> (\<forall>j. is_committed s' j = is_committed s j)"

lemma calm_simps:
  assumes "calm s s'"
  shows "num_txns s' = num_txns s" "trig s' j = trig s j" "validated s' j = validated s j" "fresh s' j w = fresh s j w"
    "aborting s j \<Longrightarrow> aborting s' j" "is_committed s' j = is_committed s j"
  using assms by (simp_all add: calm_def trig_def validated_def fresh_def)

lemma task_ok_weaken:
  assumes "task_ok env s mv io p ph" "\<And>i w. fresh s' i w \<Longrightarrow> fresh s i w" "\<And>j. aborting s j \<Longrightarrow> aborting s' j"
  shows "task_ok env s' mv io p ph"
  unfolding task_ok_def
proof (intro allI impI)
  fix i inc w rest assume a: "p = Running (ValidationTask (i, inc) w) \<and> ph = Checking rest \<and> fresh s' i w"
  with assms(1,2) have "check_ok env s mv io i rest" by (auto simp: task_ok_def)
  with assms(3) show "check_ok env s' mv io i rest" unfolding check_ok_def by blast
qed

lemma valid_moved:
  assumes at: "is_at l p fin ph S" and inv: "valid_ok env S" and s': "calm (p_sched S) s'"
    and mine: "task_ok env s' (p_mv S) (p_io S) p' ph'"
  shows "valid_ok env (moved l p' fin' s' ph' S)"
proof -
  let ?w = "workers (p_sys S)"
  note c = calm_simps [OF s']
  have "task_ok env s' (p_mv S) (p_io S) (wpc (?w[l := \<lparr>wpc = p', finished_val_flag = fin'\<rparr>] ! m)) (((p_phase S)(l := ph')) m)"
    if "m < length ?w" for m
  proof (cases "m = l")
    case True
    with that mine show ?thesis by simp
  next
    case False
    have "task_ok env (p_sched S) (p_mv S) (p_io S) (wpc (?w ! m)) (p_phase S m)"
      using inv that by (simp add: valid_ok_def)
    from task_ok_weaken [OF this, of s'] c(4,5) False show ?thesis by simp
  qed
  moreover have "reads_valid env (p_mv S) (p_io S) i"
    if "i < num_txns (p_sched S)" "validated (p_sched S) i = Some w" "fresh (p_sched S) i w" "\<forall>j \<le> i. \<not> aborting s' j" for i w
    using valid_okD(2) [OF inv that(1-3)] that(4) c(5) by blast
  ultimately show ?thesis
    using inv c by (simp add: valid_ok_def set_worker_def)
qed

lemma task_ok_trivial [simp]:
  "task_ok env s mv io p AtTop" "task_ok env s mv io p Failed" "task_ok env s mv io p (Marking ks)"
  "task_ok env s mv io p (Reading r c)"
  by (simp_all add: task_ok_def)

lemma starts_aborting: "starts t s s' \<Longrightarrow> aborting s' j = aborting s j"
  by (drule starts_cases [of t s s' j]) (unfold aborting_def, metis execution_status.distinct)

lemma calm_starts:
  "starts t s s' \<Longrightarrow> num_txns s' = num_txns s \<Longrightarrow> (\<And>j. val_status s' j = val_status s j) \<Longrightarrow> calm s s'"
  by (simp add: calm_def starts_aborting starts_committed)

lemma calm_same:
  "exec_status s' = exec_status s \<Longrightarrow> num_txns s' = num_txns s \<Longrightarrow> (\<And>j. val_status s' j = val_status s j) \<Longrightarrow> calm s s'"
  by (simp add: calm_def aborting_def is_committed_def)

lemma valid_next_task:
  assumes at: "is_at l (Running NoTask) fin AtTop S" and inv: "valid_ok env S" "system_ok (p_sys S)"
    and call: "next_task False fin (p_sched S) = Some (t, fin', s')"
  shows "valid_ok env (moved l (Running t) fin' s' AtTop S)"
proof -
  let ?s = "p_sched S"
  have "num_txns s' = num_txns ?s" "\<And>k. val_status s' k = val_status ?s k"
    "t = Done \<and> s' = ?s \<or> starts t ?s s'"
    using good_next_task [OF ok_parts(1) [OF inv(2)] call] by (auto simp: frame_def)
  then have "calm ?s s'" by (auto intro: calm_starts calm_same)
  then show ?thesis by (rule valid_moved [OF at inv(1)]) simp
qed

lemma valid_lock:
  assumes at: "is_at l (Running NoTask) False AtTop S" and inv: "valid_ok env S" "system_ok (p_sys S)"
    and call: "try_exec (p_sched S) = Some (NoTask, s')"
  shows "valid_ok env (moved l Locked False s' AtTop S)"
  using good_try_exec [OF ok_parts(1) [OF inv(2)]] call
  by (intro valid_moved [OF at inv(1)]) (auto simp: frame_def starts_def intro: calm_same)

lemma valid_take:
  assumes at: "is_at l (Checked idx inc) fin AtTop S" and inv: "valid_ok env S" "system_ok (p_sys S)"
    and call: "take_validation inc (p_sched S) = ((ver, w), s')"
  shows "valid_ok env (moved l (Running (ValidationTask ver w)) fin s' AtTop S)"
proof -
  have "val_idx (p_sched S) < num_txns (p_sched S)" using at_pc [OF at inv(2)] by auto
  note t = good_take_validation [OF ok_parts(1) [OF inv(2)] this call]
  show ?thesis by (rule valid_moved [OF at inv(1) calm_same]) (simp_all add: t(5,7,8))
qed

lemma valid_finish:
  assumes at: "is_at l (Running (ExecutionTask (i, inc) None)) fin ph S" and inv: "valid_ok env S" "system_ok (p_sys S)"
    and call: "finish_execution i inc outside (p_sched S) = Some (t, s')"
  shows "valid_ok env (moved l (Running t) fin s' AtTop S)"
proof -
  let ?s = "p_sched S" and ?mid = "set_exec_status i (Executed inc) (p_sched S)"
  note ok = ok_parts [OF inv(2)]
  have p: "i < num_txns ?s" "exec_status ?s i = Executing inc" using at_pc [OF at inv(2)] by simp_all
  have s': "frame ?s s'" "starts t ?mid s'" using good_finish_execution [OF ok(1) p, of outside] call by auto
  have len: "i < length (txn_status ?s)" using ok(1) p(1) by (simp add: good_def sched_wf_def)
  have "exec_status ?mid = (exec_status ?s)(i := Executed inc)" using len by (auto simp: fun_eq_iff)
  then have "calm ?s ?mid" using p(2) by (simp add: calm_def aborting_def is_committed_def)
  moreover have "calm ?mid s'" using s' calm_starts [OF s'(2)] by (simp add: frame_def)
  ultimately have "calm ?s s'" by (simp add: calm_def)
  then show ?thesis by (rule valid_moved [OF at inv(1)]) simp
qed

lemma valid_abort:
  assumes at: "is_at l p fin ph S" and inv: "valid_ok env S"
    and call: "try_abort i inc (p_sched S) = Some (True, s')"
  shows "valid_ok env (moved l (Aborted (i, inc)) fin s' (Marking ks) S)"
proof -
  have "s' = set_exec_status i (Aborting inc) (p_sched S)" "exec_status (p_sched S) i = Executed inc"
      "i < length (txn_status (p_sched S))"
    using call by (auto simp: try_abort_def status_eq_iff split: if_splits)
  then have "calm (p_sched S) s'" by (auto simp: calm_def aborting_def is_committed_def)
  then show ?thesis by (rule valid_moved [OF at inv]) simp
qed

text \<open>Giving back transaction \<open>i\<close> leaves only the validations below \<open>i\<close> fresh.\<close>

lemma valid_finish_abort:
  assumes at: "is_at l (Aborted (i, inc)) fin ph S" and inv: "valid_ok env S" "system_ok (p_sys S)" "wave_ok (p_sys S)"
    and call: "finish_abort i inc (p_sched S) = Some (t, s')"
  shows "valid_ok env (moved l (Running t) fin s' AtTop S)"
proof -
  let ?s = "p_sched S" and ?mid = "set_exec_status i (ReadyToExecute (inc + 1) None) (p_sched S)"
    and ?w = "workers (p_sys S)"
  have p: "i < num_txns ?s" "exec_status ?s i = Aborting inc" using at_pc [OF at inv(2)] by simp_all
  note fa = finish_abort_waves [OF inv(2) p call] and ff = finish_abort_fresh [OF inv(2) p call]
  have len: "i < length (txn_status ?s)" using ok_parts(1) [OF inv(2)] p(1) by (simp add: good_def sched_wf_def)
  have s0: "exec_status ?mid = (exec_status ?s)(i := ReadyToExecute (inc + 1) None)" using len by (auto simp: fun_eq_iff)
  have ab: "aborting s' j = aborting ?s j" if "j \<noteq> i" for j
    using starts_aborting [OF fa(1), of j] s0 that by (simp add: aborting_def)
  have com: "is_committed s' j = is_committed ?s j" for j
    using starts_committed [OF fa(1), of j] s0 p(2) by (simp add: is_committed_def)
  have task: "task_ok env s' (p_mv S) (p_io S) q ph'" if "task_ok env ?s (p_mv S) (p_io S) q ph'" "task_fresh ?s q" for q ph'
    unfolding task_ok_def
  proof (intro allI impI)
    fix m inc' w rest
    assume a: "q = Running (ValidationTask (m, inc') w) \<and> ph' = Checking rest \<and> fresh s' m w"
    with that(2) have w: "w \<le> cur_wave ?s" "fresh ?s m w \<Longrightarrow> m < val_idx ?s" by (simp_all add: task_fresh_def)
    have m: "m < i" "fresh ?s m w" using ff(1,2) [OF w] a by blast+
    then have "check_ok env ?s (p_mv S) (p_io S) m rest" using that(1) a by (simp add: task_ok_def)
    with m(1) ab show "check_ok env s' (p_mv S) (p_io S) m rest" by (simp add: check_ok_def)
  qed
  have "task_ok env s' (p_mv S) (p_io S) (wpc (?w[l := \<lparr>wpc = Running t, finished_val_flag = fin\<rparr>] ! m)) (((p_phase S)(l := AtTop)) m)"
    if "m < length ?w" for m
    using that task [of "wpc (?w ! m)" "p_phase S m"] inv(1,3) by (cases "m = l") (simp_all add: valid_ok_def wave_ok_def)
  moreover have "reads_valid env (p_mv S) (p_io S) m"
    if m: "m < num_txns ?s" "validated ?s m = Some w" "fresh s' m w" "\<forall>j \<le> m. \<not> aborting s' j" for m w
  proof -
    note w = wave_okD(3) [OF inv(3) m(1,2)] wave_okD(4) [OF inv(3) m(1,2)]
    have "m < i" "fresh ?s m w" using ff(1,2) [OF w m(3)] by simp_all
    with valid_okD(2) [OF inv(1) m(1,2)] m(4) ab show ?thesis by simp
  qed
  ultimately show ?thesis
    using inv(1) fa(2,4) com by (simp add: valid_ok_def set_worker_def)
qed

lemma valid_commit:
  assumes at: "is_at 0 (Running t) fin AtTop S" and inv: "valid_ok env S" "system_ok (p_sys S)" "commit_waves (p_sys S)"
    and call: "try_commit locked (commit_state (p_sys S)) (p_sched S) = Some (r, cs, s')"
  shows "valid_ok env (S\<lparr>p_sys := (p_sys S)\<lparr>sched := s', commit_state := cs\<rparr>\<rparr>)"
proof -
  let ?s = "p_sched S"
  obtain c w where c: "commit_state (p_sys S) = (c, w)" by fastforce
  have ck: "c \<le> num_txns ?s" "\<And>i. i < num_txns ?s \<Longrightarrow> is_committed ?s i = (i < c)"
    using inv(2) c by (simp_all add: system_ok_def commit_ok_def)
  have len: "length (txn_status ?s) = num_txns ?s" using ok_parts(1) [OF inv(2)] by (simp add: good_def sched_wf_def)
  note alt = try_commit_cases [OF call [unfolded c] ck(1)]
  show ?thesis
  proof (cases "exec_status s' = exec_status ?s")
    case True
    then have "calm ?s s'" using alt by (intro calm_same) auto
    then have "valid_ok env (moved 0 (Running t) fin s' AtTop S)" by (rule valid_moved [OF at inv(1)]) simp
    then have "valid_ok env (S\<lparr>p_sys := (p_sys S)\<lparr>sched := s'\<rparr>\<rparr>)" unfolding moved_same [OF at] .
    then show ?thesis by (simp add: valid_ok_def)
  next
    case False
    then obtain w' inc where s': "c < num_txns ?s" "exec_status ?s c = Executed inc" "cs = (c + 1, w')"
        "s' = set_exec_status c (Committed inc) ?s"
      using alt by auto
    have "c < length (txn_status ?s)" using s'(1) len by simp
    from try_commit_wave [OF call [unfolded c] this] s'(3)
    obtain v where v: "validated ?s c = Some v" "max w (trig ?s c) \<le> v" by auto
    have "trig ?s j \<le> v" if "j \<le> c" for j
      using inv(3) c v(2) that by (cases "j = c") (auto simp: commit_waves_def dest!: spec [of _ j] intro: order_trans)
    then have fr: "fresh ?s c v" by (simp add: fresh_def)
    have "\<not> aborting ?s j" if "j \<le> c" for j
      using ck(2) [of j] s'(1,2) that by (cases "j = c") (auto simp: aborting_def is_committed_def)
    with valid_okD(2) [OF inv(1) s'(1) v(1) fr] have new: "reads_valid env (p_mv S) (p_io S) c" by blast
    have st: "aborting s' j = aborting ?s j" "is_committed s' j = (j = c \<or> is_committed ?s j)"
        "trig s' j = trig ?s j" "validated s' j = validated ?s j" "num_txns s' = num_txns ?s" for j
      using s' len by (auto simp: aborting_def is_committed_def trig_def validated_def)
    have fs: "fresh s' j w = fresh ?s j w" for j w by (simp add: fresh_def st(3))
    have task: "task_ok env s' (p_mv S) (p_io S) q ph = task_ok env ?s (p_mv S) (p_io S) q ph" for q ph
      by (simp add: task_ok_def check_ok_def fs st(1))
    from new inv(1) show ?thesis by (auto simp: valid_ok_def task fs st)
  qed
qed

lemma valid_validated:
  assumes at: "is_at l (Running (ValidationTask (i, inc) w)) fin ph S" and inv: "valid_ok env S" "system_ok (p_sys S)"
    and call: "finish_validation i w (p_sched S) = Some s'"
    and now: "fresh (p_sched S) i w \<Longrightarrow> (\<And>j. j \<le> i \<Longrightarrow> \<not> aborting (p_sched S) j) \<Longrightarrow> reads_valid env (p_mv S) (p_io S) i"
  shows "valid_ok env (moved l (Running NoTask) fin s' AtTop S)"
proof -
  let ?s = "p_sched S"
  have i: "i < num_txns ?s" using at_pc [OF at inv(2)] by simp
  have len: "i < length (txn_status ?s)" using ok_parts(1) [OF inv(2)] i by (simp add: good_def sched_wf_def)
  define v where "v = (case validated ?s i of None \<Rightarrow> w | Some prev \<Rightarrow> max prev w)"
  have s': "s' = set_val_status i ((val_status ?s i)\<lparr>maybe_max_validated_wave := Some v\<rparr>) ?s"
    using call by (simp add: finish_validation_def Let_def v_def validated_def split: if_splits)
  have st: "trig s' j = trig ?s j" "exec_status s' = exec_status ?s" "num_txns s' = num_txns ?s"
      "validated s' j = (if j = i then Some v else validated ?s j)" for j
    using len by (auto simp: s' trig_def validated_def fun_eq_iff)
  have fs: "fresh s' j w = fresh ?s j w" for j w by (simp add: fresh_def st(1))
  have same: "aborting s' j = aborting ?s j" "is_committed s' j = is_committed ?s j" for j
    by (simp_all add: aborting_def is_committed_def st(2))
  have task: "task_ok env s' (p_mv S) (p_io S) q ph = task_ok env ?s (p_mv S) (p_io S) q ph" for q ph
    by (simp add: task_ok_def check_ok_def fs same)
  have "reads_valid env (p_mv S) (p_io S) i" if "fresh ?s i v" "\<forall>j \<le> i. \<not> aborting ?s j"
    using that now valid_okD(2) [OF inv(1) i] by (auto simp: v_def max_def split: option.splits if_splits)
  then have "valid_ok env (S\<lparr>p_sys := (p_sys S)\<lparr>sched := s'\<rparr>\<rparr>)"
    using inv(1) by (simp add: valid_ok_def fs same st task)
  moreover have "is_at l (Running (ValidationTask (i, inc) w)) fin ph (S\<lparr>p_sys := (p_sys S)\<lparr>sched := s'\<rparr>\<rparr>)"
    using at by (simp add: is_at_def worker_at_def)
  ultimately have "valid_ok env (moved l (Running NoTask) fin s' AtTop (S\<lparr>p_sys := (p_sys S)\<lparr>sched := s'\<rparr>\<rparr>))"
    by (intro valid_moved) (auto simp: calm_def)
  then show ?thesis by (simp add: moved_def set_phase_def set_worker_def)
qed

section \<open>Steps on the data\<close>

text \<open>Nothing fresh or committed lies at or above a transaction that is being executed, and nothing
  committed above one that is being aborted.\<close>

lemma below_busy:
  assumes "system_ok \<sigma>" "j \<le> i" "i < num_txns (sched \<sigma>)"
  shows "wave_ok \<sigma> \<Longrightarrow> exec_status (sched \<sigma>) j = Executing inc \<Longrightarrow> \<not> i < val_idx (sched \<sigma>)"
    "busy (exec_status (sched \<sigma>) j) \<Longrightarrow> \<not> is_committed (sched \<sigma>) i"
proof -
  show "\<not> i < val_idx (sched \<sigma>)" if "wave_ok \<sigma>" "exec_status (sched \<sigma>) j = Executing inc"
    using wave_okD(5) [OF that(1), of j] assms(2) that(2) by auto
  show "\<not> is_committed (sched \<sigma>) i" if "busy (exec_status (sched \<sigma>) j)"
  proof
    assume "is_committed (sched \<sigma>) i"
    then have "is_committed (sched \<sigma>) j" using assms unfolding system_ok_def commit_ok_def by simp
    with that show False by (auto simp: is_committed_def split: execution_status.splits)
  qed
qed

text \<open>The holder of \<open>j\<close> changes entries or recorded reads of \<open>j\<close>.\<close>

lemma valid_changed:
  assumes at: "is_at l p fin ph S" "holds p = Some j" and inv: "valid_ok env S" "system_ok (p_sys S)" "wave_ok (p_sys S)"
    and sys: "p_sys S' = p_sys S" "\<And>m. m \<noteq> l \<Longrightarrow> p_phase S' m = p_phase S m"
    and keep: "\<And>i rs. i \<le> j \<Longrightarrow> all_valid env (p_mv S') i rs = all_valid env (p_mv S) i rs"
    and inp: "\<And>i. i \<noteq> j \<Longrightarrow> inputs (p_io S') ! i = inputs (p_io S) ! i"
    and own: "inputs (p_io S') ! j = inputs (p_io S) ! j \<or> (\<exists>inc. exec_status (p_sched S) j = Executing inc)"
  shows "valid_ok env S'"
proof -
  let ?s = "p_sched S" and ?w = "workers (p_sys S)"
  have l: "l < length ?w" "wpc (?w ! l) = p" using at(1) by (auto simp: is_at_def worker_at_def)
  have b: "busy (exec_status ?s j)" using pc_ok_holds [OF at_pc [OF at(1) inv(2)] at(2)] by simp
  then have kind: "(\<exists>inc. exec_status ?s j = Executing inc) \<or> aborting ?s j"
    by (cases "exec_status ?s j") (auto simp: aborting_def)
  have same: "inputs (p_io S') ! i = inputs (p_io S) ! i" "all_valid env (p_mv S') i rs = all_valid env (p_mv S) i rs"
    if "i < j \<or> i = j \<and> \<not> (\<exists>inc. exec_status ?s j = Executing inc)" for i rs
    using that inp keep own by auto
  have task: "task_ok env ?s (p_mv S') (p_io S') q ph'" if t: "task_ok env ?s (p_mv S) (p_io S) q ph'"
      "task_fresh ?s q" "pc_ok ?s fin' q" for q ph' fin'
    unfolding task_ok_def
  proof (intro allI impI)
    fix i inc w rest assume a: "q = Running (ValidationTask (i, inc) w) \<and> ph' = Checking rest \<and> fresh ?s i w"
    with t have c: "check_ok env ?s (p_mv S) (p_io S) i rest" "i < val_idx ?s" "i < num_txns ?s"
      by (auto simp: task_ok_def task_fresh_def)
    show "check_ok env ?s (p_mv S') (p_io S') i rest"
    proof (cases "i < j \<or> i = j \<and> \<not> (\<exists>inc. exec_status ?s j = Executing inc)")
      case True
      with c(1) show ?thesis by (simp add: check_ok_def same)
    next
      case False
      then have "j \<le> i" by auto
      with below_busy(1) [OF inv(2) this c(3) inv(3)] c(2) kind False have "aborting ?s j" "j < i" by (metis le_neq_implies_less)+
      with c(1) inp [of i] show ?thesis by (auto simp: check_ok_def)
    qed
  qed
  have "task_ok env ?s (p_mv S') (p_io S') (wpc (?w ! m)) (p_phase S' m)" if m: "m < length ?w" for m
  proof (cases "m = l")
    case True
    with l at(2) show ?thesis by (auto simp: task_ok_def)
  next
    case False
    then show ?thesis
      using task [of "wpc (?w ! m)" "p_phase S m"] sys(2) [OF False] inv m
      by (auto simp: valid_ok_def wave_ok_def system_ok_def workers_ok_def)
  qed
  moreover have "reads_valid env (p_mv S') (p_io S') i"
    if i: "i < num_txns ?s" "validated ?s i = Some w" "fresh ?s i w" "\<forall>j \<le> i. \<not> aborting ?s j" for i w
  proof (cases "i < j")
    case True
    then show ?thesis using valid_okD(2) [OF inv(1) i(1-3)] i(4) same [of i] by (auto simp: reads_valid_def)
  next
    case False
    then show ?thesis
      using below_busy(1) [OF inv(2) _ i(1) inv(3), of j] wave_okD(4) [OF inv(3) i(1-3)] kind i(4) by auto
  qed
  moreover have "reads_valid env (p_mv S') (p_io S') i" if i: "i < num_txns ?s" "is_committed ?s i" for i
  proof (cases "i < j")
    case True
    then show ?thesis using valid_okD(3) [OF inv(1) i] same [of i] by (auto simp: reads_valid_def)
  next
    case False
    then show ?thesis using below_busy(2) [OF inv(2) _ i(1), of j] i(2) b by simp
  qed
  ultimately show ?thesis using sys(1) by (simp add: valid_ok_def)
qed

lemma all_valid_frame:
  assumes "mv_wf mv" "mv_apply u mv = Some mv'" "i \<le> writer u"
  shows "all_valid env mv' i rs = all_valid env mv i rs"
  using mv.frame_txn [OF assms] by (simp add: all_valid_def validate_read_def)

lemma valid_phase:
  assumes "valid_ok env S" "is_at l p fin ph S" "task_ok env (p_sched S) (p_mv S) (p_io S) p ph'"
  shows "valid_ok env (set_phase l ph' S)"
  using assms by (auto simp: valid_ok_def is_at_def worker_at_def)

lemma task_ok_execution [simp]: "task_ok env s mv io (Running (ExecutionTask ver cv)) ph"
  by (simp add: task_ok_def)

lemma valid_check:
  assumes at: "is_at l (Running (ValidationTask (i, inc) w)) fin (Checking (r # reads)) S" and inv: "valid_ok env S"
    and check: "validate_read env (p_mv S) i r = Some True"
  shows "valid_ok env (set_phase l (Checking reads) S)"
proof (rule valid_phase [OF inv at])
  have "check_ok env (p_sched S) (p_mv S) (p_io S) i reads" if fr: "fresh (p_sched S) i w"
  proof -
    obtain checked where c: "inputs (p_io S) ! i = Some (checked @ r # reads)"
        "(\<forall>j < i. \<not> aborting (p_sched S) j) \<longrightarrow> all_valid env (p_mv S) i checked"
      using valid_okD(1) [OF inv at] fr by (auto simp: task_ok_def check_ok_def)
    then have "inputs (p_io S) ! i = Some ((checked @ [r]) @ reads)"
        "(\<forall>j < i. \<not> aborting (p_sched S) j) \<longrightarrow> all_valid env (p_mv S) i (checked @ [r])"
      using check by (auto simp: all_valid_def)
    then show ?thesis unfolding check_ok_def by blast
  qed
  then show "task_ok env (p_sched S) (p_mv S) (p_io S) (Running (ValidationTask (i, inc) w)) (Checking reads)"
    by (simp add: task_ok_def)
qed

lemma checked_all_valid:
  assumes "valid_ok env S" "is_at l (Running (ValidationTask (i, inc) w)) fin (Checking []) S" "fresh (p_sched S) i w"
    "\<And>j. j \<le> i \<Longrightarrow> \<not> aborting (p_sched S) j"
  shows "reads_valid env (p_mv S) (p_io S) i"
  using valid_okD(1) [OF assms(1,2)] assms(3,4) by (auto simp: task_ok_def check_ok_def reads_valid_def)

text \<open>A comparison that came too late: the version is being aborted, or it is committed already.\<close>

lemma too_late_valid:
  assumes "valid_ok env S" "system_ok (p_sys S)" "wave_ok (p_sys S)"
    and at: "is_at l (Running (ValidationTask (i, inc) w)) fin ph S"
    and late: "try_abort i inc (p_sched S) = Some (False, s)"
    and now: "fresh (p_sched S) i w" "\<And>j. j \<le> i \<Longrightarrow> \<not> aborting (p_sched S) j"
  shows "reads_valid env (p_mv S) (p_io S) i"
proof -
  let ?s = "p_sched S"
  have i: "i < num_txns ?s" using at_pc [OF at assms(2)] by simp
  have "ran_as inc (exec_status ?s i)"
    using wave_okD(2) [OF assms(3), of l "Running (ValidationTask (i, inc) w)" fin] at now(1)
    by (simp add: is_at_def task_fresh_def)
  moreover have "exec_status ?s i \<noteq> Executed inc" using late by (auto simp: try_abort_def status_eq_iff split: if_splits)
  ultimately have "exec_status ?s i = Committed inc"
    using now(2) [of i] by (cases "exec_status ?s i") (auto simp: aborting_def)
  then have "is_committed ?s i" by (simp add: is_committed_def)
  from valid_okD(3) [OF assms(1) i this] show ?thesis .
qed

section \<open>Every step keeps the invariant\<close>

theorem pstep_valid_ok:
  assumes "pstep env base txns S S'" "system_ok (p_sys S)" "wave_ok (p_sys S)" "data_ok env base txns S" "valid_ok env S"
    "commit_waves (p_sys S)"
  shows "valid_ok env S'"
  using assms
proof (induction rule: pstep.induct)
  case (p_commit t fin S locked r cs s)
  then show ?case by (intro valid_commit)
next
  case (p_past_end l fin S)
  show ?case by (rule valid_moved [OF p_past_end(1,6)]) (auto intro!: calm_same)
next
  case (p_load l fin S idx)
  show ?case by (rule valid_moved [OF p_load(1,6)]) (auto intro!: calm_same)
next
  case (p_look l idx fin S)
  show ?case by (rule valid_moved [OF p_look(1,5)]) (auto intro!: calm_same)
next
  case (p_wait l i inc fin k f captured S dep r s)
  have s: "frame (p_sched S) s \<and> exec_status s = exec_status (p_sched S)"
    using good_push_child [OF ok_parts(1) [OF p_wait(4)], of dep i s] at_pc [OF p_wait(1,4)] p_wait(3) waiting_below [OF p_wait(2)]
    by (auto simp: wait_for_dependency_def)
  show ?case
    unfolding moved_same [OF p_wait(1)]
    by (rule valid_moved [OF p_wait(1,7)]) (use s in \<open>auto simp: frame_def intro: calm_same\<close>)
next
  case (p_mark_prologue l i inc fin r captured S pm)
  show ?case
    unfolding moved_same [OF p_mark_prologue(1)]
    by (rule valid_moved [OF p_mark_prologue(1,5)]) (auto intro!: calm_same simp: val_status_def)
next
  case (p_signatures l fin S idx)
  show ?case by (rule valid_moved [OF p_signatures(1,7)]) (auto intro!: calm_same simp: val_status_def)
next
  case (p_prologue l fin S)
  show ?case by (rule valid_moved [OF p_prologue(1,5)]) (auto intro!: calm_same)
next
  case (p_side_task l t fin S p_idx pm)
  show ?case by (rule valid_moved [OF p_side_task(1,6)]) (auto intro!: calm_same simp: val_status_def)
next
  case (p_exit l fin S)
  show ?case by (rule valid_moved [OF p_exit(1,5)]) (auto intro!: calm_same)
next
  case (p_finish_run l i inc fin result captured S prev)
  show ?case
    by (rule valid_changed [OF p_finish_run(1) _ p_finish_run(6,3,4)]) auto
next
  case (p_publish l i inc fin u us outside result captured S mv)
  have w: "writer u = i"
    using at_holds(3) [OF p_publish(1,5,3)] by (simp add: update_of_def)
  show ?case
    by (rule valid_changed [OF p_publish(1) _ p_publish(6,3,4)])
       (use w all_valid_frame [OF data_okD(1) [OF p_publish(5)] p_publish(2)] in auto)
next
  case (p_record l i inc fin outside result captured S io)
  note f = io_record_fields [OF p_record(2)]
  show ?case
    by (rule valid_changed [OF p_record(1) _ p_record(6,3,4)])
       (use f at_holds(1) [OF p_record(1,5,3)] in auto)
next
  case (p_start_validation l i inc w fin S reads)
  have "inputs (p_io S) ! i = Some ([] @ reads)"
    using p_start_validation(2) by (simp add: io_read_set_def split: if_splits)
  moreover have "all_valid env (p_mv S) i []" by (simp add: all_valid_def)
  ultimately have "check_ok env (p_sched S) (p_mv S) (p_io S) i reads" unfolding check_ok_def by blast
  then show ?case by (intro valid_phase [OF p_start_validation(6,1)]) (simp add: task_ok_def)
next
  case (p_check l i inc w fin r reads S matches)
  show ?case
  proof (cases matches)
    case True
    with valid_check [OF p_check(1,6)] p_check(2) show ?thesis by simp
  next
    case False
    then show ?thesis using valid_phase [OF p_check(6,1), of Failed] by simp
  qed
next
  case (p_valid l i inc w fin S s)
  show ?case
    by (rule valid_validated [OF p_valid(1,6,3,2)]) (rule checked_all_valid [OF p_valid(6,1)])
next
  case (p_too_late l i inc w fin S s)
  show ?case
    by (rule valid_validated [OF p_too_late(1,7,4,3)]) (rule too_late_valid [OF p_too_late(7,4,5,1,2)])
next
  case (p_mark l i inc fin k ks S mv)
  have "mv_apply (UEstimate k i) (p_mv S) = Some mv" using p_mark(2) by simp
  from all_valid_frame [OF data_okD(1) [OF p_mark(5)] this] show ?case
    by (intro valid_changed [OF p_mark(1) _ p_mark(6,3,4)]) auto
qed (auto intro: valid_next_task valid_lock valid_take valid_phase valid_finish valid_abort valid_finish_abort)

lemma valid_ok_new:
  assumes "scheduler_new n deps gas conc md pmap = Some s"
  shows "valid_ok env (psystem_new num_workers n s)"
proof -
  have s: "num_txns s = n" "txn_status s = replicate n (ReadyToExecute 0 None, validation_status_new)"
    using assms by (auto simp: scheduler_new_def split: if_splits option.splits)
  then have "validated s j = None" "\<not> is_committed s j" if "j < n" for j
    using that by (simp_all add: validated_def val_status_def validation_status_new_def is_committed_def exec_status_def)
  with s(1) show ?thesis
    by (auto simp: valid_ok_def psystem_new_def system_new_def task_ok_def)
qed

end
