(* ===== verification/ParallelSafety.thy ===== *)
theory ParallelSafety
  imports ParallelValidity
begin

text \<open>
  What the parallel executor guarantees in every reachable state of its workers: a committed
  transaction has the output that running it against the entries below it gives, and nothing that
  happens later changes its output or its entries.
\<close>

section \<open>Reachable states\<close>

definition p_reachable ::
  "('t, 'k, 'v, 'o, 'e, 'x) executor_task \<Rightarrow> ('k, 'x) base_view \<Rightarrow> 't list \<Rightarrow> u16 list list \<Rightarrow> u16 list
    \<Rightarrow> execution_mode \<Rightarrow> nat \<Rightarrow> ('k, 'v, 'o, 'e, 'x) psystem \<Rightarrow> bool" where
  "p_reachable env base txns deps gas md num_workers S \<longleftrightarrow> hints_ok (length txns) deps \<and> 0 < num_workers
     \<and> (\<exists>s conc pmap. scheduler_new (length txns) deps gas conc md pmap = Some s
          \<and> (pstep env base txns)\<^sup>*\<^sup>* (psystem_new num_workers (length txns) s) S)"

text \<open>The runs in which validations are handed out in time.\<close>

definition timely_step ::
  "('t, 'k, 'v, 'o, 'e, 'x) executor_task \<Rightarrow> ('k, 'x) base_view \<Rightarrow> 't list
    \<Rightarrow> ('k, 'v, 'o, 'e, 'x) psystem \<Rightarrow> ('k, 'v, 'o, 'e, 'x) psystem \<Rightarrow> bool" where
  "timely_step env base txns S S' \<longleftrightarrow> pstep env base txns S S' \<and> in_time (p_sys S) (p_sys S')"

definition timely_reachable ::
  "('t, 'k, 'v, 'o, 'e, 'x) executor_task \<Rightarrow> ('k, 'x) base_view \<Rightarrow> 't list \<Rightarrow> u16 list list \<Rightarrow> u16 list
    \<Rightarrow> execution_mode \<Rightarrow> nat \<Rightarrow> ('k, 'v, 'o, 'e, 'x) psystem \<Rightarrow> bool" where
  "timely_reachable env base txns deps gas md num_workers S \<longleftrightarrow> hints_ok (length txns) deps \<and> 0 < num_workers
     \<and> (\<exists>s conc pmap. scheduler_new (length txns) deps gas conc md pmap = Some s
          \<and> (timely_step env base txns)\<^sup>*\<^sup>* (psystem_new num_workers (length txns) s) S)"

text \<open>\<open>p_ok\<close> holds along every run, \<open>t_ok\<close> along the timely ones.\<close>

definition p_ok ::
  "('t, 'k, 'v, 'o, 'e, 'x) executor_task \<Rightarrow> ('k, 'x) base_view \<Rightarrow> 't list \<Rightarrow> ('k, 'v, 'o, 'e, 'x) psystem \<Rightarrow> bool" where
  "p_ok env base txns S \<longleftrightarrow> system_ok (p_sys S) \<and> commit_waves (p_sys S) \<and> data_ok env base txns S"

definition t_ok ::
  "('t, 'k, 'v, 'o, 'e, 'x) executor_task \<Rightarrow> ('k, 'x) base_view \<Rightarrow> 't list \<Rightarrow> ('k, 'v, 'o, 'e, 'x) psystem \<Rightarrow> bool" where
  "t_ok env base txns S \<longleftrightarrow> p_ok env base txns S \<and> wave_ok (p_sys S) \<and> valid_ok env S"

lemma pstep_ok:
  assumes "pstep env base txns S S'" "p_ok env base txns S" "keys_ok env txns"
  shows "p_ok env base txns S'"
proof -
  have i: "system_ok (p_sys S)" "commit_waves (p_sys S)" "data_ok env base txns S"
    using assms(2) by (simp_all add: p_ok_def)
  have "system_ok (p_sys S')" "commit_waves (p_sys S')"
    using pstep_step [OF assms(1)] step_system_ok step_commit_waves i(1,2) by metis+
  with pstep_data_ok [OF assms(1) i(1,3) assms(3)] show ?thesis by (simp add: p_ok_def)
qed

lemma psteps_ok:
  "(pstep env base txns)\<^sup>*\<^sup>* S S' \<Longrightarrow> p_ok env base txns S \<Longrightarrow> keys_ok env txns \<Longrightarrow> p_ok env base txns S'"
  by (induction rule: rtranclp_induct) (auto intro: pstep_ok)

lemma timely_step_ok:
  assumes "timely_step env base txns S S'" "t_ok env base txns S" "keys_ok env txns"
  shows "t_ok env base txns S'"
proof -
  have step: "pstep env base txns S S'" "in_time (p_sys S) (p_sys S')" using assms(1) by (simp_all add: timely_step_def)
  have i: "p_ok env base txns S" "system_ok (p_sys S)" "wave_ok (p_sys S)" "data_ok env base txns S" "valid_ok env S"
      "commit_waves (p_sys S)"
    using assms(2) by (simp_all add: t_ok_def p_ok_def)
  have "wave_ok (p_sys S')" using pstep_step [OF step(1)] step_wave_ok [OF _ step(2)] i(2,3) by metis
  with pstep_ok [OF step(1) i(1) assms(3)] pstep_valid_ok [OF step(1) i(2-6)] show ?thesis by (simp add: t_ok_def)
qed

lemma timely_steps_ok:
  "(timely_step env base txns)\<^sup>*\<^sup>* S S' \<Longrightarrow> t_ok env base txns S \<Longrightarrow> keys_ok env txns \<Longrightarrow> t_ok env base txns S'"
  by (induction rule: rtranclp_induct) (auto intro: timely_step_ok)

lemma t_ok_new:
  assumes "scheduler_new (length txns) deps gas conc md pmap = Some s" "hints_ok (length txns) deps" "0 < num_workers"
  shows "t_ok env base txns (psystem_new num_workers (length txns) s)"
  using system_new_ok [OF assms(2,1,3)] wave_ok_new [OF assms(1), of num_workers]
    data_ok_new [OF assms(1) refl, of env base num_workers] valid_ok_new [OF assms(1), of env num_workers]
  by (simp add: t_ok_def p_ok_def psystem_new_def commit_waves_def system_new_def)

lemma p_reachable_ok:
  assumes "p_reachable env base txns deps gas md num_workers S" "keys_ok env txns"
  shows "p_ok env base txns S"
proof -
  obtain s conc pmap where s: "scheduler_new (length txns) deps gas conc md pmap = Some s" "hints_ok (length txns) deps"
      "0 < num_workers" "(pstep env base txns)\<^sup>*\<^sup>* (psystem_new num_workers (length txns) s) S"
    using assms(1) by (auto simp: p_reachable_def)
  have "p_ok env base txns (psystem_new num_workers (length txns) s)" using t_ok_new [OF s(1-3), of env base] by (simp add: t_ok_def)
  from psteps_ok [OF s(4) this assms(2)] show ?thesis .
qed

lemma timely_reachable_ok:
  assumes "timely_reachable env base txns deps gas md num_workers S" "keys_ok env txns"
  shows "t_ok env base txns S"
proof -
  obtain s conc pmap where s: "scheduler_new (length txns) deps gas conc md pmap = Some s" "hints_ok (length txns) deps"
      "0 < num_workers" "(timely_step env base txns)\<^sup>*\<^sup>* (psystem_new num_workers (length txns) s) S"
    using assms(1) by (auto simp: timely_reachable_def)
  from t_ok_new [OF s(1-3)] timely_steps_ok [OF s(4) _ assms(2)] show ?thesis by blast
qed

text \<open>The scheduler underneath goes through reachable states of its own.\<close>

lemma psteps_steps: "(pstep env base txns)\<^sup>*\<^sup>* S S' \<Longrightarrow> step\<^sup>*\<^sup>* (p_sys S) (p_sys S')"
proof (induction rule: rtranclp_induct)
  case (step T U)
  with pstep_step [OF step(2)] show ?case by (auto intro: rtranclp.rtrancl_into_rtrancl)
qed simp

lemma p_reachable_reachable:
  assumes "p_reachable env base txns deps gas md num_workers S"
  shows "reachable (length txns) deps gas md num_workers (p_sys S)"
proof -
  obtain s conc pmap where s: "scheduler_new (length txns) deps gas conc md pmap = Some s" "hints_ok (length txns) deps"
      "0 < num_workers" "(pstep env base txns)\<^sup>*\<^sup>* (psystem_new num_workers (length txns) s) S"
    using assms(1) by (auto simp: p_reachable_def)
  from psteps_steps [OF s(4)] s(1-3) show ?thesis unfolding reachable_def psystem_new_def by auto
qed

section \<open>Committed transactions\<close>

lemma hist_ok_distinct:
  assumes "data_ok env base txns S" "keys_ok env txns"
  shows "hist_distinct env (p_hist S)"
  unfolding hist_distinct_def
proof (intro allI impI)
  fix ver st rs assume h: "p_hist S ver = Some (st, rs)"
  obtain j inc where ver: "ver = (j, inc)" by (cases ver)
  with h data_okD(5,8) [OF assms(1)] have "j < length txns" "explained env base txns (p_hist S) j rs (Finished (Some st))"
    by (auto simp: hist_ok_def)
  with explained_leaves [OF this(2)] assms(2) show "distinct_keys env st" unfolding keys_ok_def by blast
qed

lemma committed_data:
  assumes "data_ok env base txns S" "i < num_txns (p_sched S)" "exec_status (p_sched S) i = Committed inc"
  obtains st rs where "p_hist S (i, inc) = Some (st, rs)" "outputs (p_io S) ! i = Some (user_error st)"
    "inputs (p_io S) ! i = Some rs" "ents (p_mv S) i = target env inc st"
  using data_okD(7) [OF assms(1,2)] assms(3) by (auto simp: settled_def recorded_def)

lemma committed_rerun:
  assumes "t_ok env base txns S" "keys_ok env txns" "i < num_txns (p_sched S)" "exec_status (p_sched S) i = Committed inc"
  obtains st rs p where "outputs (p_io S) ! i = Some (user_error st)" "ents (p_mv S) i = target env inc st"
    "Some st \<in> leaves (run_of env txns i p)" "mv_run env base (p_mv S) i (run_of env txns i p) [] = Some (Inr (Some st, rs))"
proof -
  have inv: "data_ok env base txns S" "valid_ok env S" using assms(1) by (simp_all add: t_ok_def p_ok_def)
  obtain st rs where st: "p_hist S (i, inc) = Some (st, rs)" "outputs (p_io S) ! i = Some (user_error st)"
      "inputs (p_io S) ! i = Some rs" "ents (p_mv S) i = target env inc st"
    by (rule committed_data [OF inv(1) assms(3,4)])
  have "is_committed (p_sched S) i" using assms(4) by (simp add: is_committed_def)
  with valid_okD(3) [OF inv(2) assms(3)] st(3) have v: "all_valid env (p_mv S) i rs" by (auto simp: reads_valid_def)
  obtain p where p: "explains env base (p_hist S) (run_of env txns i p) rs (Finished (Some st))"
    using data_okD(5) [OF inv(1)] st(1) unfolding hist_ok_def explained_def by blast
  from explains_mv_run [OF p hist_ok_distinct [OF inv(1) assms(2)] data_okD(1,4) [OF inv(1)] v]
  have "mv_run env base (p_mv S) i (run_of env txns i p) [] = Some (Inr (Some st, rs))" by simp
  with st that explains_leaves [OF p] show ?thesis by auto
qed

text \<open>History only grows, so what is committed stays as it is.\<close>

lemma pstep_grows:
  assumes "pstep env base txns S S'" "system_ok (p_sys S)" "data_ok env base txns S"
  shows "grows (p_hist S) (p_hist S')"
  using assms
proof (induction rule: pstep.induct)
  case (p_finish_run l i inc fin result captured S prev)
  have "p_hist S (i, inc) = None" using at_holds(3) [OF p_finish_run(1,4,3)] by (simp add: unrun_def)
  from grows_upd [of "p_hist S", OF this] show ?case by (simp add: fun_upd_def)
qed simp_all

lemma grows_trans: "grows h h' \<Longrightarrow> grows h' h'' \<Longrightarrow> grows h h''"
  by (simp add: grows_def)

lemma psteps_grows:
  assumes "(pstep env base txns)\<^sup>*\<^sup>* S S'" "p_ok env base txns S" "keys_ok env txns"
  shows "grows (p_hist S) (p_hist S')"
  using assms(1)
proof (induction rule: rtranclp_induct)
  case (step T U)
  have "p_ok env base txns T" by (rule psteps_ok [OF step(1) assms(2,3)])
  then have "grows (p_hist T) (p_hist U)" using pstep_grows [OF step(2)] by (simp add: p_ok_def)
  with step(3) show ?case by (rule grows_trans)
qed simp

lemma steps_committed:
  assumes "step\<^sup>*\<^sup>* \<sigma> \<sigma>'" "system_ok \<sigma>" "exec_status (sched \<sigma>) i = Committed inc"
  shows "exec_status (sched \<sigma>') i = Committed inc"
  using assms(1)
proof (induction rule: rtranclp_induct)
  case (step \<tau> \<upsilon>)
  have "system_ok \<tau>" by (rule steps_system_ok [OF step(1) assms(2)])
  from committed_final [OF step_edges [OF step(2) this] step(3)] step(3) show ?case by simp
qed (rule assms(3))

lemma committed_stays:
  assumes steps: "(pstep env base txns)\<^sup>*\<^sup>* S S'" and ok: "p_ok env base txns S" "keys_ok env txns"
    and i: "i < length txns" "exec_status (p_sched S) i = Committed inc"
  shows "outputs (p_io S') ! i = outputs (p_io S) ! i \<and> ents (p_mv S') i = ents (p_mv S) i"
proof -
  have inv: "system_ok (p_sys S)" "data_ok env base txns S" "data_ok env base txns S'"
    using ok psteps_ok [OF steps ok] by (simp_all add: p_ok_def)
  have c: "exec_status (p_sched S') i = Committed inc" by (rule steps_committed [OF psteps_steps [OF steps] inv(1) i(2)])
  have n: "i < num_txns (p_sched S)" "i < num_txns (p_sched S')" using data_okD(8) inv(2,3) i(1) by metis+
  obtain st rs where st: "p_hist S (i, inc) = Some (st, rs)" "outputs (p_io S) ! i = Some (user_error st)"
      "ents (p_mv S) i = target env inc st" by (rule committed_data [OF inv(2) n(1) i(2)])
  obtain st' rs' where st': "p_hist S' (i, inc) = Some (st', rs')" "outputs (p_io S') ! i = Some (user_error st')"
      "ents (p_mv S') i = target env inc st'" by (rule committed_data [OF inv(3) n(2) c])
  have "p_hist S' (i, inc) = Some (st, rs)" using psteps_grows [OF steps ok] st(1) by (simp add: grows_def)
  with st st' show ?thesis by simp
qed

section \<open>Executable runs\<close>

text \<open>The deterministic reading of the step relation: which worker makes its next move.\<close>

datatype paction = PCommit | PMove nat

definition worker_move ::
  "('t, 'k, 'v, 'o, 'e, 'x) executor_task \<Rightarrow> ('k, 'x) base_view \<Rightarrow> 't list \<Rightarrow> nat
    \<Rightarrow> ('k, 'v, 'o, 'e, 'x) psystem \<Rightarrow> ('k, 'v, 'o, 'e, 'x) psystem option" where
  "worker_move env base txns l S =
     (let s = p_sched S; fin = finished_val_flag (workers (p_sys S) ! l) in
      case (wpc (workers (p_sys S) ! l), p_phase S l) of
        (Running NoTask, AtTop) \<Rightarrow>
          (case next_task False fin s of
             None \<Rightarrow> None
           | Some (t, fin', s') \<Rightarrow>
               if t = NoTask \<and> \<not> fin \<and> valock_free (p_sys S) then Some (moved l Locked False s' AtTop S)
               else Some (moved l (Running t) fin' s' AtTop S))
      | (Locked, AtTop) \<Rightarrow>
          (case load_validation s of
             None \<Rightarrow> Some (moved l (Running NoTask) True s AtTop S)
           | Some idx \<Rightarrow> Some (moved l (Loaded idx) fin s AtTop S))
      | (Loaded idx, AtTop) \<Rightarrow>
          Some (moved l (case is_executed idx False s of None \<Rightarrow> Running NoTask | Some inc \<Rightarrow> Checked idx inc) fin s AtTop S)
      | (Checked idx inc, AtTop) \<Rightarrow>
          (case take_validation inc s of ((ver, w), s') \<Rightarrow> Some (moved l (Running (ValidationTask ver w)) fin s' AtTop S))
      | (Running Done, AtTop) \<Rightarrow> Some (moved l Exited fin s AtTop S)
      | (Running (ExecutionTask (i, inc) None), AtTop) \<Rightarrow>
          if i < length txns \<and> i < length (prologue_map s)
          then Some (set_phase l (Reading (run_of env txns i (fst (prologue_map s ! i), snd (prologue_map s ! i))) []) S)
          else None
      | (Running (ExecutionTask (i, inc) None), Reading (Get k f) captured) \<Rightarrow>
          (case read_round env (p_mv S) k i of
             Some (Answered d rr) \<Rightarrow>
               map_option (\<lambda>a. set_phase l (Reading (f a) (captured @ [d])) S) (mv_state_value env base k rr)
           | _ \<Rightarrow> None)
      | (Running (ExecutionTask (i, inc) None), Reading (Finished (Some result)) captured) \<Rightarrow>
          map_option (\<lambda>prev. set_phase l (Publishing (updates env (i, inc) result prev) (wrote_outside env result prev)
              result captured) (S\<lparr>p_hist := (p_hist S)((i, inc) \<mapsto> (result, captured))\<rparr>))
            (modified_keys (get_writes env) (get_deltas env) i (p_io S))
      | (Running (ExecutionTask (i, inc) None), Publishing (u # us) outside result captured) \<Rightarrow>
          map_option (\<lambda>mv. set_phase l (Publishing us outside result captured) (S\<lparr>p_mv := mv\<rparr>)) (mv_apply u (p_mv S))
      | (Running (ExecutionTask (i, inc) None), Publishing [] outside result captured) \<Rightarrow>
          map_option (\<lambda>io. set_phase l (Recorded outside) (S\<lparr>p_io := io\<rparr>))
            (io_record (path_of env) (get_writes env) i captured (user_error result) (p_io S))
      | (Running (ExecutionTask (i, inc) None), Recorded outside) \<Rightarrow>
          map_option (\<lambda>(t, s'). moved l (Running t) fin s' AtTop S) (finish_execution i inc outside s)
      | (Running (ValidationTask (i, inc) w), AtTop) \<Rightarrow>
          (case io_read_set i (p_io S) of Some (Some reads) \<Rightarrow> Some (set_phase l (Checking reads) S) | _ \<Rightarrow> None)
      | (Running (ValidationTask (i, inc) w), Checking (r # reads)) \<Rightarrow>
          map_option (\<lambda>matches. set_phase l (if matches then Checking reads else Failed) S) (validate_read env (p_mv S) i r)
      | (Running (ValidationTask (i, inc) w), Checking []) \<Rightarrow>
          map_option (\<lambda>s'. moved l (Running NoTask) fin s' AtTop S) (finish_validation i w s)
      | (Running (ValidationTask (i, inc) w), Failed) \<Rightarrow>
          (case try_abort i inc s of
             Some (True, s') \<Rightarrow>
               map_option (\<lambda>ks. moved l (Aborted (i, inc)) fin s' (Marking (hash_iter env ks)) S)
                 (modified_keys (get_writes env) (get_deltas env) i (p_io S))
           | Some (False, _) \<Rightarrow> map_option (\<lambda>s'. moved l (Running NoTask) fin s' AtTop S) (finish_validation i w s)
           | None \<Rightarrow> None)
      | (Aborted (i, inc), Marking (k # ks)) \<Rightarrow>
          map_option (\<lambda>mv. set_phase l (Marking ks) (S\<lparr>p_mv := mv\<rparr>)) (mark_estimate k i (p_mv S))
      | (Aborted (i, inc), Marking []) \<Rightarrow>
          map_option (\<lambda>(t, s'). moved l (Running t) fin s' AtTop S) (finish_abort i inc s)
      | _ \<Rightarrow> None)"

fun pperform ::
  "('t, 'k, 'v, 'o, 'e, 'x) executor_task \<Rightarrow> ('k, 'x) base_view \<Rightarrow> 't list \<Rightarrow> paction
    \<Rightarrow> ('k, 'v, 'o, 'e, 'x) psystem \<Rightarrow> ('k, 'v, 'o, 'e, 'x) psystem option" where
  "pperform env base txns (PMove l) S = (if l < length (workers (p_sys S)) then worker_move env base txns l S else None)"
| "pperform env base txns PCommit S =
     (if 0 < length (workers (p_sys S)) then
       (case (wpc (workers (p_sys S) ! 0), p_phase S 0) of
          (Running t, AtTop) \<Rightarrow>
            map_option (\<lambda>(r, cs, s'). S\<lparr>p_sys := (p_sys S)\<lparr>sched := s', commit_state := cs\<rparr>\<rparr>)
              (try_commit True (commit_state (p_sys S)) (p_sched S))
        | _ \<Rightarrow> None)
      else None)"

fun pperform_all ::
  "('t, 'k, 'v, 'o, 'e, 'x) executor_task \<Rightarrow> ('k, 'x) base_view \<Rightarrow> 't list \<Rightarrow> paction list
    \<Rightarrow> ('k, 'v, 'o, 'e, 'x) psystem \<Rightarrow> ('k, 'v, 'o, 'e, 'x) psystem option" where
  "pperform_all env base txns [] S = Some S"
| "pperform_all env base txns (a # as) S =
     (case pperform env base txns a S of None \<Rightarrow> None | Some S' \<Rightarrow> pperform_all env base txns as S')"

lemma is_atI: "l < length (workers (p_sys S)) \<Longrightarrow> wpc (workers (p_sys S) ! l) = p \<Longrightarrow> p_phase S l = ph \<Longrightarrow>
    is_at l p (finished_val_flag (workers (p_sys S) ! l)) ph S"
  by (simp add: is_at_def worker_at_def)

lemma p_start_entry:
  "is_at l (Running (ExecutionTask (i, inc) None)) fin AtTop S \<Longrightarrow> i < length txns \<Longrightarrow>
     i < length (prologue_map (p_sched S)) \<Longrightarrow>
     pstep env base txns S (set_phase l (Reading (run_of env txns i (prologue_map (p_sched S) ! i)) []) S)"
  using p_start [of l i inc fin S txns env base "snd (prologue_map (p_sched S) ! i)"] by simp

lemma failed_move_step:
  assumes "is_at l (Running (ValidationTask (i, inc) w)) fin Failed S" "try_abort i inc (p_sched S) = Some (False, s)"
    "finish_validation i w (p_sched S) = Some s'"
  shows "pstep env base txns S (moved l (Running NoTask) fin s' AtTop S)"
proof -
  have "try_abort i inc (p_sched S) = Some (False, p_sched S)" using assms(2) by (auto simp: try_abort_def split: if_splits)
  from p_too_late [OF assms(1) this assms(3)] show ?thesis .
qed

lemma asking_move_step:
  assumes "worker_move env base txns l S = Some S'" "l < length (workers (p_sys S))"
    and at: "wpc (workers (p_sys S) ! l) = p" "p = Running NoTask \<or> validating p"
  shows "pstep env base txns S S'"
proof -
  let ?fin = "finished_val_flag (workers (p_sys S) ! l)"
  note here = is_atI [OF assms(2)]
  consider "p = Running NoTask" | "p = Locked" | idx where "p = Loaded idx" | idx inc where "p = Checked idx inc"
    using at(2) by (cases p) auto
  then show ?thesis
  proof cases
    case 1
    obtain t fin' s' where t: "next_task False ?fin (p_sched S) = Some (t, fin', s')"
      using assms(1) at(1) 1 by (cases "next_task False ?fin (p_sched S)") (auto simp: worker_move_def Let_def split: phase.splits)
    show ?thesis
    proof (cases "t = NoTask \<and> \<not> ?fin \<and> valock_free (p_sys S)")
      case True
      with t have "try_exec (p_sched S) = Some (NoTask, s')" by (auto simp: next_task_unlocked split: if_splits)
      with True assms(1) at(1) 1 t show ?thesis
        using here [OF at(1)] by (auto simp: worker_move_def Let_def split: phase.splits intro: p_lock)
    next
      case False
      with assms(1) at(1) 1 t show ?thesis
        using here [OF at(1)] by (auto simp: worker_move_def Let_def split: phase.splits if_splits intro: p_next_task)
    qed
  next
    case (3 idx)
    with assms(1) at(1) here [OF at(1)] p_look [of l idx ?fin S env base txns] show ?thesis
      by (auto simp: worker_move_def Let_def split: phase.splits)
  qed (use assms(1) at(1) here [OF at(1)] in
      \<open>auto simp: worker_move_def Let_def split: phase.splits option.splits prod.splits intro: p_past_end p_load p_take\<close>)
qed

lemma worker_move_step:
  assumes "worker_move env base txns l S = Some S'" "l < length (workers (p_sys S))"
  shows "pstep env base txns S S'"
proof -
  let ?fin = "finished_val_flag (workers (p_sys S) ! l)"
  note at = is_atI [OF assms(2)]
  show ?thesis
  proof (cases "wpc (workers (p_sys S) ! l)")
    case (Running t)
    note at = at [OF Running]
    show ?thesis
    proof (cases t)
      case NoTask
      with asking_move_step [OF assms Running] show ?thesis by simp
    next
      case (ExecutionTask ver cv)
      obtain i inc where ver: "ver = (i, inc)" by (cases ver)
      show ?thesis
        using assms(1) Running ExecutionTask ver at
        by (auto simp: worker_move_def Let_def split: phase.splits vm_run.splits list.splits option.splits read_round.splits if_splits
            intro: p_start_entry p_read p_finish_run p_publish p_record p_finish)
    next
      case (ValidationTask ver w)
      obtain i inc where ver: "ver = (i, inc)" by (cases ver)
      show ?thesis
        using assms(1) Running ValidationTask ver at
        by (auto simp: worker_move_def Let_def split del: if_split split: phase.splits list.splits option.splits bool.splits
            intro: p_start_validation p_check p_valid p_abort failed_move_step)
    qed (use assms(1) Running at in \<open>auto simp: worker_move_def Let_def split: phase.splits intro: p_exit\<close>)
  next
    case (Aborted ver)
    obtain i inc where ver: "ver = (i, inc)" by (cases ver)
    show ?thesis
      using assms(1) Aborted ver at [OF Aborted]
      by (auto simp: worker_move_def Let_def split: phase.splits list.splits intro: p_mark p_finish_abort)
  next
    case Exited
    with assms(1) show ?thesis by (simp add: worker_move_def)
  qed (use asking_move_step [OF assms refl] in simp_all)
qed

lemma pperform_step: "pperform env base txns a S = Some S' \<Longrightarrow> pstep env base txns S S'"
proof (cases a)
  case PCommit
  assume "pperform env base txns a S = Some S'"
  with PCommit show ?thesis
    using is_atI [of 0 S] by (auto split: if_splits pc.splits phase.splits intro: p_commit)
next
  case (PMove l)
  assume "pperform env base txns a S = Some S'"
  with PMove show ?thesis by (auto split: if_splits intro: worker_move_step)
qed

lemma pperform_all_steps: "pperform_all env base txns as S = Some S' \<Longrightarrow> (pstep env base txns)\<^sup>*\<^sup>* S S'"
  by (induction as arbitrary: S)
     (auto split: option.splits intro: converse_rtranclp_into_rtranclp dest!: pperform_step)

definition prun ::
  "('t, 'k, 'v, 'o, 'e, 'x) executor_task \<Rightarrow> ('k, 'x) base_view \<Rightarrow> 't list \<Rightarrow> u16 list list \<Rightarrow> u16 list
    \<Rightarrow> execution_mode \<Rightarrow> nat \<Rightarrow> (bool \<times> bool) list \<Rightarrow> paction list \<Rightarrow> ('k, 'v, 'o, 'e, 'x) psystem option" where
  "prun env base txns deps gas md num_workers pmap as =
     (case scheduler_new (length txns) deps gas num_workers md pmap of
        None \<Rightarrow> None
      | Some s \<Rightarrow> pperform_all env base txns as (psystem_new num_workers (length txns) s))"

lemma prun_reachable:
  "hints_ok (length txns) deps \<Longrightarrow> 0 < num_workers \<Longrightarrow> prun env base txns deps gas md num_workers pmap as = Some S \<Longrightarrow>
     p_reachable env base txns deps gas md num_workers S"
  unfolding prun_def p_reachable_def
  by (auto split: option.splits intro: pperform_all_steps)

text \<open>Whether validations are handed out in time along an executable run.\<close>

fun timely_all ::
  "('t, 'k, 'v, 'o, 'e, 'x) executor_task \<Rightarrow> ('k, 'x) base_view \<Rightarrow> 't list \<Rightarrow> paction list
    \<Rightarrow> ('k, 'v, 'o, 'e, 'x) psystem \<Rightarrow> bool" where
  "timely_all env base txns [] S \<longleftrightarrow> True"
| "timely_all env base txns (a # as) S \<longleftrightarrow>
     (case pperform env base txns a S of
        None \<Rightarrow> False
      | Some S' \<Rightarrow> in_time (p_sys S) (p_sys S') \<and> timely_all env base txns as S')"

lemma timely_all_steps:
  "pperform_all env base txns as S = Some S' \<Longrightarrow> timely_all env base txns as S \<Longrightarrow> (timely_step env base txns)\<^sup>*\<^sup>* S S'"
  by (induction as arbitrary: S)
     (auto simp: timely_step_def split: option.splits intro: converse_rtranclp_into_rtranclp dest!: pperform_step)

lemma prun_timely:
  assumes "hints_ok (length txns) deps" "0 < num_workers"
    and "prun env base txns deps gas md num_workers pmap as = Some S"
    and "\<And>s. scheduler_new (length txns) deps gas num_workers md pmap = Some s \<Longrightarrow>
      timely_all env base txns as (psystem_new num_workers (length txns) s)"
  shows "timely_reachable env base txns deps gas md num_workers S"
  using assms unfolding prun_def timely_reachable_def
  by (auto split: option.splits intro: timely_all_steps)

end
