(* ===== verification/VmExecutor.thy ===== *)
theory VmExecutor
  imports KeyValues ParallelSafety VmWrapper
begin

text \<open>
  The block executor with the wrapped virtual machine as its task, and what the deltas of an output
  become: in a sequential execution they are turned into writes while the transaction runs, in a
  parallel one after the block. Both give the same writes when the values below the transaction
  are the same.
\<close>

section \<open>The task\<close>

definition vm_task ::
  "(bytes \<Rightarrow> u128 option) \<Rightarrow> (u128 \<Rightarrow> bytes) \<Rightarrow> ('ev \<Rightarrow> bool) \<Rightarrow> ('t, 'k::linorder, 'ev, 's, 'e, 'x) vm
    \<Rightarrow> ('t \<Rightarrow> txn_index \<Rightarrow> ('k, 'x state_value, bool) vm_run) \<Rightarrow> ('t \<Rightarrow> bool) \<Rightarrow> ('k \<Rightarrow> access_path option) \<Rightarrow> ('k set \<Rightarrow> 'k list)
    \<Rightarrow> ('t, 'k, write_op, ('k, 'ev, 's) transaction_output_ext, 'e, 'x) executor_task" where
  "vm_task deser ser new_epoch vm prologue verify path iter =
     \<lparr>execute_transaction = vm_execute_transaction deser ser new_epoch vm, execute_prologue = prologue,
      verify_transaction = verify, get_writes = output_get_writes, get_deltas = output_get_deltas,
      skip_output = output_skip, raw_bytes = extract_raw_bytes, path_of = path,
      deserialize = deser, serialize = ser, hash_iter = iter\<rparr>"

lemma vm_task_fields [simp]:
  "execute_transaction (vm_task deser ser new_epoch vm prologue verify path iter) = vm_execute_transaction deser ser new_epoch vm"
  "get_writes (vm_task deser ser new_epoch vm prologue verify path iter) = output_get_writes"
  "get_deltas (vm_task deser ser new_epoch vm prologue verify path iter) = output_get_deltas"
  "skip_output (vm_task deser ser new_epoch vm prologue verify path iter) = output_skip"
  "raw_bytes (vm_task deser ser new_epoch vm prologue verify path iter) = extract_raw_bytes"
  "deserialize (vm_task deser ser new_epoch vm prologue verify path iter) = deser"
  "serialize (vm_task deser ser new_epoch vm prologue verify path iter) = ser"
  "hash_iter (vm_task deser ser new_epoch vm prologue verify path iter) = iter"
  by (simp_all add: vm_task_def)

text \<open>
  What is relied on of the outputs of the machine: write set and delta set are ordered maps without
  a common key, the deltas of a key agree on its limit and are well formed, and an output that is
  discarded has no deltas.
\<close>

definition output_ok :: "('k::linorder \<Rightarrow> u128) \<Rightarrow> ('k, 'ev, 's) transaction_output_ext \<Rightarrow> bool" where
  "output_ok lim e \<longleftrightarrow> bt_wf (out_write_set (oe_output e)) \<and> bt_wf (oe_delta_change_set e)
     \<and> fst ` set (out_write_set (oe_output e)) \<inter> fst ` set (oe_delta_change_set e) = {}
     \<and> (is_discarded (out_status (oe_output e)) \<longrightarrow> oe_delta_change_set e = [])
     \<and> (\<forall>(k, d) \<in> set (oe_delta_change_set e). delta_wf d \<and> limit d = lim k)"

definition outputs_ok :: "('k::linorder \<Rightarrow> u128) \<Rightarrow> ('t, 'k, 'ev, 's, 'e, 'x) vm \<Rightarrow> 't list \<Rightarrow> bool" where
  "outputs_ok lim vm txns \<longleftrightarrow> (\<forall>i p e. i < length txns \<longrightarrow> Inr e \<in> leaves (vm (txns ! i) i p) \<longrightarrow> output_ok lim e)"

text \<open>
  The machine in which transaction \<open>i\<close> finds the entry \<open>flags i\<close> of the shared prologue list, whatever
  the list says: the result of a run depends on the entry, and the entry on the order of the runs.
\<close>

definition with_prologue ::
  "(txn_index \<Rightarrow> bool \<times> bool) \<Rightarrow> ('t, 'k::linorder, 'ev, 's, 'e, 'x) vm \<Rightarrow> ('t, 'k, 'ev, 's, 'e, 'x) vm" where
  "with_prologue flags vm t i p = vm t i (flags i)"

lemma leaves_bind: "leaves (vm_bind r f) = (\<Union>x \<in> leaves r. leaves (f x))"
  by (induction r) auto

lemma run_of_leaves:
  assumes "Some st \<in> leaves (run_of (vm_task deser ser new_epoch vm prologue verify path iter) txns i p)" "status_output st = Some e"
  shows "Inr e \<in> leaves (vm (txns ! i) i p)"
proof -
  obtain x where x: "x \<in> leaves (vm (txns ! i) i p)"
      "st = (case x of Inl err \<Rightarrow> Aborts err | Inr e \<Rightarrow> wrap_status new_epoch e)"
    using assms(1) by (force simp: run_of_def vm_execute_transaction_def leaves_bind split: sum.split_asm)
  with assms(2) show ?thesis by (cases x) (auto simp: wrap_status_def split: if_splits)
qed

lemma output_ok_distinct: "output_ok lim e \<Longrightarrow> distinct (map fst (output_get_writes e) @ map fst (output_get_deltas e))"
  by (auto simp: output_ok_def output_get_writes_def output_get_deltas_def bt_wf_distinct)

lemma vm_keys_ok:
  assumes "outputs_ok lim vm txns" "\<And>S. finite S \<Longrightarrow> set (iter S) = S"
  shows "keys_ok (vm_task deser ser new_epoch vm prologue verify path iter) txns"
  unfolding keys_ok_def
proof (intro conjI allI impI)
  show "walks_sets (vm_task deser ser new_epoch vm prologue verify path iter)" using assms(2) by (simp add: walks_sets_def)
  fix i p st
  assume i: "i < length txns"
    and st: "Some st \<in> leaves (run_of (vm_task deser ser new_epoch vm prologue verify path iter) txns i p)"
  show "distinct_keys (vm_task deser ser new_epoch vm prologue verify path iter) st"
    unfolding distinct_keys_def
  proof (intro allI impI)
    fix e assume "status_output st = Some e"
    from run_of_leaves [OF st this] assms(1) i have "output_ok lim e" unfolding outputs_ok_def by blast
    from output_ok_distinct [OF this]
    show "distinct (map fst (get_writes (vm_task deser ser new_epoch vm prologue verify path iter) e)
        @ map fst (get_deltas (vm_task deser ser new_epoch vm prologue verify path iter) e))" by simp
  qed
qed

section \<open>Materialized deltas\<close>

lemma ws_squash_disjoint:
  assumes "distinct (map fst other)" "fst ` set ws \<inter> fst ` set other = {}"
  shows "ws_squash ws other = Inr (fold (\<lambda>(k, op). bt_insert k op) other ws)"
  using assms unfolding ws_squash_def
proof (induction other arbitrary: ws)
  case (Cons kop other)
  obtain k op where kop: "kop = (k, op)" by (cases kop)
  have "bt_get ws k = None" using Cons.prems(2) by (auto simp: kop bt_get_None)
  moreover have "fst ` set (bt_insert k op ws) \<inter> fst ` set other = {}"
    using Cons.prems by (auto simp: kop)
  ultimately show ?case using Cons by (simp add: kop squash_entry_def)
qed simp

lemma ws_new_sorted: "bt_wf ops \<Longrightarrow> ws_new ops = ops"
proof (rule bt_eqI)
  assume wf: "bt_wf ops"
  then show "bt_wf ops" .
  show "bt_wf (ws_new ops)" by (simp add: ws_new_def bt.wf_fold_ins)
  show "bt_get (ws_new ops) k = bt_get ops k" for k
    using distinct_map_of_rev [OF bt_wf_distinct [OF wf]]
    by (simp add: ws_new_def bt.get_fold_ins) (simp add: bt_get_def split: option.split)
qed

text \<open>The output with its deltas applied to the values of a function.\<close>

definition delta_ops :: "('k \<Rightarrow> delta_op \<Rightarrow> bytes) \<Rightarrow> ('k \<times> delta_op) list \<Rightarrow> ('k \<times> write_op) list" where
  "delta_ops f ds = map (\<lambda>(k, d). (k, Modification (f k d))) ds"

lemma delta_ops_keys [simp]: "map fst (delta_ops f ds) = map fst ds"
  by (induction ds) (auto simp: delta_ops_def)

lemma delta_ops_wf: "bt_wf ds \<Longrightarrow> bt_wf (delta_ops f ds)"
  by (simp add: bt_wf_def)

lemma delta_ops_length [simp]: "length (delta_ops f ds) = length ds"
  by (simp add: delta_ops_def)

lemma delta_ops_get: "bt_get (delta_ops f ds) k = map_option (\<lambda>d. Modification (f k d)) (bt_get ds k)"
  by (induction ds) (auto simp: delta_ops_def bt_get_def)

lemma materialize_ops:
  assumes "\<And>k d. (k, d) \<in> set ds \<Longrightarrow> try_into_write_op deser ser view d k = Some (Inr (Modification (f k d)))"
  shows "materialize deser ser view ds = Some (Inr (delta_ops f ds))"
  using assms by (induction ds) (auto simp: delta_ops_def)

definition with_deltas ::
  "('k \<Rightarrow> delta_op \<Rightarrow> bytes) \<Rightarrow> ('k::linorder, 'ev, 's) transaction_output_ext \<Rightarrow> ('k, 'ev, 's) transaction_output" where
  "with_deltas f e = (oe_output e)\<lparr>out_write_set :=
     fold (\<lambda>(k, op). bt_insert k op) (delta_ops f (oe_delta_change_set e)) (out_write_set (oe_output e))\<rparr>"

lemma merge_with_deltas:
  assumes "output_ok lim e"
  shows "merge_delta_writes (oe_output e) (delta_ops f (oe_delta_change_set e)) = Some (with_deltas f e)"
proof -
  have d: "distinct (map fst (oe_delta_change_set e))" using assms by (simp add: output_ok_def bt_wf_distinct)
  have "fst ` set (delta_ops f (oe_delta_change_set e)) = fst ` set (oe_delta_change_set e)"
    by (metis delta_ops_keys list.set_map)
  with d assms ws_squash_disjoint [of "delta_ops f (oe_delta_change_set e)" "out_write_set (oe_output e)"] show ?thesis
    by (simp add: merge_delta_writes_def with_deltas_def output_ok_def)
qed

lemma with_deltas_none: "oe_delta_change_set e = [] \<Longrightarrow> with_deltas f e = oe_output e"
  by (simp add: with_deltas_def delta_ops_def)

lemma with_deltas_events [simp]: "out_events (with_deltas f e) = out_events (oe_output e)"
  by (simp add: with_deltas_def)

lemma with_deltas_writes:
  assumes "output_ok lim e"
  shows "bt_wf (out_write_set (with_deltas f e))"
    "bt_get (out_write_set (with_deltas f e)) k =
       (case bt_get (oe_delta_change_set e) k of Some d \<Rightarrow> Some (Modification (f k d)) | None \<Rightarrow> bt_get (out_write_set (oe_output e)) k)"
proof -
  have wf: "bt_wf (out_write_set (oe_output e))" "bt_wf (oe_delta_change_set e)" using assms by (simp_all add: output_ok_def)
  show "bt_wf (out_write_set (with_deltas f e))" using bt.wf_fold_ins [OF wf(1)] by (simp add: with_deltas_def)
  have "map_of (rev (delta_ops f (oe_delta_change_set e))) k = bt_get (delta_ops f (oe_delta_change_set e)) k"
    using distinct_map_of_rev [OF bt_wf_distinct [OF delta_ops_wf [OF wf(2)]]] by (simp add: bt_get_def)
  then show "bt_get (out_write_set (with_deltas f e)) k =
      (case bt_get (oe_delta_change_set e) k of Some d \<Rightarrow> Some (Modification (f k d)) | None \<Rightarrow> bt_get (out_write_set (oe_output e)) k)"
    by (simp add: with_deltas_def bt.get_fold_ins delta_ops_get split: option.split)
qed

lemma into_output_with_deltas:
  assumes "output_ok lim e"
    and "\<And>k d. (k, d) \<in> set (oe_delta_change_set e) \<Longrightarrow> try_into_write_op deser ser view d k = Some (Inr (Modification (f k d)))"
  shows "into_transaction_output deser ser view e = Some (with_deltas f e)"
proof -
  have "bt_wf (oe_delta_change_set e)" "is_discarded (out_status (oe_output e)) \<longrightarrow> oe_delta_change_set e = []"
    using assms(1) by (simp_all add: output_ok_def)
  moreover have "materialize deser ser view (oe_delta_change_set e) = Some (Inr (delta_ops f (oe_delta_change_set e)))"
    by (rule materialize_ops) (rule assms(2))
  ultimately show ?thesis
    using merge_with_deltas [OF assms(1), of f] with_deltas_none [of e f]
    by (simp add: into_transaction_output_def try_into_write_set_mut_def ws_new_sorted delta_ops_wf)
qed

lemma output_with_delta_ops:
  assumes "output_ok lim e" "ws_new delta_writes = delta_ops f (oe_delta_change_set e)"
  shows "output_with_delta_writes e (ws_new delta_writes) = Some (with_deltas f e)"
  using merge_with_deltas [OF assms(1), of f] with_deltas_none [of e f] assms
  by (auto simp: output_with_delta_writes_def output_ok_def)

text \<open>The sequential run of a transaction, from the run without materialization.\<close>

lemma materialized_run:
  assumes run: "view_run view (run_of (vm_task deser ser new_epoch vm prologue verify path iter) txns i (flags i)) = Some (Success e)"
    and out: "into_transaction_output deser ser view e = Some out" "out_events out = out_events (oe_output e)"
  shows "view_run view (vm_execute_transaction deser ser new_epoch (with_prologue flags vm) (txns ! i) i True (False, True))
    = Some (Success (output_ext_new [] out))"
proof -
  have "view_run view (vm (txns ! i) i (flags i)) = Inr e" "\<not> should_restart_execution new_epoch (oe_output e)"
    using run by (auto simp: run_of_def vm_execute_transaction_def wrap_status_def split: sum.splits if_splits)
  then have "view_run view (with_prologue flags vm (txns ! i) i (False, True)) = Inr e" "\<not> should_restart_execution new_epoch out"
    using out(2) by (simp_all add: with_prologue_def should_restart_execution_def)
  with out(1) show ?thesis
    by (simp add: vm_execute_transaction_def view_run_into_output wrap_status_def output_ext_new_def)
qed

end
