(* ===== verification/SerialEquivalence.thy ===== *)
theory SerialEquivalence
  imports VmExecutor
begin

text \<open>
  The parallel execution of a block is equivalent to its sequential execution: when the workers
  have left, the outputs with their resolved deltas are the outputs that the sequential executor
  produces from the same block and the same base state.
\<close>

section \<open>One transaction\<close>

lemma entries_below_key: "entries_below mv k i = bt_below i (key_entries mv k)"
  by (simp add: entries_below_def key_entries_def split: option.split)

lemma key_entries_wf: "mv_wf mv \<Longrightarrow> bt_wf (key_entries mv k)"
  using mv_wf_vv [of mv k] by (auto simp: key_entries_def vv_wf_def split: option.split)

lemma key_entries_get: "bt_get (key_entries mv k) j = ents mv j k"
  by (simp add: key_entries_def ents_def split: option.split)

lemma entries_below_Suc:
  assumes "mv_wf mv"
  shows "entries_below mv k (Suc i) = entries_below mv k i @ (case ents mv i k of None \<Rightarrow> [] | Some e \<Rightarrow> [(i, e)])"
proof (cases "ents mv i k")
  case None
  have "bt_below (Suc i) (key_entries mv k) = bt_below i (key_entries mv k)"
    by (rule bt_eqI) (use key_entries_wf [OF assms] None in \<open>auto simp: bt_get_below key_entries_get less_Suc_eq\<close>)
  with None show ?thesis by (simp add: entries_below_key)
next
  case (Some e)
  then show ?thesis
    using bt_below_snoc [OF key_entries_wf [OF assms], of k i e "Suc i"] by (simp add: entries_below_key key_entries_get)
qed

text \<open>The value of a key below transaction \<open>i\<close>, and what a delta of \<open>i\<close> makes of it.\<close>

definition value_below ::
  "('t, 'k, 'v, 'o, 'e, 'x) executor_task \<Rightarrow> ('k, 'x) base_view \<Rightarrow> ('k, 'v) mvhashmap \<Rightarrow> txn_index \<Rightarrow> 'k \<Rightarrow> bytes option" where
  "value_below env base mv i k = entries_value env (entries_below mv k i) (base_bytes base k)"

definition delta_result ::
  "('t, 'k, 'v, 'o, 'e, 'x) executor_task \<Rightarrow> ('k, 'x) base_view \<Rightarrow> ('k, 'v) mvhashmap \<Rightarrow> txn_index \<Rightarrow> 'k \<Rightarrow> delta_op \<Rightarrow> bytes" where
  "delta_result env base mv i k d = the (entry_value env (new_delta_from FLAG_DONE d) (value_below env base mv i k))"

lemma bt_below_split: "bt_wf m \<Longrightarrow> m = bt_below j m @ filter (\<lambda>e. \<not> fst e < j) m"
proof (induction m)
  case (Cons ke m)
  then have wf: "bt_wf m" "\<forall>k \<in> fst ` set m. fst ke < k" by (cases ke; simp add: bt_wf_Cons)+
  show ?case
  proof (cases "fst ke < j")
    case True
    with Cons.IH [OF wf(1)] show ?thesis by (simp add: bt_below_def)
  next
    case False
    with wf(2) have "\<forall>e \<in> set (ke # m). \<not> fst e < j" by force
    then have "bt_below j (ke # m) = []" "filter (\<lambda>e. \<not> fst e < j) (ke # m) = ke # m"
      unfolding bt_below_def by (blast intro: filter_False filter_True)+
    then show ?thesis by simp
  qed
qed simp

lemma below_applicable:
  assumes "mv_wf mv" "all_applicable env (key_entries mv k) (base_bytes base k)"
  shows "all_applicable env (entries_below mv k i) (base_bytes base k)"
    "ents mv i k = Some e \<Longrightarrow> applicable env e (value_below env base mv i k)"
proof -
  note split = bt_below_split [OF key_entries_wf [OF assms(1)]]
  have pre: "all_applicable env (entries_below mv k j) (base_bytes base k)" for j
    using assms(2) split [of k j] all_applicable_append [of env] unfolding entries_below_key by metis
  show "all_applicable env (entries_below mv k i) (base_bytes base k)" by (rule pre)
  show "applicable env e (value_below env base mv i k)" if "ents mv i k = Some e"
    using pre [of "Suc i"] entries_below_Suc [OF assms(1), of k i] that
    by (simp add: all_applicable_append value_below_def)
qed

lemma applicable_state_value:
  assumes "applicable env e (value_below env base mv i k)" "is_delta e"
  shows "state_value env base mv k i = Inr (value_below env base mv i k)"
proof -
  obtain d where "cell e = CDelta d" using assms(2) by (auto simp: is_delta_def split: entry_cell.splits)
  with assms(1) obtain bs where bs: "value_below env base mv i k = Some bs" by (auto elim: applicable_delta)
  then show ?thesis
    by (auto simp: state_value_def value_below_def base_bytes_def split: sum.splits)
qed

section \<open>The state of the sequential execution\<close>

text \<open>The map of the sequential execution before transaction \<open>i\<close> agrees with the entries below \<open>i\<close>.\<close>

definition agrees ::
  "('t, 'k::linorder, write_op, 'o, 'e, 'x) executor_task \<Rightarrow> ('k, 'x) base_view \<Rightarrow> ('k, write_op) mvhashmap
    \<Rightarrow> txn_index \<Rightarrow> ('k, write_op) btree \<Rightarrow> bool" where
  "agrees env base mv i dm \<longleftrightarrow> (\<forall>k. if entries_below mv k i = [] then bt_get dm k = None
     else \<exists>op. bt_get dm k = Some op \<and> extract_raw_bytes op = value_below env base mv i k)"

lemma agrees_value:
  assumes "agrees env base mv i dm" "raw_bytes env = extract_raw_bytes"
  shows "btree_state_value env base dm k = state_value env base mv k i"
proof (cases "entries_below mv k i = []")
  case True
  with assms(1) have "bt_get dm k = None" by (metis agrees_def)
  with True show ?thesis by (simp add: btree_state_value_def state_value_def)
next
  case False
  moreover have "if entries_below mv k i = [] then bt_get dm k = None
     else \<exists>op. bt_get dm k = Some op \<and> extract_raw_bytes op = value_below env base mv i k"
    using assms(1) unfolding agrees_def by blast
  ultimately obtain op where "bt_get dm k = Some op" "extract_raw_bytes op = value_below env base mv i k" by auto
  with False assms(2) show ?thesis by (simp add: btree_state_value_def state_value_def value_below_def)
qed

lemma agrees_start: "agrees env base mv 0 []"
  by (simp add: agrees_def entries_below_key bt_below_def)

lemma target_success:
  "target env inc (Success e) k =
     (case map_of (get_deltas env e) k of
        Some d \<Rightarrow> Some (new_delta_from FLAG_DONE d)
      | None \<Rightarrow> map_option (new_write_from FLAG_DONE inc) (map_of (get_writes env e) k))"
  by (simp add: target_def)

lemma agrees_step:
  assumes task: "env = vm_task deser ser new_epoch vm prologue verify path iter"
    and mv: "mv_wf mv" "all_applicable env (key_entries mv k) (base_bytes base k)"
    and e: "ents mv i = target env inc (Success e)" "output_ok lim e"
    and before: "if entries_below mv k i = [] then bt_get dm k = None
      else \<exists>op. bt_get dm k = Some op \<and> extract_raw_bytes op = value_below env base mv i k"
  shows "if entries_below mv k (Suc i) = []
    then bt_get (insert_writes (out_write_set (with_deltas (delta_result env base mv i) e)) dm) k = None
    else \<exists>op. bt_get (insert_writes (out_write_set (with_deltas (delta_result env base mv i) e)) dm) k = Some op
      \<and> extract_raw_bytes op = value_below env base mv (Suc i) k"
proof -
  let ?ws = "out_write_set (with_deltas (delta_result env base mv i) e)"
  note w = with_deltas_writes [OF e(2), of "delta_result env base mv i"]
  have "map_of (rev ?ws) k = bt_get ?ws k"
    using distinct_map_of_rev [OF bt_wf_distinct [OF w(1)]] by (simp add: bt_get_def)
  then have ins: "bt_get (insert_writes ?ws dm) k = (case bt_get ?ws k of Some op \<Rightarrow> Some op | None \<Rightarrow> bt_get dm k)"
    by (simp add: insert_writes_def bt.get_fold_ins)
  have ent: "ents mv i k = (case bt_get (oe_delta_change_set e) k of
        Some d \<Rightarrow> Some (new_delta_from FLAG_DONE d)
      | None \<Rightarrow> map_option (new_write_from FLAG_DONE inc) (bt_get (out_write_set (oe_output e)) k))"
    using e(1) by (simp add: target_success task output_get_writes_def output_get_deltas_def bt_get_def cong: option.case_cong)
  note es = entries_below_Suc [OF mv(1), of k i]
  show ?thesis
  proof (cases "bt_get (oe_delta_change_set e) k")
    case (Some d)
    then have en: "ents mv i k = Some (new_delta_from FLAG_DONE d)" using ent by simp
    have "applicable env (new_delta_from FLAG_DONE d) (value_below env base mv i k)"
      by (rule below_applicable(2) [OF mv en])
    then have "entry_value env (new_delta_from FLAG_DONE d) (value_below env base mv i k) = Some (delta_result env base mv i k d)"
      by (simp add: applicable_def delta_result_def)
    then show ?thesis
      using Some en es ins w(2) [of k] by (simp add: value_below_def entries_value_append)
  next
    case None
    show ?thesis
    proof (cases "bt_get (out_write_set (oe_output e)) k")
      case (Some op)
      then have "ents mv i k = Some (new_write_from FLAG_DONE inc op)" using ent None by simp
      moreover have "entry_value env (new_write_from FLAG_DONE inc op) b = extract_raw_bytes op" for b
        by (simp add: task new_write_from_def)
      ultimately show ?thesis
        using Some None es ins w(2) [of k] by (simp add: value_below_def entries_value_append)
    next
      case no: None
      then have "ents mv i k = None" using ent None by simp
      then have "entries_below mv k (Suc i) = entries_below mv k i" "value_below env base mv (Suc i) k = value_below env base mv i k"
        using es by (simp_all add: value_below_def)
      with None no ins w(2) [of k] before show ?thesis by simp
    qed
  qed
qed

lemma materialized_delta:
  assumes task: "env = vm_task deser ser new_epoch vm prologue verify path iter"
    and mv: "mv_wf mv" "all_applicable env (key_entries mv k) (base_bytes base k)"
    and e: "ents mv i = target env inc (Success e)" "output_ok lim e" "(k, d) \<in> set (oe_delta_change_set e)"
    and view: "view k = state_value env base mv k i"
  shows "try_into_write_op deser ser view d k = Some (Inr (Modification (delta_result env base mv i k d)))"
proof -
  let ?e = "new_delta_from FLAG_DONE d :: write_op entry"
  have "bt_get (oe_delta_change_set e) k = Some d" using e(2,3) by (simp add: output_ok_def bt_mem_get)
  then have "ents mv i k = Some ?e" using e(1) by (simp add: target_success task output_get_deltas_def bt_get_def)
  from below_applicable(2) [OF mv this] have app: "applicable env ?e (value_below env base mv i k)" .
  moreover have "cell ?e = CDelta d" by (simp add: new_delta_from_def)
  ultimately obtain bs x r where r: "value_below env base mv i k = Some bs" "deserialize env bs = Some x" "apply_to d x = Inr r"
      "entry_value env ?e (value_below env base mv i k) = Some (serialize env r)"
    by (rule applicable_delta)
  have "view k = Inr (Some bs)" using applicable_state_value [OF app] view r(1) by simp
  with r task show ?thesis by (simp add: try_into_write_op_def delta_result_def)
qed

section \<open>The loop\<close>

text \<open>
  The multi-version map of a finished block: every transaction has the entries of its output, and
  its run against the map, with the prologue entry it found, gives this output.
\<close>

definition finished_block ::
  "('t, 'k::linorder, write_op, ('k, 'ev, 's) transaction_output_ext, 'e, 'x) executor_task \<Rightarrow> ('k, 'x) base_view \<Rightarrow> 't list
    \<Rightarrow> ('k \<Rightarrow> u128) \<Rightarrow> (txn_index \<Rightarrow> bool \<times> bool) \<Rightarrow> ('k, write_op) mvhashmap
    \<Rightarrow> (txn_index \<Rightarrow> ('k, 'ev, 's) transaction_output_ext) \<Rightarrow> bool" where
  "finished_block env base txns lim flags mv out \<longleftrightarrow> mv_wf mv \<and> (\<forall>j \<ge> length txns. ents mv j = Map.empty)
     \<and> (\<forall>j < length txns. output_ok lim (out j) \<and> (\<exists>inc. ents mv j = target env inc (Success (out j)))
          \<and> (\<exists>rs. mv_run env base mv j (run_of env txns j (flags j)) [] = Some (Inr (Some (Success (out j)), rs))))"

lemma finished_blockD:
  assumes "finished_block env base txns lim flags mv out" "j < length txns"
  obtains inc rs where "output_ok lim (out j)" "ents mv j = target env inc (Success (out j))"
    "mv_run env base mv j (run_of env txns j (flags j)) [] = Some (Inr (Some (Success (out j)), rs))"
  using assms unfolding finished_block_def by blast

lemma finished_done:
  assumes "env = vm_task deser ser new_epoch vm prologue verify path iter" "finished_block env base txns lim flags mv out"
  shows "\<forall>ie \<in> set (entries_below mv k i). done_entry (lim k) (snd ie)"
proof
  fix ie assume ie: "ie \<in> set (entries_below mv k i)"
  have wf: "mv_wf mv" using assms(2) by (simp add: finished_block_def)
  obtain j e where je: "ie = (j, e)" by (cases ie)
  then have "(j, e) \<in> set (key_entries mv k)" using ie by (simp add: entries_below_key bt_below_def)
  then have en: "ents mv j k = Some e" using bt_mem_get [OF key_entries_wf [OF wf]] by (simp add: key_entries_get)
  have j: "j < length txns"
  proof (rule ccontr)
    assume "\<not> j < length txns"
    then have "ents mv j = Map.empty" using assms(2) by (simp add: finished_block_def)
    with en show False by simp
  qed
  then obtain inc where "ents mv j = target env inc (Success (out j))" "output_ok lim (out j)"
    using assms(2) by (auto simp: finished_block_def)
  with en show "done_entry (lim k) (snd ie)"
    by (auto simp: je assms(1) target_success done_entry_def is_done_delta_def new_delta_from_def new_write_from_def is_delta_def
        FLAG_DONE_def FLAG_ESTIMATE_def output_get_deltas_def output_ok_def split: option.splits dest!: map_of_SomeD)
qed

lemma sequential_loop_spec:
  assumes task: "env = vm_task deser ser new_epoch vm prologue verify path iter"
    and seq: "env' = vm_task deser ser new_epoch (with_prologue flags vm) prologue verify path iter"
    and fin: "finished_block env base txns lim flags mv out" and app: "\<And>k. all_applicable env (key_entries mv k) (base_bytes base k)"
    and codec: "codec_ok env"
    and i: "i \<le> length txns" "agrees env base mv i dm"
  shows "sequential_loop env' base i (drop i txns) dm ret =
    Some (Inr (ret @ map (\<lambda>j. output_ext_new [] (with_deltas (delta_result env base mv j) (out j))) [i..<length txns]))"
  using i
proof (induction "length txns - i" arbitrary: i dm ret)
  case 0
  then show ?case by simp
next
  case (Suc m)
  then have i: "i < length txns" by simp
  have wf: "mv_wf mv" using fin by (simp add: finished_block_def)
  obtain inc rs where e: "output_ok lim (out i)" "ents mv i = target env inc (Success (out i))"
      "mv_run env base mv i (run_of env txns i (flags i)) [] = Some (Inr (Some (Success (out i)), rs))"
    by (rule finished_blockD [OF fin i])
  let ?view = "btree_state_value env' base dm" and ?out = "with_deltas (delta_result env base mv i) (out i)"
  have view: "?view k = state_value env base mv k i" for k 
  proof -
    have "?view k = btree_state_value env base dm k" by (simp add: btree_state_value_def task seq split: option.split)
    also have "\<dots> = state_value env base mv k i" by (rule agrees_value [OF Suc.prems(2)]) (simp add: task)
    finally show ?thesis .
  qed
  have "view_run ?view (run_of env txns i (flags i)) = Some (Success (out i))"
    by (rule mv_run_view [OF e(3)])
       (use read_value [OF finished_done [OF task fin] below_applicable(1) [OF wf app] codec] view in simp)
  moreover have "into_transaction_output deser ser ?view (out i) = Some ?out"
    by (rule into_output_with_deltas [OF e(1)]) (rule materialized_delta [OF task wf app e(2,1) _ view])
  ultimately have run: "view_run ?view (vm_execute_transaction deser ser new_epoch (with_prologue flags vm) (txns ! i) i True (False, True))
      = Some (Success (output_ext_new [] ?out))"
    by (intro materialized_run) (simp_all add: task)
  have "agrees env base mv (Suc i) (insert_writes (out_write_set ?out) dm)"
    using agrees_step [OF task wf app e(2,1)] Suc.prems(2) unfolding agrees_def by blast
  from Suc.hyps(1) [OF _ _ this, of "ret @ [output_ext_new [] ?out]"] Suc.hyps(2) i
  have rest: "sequential_loop env' base (i + 1) (drop (Suc i) txns) (insert_writes (out_write_set ?out) dm) (ret @ [output_ext_new [] ?out])
      = Some (Inr ((ret @ [output_ext_new [] ?out])
          @ map (\<lambda>j. output_ext_new [] (with_deltas (delta_result env base mv j) (out j))) [Suc i..<length txns]))"
    by simp
  have fields: "get_deltas env' (output_ext_new [] ?out) = []" "get_writes env' (output_ext_new [] ?out) = out_write_set ?out"
    by (simp_all add: seq output_get_deltas_def output_get_writes_def output_ext_new_def)
  have "execute_transaction env' = vm_execute_transaction deser ser new_epoch (with_prologue flags vm)" by (simp add: seq)
  with run rest fields i show ?case
    by (simp add: Cons_nth_drop_Suc [symmetric] upt_conv_Cons)
qed

section \<open>The outputs of the parallel execution\<close>

lemma concat_chunks: "0 < sz \<Longrightarrow> concat (chunks sz xs) = xs"
proof (induction sz xs rule: chunks.induct)
  case (1 sz xs)
  then show ?case by (subst chunks.simps) auto
qed

lemma chunk_size_pos: "0 < n \<Longrightarrow> 0 < concurrency \<Longrightarrow> 0 < chunk_size n concurrency"
  by (simp add: chunk_size_def div_greater_zero_iff)

lemma extract_chunk_success:
  assumes "distinct c" "\<And>i. i \<in> set c \<Longrightarrow> i < length (outputs io) \<and> outputs io ! i = Some (Success (out i))"
  shows "\<exists>io'. extract_chunk c io acc = Some (Inr (acc @ map out c), io') \<and> length (outputs io') = length (outputs io)
    \<and> (\<forall>j. j \<notin> set c \<longrightarrow> outputs io' ! j = outputs io ! j)"
  using assms
proof (induction c arbitrary: io acc)
  case (Cons i c)
  let ?io = "io\<lparr>outputs := (outputs io)[i := None]\<rparr>"
  have t: "take_output i io = Some (Success (out i), ?io)" using Cons.prems(2) [of i] by (simp add: take_output_def)
  have "\<exists>io'. extract_chunk c ?io (acc @ [out i]) = Some (Inr ((acc @ [out i]) @ map out c), io')
      \<and> length (outputs io') = length (outputs ?io) \<and> (\<forall>j. j \<notin> set c \<longrightarrow> outputs io' ! j = outputs ?io ! j)"
  proof (rule Cons.IH)
    fix j assume "j \<in> set c"
    moreover from this have "j \<noteq> i" using Cons.prems(1) by auto
    ultimately show "j < length (outputs ?io) \<and> outputs ?io ! j = Some (Success (out j))" using Cons.prems(2) [of j] by simp
  qed (use Cons.prems(1) in simp)
  with t Cons.prems(1) show ?case by auto
qed simp

lemma extract_chunks_success:
  assumes "distinct (concat cs)" "\<And>i. i \<in> set (concat cs) \<Longrightarrow> i < length (outputs io) \<and> outputs io ! i = Some (Success (out i))"
  shows "extract_chunks cs io = Some (map (\<lambda>c. Inr (map out c)) cs)"
  using assms
proof (induction cs arbitrary: io)
  case (Cons c cs)
  have "distinct c" "\<And>i. i \<in> set c \<Longrightarrow> i < length (outputs io) \<and> outputs io ! i = Some (Success (out i))"
    using Cons.prems by auto
  from extract_chunk_success [OF this, of "[]"] obtain io' where io': "extract_chunk c io [] = Some (Inr (map out c), io')"
      "length (outputs io') = length (outputs io)" "\<forall>j. j \<notin> set c \<longrightarrow> outputs io' ! j = outputs io ! j" by auto
  have "extract_chunks cs io' = Some (map (\<lambda>c. Inr (map out c)) cs)"
  proof (rule Cons.IH)
    fix j assume j: "j \<in> set (concat cs)"
    then have "j \<notin> set c" using Cons.prems(1) by auto
    with j Cons.prems(2) io'(2,3) show "j < length (outputs io') \<and> outputs io' ! j = Some (Success (out j))" by auto
  qed (use Cons.prems(1) in simp)
  with io'(1) show ?case by simp
qed simp

lemma gather_success: "gather_results (map (\<lambda>c. Inr (map out c)) cs) acc = (None, acc @ map out (concat cs))"
  by (induction cs arbitrary: acc) auto

lemma resize_same: "length xs = n \<Longrightarrow> resize_with n d xs = xs"
  by (simp add: resize_with_def)

text \<open>
  When every transaction succeeded, extraction returns the outputs in block order, with the
  resolved deltas; it reports a race on modules or fails in resolving.
\<close>

lemma parallel_results_success:
  assumes "length (outputs io) = n" "\<And>i. i < n \<Longrightarrow> outputs io ! i = Some (Success (out i))" "0 < concurrency"
  shows "parallel_results env base n concurrency io mv =
    (if module_publishing_may_race io then Some (Inl ModulePathReadWrite)
     else map_option (\<lambda>deltas. Inr (zip (map out [0..<n]) deltas)) (resolve env base n mv))"
proof -
  let ?cs = "chunks (chunk_size n concurrency) [0..<n]"
  have c: "concat ?cs = [0..<n]"
  proof (cases "n = 0")
    case True
    then show ?thesis by (simp add: chunks.simps [of _ "[]"])
  next
    case False
    then show ?thesis using chunk_size_pos [of n concurrency] assms(3) by (intro concat_chunks) simp
  qed
  then have "extract_chunks ?cs io = Some (map (\<lambda>c. Inr (map out c)) ?cs)"
    using assms(1,2) by (intro extract_chunks_success) auto
  then show ?thesis by (simp add: parallel_results_def resize_same gather_success c)
qed

section \<open>Resolved deltas\<close>

lemma concat_single_keys:
  assumes "distinct ks" "\<And>k. f k = [] \<or> (\<exists>v. f k = [(k, v)])"
  shows "distinct (map fst (concat (map f ks))) \<and> map_of (concat (map f ks)) k = (if k \<in> set ks then map_of (f k) k else None)"
  using assms(1)
proof (induction ks)
  case (Cons x ks)
  have keys: "fst ` set (concat (map f ks)) \<subseteq> set ks"
  proof
    fix y assume "y \<in> fst ` set (concat (map f ks))"
    then obtain z v where z: "z \<in> set ks" "(y, v) \<in> set (f z)" by auto
    with assms(2) [of z] show "y \<in> set ks" by auto
  qed
  then have "x \<notin> fst ` set (concat (map f ks))" using Cons.prems by auto
  then have new: "map_of (concat (map f ks)) x = None" "x \<notin> set (map fst (concat (map f ks)))"
    by (simp_all add: map_of_eq_None_iff)
  consider "f x = []" | v where "f x = [(x, v)]" using assms(2) [of x] by blast
  then show ?case
  proof cases
    case 1
    with Cons new show ?thesis by simp
  next
    case (2 v)
    with Cons new show ?thesis by (simp add: map_add_def)
  qed
qed simp

lemma delta_write_single: "delta_write env k es b j = [] \<or> (\<exists>v. delta_write env k es b j = [(k, v)])"
  by (simp add: delta_write_def split: option.split)

lemma resolved_ops:
  assumes task: "env = vm_task deser ser new_epoch vm prologue verify path iter"
    and res: "resolve env base n mv = Some ret" and mv: "mv_wf mv" and codec: "codec_ok env" and i: "i < n"
    and e: "ents mv i = target env inc (Success e)" "output_ok lim e"
  shows "ws_new (ret ! i) = delta_ops (delta_result env base mv i) (oe_delta_change_set e)"
proof (rule bt_eqI)
  let ?f = "\<lambda>k. delta_write env k (key_entries mv k) (base_bytes base k) i"
  note r = resolve_spec(3) [OF res mv codec i]
  have d: "distinct (delta_keys mv)" using mv by (simp add: mv_wf_def)
  note c = concat_single_keys [OF d, of ?f, OF delta_write_single]
  show "bt_wf (ws_new (ret ! i))" by (simp add: ws_new_def bt.wf_fold_ins)
  show "bt_wf (delta_ops (delta_result env base mv i) (oe_delta_change_set e))"
    using e(2) by (simp add: output_ok_def delta_ops_wf)
  fix k
  have "bt_get (ws_new (ret ! i)) k = map_of (ret ! i) k"
    using distinct_map_of_rev [of "ret ! i" k] c r by (simp add: ws_new_def bt.get_fold_ins split: option.split)
  also have "\<dots> = (if k \<in> set (delta_keys mv) then map_of (?f k) k else None)" using c r by simp
  also have "\<dots> = map_option (\<lambda>d. Modification (delta_result env base mv i k d)) (bt_get (oe_delta_change_set e) k)"
  proof (cases "bt_get (oe_delta_change_set e) k")
    case (Some d)
    then have en: "ents mv i k = Some (new_delta_from FLAG_DONE d)"
      using e(1) by (simp add: target_success task output_get_deltas_def bt_get_def)
    then obtain vv where vv: "mv_data mv k = Some vv" "bt_get (versioned_map vv) i = Some (new_delta_from FLAG_DONE d)"
      by (auto simp: ents_def bind_eq_Some_conv)
    have "k \<in> set (delta_keys mv)"
      using mv_wf_vv [OF mv vv(1)] bt_get_mem [OF vv(2)] by (force simp: vv_wf_def)
    moreover have "entries_value env (bt_below (Suc i) (key_entries mv k)) (base_bytes base k) =
        entry_value env (new_delta_from FLAG_DONE d) (value_below env base mv i k)"
      using entries_below_Suc [OF mv, of k i] en by (simp add: entries_below_key value_below_def entries_value_append)
    ultimately show ?thesis
      using en Some by (simp add: delta_write_def key_entries_get delta_result_def)
  next
    case None
    then have "\<not> (\<exists>en. ents mv i k = Some en \<and> is_delta en)"
      using e(1) by (auto simp: target_success task output_get_deltas_def bt_get_def)
    then have "?f k = []" by (auto simp: delta_write_def key_entries_get split: option.split)
    with None show ?thesis by simp
  qed
  also have "\<dots> = bt_get (delta_ops (delta_result env base mv i) (oe_delta_change_set e)) k" by (simp add: delta_ops_get)
  finally show "bt_get (ws_new (ret ! i)) k = bt_get (delta_ops (delta_result env base mv i) (oe_delta_change_set e)) k" .
qed

lemma those_Some: "those (map Some xs) = Some xs"
  by (induction xs) auto

lemma combine_map:
  assumes "length ret = n" "\<And>i. i < n \<Longrightarrow> output_with_delta_writes (out i) (ws_new (ret ! i)) = Some (res i)"
  shows "combine_outputs (zip (map out [0..<n]) ret) = Some (map res [0..<n])"
proof -
  have "map (\<lambda>(e, delta_writes). output_with_delta_writes e (ws_new delta_writes)) (zip (map out [0..<n]) ret)
      = map Some (map res [0..<n])"
    using assms by (intro nth_equalityI) auto
  then show ?thesis unfolding combine_outputs_def by (simp only: those_Some)
qed

lemma combine_plain:
  "combine_outputs (map (\<lambda>outp. (outp, [])) (map (\<lambda>j. output_ext_new [] (res j)) [0..<n])) = Some (map res [0..<n])"
proof -
  have "map (\<lambda>(e, delta_writes). output_with_delta_writes e (ws_new delta_writes))
      (map (\<lambda>outp. (outp, [])) (map (\<lambda>j. output_ext_new [] (res j)) [0..<n])) = map Some (map res [0..<n])"
    by (simp add: output_with_delta_writes_def output_ext_new_def)
  then show ?thesis unfolding combine_outputs_def by (simp only: those_Some)
qed

section \<open>Equivalence\<close>

lemma finished_equivalence:
  assumes task: "env = vm_task deser ser new_epoch vm prologue verify path iter"
    and seq: "env' = vm_task deser ser new_epoch (with_prologue flags vm) prologue verify path iter"
    and fin: "finished_block env base txns lim flags mv out" and codec: "codec_ok env"
    and res: "resolve env base (length txns) mv = Some ret"
  shows "\<exists>outs. vm_execute_block (Some (Inr (zip (map out [0..<length txns]) ret))) = Some (Inr outs)
    \<and> vm_execute_block (execute_transactions_sequential env' base txns) = Some (Inr outs)"
proof -
  let ?n = "length txns" and ?res = "\<lambda>i. with_deltas (delta_result env base mv i) (out i)"
  have wf: "mv_wf mv" using fin by (simp add: finished_block_def)
  have "output_with_delta_writes (out i) (ws_new (ret ! i)) = Some (?res i)" if i: "i < ?n" for i
  proof -
    obtain inc where e: "ents mv i = target env inc (Success (out i))" "output_ok lim (out i)"
      by (rule finished_blockD [OF fin i])
    show ?thesis by (rule output_with_delta_ops [OF e(2) resolved_ops [OF task res wf codec i e]])
  qed
  then have par: "combine_outputs (zip (map out [0..<?n]) ret) = Some (map ?res [0..<?n])"
    by (rule combine_map [OF resolve_spec(2) [OF res wf codec]])
  have seq: "sequential_loop env' base 0 txns [] [] = Some (Inr (map (\<lambda>j. output_ext_new [] (?res j)) [0..<?n]))"
    using sequential_loop_spec [OF task seq fin resolve_applicable [OF res wf codec] codec _ agrees_start, of "[]"] by simp
  from combine_plain [of ?res ?n] seq par show ?thesis
    by (simp add: vm_execute_block_def execute_transactions_sequential_def resize_same)
qed

text \<open>The state of the workers when one of them has left.\<close>

lemma exited_committed:
  assumes "system_ok \<sigma>" "l < length (workers \<sigma>)" "wpc (workers \<sigma> ! l) = Exited" "i < num_txns (sched \<sigma>)"
  obtains inc where "exec_status (sched \<sigma>) i = Committed inc"
proof -
  have "done_marker (sched \<sigma>)" using ok_parts(4) [OF assms(1) worker_atI [OF assms(2,3)]] by simp
  then have "is_committed (sched \<sigma>) i" using assms(1,4) by (simp add: system_ok_def commit_ok_def)
  with that show thesis by (auto simp: is_committed_def split: execution_status.splits)
qed

lemma exited_finished:
  assumes task: "env = vm_task deser ser new_epoch vm prologue verify path iter"
    and ok: "t_ok env base txns S" "keys_ok env txns" "outputs_ok lim vm txns"
    and left: "l < length (workers (p_sys S))" "wpc (workers (p_sys S) ! l) = Exited"
    and succ: "\<And>i. i < length txns \<Longrightarrow> outputs (p_io S) ! i = Some (Success (out i))"
  shows "\<exists>flags. finished_block env base txns lim flags (p_mv S) out"
proof -
  have inv: "system_ok (p_sys S)" "data_ok env base txns S" using ok(1) by (simp_all add: t_ok_def p_ok_def)
  note n = data_okD(8) [OF inv(2)]
  have "\<exists>p. output_ok lim (out j) \<and> (\<exists>inc. ents (p_mv S) j = target env inc (Success (out j)))
      \<and> (\<exists>rs. mv_run env base (p_mv S) j (run_of env txns j p) [] = Some (Inr (Some (Success (out j)), rs)))"
    if j: "j < length txns" for j
  proof -
    have j': "j < num_txns (p_sched S)" using j n by simp
    obtain inc where c: "exec_status (p_sched S) j = Committed inc" by (rule exited_committed [OF inv(1) left j'])
    obtain st rs p where st: "outputs (p_io S) ! j = Some (user_error st)" "ents (p_mv S) j = target env inc st"
        "Some st \<in> leaves (run_of env txns j p)" "mv_run env base (p_mv S) j (run_of env txns j p) [] = Some (Inr (Some st, rs))"
      by (rule committed_rerun [OF ok(1,2) j' c])
    have s: "st = Success (out j)" using st(1) succ [OF j] by (cases st) auto
    then have "Inr (out j) \<in> leaves (vm (txns ! j) j p)" using st(3) run_of_leaves by (fastforce simp: task)
    then have "output_ok lim (out j)" using ok(3) j unfolding outputs_ok_def by blast
    with st(2,4) s show ?thesis by blast
  qed
  then obtain flags where "\<And>j. j < length txns \<Longrightarrow> output_ok lim (out j) \<and> (\<exists>inc. ents (p_mv S) j = target env inc (Success (out j)))
      \<and> (\<exists>rs. mv_run env base (p_mv S) j (run_of env txns j (flags j)) [] = Some (Inr (Some (Success (out j)), rs)))"
    by metis
  moreover have "ents (p_mv S) j = Map.empty" if "length txns \<le> j" for j
    using data_okD(6) [OF inv(2)] that n by simp
  ultimately have "finished_block env base txns lim flags (p_mv S) out"
    using data_okD(1) [OF inv(2)] by (simp add: finished_block_def)
  then show ?thesis by blast
qed

end
