(* ===== verification/ParallelCorrectness.thy ===== *)
theory ParallelCorrectness
  imports SerialEquivalence
begin

text \<open>
  What the parallel executor guarantees: committed outputs are final, along every interleaving of its
  workers; and as long as validations are handed out in time, committed outputs are reproducible and a
  finished block has the outputs of sequential execution. A concrete
  block for the properties of the parallel executor: two transactions that both
  increment a counter under key 1 and an aggregator under key 5, executed by two workers in an order
  in which the second transaction reads the counter too early, is aborted and executed again.
\<close>

definition bump :: "unit state_value \<Rightarrow> bytes" where
  "bump a = (case a of Inr (Some bs) \<Rightarrow> 0 # bs | _ \<Rightarrow> [0])"

definition demo_output :: "unit state_value \<Rightarrow> (nat, unit, unit) transaction_output_ext" where
  "demo_output a = output_ext_new [(5, delta_add 2 100)]
     \<lparr>out_write_set = [(1, Modification (bump a))], out_events = [], out_gas_used = 0, out_status = Keep ()\<rparr>"

definition demo_vm :: "(nat, nat, unit, unit, unit, unit) vm" where
  "demo_vm t i p = Get 1 (\<lambda>a. Finished (Inr (demo_output a)))"

definition demo_task :: "(nat, nat, write_op, (nat, unit, unit) transaction_output_ext, unit, unit) executor_task" where
  "demo_task = vm_task unary_deser unary_ser (\<lambda>_. False) demo_vm (\<lambda>_ _. Finished True) (\<lambda>_. True) (\<lambda>_. None) sorted_list_of_set"

definition demo_base :: "(nat, unit) base_view" where
  "demo_base k = Inr (if k = 5 then Some [0, 0, 0] else None)"

definition demo_schedule :: "paction list" where
  "demo_schedule = [PMove 0, PMove 1] @ replicate 7 (PMove 1) @ replicate 14 (PMove 0) @ [PCommit]
     @ replicate 24 (PMove 1) @ [PCommit, PCommit] @ replicate 4 (PMove 1) @ replicate 4 (PMove 0)"

definition early_schedule :: "paction list" where
  "early_schedule = take 24 demo_schedule"

lemma demo_outputs_ok: "outputs_ok (\<lambda>_. 100) demo_vm txns"
proof -
  have "output_ok (\<lambda>_. 100) (demo_output a)" for a
  proof -
    have "delta_wf (delta_add 2 100)" "limit (delta_add 2 100) = 100" by code_simp+
    then show ?thesis by (simp add: output_ok_def demo_output_def output_ext_new_def bt_wf_def)
  qed
  then show ?thesis by (auto simp: outputs_ok_def demo_vm_def)
qed

lemma demo_keys_ok: "keys_ok demo_task txns"
  unfolding demo_task_def by (rule vm_keys_ok [OF demo_outputs_ok]) simp


definition block_sched :: scheduler where
  "block_sched =
     \<lparr>num_txns = 2, execution_idx = 0, validation_idx = 0, done_marker = False,
      txn_status = [(ReadyToExecute 0 None, validation_status_new), (ReadyToExecute 0 None, validation_status_new)],
      hint_graph = [[], []], concurrency_level = 2, channels = [0, 1], priochannels = [],
      sig_val_idx = 0, prologue_map = [(True, False), (False, False)], prologue_index = 0, mode = Standard,
      critical_path_parent = [[], []], children = [[], []]\<rparr>"

definition block_run ::
  "paction list \<Rightarrow> (nat, write_op, (nat, unit, unit) transaction_output_ext, unit, unit) psystem" where
  "block_run as = the (pperform_all demo_task demo_base [10, 20] as (psystem_new 2 2 block_sched))"

lemma block_sched_new: "scheduler_new 2 [[], []] [1, 1] 2 Standard [(True, False), (False, False)] = Some block_sched"
proof -
  have "[0..<2] = [0, 1::nat]" by (simp add: upt_rec)
  moreover have "replicate 2 x = [x, x]" for x :: 'a by (simp add: numeral_2_eq_2)
  ultimately show ?thesis by (simp add: scheduler_new_def block_sched_def add_chk_def numeral_2_eq_2)
qed

lemma block_run_reachable:
  assumes "pperform_all demo_task demo_base [10, 20] as (psystem_new 2 2 block_sched) \<noteq> None"
  shows "p_reachable demo_task demo_base [10, 20] [[], []] [1, 1] Standard 2 (block_run as)"
proof -
  have "prun demo_task demo_base [10, 20] [[], []] [1, 1] Standard 2 [(True, False), (False, False)] as = Some (block_run as)"
    using assms block_sched_new by (auto simp: prun_def block_run_def numeral_2_eq_2)
  moreover have "hints_ok (length [10, 20 :: nat]) [[], []]" by (simp add: hints_ok_def less_Suc_eq)
  ultimately show ?thesis using prun_reachable by (metis zero_less_numeral)
qed

lemma block_run_timely:
  assumes "pperform_all demo_task demo_base [10, 20] as (psystem_new 2 2 block_sched) \<noteq> None"
    "timely_all demo_task demo_base [10, 20] as (psystem_new 2 2 block_sched)"
  shows "timely_reachable demo_task demo_base [10, 20] [[], []] [1, 1] Standard 2 (block_run as)"
proof -
  have run: "prun demo_task demo_base [10, 20] [[], []] [1, 1] Standard 2 [(True, False), (False, False)] as = Some (block_run as)"
    using assms(1) block_sched_new by (auto simp: prun_def block_run_def numeral_2_eq_2)
  have hints: "hints_ok (length [10, 20 :: nat]) [[], []]" by (simp add: hints_ok_def less_Suc_eq)
  have "scheduler_new (length [10, 20 :: nat]) [[], []] [1, 1] 2 Standard [(True, False), (False, False)] = Some block_sched"
    using block_sched_new by (simp add: numeral_2_eq_2)
  then show ?thesis
    by (intro prun_timely [OF hints _ run]) (use assms(2) in \<open>simp_all add: numeral_2_eq_2\<close>)
qed

lemma pperform_all_append:
  "pperform_all env base txns (as @ bs) S = Option.bind (pperform_all env base txns as S) (pperform_all env base txns bs)"
  by (induction as arbitrary: S) (auto split: option.split)

lemma block_run_steps:
  assumes "pperform_all demo_task demo_base [10, 20] (as @ bs) (psystem_new 2 2 block_sched) \<noteq> None"
  shows "(pstep demo_task demo_base [10, 20])\<^sup>*\<^sup>* (block_run as) (block_run (as @ bs))"
  using assms by (auto simp: pperform_all_append block_run_def split: bind_splits intro: pperform_all_steps)

lemma block_run_returns: "pperform_all demo_task demo_base [10, 20] demo_schedule (psystem_new 2 2 block_sched) \<noteq> None"
  by code_simp

lemma block_run_in_time: "timely_all demo_task demo_base [10, 20] demo_schedule (psystem_new 2 2 block_sched)"
  by code_simp

lemma block_run_final:
  "map wpc (workers (p_sys (block_run demo_schedule))) = [Exited, Exited]
     \<and> outputs (p_io (block_run demo_schedule)) =
         [Some (Success (demo_output (Inr None))), Some (Success (demo_output (Inr (Some [0]))))]
     \<and> exec_status (p_sched (block_run demo_schedule)) 1 = Committed 1
     \<and> \<not> module_publishing_may_race (p_io (block_run demo_schedule))"
  by code_simp

lemma block_run_results:
  "parallel_results demo_task demo_base 2 2 (p_io (block_run demo_schedule)) (p_mv (block_run demo_schedule)) =
     Some (Inr [(demo_output (Inr None), [(5, Modification (replicate 5 0))]),
                (demo_output (Inr (Some [0])), [(5, Modification (replicate 7 0))])])"
  by code_simp

section \<open>The properties\<close>

text \<open>
  C1. Serial equivalence: take any interleaving of the workers in which validations are handed out in time
  (when a worker increments the validation index, the transaction it gets is still executed in the
  incarnation the worker has just read), a worker has left its loop and every transaction succeeded.
  If two transactions race on a module, the block executor returns what sequential execution returns.
  Otherwise the outputs it assembles from the multi-version map, deltas resolved, are exactly those
  of a sequential execution in which every transaction finds some prologue entry of its own: the
  entries of the last incarnations, which a sequential execution by itself need not reproduce.
\<close>

theorem parallel_equals_sequential:
  fixes base :: "('k::linorder, 'x) base_view"
  assumes outputs_ok: "outputs_ok lim vm txns"
    and codec: "\<And>x. deser (ser x) = Some x" and iter: "\<And>K. finite K \<Longrightarrow> set (iter K) = K"
    and env: "env = vm_task deser ser new_epoch vm prologue verify path iter"
    and run: "timely_reachable env base txns deps gas md num_workers S"
    and left: "l < length (workers (p_sys S))" "wpc (workers (p_sys S) ! l) = Exited"
    and success: "\<And>i. i < length txns \<Longrightarrow> \<exists>e. outputs (p_io S) ! i = Some (Success e)"
    and parallel: "1 < concurrency" "parallel_results env base (length txns) concurrency (p_io S) (p_mv S) = Some res"
  shows "if module_publishing_may_race (p_io S)
    then execute_block concurrency (Some res) (execute_transactions_sequential env base txns) =
      execute_transactions_sequential env base txns
    else \<exists>flags outs.
      vm_execute_block (execute_block concurrency (Some res) (execute_transactions_sequential env base txns)) = Some (Inr outs)
      \<and> vm_execute_block (execute_transactions_sequential
          (vm_task deser ser new_epoch (with_prologue flags vm) prologue verify path iter) base txns) = Some (Inr outs)"
proof -
  have keys: "keys_ok env txns" unfolding env by (rule vm_keys_ok [OF outputs_ok iter])
  have ok: "t_ok env base txns S" by (rule timely_reachable_ok [OF run keys])
  obtain out where out: "\<And>i. i < length txns \<Longrightarrow> outputs (p_io S) ! i = Some (Success (out i))" using success by metis
  obtain flags where fin: "finished_block env base txns lim flags (p_mv S) out"
    using exited_finished [OF env ok keys outputs_ok left out] by blast
  have len: "length (outputs (p_io S)) = length txns" using ok by (simp add: t_ok_def p_ok_def data_ok_def)
  have codec: "codec_ok env" using codec by (simp add: codec_ok_def env)
  note res = parallel_results_success [OF len out, of concurrency env base "p_mv S"]
  show ?thesis
  proof (cases "module_publishing_may_race (p_io S)")
    case True
    with res parallel show ?thesis by (auto simp: execute_block_def)
  next
    case False
    with res parallel obtain ret where ret: "resolve env base (length txns) (p_mv S) = Some ret"
        "res = Inr (zip (map out [0..<length txns]) ret)"
      by (cases "resolve env base (length txns) (p_mv S)") auto
    from finished_equivalence [OF env refl fin codec ret(1)] ret(2) parallel(1) False show ?thesis
      by (auto simp: execute_block_def)
  qed
qed

theorem parallel_equals_sequential_witness:
  "vm_execute_block (execute_block 2 (parallel_results demo_task demo_base 2 2 (p_io (block_run demo_schedule)) (p_mv (block_run demo_schedule)))
       (execute_transactions_sequential demo_task demo_base [10, 20])) =
     vm_execute_block (execute_transactions_sequential demo_task demo_base [10, 20])
   \<and> vm_execute_block (execute_transactions_sequential demo_task demo_base [10, 20]) =
       Some (Inr [\<lparr>out_write_set = [(1, Modification [0]), (5, Modification (replicate 5 0))], out_events = [],
                    out_gas_used = 0, out_status = Keep ()\<rparr>,
                  \<lparr>out_write_set = [(1, Modification [0, 0]), (5, Modification (replicate 7 0))], out_events = [],
                    out_gas_used = 0, out_status = Keep ()\<rparr>])"
proof -
  let ?S = "block_run demo_schedule"
  have two: "length [10, 20 :: nat] = 2" by simp
  have same: "with_prologue flags demo_vm = demo_vm" for flags by (simp add: with_prologue_def demo_vm_def fun_eq_iff)
  have exit: "0 < length (workers (p_sys ?S)) \<and> wpc (workers (p_sys ?S) ! 0) = Exited"
    using block_run_final by (cases "workers (p_sys ?S)") auto
  have succ: "\<exists>e. outputs (p_io ?S) ! i = Some (Success e)" if "i < length [10, 20 :: nat]" for i
    using that block_run_final by (auto simp: less_Suc_eq)
  have "vm_execute_block (execute_transactions_sequential demo_task demo_base [10, 20]) =
       Some (Inr [\<lparr>out_write_set = [(1, Modification [0]), (5, Modification (replicate 5 0))], out_events = [],
                    out_gas_used = 0, out_status = Keep ()\<rparr>,
                  \<lparr>out_write_set = [(1, Modification [0, 0]), (5, Modification (replicate 7 0))], out_events = [],
                    out_gas_used = 0, out_status = Keep ()\<rparr>])"
    by code_simp
  with parallel_equals_sequential [OF demo_outputs_ok _ _ demo_task_def
      block_run_timely [OF block_run_returns block_run_in_time] conjunct1 [OF exit] conjunct2 [OF exit] succ _
      block_run_results [folded two]] block_run_results block_run_final
  show ?thesis by (simp add: unary_codec numeral_2_eq_2 same demo_task_def [symmetric])
qed

text \<open>
  C2. As long as validations are handed out in time, in whatever order the workers move otherwise, the
  output recorded for a committed transaction, and the entries it has in
  the multi-version map, are those of a run of that transaction whose reads are answered by the
  present contents of the map, below the transaction: re-executing it now, with the prologue entry it
  found, would give the same output.
\<close>

theorem committed_output_reproducible:
  assumes "keys_ok env txns" "timely_reachable env base txns deps gas md num_workers S" "i < length txns"
    "exec_status (p_sched S) i = Committed inc"
  shows "\<exists>st rs p. outputs (p_io S) ! i = Some (user_error st) \<and> ents (p_mv S) i = target env inc st
     \<and> mv_run env base (p_mv S) i (run_of env txns i p) [] = Some (Inr (Some st, rs))"
proof -
  have ok: "t_ok env base txns S" by (rule timely_reachable_ok [OF assms(2,1)])
  then have "i < num_txns (p_sched S)" using assms(3) by (simp add: t_ok_def p_ok_def data_ok_def)
  then show ?thesis using committed_rerun [OF ok assms(1) _ assms(4)] by metis
qed

theorem committed_output_reproducible_witness:
  "\<exists>st rs p. outputs (p_io (block_run demo_schedule)) ! 1 = Some (user_error st)
     \<and> ents (p_mv (block_run demo_schedule)) 1 = target demo_task 1 st
     \<and> mv_run demo_task demo_base (p_mv (block_run demo_schedule)) 1 (run_of demo_task [10, 20] 1 p) [] = Some (Inr (Some st, rs))"
  by (rule committed_output_reproducible [OF demo_keys_ok block_run_timely [OF block_run_returns block_run_in_time]])
     (use block_run_final in simp_all)

text \<open>
  C3. Once a transaction is committed, no later step of any worker changes its recorded output or any of
  its entries in the multi-version map.
\<close>

theorem committed_output_final:
  assumes "keys_ok env txns" "p_reachable env base txns deps gas md num_workers S" "i < length txns"
    "exec_status (p_sched S) i = Committed inc" "(pstep env base txns)\<^sup>*\<^sup>* S S'"
  shows "outputs (p_io S') ! i = outputs (p_io S) ! i \<and> ents (p_mv S') i = ents (p_mv S) i"
  by (rule committed_stays [OF assms(5) p_reachable_ok [OF assms(2,1)] assms(1,3,4)])

theorem committed_output_final_witness:
  "outputs (p_io (block_run demo_schedule)) ! 0 = outputs (p_io (block_run early_schedule)) ! 0
     \<and> ents (p_mv (block_run demo_schedule)) 0 = ents (p_mv (block_run early_schedule)) 0"
proof -
  have steps: "(pstep demo_task demo_base [10, 20])\<^sup>*\<^sup>* (block_run early_schedule) (block_run demo_schedule)"
    using block_run_steps [of early_schedule "drop 24 demo_schedule"] block_run_returns by (simp add: early_schedule_def)
  have returns: "pperform_all demo_task demo_base [10, 20] early_schedule (psystem_new 2 2 block_sched) \<noteq> None" by code_simp
  have committed: "exec_status (p_sched (block_run early_schedule)) 0 = Committed 0" by code_simp
  show ?thesis
    by (rule committed_output_final [OF demo_keys_ok block_run_reachable [OF returns] _ committed steps]) simp
qed

end
