(* ===== verification/ValidationRace.thy ===== *)
theory ValidationRace
  imports ParallelCorrectness
begin

text \<open>
  What happens when a validation is not handed out in time. \<open>try_validate_next_version\<close> loads the
  validation index, looks at the status of that transaction, and then increments whatever index it
  finds; \<open>finish_abort\<close> may lower the index in between. A concrete block of three transactions and a
  run of two workers in which this costs the block its serial equivalence.

  The first transaction writes key 1. The second one reads key 1; it writes key 2 if key 1 is absent
  and key 3 otherwise. The third one reads key 3 and writes what it found, with a zero in front,
  under key 4. The machine ignores the prologue entries.
\<close>

section \<open>The block\<close>

definition race_output :: "nat \<Rightarrow> bytes \<Rightarrow> (nat, unit, unit) transaction_output_ext" where
  "race_output k v = output_ext_new []
     \<lparr>out_write_set = [(k, Modification v)], out_events = [], out_gas_used = 0, out_status = Keep ()\<rparr>"

definition race_vm :: "(nat, nat, unit, unit, unit, unit) vm" where
  "race_vm t i p =
     (if i = 0 then Finished (Inr (race_output 1 [7]))
      else if i = 1 then Get 1 (\<lambda>a. Finished (Inr (race_output (if a = Inr None then 2 else 3) [7])))
      else Get 3 (\<lambda>a. Finished (Inr (race_output 4 (bump a)))))"

definition race_task :: "(nat, nat, write_op, (nat, unit, unit) transaction_output_ext, unit, unit) executor_task" where
  "race_task = vm_task unary_deser unary_ser (\<lambda>_. False) race_vm (\<lambda>_ _. Finished True) (\<lambda>_. True) (\<lambda>_. None) sorted_list_of_set"

definition race_base :: "(nat, unit) base_view" where
  "race_base k = Inr None"

definition race_txns :: "nat list" where
  "race_txns = [0, 0, 0]"

definition race_sched :: scheduler where
  "race_sched =
     \<lparr>num_txns = 3, execution_idx = 0, validation_idx = 0, done_marker = False,
      txn_status = [(ReadyToExecute 0 None, validation_status_new), (ReadyToExecute 0 None, validation_status_new),
                    (ReadyToExecute 0 None, validation_status_new)],
      hint_graph = [[], [], []], concurrency_level = 2, channels = [0, 1, 2], priochannels = [],
      sig_val_idx = 0, prologue_map = [(True, False), (False, False), (False, False)], prologue_index = 0, mode = Standard,
      critical_path_parent = [[], [], []], children = [[], [], []]\<rparr>"

section \<open>The run\<close>

text \<open>
  Worker 1 executes the second and the third transaction while worker 0 still executes the first one;
  then worker 0 validates the first transaction and is handed the validation of the second one.
\<close>

definition race_opening :: "paction list" where
  "race_opening = [PMove 0] @ replicate 14 (PMove 1) @ replicate 15 (PMove 0)"

text \<open>
  Worker 1 asks for a validation, loads index 2 and finds the third transaction executed. Worker 0
  finds the second transaction invalid, aborts it, which takes the index back to 1, and starts to
  execute it again. Worker 1 increments the index: it gets the second transaction, which is being
  executed, and the index has passed it.
\<close>

definition race_overtaking :: "paction list" where
  "race_overtaking = race_opening @ replicate 3 (PMove 1) @ replicate 5 (PMove 0) @ [PMove 1]"

text \<open>
  Worker 1 compares the old reads of the second transaction, fails to abort the incarnation that is
  gone, and records a validation in the new wave all the same; it then validates the third
  transaction in that wave. Worker 0 finishes the second transaction, which now writes key 3, commits
  all three transactions, and both workers leave.
\<close>

definition race_schedule :: "paction list" where
  "race_schedule = race_overtaking @ replicate 10 (PMove 1) @ replicate 7 (PMove 0) @ replicate 4 PCommit
     @ replicate 4 (PMove 0) @ replicate 4 (PMove 1)"

definition race_run ::
  "paction list \<Rightarrow> (nat, write_op, (nat, unit, unit) transaction_output_ext, unit, unit) psystem" where
  "race_run as = the (pperform_all race_task race_base race_txns as (psystem_new 2 3 race_sched))"

lemma race_sched_new:
  "scheduler_new 3 [[], [], []] [1, 1, 1] 2 Standard [(True, False), (False, False), (False, False)] = Some race_sched"
proof -
  have "[0..<3] = [0, 1, 2::nat]" by (simp add: upt_rec)
  moreover have "replicate 3 x = [x, x, x]" for x :: 'a by (simp add: numeral_3_eq_3)
  ultimately show ?thesis by (simp add: scheduler_new_def race_sched_def add_chk_def numeral_3_eq_3 numeral_2_eq_2)
qed

lemma race_run_reachable:
  assumes "pperform_all race_task race_base race_txns as (psystem_new 2 3 race_sched) \<noteq> None"
  shows "p_reachable race_task race_base race_txns [[], [], []] [1, 1, 1] Standard 2 (race_run as)"
proof -
  have three: "length race_txns = 3" by (simp add: race_txns_def)
  have "prun race_task race_base race_txns [[], [], []] [1, 1, 1] Standard 2
      [(True, False), (False, False), (False, False)] as = Some (race_run as)"
    using assms race_sched_new by (auto simp: prun_def race_run_def three)
  moreover have "hints_ok (length race_txns) [[], [], []]" by (simp add: hints_ok_def three less_Suc_eq numeral_3_eq_3)
  ultimately show ?thesis using prun_reachable by (metis zero_less_numeral)
qed

lemma race_overtakes:
  "val_idx (p_sched (race_run race_overtaking)) = 2 \<and> exec_status (p_sched (race_run race_overtaking)) 1 = Executing 1
     \<and> pperform_all race_task race_base race_txns race_overtaking (psystem_new 2 3 race_sched) \<noteq> None"
  by code_simp

lemma race_returns: "pperform_all race_task race_base race_txns race_schedule (psystem_new 2 3 race_sched) \<noteq> None"
  by code_simp

lemma race_final:
  "map wpc (workers (p_sys (race_run race_schedule))) = [Exited, Exited]
     \<and> outputs (p_io (race_run race_schedule)) =
         [Some (Success (race_output 1 [7])), Some (Success (race_output 3 [7])), Some (Success (race_output 4 [0]))]
     \<and> \<not> module_publishing_may_race (p_io (race_run race_schedule))"
  by code_simp

lemma race_results:
  "parallel_results race_task race_base 3 2 (p_io (race_run race_schedule)) (p_mv (race_run race_schedule)) =
     Some (Inr [(race_output 1 [7], []), (race_output 3 [7], []), (race_output 4 [0], [])])"
  by code_simp

lemma race_sequential:
  "vm_execute_block (execute_transactions_sequential race_task race_base race_txns) =
     Some (Inr (map oe_output [race_output 1 [7], race_output 3 [7], race_output 4 [0, 7]]))"
  by code_simp

section \<open>The property\<close>

text \<open>
  C8. The race in \<open>try_validate_next_version\<close> is real, and it breaks serial equivalence. In a run of two
  workers the validation index passes a transaction that is being executed; later all three
  transactions are committed, both workers leave and no module is involved, yet the block executor
  returns for the third transaction the value it computed from a read that the second transaction
  has invalidated, while sequential execution returns the other value.
\<close>

theorem validation_race_breaks_serial_equivalence:
  "p_reachable race_task race_base race_txns [[], [], []] [1, 1, 1] Standard 2 (race_run race_overtaking)
   \<and> val_idx (p_sched (race_run race_overtaking)) = 2 \<and> exec_status (p_sched (race_run race_overtaking)) 1 = Executing 1
   \<and> p_reachable race_task race_base race_txns [[], [], []] [1, 1, 1] Standard 2 (race_run race_schedule)
   \<and> map wpc (workers (p_sys (race_run race_schedule))) = [Exited, Exited]
   \<and> outputs (p_io (race_run race_schedule)) =
       [Some (Success (race_output 1 [7])), Some (Success (race_output 3 [7])), Some (Success (race_output 4 [0]))]
   \<and> vm_execute_block (execute_block 2
         (parallel_results race_task race_base 3 2 (p_io (race_run race_schedule)) (p_mv (race_run race_schedule)))
         (execute_transactions_sequential race_task race_base race_txns)) =
       Some (Inr (map oe_output [race_output 1 [7], race_output 3 [7], race_output 4 [0]]))
   \<and> vm_execute_block (execute_transactions_sequential race_task race_base race_txns) =
       Some (Inr (map oe_output [race_output 1 [7], race_output 3 [7], race_output 4 [0, 7]]))"
proof -
  have "vm_execute_block (Some (Inr [(race_output 1 [7], []), (race_output 3 [7], []), (race_output 4 [0], [])])
        :: (unit block_error + ((nat, unit, unit) transaction_output_ext \<times> (nat \<times> write_op) list) list) option) =
      Some (Inr (map oe_output [race_output 1 [7], race_output 3 [7], race_output 4 [0]]))" by code_simp
  then show ?thesis
    using race_overtakes race_run_reachable race_returns race_final race_results race_sequential
    by (simp add: execute_block_def)
qed

end
