(* ===== verification/MempoolIndex.thy ===== *)
theory MempoolIndex
  imports Transaction "HOL-Library.Product_Lexorder" "HOL-Library.Monad_Syntax" "HOL-Library.Multiset"
begin

text \<open>
  The transactions of the mempool and the indexes over them
  (\<open>mempool/src/core_mempool/transaction.rs\<close>, \<open>index.rs\<close>): the priority queue, the two indexes by
  expiration, the timelines of transactions to broadcast, and the parking lot of those that are not
  ready. All but the timelines implement one contract: a set of keys to which the key of a transaction
  is added or from which it is removed.
\<close>

section \<open>Transactions of the mempool\<close>

datatype account_sequence_info = Sequential u64

fun min_seq :: "account_sequence_info \<Rightarrow> u64" where
  "min_seq (Sequential seqno) = seqno"

record sequence_info =
  transaction_sequence_number :: u64
  account_sequence_number_type :: account_sequence_info

datatype timeline_state = Ready u64 | NotReady | NonQualified

text \<open>A \<open>Duration\<close> in nanoseconds; \<open>Duration::from_secs\<close>.\<close>

type_synonym duration = nat

definition from_secs :: "u64 \<Rightarrow> duration" where
  "from_secs s = unat s * 10 ^ 9"

record mempool_transaction =
  mt_txn :: signed_transaction
  expiration_time :: duration
  ranking_score :: u64
  timeline_state :: timeline_state
  sequence_info :: sequence_info
  insertion_time :: nat

definition mempool_transaction_new ::
  "signed_transaction \<Rightarrow> duration \<Rightarrow> u64 \<Rightarrow> timeline_state \<Rightarrow> account_sequence_info \<Rightarrow> nat \<Rightarrow> mempool_transaction" where
  "mempool_transaction_new txn exp score st seqno_type now =
     \<lparr>mt_txn = txn, expiration_time = exp, ranking_score = score, timeline_state = st,
      sequence_info = \<lparr>transaction_sequence_number = sequence_number txn, account_sequence_number_type = seqno_type\<rparr>,
      insertion_time = now\<rparr>"

definition get_sender :: "mempool_transaction \<Rightarrow> address" where
  "get_sender t = sender (mt_txn t)"

definition get_gas_price :: "mempool_transaction \<Rightarrow> u64" where
  "get_gas_price t = gas_unit_price (mt_txn t)"

text \<open>
  What comes from outside: the serialized size and the hash of a transaction, and the number of bytes
  that a transaction is estimated to take beside its raw bytes.
\<close>

record 'h store_env =
  serialized_size :: "raw_transaction \<Rightarrow> nat"
  committed_hash :: "signed_transaction \<Rightarrow> 'h"
  estimated_overhead :: nat

definition get_committed_hash :: "'h store_env \<Rightarrow> mempool_transaction \<Rightarrow> 'h" where
  "get_committed_hash env t = committed_hash env (mt_txn t)"

definition get_estimated_bytes :: "'h store_env \<Rightarrow> mempool_transaction \<Rightarrow> nat" where
  "get_estimated_bytes env t = raw_txn_bytes_len (serialized_size env) (mt_txn t) + estimated_overhead env"

text \<open>The logical pointer to a transaction.\<close>

type_synonym txn_pointer = "address \<times> u64"

definition txn_seq :: "mempool_transaction \<Rightarrow> u64" where
  "txn_seq t = transaction_sequence_number (sequence_info t)"

definition txn_pointer :: "mempool_transaction \<Rightarrow> txn_pointer" where
  "txn_pointer t = (get_sender t, txn_seq t)"

text \<open>The number a transaction is stored under is its own, as \<^const>\<open>mempool_transaction_new\<close> has it.\<close>

definition txn_wf :: "mempool_transaction \<Rightarrow> bool" where
  "txn_wf t \<longleftrightarrow> sequence_number (mt_txn t) = txn_seq t"

lemma txn_wf_new [simp]: "txn_wf (mempool_transaction_new txn exp score st sq now)"
  by (simp add: txn_wf_def txn_seq_def mempool_transaction_new_def)

lemma txn_state_simps [simp]:
  "txn_pointer (t\<lparr>timeline_state := s\<rparr>) = txn_pointer t" "get_sender (t\<lparr>timeline_state := s\<rparr>) = get_sender t"
  "txn_seq (t\<lparr>timeline_state := s\<rparr>) = txn_seq t" "txn_wf (t\<lparr>timeline_state := s\<rparr>) = txn_wf t"
  "get_committed_hash env (t\<lparr>timeline_state := s\<rparr>) = get_committed_hash env t"
  "get_estimated_bytes env (t\<lparr>timeline_state := s\<rparr>) = get_estimated_bytes env t"
  by (simp_all add: txn_pointer_def get_sender_def txn_seq_def txn_wf_def get_committed_hash_def get_estimated_bytes_def)

section \<open>Ordered sets\<close>

text \<open>
  A \<open>BTreeSet\<close> is a \<open>BTreeMap\<close> from the order of its elements to them; an element that compares equal
  to one in the set is not inserted again.
\<close>

definition bs_insert :: "'k::linorder \<Rightarrow> 'v \<Rightarrow> ('k, 'v) btree \<Rightarrow> ('k, 'v) btree" where
  "bs_insert k v m = (if bt_get m k = None then bt_insert k v m else m)"

abbreviation bs_keys :: "('k, 'v) btree \<Rightarrow> 'k set" where
  "bs_keys m \<equiv> fst ` set m"

lemma bs_insert_wf [simp]: "bt_wf m \<Longrightarrow> bt_wf (bs_insert k v m)"
  by (simp add: bs_insert_def)

lemma bs_keys_insert [simp]: "bs_keys (bs_insert k v m) = insert k (bs_keys m)"
  by (auto simp: bs_insert_def bt_get_None)

lemma bt_length: "bt_wf m \<Longrightarrow> length m = card (bs_keys m)"
  by (metis bt_wf_distinct distinct_card length_map set_map)

text \<open>\<open>std::cmp::Ordering::reverse\<close> on one component of a lexicographic order.\<close>

datatype 'a reverse = Reverse (unreverse: 'a)

instantiation reverse :: (linorder) linorder
begin

definition less_eq_reverse :: "'a reverse \<Rightarrow> 'a reverse \<Rightarrow> bool" where
  "x \<le> y \<longleftrightarrow> unreverse y \<le> unreverse x"

definition less_reverse :: "'a reverse \<Rightarrow> 'a reverse \<Rightarrow> bool" where
  "x < y \<longleftrightarrow> unreverse y < unreverse x"

instance
  by standard (auto simp: less_eq_reverse_def less_reverse_def reverse.expand)

end

section \<open>The priority index\<close>

record ordered_queue_key =
  gas_ranking_score :: u64
  queue_expiration_time :: duration
  queue_address :: address
  queue_sequence_number :: sequence_info

type_synonym queue_order = "u64 \<times> duration reverse \<times> address \<times> u64 reverse"

definition queue_key_order :: "ordered_queue_key \<Rightarrow> queue_order" where
  "queue_key_order k =
     (gas_ranking_score k, Reverse (queue_expiration_time k), queue_address k,
      Reverse (transaction_sequence_number (queue_sequence_number k)))"

type_synonym priority_index = "(queue_order, ordered_queue_key) btree"

definition prio_make_key :: "mempool_transaction \<Rightarrow> ordered_queue_key" where
  "prio_make_key t =
     \<lparr>gas_ranking_score = ranking_score t, queue_expiration_time = expiration_time t,
      queue_address = get_sender t, queue_sequence_number = sequence_info t\<rparr>"

definition prio_key :: "mempool_transaction \<Rightarrow> queue_order" where
  "prio_key t = queue_key_order (prio_make_key t)"

definition prio_insert :: "mempool_transaction \<Rightarrow> priority_index \<Rightarrow> priority_index" where
  "prio_insert t i = bs_insert (prio_key t) (prio_make_key t) i"

definition prio_remove :: "mempool_transaction \<Rightarrow> priority_index \<Rightarrow> priority_index" where
  "prio_remove t i = bt_remove (prio_key t) i"

definition prio_contains :: "mempool_transaction \<Rightarrow> priority_index \<Rightarrow> bool" where
  "prio_contains t i \<longleftrightarrow> bt_get i (prio_key t) \<noteq> None"

definition prio_iter :: "priority_index \<Rightarrow> ordered_queue_key list" where
  "prio_iter i = map snd (rev i)"

definition prio_size :: "priority_index \<Rightarrow> nat" where
  "prio_size i = length i"

definition queue_pointer :: "ordered_queue_key \<Rightarrow> txn_pointer" where
  "queue_pointer k = (queue_address k, transaction_sequence_number (queue_sequence_number k))"

section \<open>The indexes by expiration\<close>

type_synonym ttl_ordering_key = "duration \<times> address \<times> u64"

record ttl_index =
  ttl_data :: "(ttl_ordering_key, unit) btree"
  get_expiration_time :: "mempool_transaction \<Rightarrow> duration"

definition ttl_new :: "(mempool_transaction \<Rightarrow> duration) \<Rightarrow> ttl_index" where
  "ttl_new f = \<lparr>ttl_data = [], get_expiration_time = f\<rparr>"

definition ttl_make_key :: "(mempool_transaction \<Rightarrow> duration) \<Rightarrow> mempool_transaction \<Rightarrow> ttl_ordering_key" where
  "ttl_make_key f t = (f t, get_sender t, txn_seq t)"

definition ttl_insert :: "mempool_transaction \<Rightarrow> ttl_index \<Rightarrow> ttl_index" where
  "ttl_insert t i = i\<lparr>ttl_data := bs_insert (ttl_make_key (get_expiration_time i) t) () (ttl_data i)\<rparr>"

definition ttl_remove :: "mempool_transaction \<Rightarrow> ttl_index \<Rightarrow> ttl_index" where
  "ttl_remove t i = i\<lparr>ttl_data := bt_remove (ttl_make_key (get_expiration_time i) t) (ttl_data i)\<rparr>"

text \<open>\<open>split_off\<close> at the least key of time \<open>now\<close>: what lies below it is removed and returned.\<close>

definition ttl_gc :: "duration \<Rightarrow> ttl_index \<Rightarrow> ttl_ordering_key list \<times> ttl_index" where
  "ttl_gc now i =
     (let ttl_key = (now, 0, 0)
      in (map fst (bt_below ttl_key (ttl_data i)), i\<lparr>ttl_data := filter (\<lambda>e. ttl_key \<le> fst e) (ttl_data i)\<rparr>))"

definition ttl_size :: "ttl_index \<Rightarrow> nat" where
  "ttl_size i = length (ttl_data i)"

section \<open>The parking lot\<close>

record parking_lot_index =
  lot_data :: "(address \<times> (u64, unit) btree) list"
  account_indices :: "address \<rightharpoonup> nat"
  lot_size :: nat

definition lot_new :: parking_lot_index where
  "lot_new = \<lparr>lot_data = [], account_indices = Map.empty, lot_size = 0\<rparr>"

definition lot_insert :: "mempool_transaction \<Rightarrow> parking_lot_index \<Rightarrow> parking_lot_index" where
  "lot_insert t l =
     (let a = sender (mt_txn t); s = sequence_number (mt_txn t)
      in case account_indices l a of
           Some index \<Rightarrow>
             if index < length (lot_data l) then
               let (account, seq_nums) = lot_data l ! index; l' = l\<lparr>lot_data := (lot_data l)[index := (account, bs_insert s () seq_nums)]\<rparr>
               in if bt_get seq_nums s = None then l'\<lparr>lot_size := lot_size l + 1\<rparr> else l'
             else l
         | None \<Rightarrow>
             l\<lparr>lot_data := lot_data l @ [(a, [(s, ())])], account_indices := (account_indices l)(a \<mapsto> length (lot_data l)),
               lot_size := lot_size l + 1\<rparr>)"

text \<open>\<open>Vec::swap_remove\<close>: the last element takes the place of the one removed.\<close>

definition swap_remove :: "nat \<Rightarrow> 'a list \<Rightarrow> 'a list" where
  "swap_remove i xs = (if i = length xs - 1 then butlast xs else (butlast xs)[i := last xs])"

definition lot_remove :: "mempool_transaction \<Rightarrow> parking_lot_index \<Rightarrow> parking_lot_index option" where
  "lot_remove t l =
     (let a = sender (mt_txn t); s = sequence_number (mt_txn t)
      in case account_indices l a of
           None \<Rightarrow> Some l
         | Some index \<Rightarrow>
             if index < length (lot_data l) then
               let (account, seq_nums) = lot_data l ! index; seq_nums' = bt_remove s seq_nums;
                   l1 = l\<lparr>lot_data := (lot_data l)[index := (account, seq_nums')]\<rparr>
               in if bt_get seq_nums s \<noteq> None \<and> lot_size l = 0 then None
                  else let l2 = (if bt_get seq_nums s \<noteq> None then l1\<lparr>lot_size := lot_size l - 1\<rparr> else l1)
                       in Some (if seq_nums' = [] then
                            let data' = swap_remove index (lot_data l2); indices = (account_indices l2)(a := None)
                            in l2\<lparr>lot_data := data',
                                 account_indices := (if index < length data' then indices(fst (data' ! index) \<mapsto> index) else indices)\<rparr>
                          else l2)
             else Some l)"

definition lot_contains :: "address \<Rightarrow> u64 \<Rightarrow> parking_lot_index \<Rightarrow> bool" where
  "lot_contains a s l =
     (case account_indices l a of
        None \<Rightarrow> False
      | Some idx \<Rightarrow> idx < length (lot_data l) \<and> bt_get (snd (lot_data l ! idx)) s \<noteq> None)"

text \<open>The random choice is an argument.\<close>

definition lot_get_poppable :: "nat \<Rightarrow> parking_lot_index \<Rightarrow> txn_pointer option" where
  "lot_get_poppable rng l =
     (if lot_data l = [] then None
      else let (a, txns) = lot_data l ! (rng mod length (lot_data l))
           in if txns = [] then None else Some (a, fst (last txns)))"

section \<open>The timelines\<close>

record timeline_index =
  timeline_id :: u64
  timeline :: "(u64, txn_pointer) btree"

definition timeline_new :: timeline_index where
  "timeline_new = \<lparr>timeline_id = 1, timeline = []\<rparr>"

text \<open>The loop of \<open>read_timeline\<close>: an element is pushed before the length is compared.\<close>

fun push_until :: "nat \<Rightarrow> 'a list \<Rightarrow> 'a list \<Rightarrow> 'a list" where
  "push_until cnt batch [] = batch"
| "push_until cnt batch (x # xs) =
     (let batch' = batch @ [x] in if length batch' = cnt then batch' else push_until cnt batch' xs)"

definition timeline_read :: "u64 \<Rightarrow> nat \<Rightarrow> timeline_index \<Rightarrow> txn_pointer list" where
  "timeline_read since cnt i = push_until cnt [] (map snd (filter (\<lambda>e. since < fst e) (timeline i)))"

text \<open>\<open>range\<close> panics when its start lies above its end.\<close>

definition timeline_range :: "u64 \<Rightarrow> u64 \<Rightarrow> timeline_index \<Rightarrow> txn_pointer list option" where
  "timeline_range start_id end_id i =
     (if end_id < start_id then None else Some (map snd (filter (\<lambda>e. start_id < fst e \<and> fst e \<le> end_id) (timeline i))))"

definition timeline_insert :: "mempool_transaction \<Rightarrow> timeline_index \<Rightarrow> (mempool_transaction \<times> timeline_index) option" where
  "timeline_insert t i =
     do {
       next \<leftarrow> add_chk (timeline_id i) 1;
       Some (t\<lparr>timeline_state := Ready (timeline_id i)\<rparr>,
             i\<lparr>timeline := bt_insert (timeline_id i) (txn_pointer t) (timeline i), timeline_id := next\<rparr>)
     }"

definition timeline_remove :: "mempool_transaction \<Rightarrow> timeline_index \<Rightarrow> timeline_index" where
  "timeline_remove t i =
     (case timeline_state t of Ready tid \<Rightarrow> i\<lparr>timeline := bt_remove tid (timeline i)\<rparr> | _ \<Rightarrow> i)"

record multi_timeline =
  timelines :: "timeline_index list"
  bucket_mins :: "u64 list"

fun strictly_increasing :: "u64 option \<Rightarrow> u64 list \<Rightarrow> bool" where
  "strictly_increasing prev [] \<longleftrightarrow> True"
| "strictly_increasing prev (x # xs) \<longleftrightarrow> (case prev of None \<Rightarrow> True | Some p \<Rightarrow> p < x) \<and> strictly_increasing (Some x) xs"

definition multi_new :: "u64 list \<Rightarrow> string + multi_timeline" where
  "multi_new mins =
     (if mins = [] then Inl ''Must not be empty''
      else if hd mins \<noteq> 0 then Inl ''First bucket must start at 0''
      else if \<not> strictly_increasing None mins then Inl ''Values must be sorted and not repeat''
      else Inr \<lparr>timelines = map (\<lambda>_. timeline_new) mins, bucket_mins = mins\<rparr>)"

text \<open>\<open>binary_search\<close> on a sorted slice: the place of the value, or the place where it would go.\<close>

definition binary_search :: "u64 list \<Rightarrow> u64 \<Rightarrow> nat + nat" where
  "binary_search xs x =
     (let i = length (takeWhile (\<lambda>y. y < x) xs) in if i < length xs \<and> xs ! i = x then Inr i else Inl i)"

text \<open>The bucket of a score; \<open>i - 1\<close> panics at zero, \<open>get_mut(..).unwrap()\<close> out of range.\<close>

definition bucket_index :: "u64 \<Rightarrow> multi_timeline \<Rightarrow> nat option" where
  "bucket_index score m =
     do {
       i \<leftarrow> (case binary_search (bucket_mins m) score of Inr i \<Rightarrow> Some i | Inl i \<Rightarrow> if i = 0 then None else Some (i - 1));
       if i < length (timelines m) then Some i else None
     }"

definition multi_insert :: "mempool_transaction \<Rightarrow> multi_timeline \<Rightarrow> (mempool_transaction \<times> multi_timeline) option" where
  "multi_insert t m =
     do {
       i \<leftarrow> bucket_index (ranking_score t) m;
       (t', line) \<leftarrow> timeline_insert t (timelines m ! i);
       Some (t', m\<lparr>timelines := (timelines m)[i := line]\<rparr>)
     }"

definition multi_remove :: "mempool_transaction \<Rightarrow> multi_timeline \<Rightarrow> multi_timeline option" where
  "multi_remove t m =
     do {
       i \<leftarrow> bucket_index (ranking_score t) m;
       Some (m\<lparr>timelines := (timelines m)[i := timeline_remove t (timelines m ! i)]\<rparr>)
     }"

text \<open>The buckets are read from the highest down, until \<open>cnt\<close> transactions have been read; \<open>cnt - added\<close> panics below zero.\<close>

fun read_buckets :: "nat \<Rightarrow> nat \<Rightarrow> (timeline_index \<times> u64) list \<Rightarrow> txn_pointer list list option" where
  "read_buckets cnt added [] = Some []"
| "read_buckets cnt added ((line, since) # rest) =
     (if cnt < added then None
      else let txns = timeline_read since (cnt - added) line; added' = added + length txns
           in if added' = cnt then Some [txns] else map_option ((#) txns) (read_buckets cnt added' rest))"

definition multi_read :: "u64 list \<Rightarrow> nat \<Rightarrow> multi_timeline \<Rightarrow> txn_pointer list list option" where
  "multi_read ids cnt m =
     (if length ids = length (bucket_mins m)
      then map_option (\<lambda>returned. rev (returned @ replicate (length (timelines m) - length returned) []))
             (read_buckets cnt 0 (rev (zip (timelines m) ids)))
      else None)"

definition multi_range :: "(u64 \<times> u64) list \<Rightarrow> multi_timeline \<Rightarrow> txn_pointer list option" where
  "multi_range pairs m =
     (if length pairs = length (timelines m)
      then map_option concat (those (map (\<lambda>(line, start_id, end_id). timeline_range start_id end_id line) (zip (timelines m) pairs)))
      else None)"

definition multi_size :: "multi_timeline \<Rightarrow> nat" where
  "multi_size m = sum_list (map (\<lambda>line. length (timeline line)) (timelines m))"

section \<open>The contract of an index\<close>

text \<open>A set of stored transactions, each under its own pointer.\<close>

definition pointers_ok :: "(txn_pointer \<rightharpoonup> mempool_transaction) \<Rightarrow> bool" where
  "pointers_ok M \<longleftrightarrow> (\<forall>p t. M p = Some t \<longrightarrow> txn_pointer t = p \<and> txn_wf t)"

lemma pointers_okD: "pointers_ok M \<Longrightarrow> M p = Some t \<Longrightarrow> txn_pointer t = p \<and> txn_wf t"
  unfolding pointers_ok_def by blast

lemma pointers_ok_new: "pointers_ok (M(txn_pointer t \<mapsto> t)) \<Longrightarrow> txn_wf t"
  by (erule conjunct2 [OF pointers_okD]) (rule fun_upd_same)

lemma insert_minus: "x \<notin> A \<Longrightarrow> insert x A - G - {x} = A - G"
  by blast

locale txn_index =
  fixes ins :: "mempool_transaction \<Rightarrow> 'i \<Rightarrow> 'i option" and rem :: "mempool_transaction \<Rightarrow> 'i \<Rightarrow> 'i option"
    and keys :: "'i \<Rightarrow> 'k set" and key :: "mempool_transaction \<Rightarrow> 'k" and inv :: "'i \<Rightarrow> bool"
  assumes ins: "inv i \<Longrightarrow> txn_wf t \<Longrightarrow> \<exists>i'. ins t i = Some i' \<and> inv i' \<and> keys i' = insert (key t) (keys i)"
    and rem: "inv i \<Longrightarrow> txn_wf t \<Longrightarrow> \<exists>i'. rem t i = Some i' \<and> inv i' \<and> keys i' = keys i - {key t}"
    and key_pointer: "key t = key t' \<Longrightarrow> txn_pointer t = txn_pointer t'"
    and key_state: "key (t\<lparr>timeline_state := st\<rparr>) = key t"
begin

lemma ins_eq: "ins t i = Some i' \<Longrightarrow> inv i \<Longrightarrow> txn_wf t \<Longrightarrow> inv i' \<and> keys i' = insert (key t) (keys i)"
  using ins by fastforce

lemma rem_eq: "rem t i = Some i' \<Longrightarrow> inv i \<Longrightarrow> txn_wf t \<Longrightarrow> inv i' \<and> keys i' = keys i - {key t}"
  using rem by fastforce

lemma fresh_key:
  assumes "pointers_ok (M(txn_pointer t \<mapsto> t))" "M (txn_pointer t) = None"
  shows "key t \<notin> key ` ran M"
proof
  assume "key t \<in> key ` ran M"
  then obtain p u where u: "M p = Some u" "key t = key u" by (auto simp: ran_def)
  with assms(2) have "p \<noteq> txn_pointer t" by auto
  with assms(1) u(1) have "txn_pointer u = p" unfolding pointers_ok_def by (metis map_upd_Some_unfold)
  with u(2) key_pointer \<open>p \<noteq> txn_pointer t\<close> show False by metis
qed

text \<open>
  An index of all stored transactions, but for the keys \<open>G\<close> that a collection has already taken out;
  and an index of some of them.
\<close>

lemma exact_ins:
  assumes "inv i" "keys i = key ` ran M" "M (txn_pointer t) = None" "txn_wf t" "ins t i = Some i'"
  shows "inv i' \<and> keys i' = key ` ran (M(txn_pointer t \<mapsto> t))"
  using ins_eq [OF assms(5,1,4)] assms(2,3) by (simp add: ran_map_upd)

lemma exact_rem:
  assumes "inv i" "keys i = key ` ran (M(txn_pointer t \<mapsto> t)) - G" "M (txn_pointer t) = None"
    "pointers_ok (M(txn_pointer t \<mapsto> t))" "rem t i = Some i'"
  shows "inv i' \<and> keys i' = key ` ran M - G"
proof -
  have wf: "txn_wf t" by (rule pointers_ok_new [OF assms(4)])
  have "keys i = insert (key t) (key ` ran M) - G" using assms(2,3) by (simp only: ran_map_upd image_insert)
  with rem_eq [OF assms(5,1) wf] insert_minus [OF fresh_key [OF assms(4,3)], of G] show ?thesis by simp
qed

lemma within_rem:
  assumes "inv i" "keys i \<subseteq> key ` ran (M(txn_pointer t \<mapsto> t))" "M (txn_pointer t) = None"
    "pointers_ok (M(txn_pointer t \<mapsto> t))" "rem t i = Some i'"
  shows "inv i' \<and> keys i' \<subseteq> key ` ran M"
proof -
  have wf: "txn_wf t" by (rule pointers_ok_new [OF assms(4)])
  have "keys i \<subseteq> insert (key t) (key ` ran M)" using assms(2,3) by (simp only: ran_map_upd image_insert)
  with rem_eq [OF assms(5,1) wf] show ?thesis by blast
qed

lemma other_key:
  assumes "pointers_ok (M(txn_pointer t \<mapsto> t))" "M (txn_pointer t) = None" "M p = Some u"
  shows "key u \<noteq> key t"
proof
  assume "key u = key t"
  moreover have "u \<in> ran M" using assms(3) by (rule ranI)
  ultimately show False using fresh_key [OF assms(1,2)] by (metis imageI)
qed

end

lemma prio_key_pointer: "prio_key t = prio_key t' \<Longrightarrow> txn_pointer t = txn_pointer t'"
  by (simp add: prio_key_def queue_key_order_def prio_make_key_def txn_pointer_def txn_seq_def)

text \<open>A queue whose entries are under their own order.\<close>

definition prio_ok :: "priority_index \<Rightarrow> bool" where
  "prio_ok i \<longleftrightarrow> bt_wf i \<and> (\<forall>e \<in> set i. queue_key_order (snd e) = fst e)"

lemma prio_insert_ok: "prio_ok i \<Longrightarrow> prio_ok (prio_insert t i)"
  by (auto simp: prio_ok_def prio_insert_def bs_insert_def prio_key_def dest!: set_bt_insert)

lemma prio_remove_ok: "prio_ok i \<Longrightarrow> prio_ok (prio_remove t i)"
  by (auto simp: prio_ok_def prio_remove_def) (auto simp: bt_remove_def)

interpretation prio: txn_index "\<lambda>t i. Some (prio_insert t i)" "\<lambda>t i. Some (prio_remove t i)" bs_keys prio_key prio_ok
proof
  fix t t' :: mempool_transaction
  show "prio_key t = prio_key t' \<Longrightarrow> txn_pointer t = txn_pointer t'" by (rule prio_key_pointer)
  show "prio_key (t\<lparr>timeline_state := x\<rparr>) = prio_key t" for x
    by (simp add: prio_key_def queue_key_order_def prio_make_key_def get_sender_def)
qed (simp_all add: prio_insert_ok prio_remove_ok, simp_all add: prio_insert_def prio_remove_def)

lemma prio_contains_iff: "prio_contains t i \<longleftrightarrow> prio_key t \<in> bs_keys i"
  by (simp add: prio_contains_def bt_get_None)

text \<open>An index by expiration, for any function that the timeline state does not influence.\<close>

definition ttl_ok :: "(mempool_transaction \<Rightarrow> duration) \<Rightarrow> ttl_index \<Rightarrow> bool" where
  "ttl_ok f i \<longleftrightarrow> bt_wf (ttl_data i) \<and> get_expiration_time i = f"

definition ttl_keys :: "ttl_index \<Rightarrow> ttl_ordering_key set" where
  "ttl_keys i = bs_keys (ttl_data i)"

definition client_expiration :: "mempool_transaction \<Rightarrow> duration" where
  "client_expiration t = from_secs (expiration_timestamp_secs (mt_txn t))"

lemma ttl_contract:
  assumes "\<And>t st. f (t\<lparr>timeline_state := st\<rparr>) = f t"
  shows "txn_index (\<lambda>t i. Some (ttl_insert t i)) (\<lambda>t i. Some (ttl_remove t i)) ttl_keys (ttl_make_key f) (ttl_ok f)"
  using assms
  by unfold_locales (auto simp: ttl_ok_def ttl_keys_def ttl_insert_def ttl_remove_def ttl_make_key_def txn_pointer_def)

interpretation sys_ttl: txn_index "\<lambda>t i. Some (ttl_insert t i)" "\<lambda>t i. Some (ttl_remove t i)" ttl_keys
    "ttl_make_key expiration_time" "ttl_ok expiration_time"
  by (rule ttl_contract) simp

interpretation client_ttl: txn_index "\<lambda>t i. Some (ttl_insert t i)" "\<lambda>t i. Some (ttl_remove t i)" ttl_keys
    "ttl_make_key client_expiration" "ttl_ok client_expiration"
  by (rule ttl_contract) (simp add: client_expiration_def)

section \<open>The parking lot implements the contract\<close>

text \<open>
  The invariants that the source states: no account without transactions, and the index of an account
  leads to its entry; and the size counts the parked transactions.
\<close>

definition lot_pointers :: "(address \<times> (u64, unit) btree) list \<Rightarrow> txn_pointer set" where
  "lot_pointers d = {(a, s). \<exists>ss. (a, ss) \<in> set d \<and> s \<in> bs_keys ss}"

abbreviation parked :: "parking_lot_index \<Rightarrow> txn_pointer set" where
  "parked l \<equiv> lot_pointers (lot_data l)"

definition lot_ok :: "parking_lot_index \<Rightarrow> bool" where
  "lot_ok l \<longleftrightarrow> (\<forall>(a, ss) \<in> set (lot_data l). ss \<noteq> [] \<and> bt_wf ss)
     \<and> (\<forall>a i. account_indices l a = Some i \<longleftrightarrow> i < length (lot_data l) \<and> fst (lot_data l ! i) = a)
     \<and> lot_size l = sum_list (map (\<lambda>e. length (snd e)) (lot_data l))"

lemma lot_okD:
  assumes "lot_ok l"
  shows "account_indices l a = Some i \<longleftrightarrow> i < length (lot_data l) \<and> fst (lot_data l ! i) = a"
    and "(a, ss) \<in> set (lot_data l) \<Longrightarrow> ss \<noteq> [] \<and> bt_wf ss"
    and "lot_size l = sum_list (map (\<lambda>e. length (snd e)) (lot_data l))"
  using assms unfolding lot_ok_def by blast+

lemma lot_new_ok [simp]: "lot_ok lot_new" "parked lot_new = {}"
  by (auto simp: lot_ok_def lot_new_def lot_pointers_def)

text \<open>The entry of an account.\<close>

lemma lot_entry:
  assumes "lot_ok l"
  obtains (absent) "account_indices l a = None" "\<And>ss. (a, ss) \<notin> set (lot_data l)"
  | (present) i ss where "account_indices l a = Some i" "i < length (lot_data l)" "lot_data l ! i = (a, ss)"
      "ss \<noteq> []" "bt_wf ss" "\<And>j. j < length (lot_data l) \<Longrightarrow> fst (lot_data l ! j) = a \<Longrightarrow> j = i"
proof (cases "account_indices l a")
  case None
  have "(a, ss) \<notin> set (lot_data l)" for ss
  proof
    assume "(a, ss) \<in> set (lot_data l)"
    then obtain i where "i < length (lot_data l)" "lot_data l ! i = (a, ss)" by (auto simp: in_set_conv_nth)
    with lot_okD(1) [OF assms, of a i] None show False by simp
  qed
  with None show thesis by (rule absent)
next
  case (Some i)
  then have i: "i < length (lot_data l)" "fst (lot_data l ! i) = a" using lot_okD(1) [OF assms] by auto
  obtain ss where ss: "lot_data l ! i = (a, ss)" using i(2) by (cases "lot_data l ! i") auto
  then have "(a, ss) \<in> set (lot_data l)" using i(1) nth_mem by metis
  with lot_okD(2) [OF assms] have "ss \<noteq> []" "bt_wf ss" by auto
  moreover have "j = i" if "j < length (lot_data l)" "fst (lot_data l ! j) = a" for j
    using lot_okD(1) [OF assms, of a j] that Some by simp
  ultimately show thesis using present [OF Some i(1) ss] by blast
qed

lemma lot_contains_iff:
  assumes "lot_ok l"
  shows "lot_contains a s l \<longleftrightarrow> (a, s) \<in> parked l"
proof (cases rule: lot_entry [OF assms, of a])
  case 1
  then show ?thesis by (auto simp: lot_contains_def lot_pointers_def)
next
  case (2 i ss)
  have "(a, ss') \<in> set (lot_data l) \<longleftrightarrow> ss' = ss" for ss'
  proof
    assume "(a, ss') \<in> set (lot_data l)"
    then obtain j where j: "j < length (lot_data l)" "lot_data l ! j = (a, ss')" by (auto simp: in_set_conv_nth)
    with 2(6) [of j] 2(3) show "ss' = ss" by simp
  next
    assume "ss' = ss"
    with 2(2,3) show "(a, ss') \<in> set (lot_data l)" using nth_mem by metis
  qed
  then have "(a, s) \<in> parked l \<longleftrightarrow> s \<in> bs_keys ss" by (simp add: lot_pointers_def)
  with 2(1,2,3) show ?thesis by (simp add: lot_contains_def bt_get_None)
qed

lemma lot_pointers_update:
  assumes "i < length d" "d ! i = (a, ss)" "\<And>j. j < length d \<Longrightarrow> fst (d ! j) = a \<Longrightarrow> j = i"
  shows "lot_pointers (d[i := (a, ss')]) = {p \<in> lot_pointers d. fst p \<noteq> a} \<union> {a} \<times> bs_keys ss'"
proof -
  have "set (d[i := (a, ss')]) = {e \<in> set d. fst e \<noteq> a} \<union> {(a, ss')}"
  proof (intro set_eqI iffI)
    fix e assume "e \<in> set (d[i := (a, ss')])"
    then obtain j where j: "j < length d" "e = d[i := (a, ss')] ! j" by (auto simp: in_set_conv_nth)
    show "e \<in> {e \<in> set d. fst e \<noteq> a} \<union> {(a, ss')}"
    proof (cases "j = i")
      case True
      with j show ?thesis by simp
    next
      case False
      with j have "e = d ! j" by simp
      with False j(1) assms(3) [of j] show ?thesis by auto
    qed
  next
    fix e assume e: "e \<in> {e \<in> set d. fst e \<noteq> a} \<union> {(a, ss')}"
    show "e \<in> set (d[i := (a, ss')])"
    proof (cases "e = (a, ss')")
      case True
      with assms(1) show ?thesis by (simp add: set_update_memI)
    next
      case False
      with e obtain j where "j < length d" "d ! j = e" "fst e \<noteq> a" by (auto simp: in_set_conv_nth)
      with assms(2) show ?thesis by (metis fst_conv length_list_update nth_list_update_neq nth_mem)
    qed
  qed
  then show ?thesis by (auto simp: lot_pointers_def)
qed

lemma lot_pointers_empty: "insert (a, []) (set d) = set d' \<Longrightarrow> lot_pointers d = lot_pointers d'"
  unfolding lot_pointers_def by (drule sym) auto

lemma lot_pointers_split:
  assumes "i < length d" "d ! i = (a, ss)" "\<And>j. j < length d \<Longrightarrow> fst (d ! j) = a \<Longrightarrow> j = i"
  shows "lot_pointers d = {p \<in> lot_pointers d. fst p \<noteq> a} \<union> {a} \<times> bs_keys ss"
proof -
  have "d[i := (a, ss)] = d" using assms(2) by (metis list_update_id)
  from lot_pointers_update [OF assms, of ss, unfolded this] show ?thesis .
qed

lemma sum_update:
  fixes d :: "('a \<times> 'b list) list"
  assumes "i < length d" "d ! i = (a, ss)"
  shows "sum_list (map (\<lambda>e. length (snd e)) (d[i := (a, ss')])) + length ss = sum_list (map (\<lambda>e. length (snd e)) d) + length ss'"
proof -
  have "length ss \<le> sum_list (map (\<lambda>e. length (snd e)) d)"
    using member_le_sum_list [of "length ss" "map (\<lambda>e. length (snd e)) d"] assms nth_mem [OF assms(1)] by force
  with assms show ?thesis by (simp add: map_update sum_list_update)
qed

lemma bs_length_insert: "bt_wf m \<Longrightarrow> length (bs_insert k v m) = (if bt_get m k = None then length m + 1 else length m)"
  by (simp add: bt_length bt_get_None insert_absorb)

lemma bt_length_remove: "bt_wf m \<Longrightarrow> length (bt_remove k m) = (if bt_get m k = None then length m else length m - 1)"
  by (simp add: bt_length bt_get_None)

lemma lot_insert_ok:
  assumes "lot_ok l" "txn_wf t"
  shows "lot_ok (lot_insert t l) \<and> parked (lot_insert t l) = insert (txn_pointer t) (parked l)"
proof -
  let ?a = "sender (mt_txn t)" and ?s = "sequence_number (mt_txn t)"
  have p: "txn_pointer t = (?a, ?s)" using assms(2) by (simp add: txn_pointer_def txn_wf_def get_sender_def)
  show ?thesis
  proof (cases rule: lot_entry [OF assms(1), of ?a])
    case 1
    then have "lot_insert t l = l\<lparr>lot_data := lot_data l @ [(?a, [(?s, ())])],
        account_indices := (account_indices l)(?a \<mapsto> length (lot_data l)), lot_size := lot_size l + 1\<rparr>"
      by (simp add: lot_insert_def Let_def)
    moreover have "(if a = ?a then Some (length (lot_data l)) else account_indices l a) = Some i \<longleftrightarrow>
        i < length (lot_data l) + 1 \<and> fst ((lot_data l @ [(?a, [(?s, ())])]) ! i) = a" for a i
      using lot_okD(1) [OF assms(1), of a i] 1(1) by (auto simp: nth_append less_Suc_eq)
    ultimately show ?thesis
      using assms(1) p by (auto simp: lot_ok_def lot_pointers_def bt_wf_def)
  next
    case (2 i ss)
    let ?d = "(lot_data l)[i := (?a, bs_insert ?s () ss)]"
    have eq: "lot_data (lot_insert t l) = ?d" "account_indices (lot_insert t l) = account_indices l"
        "lot_size (lot_insert t l) = (if bt_get ss ?s = None then lot_size l + 1 else lot_size l)"
      using 2(1,2,3) by (simp_all add: lot_insert_def Let_def)
    have "parked (lot_insert t l) = {p \<in> parked l. fst p \<noteq> ?a} \<union> {?a} \<times> bs_keys (bs_insert ?s () ss)"
      unfolding eq(1) by (rule lot_pointers_update [OF 2(2,3,6)])
    moreover note lot_pointers_split [OF 2(2,3,6)]
    ultimately have "parked (lot_insert t l) = insert (txn_pointer t) (parked l)" using p by auto
    moreover have "lot_ok (lot_insert t l)"
      unfolding lot_ok_def eq
    proof (intro conjI allI ballI)
      show "case e of (a, ss) \<Rightarrow> ss \<noteq> [] \<and> bt_wf ss" if "e \<in> set ?d" for e
      proof -
        have "e = (?a, bs_insert ?s () ss) \<or> e \<in> set (lot_data l)" using that set_update_subset_insert by fast
        moreover have "bs_insert ?s () ss \<noteq> []" using bs_keys_insert [of ?s "()" ss] by fastforce
        ultimately show ?thesis using lot_okD(2) [OF assms(1)] 2(5) by (cases e) auto
      qed
      show "account_indices l a = Some j \<longleftrightarrow> j < length ?d \<and> fst (?d ! j) = a" for a j
        using lot_okD(1) [OF assms(1), of a j] 2(2,3) by (cases "j = i") auto
      show "(if bt_get ss ?s = None then lot_size l + 1 else lot_size l) = sum_list (map (\<lambda>e. length (snd e)) ?d)"
        using sum_update [OF 2(2,3), of "bs_insert ?s () ss"] lot_okD(3) [OF assms(1)] bs_length_insert [OF 2(5), of ?s "()"]
        by (auto split: if_splits)
    qed
    ultimately show ?thesis by blast
  qed
qed

lemma swap_remove_nth:
  assumes "i < length xs" "j < length xs - 1"
  shows "swap_remove i xs ! j = xs ! (if j = i then length xs - 1 else j)"
proof -
  have "last xs = xs ! (length xs - 1)" using assms by (intro last_conv_nth) auto
  then show ?thesis using assms by (simp add: swap_remove_def nth_list_update nth_butlast)
qed

lemma swap_remove_length [simp]: "length (swap_remove i xs) = length xs - 1"
  by (simp add: swap_remove_def)

lemma swap_remove_mset:
  assumes "i < length xs"
  shows "add_mset (xs ! i) (mset (swap_remove i xs)) = mset xs"
proof -
  have xs: "xs = butlast xs @ [last xs]" using assms by (intro append_butlast_last_id [symmetric]) auto
  show ?thesis
  proof (cases "i = length xs - 1")
    case True
    then have "xs ! i = last xs" using assms by (cases xs rule: rev_cases) simp_all
    moreover have "mset xs = mset (butlast xs) + {#last xs#}" using xs by (metis mset_append mset_single_iff_right)
    ultimately show ?thesis using True by (simp add: swap_remove_def)
  next
    case False
    then have i: "i < length (butlast xs)" using assms by simp
    then have "mset ((butlast xs)[i := last xs]) = add_mset (last xs) (mset (butlast xs) - {#butlast xs ! i#})" by (rule mset_update)
    moreover have "butlast xs ! i \<in># mset (butlast xs)" using i by (metis nth_mem set_mset_mset)
    moreover have "mset xs = mset (butlast xs) + {#last xs#}" using xs by (metis mset_append mset_single_iff_right)
    ultimately show ?thesis using False i by (simp add: swap_remove_def nth_butlast)
  qed
qed

text \<open>Removing an emptied entry: the last entry takes its place, and the indices follow.\<close>

lemma lot_drop_entry:
  assumes ok: "lot_ok l" and i: "i < length (lot_data l)" "lot_data l ! i = (a, ss)"
  defines "d \<equiv> swap_remove i ((lot_data l)[i := (a, [])])"
    and "inds \<equiv> (account_indices l)(a := None)"
  shows "e \<in> set d \<Longrightarrow> e \<in> set (lot_data l)"
    and "(if i < length d then inds(fst (d ! i) \<mapsto> i) else inds) b = Some j \<longleftrightarrow> j < length d \<and> fst (d ! j) = b"
    and "lot_pointers d = {p \<in> parked l. fst p \<noteq> a}"
    and "sum_list (map (\<lambda>e. length (snd e)) d) + length ss = lot_size l"
proof -
  let ?d = "lot_data l" and ?n = "length (lot_data l) - 1"
  have len: "length d = ?n" by (simp add: d_def)
  note acc = lot_okD(1) [OF ok]
  have nth: "d ! j = ?d ! (if j = i then ?n else j)" if "j < ?n" for j
    using swap_remove_nth [of i "?d[i := (a, [])]" j] that i(1) by (auto simp: d_def)
  show set: "e \<in> set (lot_data l)" if "e \<in> set d" for e
  proof -
    obtain j where j: "j < ?n" "e = d ! j" using \<open>e \<in> set d\<close> len by (metis in_set_conv_nth)
    have "(if j = i then ?n else j) < length ?d" using j(1) by auto
    with nth [OF j(1)] j(2) show ?thesis by simp
  qed
  have at: "k < length ?d \<Longrightarrow> fst (?d ! k) = a \<Longrightarrow> k = i" for k using acc [of a k] acc [of a i] i by simp
  have fst_d: "fst (d ! j) = b \<longleftrightarrow> account_indices l b = Some (if j = i then ?n else j)" if "j < ?n" for j b
  proof -
    have "(if j = i then ?n else j) < length ?d" using that by auto
    then show ?thesis unfolding acc nth [OF that] by blast
  qed
  have ia: "account_indices l a = Some i" using acc i by simp
  have below: "account_indices l b = Some j \<Longrightarrow> j \<noteq> ?n \<Longrightarrow> j < ?n" for b j using acc [of b j] by linarith
  have inds_a: "inds b = Some j \<longleftrightarrow> j \<noteq> i \<and> account_indices l b = Some j" for b j
  proof (cases "b = a")
    case True
    then show ?thesis using ia by (auto simp: inds_def)
  next
    case False
    have "account_indices l b \<noteq> Some i" using acc [of b i] i False by simp
    with False show ?thesis by (auto simp: inds_def)
  qed
  show "(if i < length d then inds(fst (d ! i) \<mapsto> i) else inds) b = Some j \<longleftrightarrow> j < length d \<and> fst (d ! j) = b"
  proof (cases "i < ?n")
    case True
    have last: "account_indices l (fst (d ! i)) = Some ?n" using fst_d [OF True, of "fst (d ! i)"] by simp
    show ?thesis
    proof (cases "b = fst (d ! i)")
      case True
      have "j < length d \<and> fst (d ! j) = b \<longleftrightarrow> j < ?n \<and> (if j = i then ?n else j) = ?n"
      proof -
        have "account_indices l b = Some ?n" using last True by simp
        then show ?thesis using fst_d [of j b] len by (cases "j < ?n") auto
      qed
      also have "\<dots> \<longleftrightarrow> i = j" using \<open>i < ?n\<close> by auto
      finally show ?thesis using True \<open>i < ?n\<close> len by simp
    next
      case False
      have n: "account_indices l b \<noteq> Some ?n"
      proof
        assume "account_indices l b = Some ?n"
        with last have "fst (?d ! ?n) = b" "fst (?d ! ?n) = fst (d ! i)" unfolding acc by simp_all
        with False show False by simp
      qed
      have "j < length d \<and> fst (d ! j) = b \<longleftrightarrow> j < ?n \<and> j \<noteq> i \<and> account_indices l b = Some j"
        using fst_d [of j b] n len by (cases "j = i"; cases "j < ?n") simp_all
      also have "\<dots> \<longleftrightarrow> j \<noteq> i \<and> account_indices l b = Some j" using n below [of b j] by auto
      also have "\<dots> \<longleftrightarrow> inds b = Some j" using ia inds_a [of b j] by blast
      finally show ?thesis using False True len by simp
    qed
  next
    case False
    then have n: "i = ?n" using i(1) by simp
    have "j < length d \<and> fst (d ! j) = b \<longleftrightarrow> j < ?n \<and> account_indices l b = Some j"
      using fst_d [of j b] n len by (cases "j = i"; cases "j < ?n") simp_all
    also have "\<dots> \<longleftrightarrow> j \<noteq> i \<and> account_indices l b = Some j" using n below [of b j] by auto
    also have "\<dots> \<longleftrightarrow> inds b = Some j" using inds_a [of b j] by blast
    finally show ?thesis using False len by simp
  qed
  have ms: "add_mset (a, []) (mset d) = mset (?d[i := (a, [])])"
    using swap_remove_mset [of i "?d[i := (a, [])]"] i(1) by (simp add: d_def)
  then have "insert (a, []) (set d) = set (?d[i := (a, [])])" by (metis set_mset_add_mset_insert set_mset_mset)
  then have "lot_pointers d = lot_pointers (?d[i := (a, [])])" by (rule lot_pointers_empty)
  then show "lot_pointers d = {p \<in> parked l. fst p \<noteq> a}" using lot_pointers_update [OF i at] by simp
  have "sum_mset (image_mset (\<lambda>e. length (snd e)) (add_mset (a, []) (mset d))) = sum_list (map (\<lambda>e. length (snd e)) d)"
    by (simp flip: sum_mset_sum_list)
  then have "sum_list (map (\<lambda>e. length (snd e)) d) = sum_list (map (\<lambda>e. length (snd e)) (?d[i := (a, [])]))"
    unfolding ms by (simp flip: sum_mset_sum_list)
  then show "sum_list (map (\<lambda>e. length (snd e)) d) + length ss = lot_size l"
    using sum_update [OF i, of "[]"] lot_okD(3) [OF ok] by simp
qed

lemma lot_remove_ok:
  assumes "lot_ok l" "txn_wf t"
  shows "\<exists>l'. lot_remove t l = Some l' \<and> lot_ok l' \<and> parked l' = parked l - {txn_pointer t}"
proof -
  let ?a = "sender (mt_txn t)" and ?s = "sequence_number (mt_txn t)"
  have p: "txn_pointer t = (?a, ?s)" using assms(2) by (simp add: txn_pointer_def txn_wf_def get_sender_def)
  show ?thesis
  proof (cases rule: lot_entry [OF assms(1), of ?a])
    case 1
    then have "lot_remove t l = Some l" by (simp add: lot_remove_def Let_def)
    moreover have "txn_pointer t \<notin> parked l" using 1(2) p by (simp add: lot_pointers_def)
    ultimately show ?thesis using assms(1) by simp
  next
    case (2 i ss)
    let ?ss = "bt_remove ?s ss" and ?size = "if bt_get ss ?s = None then lot_size l else lot_size l - 1"
    let ?d = "(lot_data l)[i := (?a, ?ss)]"
    have "length ss \<le> lot_size l" unfolding lot_okD(3) [OF assms(1)] using sum_update [OF 2(2,3), of "[]"] by simp
    moreover obtain k where "length ss = Suc k" using 2(4) by (cases ss) auto
    ultimately have len: "length ?ss + (lot_size l - ?size) = length ss" "?size \<le> lot_size l"
        "bt_get ss ?s \<noteq> None \<Longrightarrow> lot_size l \<noteq> 0"
      using bt_length_remove [OF 2(5), of ?s] by auto
    have diff: "parked l - {txn_pointer t} = {p \<in> parked l. fst p \<noteq> ?a} \<union> {?a} \<times> bs_keys ?ss"
      by (subst lot_pointers_split [OF 2(2,3,6)]) (auto simp: p)
    show ?thesis
    proof (cases "?ss = []")
      case False
      let ?l = "l\<lparr>lot_data := ?d, lot_size := ?size\<rparr>"
      have "lot_remove t l = Some ?l"
        using 2(1,2,3) False len(3) by (simp add: lot_remove_def Let_def)
      moreover have "parked ?l = parked l - {txn_pointer t}"
        using lot_pointers_update [OF 2(2,3,6), of ?ss] diff by simp
      moreover have "lot_ok ?l"
        unfolding lot_ok_def
      proof (intro conjI allI ballI)
        show "case e of (a, ss) \<Rightarrow> ss \<noteq> [] \<and> bt_wf ss" if "e \<in> set (lot_data ?l)" for e
        proof -
          have "e = (?a, ?ss) \<or> e \<in> set (lot_data l)" using that set_update_subset_insert by fastforce
          then show ?thesis using lot_okD(2) [OF assms(1)] 2(5) False by (cases e) auto
        qed
        show "account_indices ?l a = Some j \<longleftrightarrow> j < length (lot_data ?l) \<and> fst (lot_data ?l ! j) = a" for a j
          using lot_okD(1) [OF assms(1), of a j] 2(2,3) by (cases "j = i") auto
        show "lot_size ?l = sum_list (map (\<lambda>e. length (snd e)) (lot_data ?l))"
          using sum_update [OF 2(2,3), of ?ss] lot_okD(3) [OF assms(1)] len(1,2) by simp
      qed
      ultimately show ?thesis by blast
    next
      case True
      define d where "d = swap_remove i ((lot_data l)[i := (?a, [])])"
      let ?inds = "(account_indices l)(?a := None)"
      let ?l = "l\<lparr>lot_data := d, account_indices := (if i < length d then ?inds(fst (d ! i) \<mapsto> i) else ?inds), lot_size := ?size\<rparr>"
      note drop = lot_drop_entry [OF assms(1) 2(2,3), folded d_def]
      have "lot_remove t l = Some ?l"
        using 2(1,2,3) True len(3) by (simp add: lot_remove_def Let_def d_def)
      moreover have "parked ?l = parked l - {txn_pointer t}" using drop(3) diff True by simp
      moreover have "lot_ok ?l"
        unfolding lot_ok_def
      proof (intro conjI allI ballI)
        show "case e of (a, ss) \<Rightarrow> ss \<noteq> [] \<and> bt_wf ss" if "e \<in> set (lot_data ?l)" for e
          using that drop(1) [of e] lot_okD(2) [OF assms(1)] by (cases e) auto
        show "account_indices ?l a = Some j \<longleftrightarrow> j < length (lot_data ?l) \<and> fst (lot_data ?l ! j) = a" for a j
          using drop(2) by simp
        show "lot_size ?l = sum_list (map (\<lambda>e. length (snd e)) (lot_data ?l))"
          using drop(4) len(1,2) True by simp
      qed
      ultimately show ?thesis by blast
    qed
  qed
qed

interpretation lot: txn_index "\<lambda>t l. Some (lot_insert t l)" lot_remove parked txn_pointer lot_ok
  by unfold_locales (simp_all add: lot_insert_ok lot_remove_ok)

section \<open>What the timelines hold\<close>

definition mins_ok :: "u64 list \<Rightarrow> bool" where
  "mins_ok mins \<longleftrightarrow> mins \<noteq> [] \<and> hd mins = 0 \<and> sorted_wrt (<) mins"

text \<open>
  Every bucket holds exactly the transactions of its scores that are ready, under the number in their
  state; the next number is larger than all of them.
\<close>

definition timeline_ok :: "(txn_pointer \<rightharpoonup> mempool_transaction) \<Rightarrow> multi_timeline \<Rightarrow> bool" where
  "timeline_ok M m \<longleftrightarrow> mins_ok (bucket_mins m) \<and> length (timelines m) = length (bucket_mins m)
     \<and> (\<forall>b < length (timelines m). bt_wf (timeline (timelines m ! b))
          \<and> (\<forall>k \<in> bs_keys (timeline (timelines m ! b)). k < timeline_id (timelines m ! b))
          \<and> (\<forall>k p. bt_get (timeline (timelines m ! b)) k = Some p \<longleftrightarrow>
               (\<exists>t. M p = Some t \<and> timeline_state t = Ready k \<and> bucket_index (ranking_score t) m = Some b)))"

lemma timeline_okD:
  assumes "timeline_ok M m" "b < length (timelines m)"
  shows "bt_wf (timeline (timelines m ! b))"
    and "k \<in> bs_keys (timeline (timelines m ! b)) \<Longrightarrow> k < timeline_id (timelines m ! b)"
    and "bt_get (timeline (timelines m ! b)) k = Some p \<longleftrightarrow>
               (\<exists>t. M p = Some t \<and> timeline_state t = Ready k \<and> bucket_index (ranking_score t) m = Some b)"
  using assms unfolding timeline_ok_def by blast+

lemma takeWhile_less_sorted: "sorted_wrt (<) xs \<Longrightarrow> i < length xs \<Longrightarrow> i < length (takeWhile (\<lambda>y. y < x) xs) \<longleftrightarrow> xs ! i < (x :: 'a :: linorder)"
proof (induction xs arbitrary: i)
  case (Cons y ys)
  show ?case
  proof (cases "y < x")
    case True
    with Cons show ?thesis by (cases i) auto
  next
    case False
    have "y \<le> (y # ys) ! i" using Cons.prems by (cases i) (auto simp: order.strict_implies_order)
    with False show ?thesis by auto
  qed
qed simp

text \<open>The bucket of a score is the last one whose minimum does not exceed it.\<close>

lemma bucket_index_spec:
  assumes "mins_ok (bucket_mins m)" "length (timelines m) = length (bucket_mins m)"
  obtains b where "bucket_index score m = Some b" "b < length (timelines m)" "bucket_mins m ! b \<le> score"
    "\<And>c. c < length (timelines m) \<Longrightarrow> bucket_mins m ! c \<le> score \<Longrightarrow> c \<le> b"
proof -
  let ?xs = "bucket_mins m"
  define i where "i = length (takeWhile (\<lambda>y. y < score) ?xs)"
  have srt: "sorted_wrt (<) ?xs" "?xs \<noteq> []" "hd ?xs = 0" using assms(1) by (simp_all add: mins_ok_def)
  note tw = takeWhile_less_sorted [OF srt(1), of _ score, folded i_def]
  have le: "i \<le> length ?xs" by (simp add: i_def length_takeWhile_le)
  show thesis
  proof (cases "i < length ?xs \<and> ?xs ! i = score")
    case True
    then have "bucket_index score m = Some i" using assms(2) by (simp add: bucket_index_def binary_search_def Let_def i_def)
    moreover have "c \<le> i" if "c < length ?xs" "?xs ! c \<le> score" for c
    proof (rule ccontr)
      assume "\<not> c \<le> i"
      then have "?xs ! i < ?xs ! c" using sorted_wrt_nth_less [OF srt(1)] that(1) by simp
      with True that(2) show False by simp
    qed
    ultimately show thesis using that True assms(2) by simp
  next
    case False
    have "i \<noteq> 0"
    proof
      assume "i = 0"
      then have "\<not> ?xs ! 0 < score" using tw [of 0] srt(2) by simp
      moreover have "?xs ! 0 = 0" using srt(2,3) by (simp add: hd_conv_nth)
      ultimately have "?xs ! i = score" using \<open>i = 0\<close> by (simp add: not_less word_le_0_iff)
      with False srt(2) \<open>i = 0\<close> show False by simp
    qed
    then have "bucket_index score m = Some (i - 1)"
      using False le assms(2) by (auto simp: bucket_index_def binary_search_def Let_def i_def)
    moreover have "?xs ! (i - 1) < score" using tw [of "i - 1"] \<open>i \<noteq> 0\<close> le by simp
    moreover have "c \<le> i - 1" if "c < length ?xs" "?xs ! c \<le> score" for c
    proof -
      have "c \<noteq> i" using False tw [of i] that by auto
      moreover have "\<not> i < c"
      proof
        assume "i < c"
        then have "?xs ! i < ?xs ! c" using sorted_wrt_nth_less [OF srt(1)] that(1) by simp
        with tw [of i] \<open>i < c\<close> that show False by simp
      qed
      ultimately show ?thesis by simp
    qed
    ultimately show thesis using that \<open>i \<noteq> 0\<close> le assms(2) by (simp add: order.strict_implies_order)
  qed
qed

lemma bucket_index_timelines [simp]:
  "length ls = length (timelines m) \<Longrightarrow> bucket_index score (m\<lparr>timelines := ls\<rparr>) = bucket_index score m"
  by (simp add: bucket_index_def)

lemma timeline_ok_bucket:
  assumes "timeline_ok M m"
  obtains b where "bucket_index score m = Some b" "b < length (timelines m)"
proof -
  have "mins_ok (bucket_mins m)" "length (timelines m) = length (bucket_mins m)" using assms by (simp_all add: timeline_ok_def)
  from bucket_index_spec [OF this, of score] that show thesis by metis
qed

text \<open>Transactions that are not ready come and go without the timelines.\<close>

lemma timeline_ok_unready:
  assumes "timeline_ok M m" "\<And>p k t. timeline_state t = Ready k \<Longrightarrow> M' p = Some t \<longleftrightarrow> M p = Some t"
  shows "timeline_ok M' m"
proof -
  have eq: "(\<exists>t. M' p = Some t \<and> timeline_state t = Ready k \<and> bucket_index (ranking_score t) m = Some b) \<longleftrightarrow>
      (\<exists>t. M p = Some t \<and> timeline_state t = Ready k \<and> bucket_index (ranking_score t) m = Some b)" for p k b
    using assms(2) by blast
  show ?thesis using assms(1) unfolding timeline_ok_def eq .
qed

lemma timeline_ok_update:
  assumes "timeline_ok M m" "b < length (timelines m)" "bt_wf (timeline line)"
    "\<And>k. k \<in> bs_keys (timeline line) \<Longrightarrow> k < timeline_id line"
    "\<And>k p. bt_get (timeline line) k = Some p \<longleftrightarrow> (\<exists>t. M' p = Some t \<and> timeline_state t = Ready k \<and> bucket_index (ranking_score t) m = Some b)"
    "\<And>p k t c. timeline_state t = Ready k \<Longrightarrow> bucket_index (ranking_score t) m = Some c \<Longrightarrow> c \<noteq> b \<Longrightarrow> M' p = Some t \<longleftrightarrow> M p = Some t"
  shows "timeline_ok M' (m\<lparr>timelines := (timelines m)[b := line]\<rparr>)"
  unfolding timeline_ok_def
proof (intro conjI allI impI ballI)
  let ?m = "m\<lparr>timelines := (timelines m)[b := line]\<rparr>"
  show "mins_ok (bucket_mins ?m)" "length (timelines ?m) = length (bucket_mins ?m)"
    using assms(1) by (simp_all add: timeline_ok_def)
  fix c assume c: "c < length (timelines ?m)"
  then have c': "c < length (timelines m)" by simp
  show "bt_wf (timeline (timelines ?m ! c))" using timeline_okD(1) [OF assms(1) c'] assms(2,3) by (cases "c = b") simp_all
  show "k < timeline_id (timelines ?m ! c)" if "k \<in> bs_keys (timeline (timelines ?m ! c))" for k
    using that timeline_okD(2) [OF assms(1) c'] assms(2,4) by (cases "c = b") simp_all
  show "bt_get (timeline (timelines ?m ! c)) k = Some p \<longleftrightarrow>
      (\<exists>t. M' p = Some t \<and> timeline_state t = Ready k \<and> bucket_index (ranking_score t) ?m = Some c)" for k p
  proof (cases "c = b")
    case True
    then show ?thesis using assms(2,5) by simp
  next
    case False
    then have "bt_get (timeline (timelines ?m ! c)) k = Some p \<longleftrightarrow>
        (\<exists>t. M p = Some t \<and> timeline_state t = Ready k \<and> bucket_index (ranking_score t) m = Some c)"
      using timeline_okD(3) [OF assms(1) c'] by simp
    also have "\<dots> \<longleftrightarrow> (\<exists>t. M' p = Some t \<and> timeline_state t = Ready k \<and> bucket_index (ranking_score t) m = Some c)"
      using assms(6) False by blast
    finally show ?thesis by simp
  qed
qed

lemma multi_remove_ok:
  assumes "timeline_ok (M(txn_pointer t \<mapsto> t)) m" "M (txn_pointer t) = None"
  shows "\<exists>m'. multi_remove t m = Some m' \<and> timeline_ok M m' \<and> map timeline_id (timelines m') = map timeline_id (timelines m)"
proof -
  let ?M = "M(txn_pointer t \<mapsto> t)"
  obtain b where b: "bucket_index (ranking_score t) m = Some b" "b < length (timelines m)"
    by (rule timeline_ok_bucket [OF assms(1)])
  let ?line = "timelines m ! b"
  note ok = timeline_okD [OF assms(1) b(2)]
  have "timeline_ok M (m\<lparr>timelines := (timelines m)[b := timeline_remove t ?line]\<rparr>)"
  proof (rule timeline_ok_update [OF assms(1) b(2)])
    show "bt_wf (timeline (timeline_remove t ?line))" using ok(1) by (simp add: timeline_remove_def split: timeline_state.split)
    show "k < timeline_id (timeline_remove t ?line)" if "k \<in> bs_keys (timeline (timeline_remove t ?line))" for k
      using that ok(2) [of k] by (auto simp: timeline_remove_def split: timeline_state.splits)
    show "M p = Some u \<longleftrightarrow> ?M p = Some u" if "bucket_index (ranking_score u) m = Some c" "c \<noteq> b" for p u c
      using that b(1) assms(2) by auto
    show "bt_get (timeline (timeline_remove t ?line)) k = Some p \<longleftrightarrow>
        (\<exists>u. M p = Some u \<and> timeline_state u = Ready k \<and> bucket_index (ranking_score u) m = Some b)" for k p
    proof (cases "timeline_state t = Ready k")
      case True
      have "bt_get (timeline ?line) k = Some (txn_pointer t)" unfolding ok(3) using True b(1) by simp
      then have "p = txn_pointer t" if "M p = Some u" "timeline_state u = Ready k" "bucket_index (ranking_score u) m = Some b" for u
        using ok(3) [of k p] that by (metis fun_upd_apply option.inject)
      then show ?thesis using True assms(2) by (auto simp: timeline_remove_def)
    next
      case False
      then have "bt_get (timeline (timeline_remove t ?line)) k = bt_get (timeline ?line) k"
        by (auto simp: timeline_remove_def split: timeline_state.split)
      also have "\<dots> = Some p \<longleftrightarrow> (\<exists>u. ?M p = Some u \<and> timeline_state u = Ready k \<and> bucket_index (ranking_score u) m = Some b)"
        by (rule ok(3))
      also have "\<dots> \<longleftrightarrow> (\<exists>u. M p = Some u \<and> timeline_state u = Ready k \<and> bucket_index (ranking_score u) m = Some b)"
        using False assms(2) by auto
      finally show ?thesis .
    qed
  qed
  moreover have "map timeline_id ((timelines m)[b := timeline_remove t ?line]) = map timeline_id (timelines m)"
  proof -
    have "timeline_id (timeline_remove t ?line) = timeline_id ?line" by (simp add: timeline_remove_def split: timeline_state.split)
    then show ?thesis by (metis list_update_id map_update)
  qed
  ultimately show ?thesis using b(1) by (simp add: multi_remove_def)
qed

lemma multi_insert_ok:
  assumes "timeline_ok M m" "M (txn_pointer t) = None" "\<And>line. line \<in> set (timelines m) \<Longrightarrow> timeline_id line \<noteq> - 1"
  shows "\<exists>k m'. multi_insert t m = Some (t\<lparr>timeline_state := Ready k\<rparr>, m')
    \<and> timeline_ok (M(txn_pointer t \<mapsto> t\<lparr>timeline_state := Ready k\<rparr>)) m'
    \<and> list_all2 (\<lambda>line' line. unat (timeline_id line') \<le> unat (timeline_id line) + 1) (timelines m') (timelines m)"
proof -
  obtain b where b: "bucket_index (ranking_score t) m = Some b" "b < length (timelines m)"
    by (rule timeline_ok_bucket [OF assms(1)])
  let ?line = "timelines m ! b"
  let ?k = "timeline_id ?line"
  let ?t = "t\<lparr>timeline_state := Ready ?k\<rparr>"
  let ?M = "M(txn_pointer t \<mapsto> ?t)"
  let ?line' = "?line\<lparr>timeline := bt_insert ?k (txn_pointer t) (timeline ?line), timeline_id := ?k + 1\<rparr>"
  note ok = timeline_okD [OF assms(1) b(2)]
  have room: "?k \<noteq> - 1" using assms(3) b(2) by simp
  then have suc: "unat (?k + 1) = unat ?k + 1" using unatSuc [of ?k] by (metis Suc_eq_plus1 add.commute add_eq_0_iff)
  then have add: "add_chk ?k 1 = Some (?k + 1)"
    by (simp only: add_chk_Some uint_nat of_nat_add) simp
  have "timeline_ok ?M (m\<lparr>timelines := (timelines m)[b := ?line']\<rparr>)"
  proof (rule timeline_ok_update [OF assms(1) b(2)])
    show "bt_wf (timeline ?line')" using ok(1) by simp
    show "k < timeline_id ?line'" if "k \<in> bs_keys (timeline ?line')" for k
    proof -
      have "k = ?k \<or> k < ?k" using that ok(2) [of k] by auto
      moreover have "?k < ?k + 1" using suc by (simp add: word_less_nat_alt)
      ultimately show ?thesis by auto
    qed
    show "?M p = Some u \<longleftrightarrow> M p = Some u" if "bucket_index (ranking_score u) m = Some c" "c \<noteq> b" for p u c
      using that b(1) assms(2) by auto
    show "bt_get (timeline ?line') k = Some p \<longleftrightarrow>
        (\<exists>u. ?M p = Some u \<and> timeline_state u = Ready k \<and> bucket_index (ranking_score u) m = Some b)" for k p
    proof (cases "k = ?k")
      case True
      have "\<not> (M p = Some u \<and> timeline_state u = Ready ?k \<and> bucket_index (ranking_score u) m = Some b)" for u
        using ok(3) [of ?k p] ok(2) [of ?k] bt_get_None [of "timeline ?line" ?k] by fastforce
      then show ?thesis using True b(1) assms(2) by (auto split: if_splits)
    next
      case False
      then have "bt_get (timeline ?line') k = Some p \<longleftrightarrow> bt_get (timeline ?line) k = Some p" by simp
      also have "\<dots> \<longleftrightarrow> (\<exists>u. M p = Some u \<and> timeline_state u = Ready k \<and> bucket_index (ranking_score u) m = Some b)"
        by (rule ok(3))
      also have "\<dots> \<longleftrightarrow> (\<exists>u. ?M p = Some u \<and> timeline_state u = Ready k \<and> bucket_index (ranking_score u) m = Some b)"
        using False assms(2) by auto
      finally show ?thesis .
    qed
  qed
  moreover have "multi_insert t m = Some (?t, m\<lparr>timelines := (timelines m)[b := ?line']\<rparr>)"
    using b add by (simp add: multi_insert_def timeline_insert_def)
  moreover have "list_all2 (\<lambda>line' line. unat (timeline_id line') \<le> unat (timeline_id line) + 1) ((timelines m)[b := ?line']) (timelines m)"
    using suc b(2) by (auto simp: list_all2_conv_all_nth nth_list_update)
  ultimately show ?thesis by (intro exI [of _ ?k] exI conjI) auto
qed

lemma multi_new_ok: "multi_new mins = Inr m \<Longrightarrow> timeline_ok Map.empty m"
proof -
  have srt: "strictly_increasing prev xs \<longleftrightarrow> sorted_wrt (<) xs \<and> (\<forall>p. prev = Some p \<longrightarrow> (\<forall>x \<in> set xs. p < x))" for prev xs
    by (induction prev xs rule: strictly_increasing.induct) (auto split: option.splits dest: order.strict_trans)
  assume "multi_new mins = Inr m"
  then show ?thesis
    using srt by (auto simp: multi_new_def timeline_ok_def mins_ok_def timeline_new_def split: if_splits)
qed

end
