(* ===== verification/TransactionStore.thy ===== *)
theory TransactionStore
  imports MempoolIndex
begin

text \<open>
  The store of the mempool (\<open>mempool/src/core_mempool/transaction_store.rs\<close>): the transactions of
  every account in the order of their sequence numbers, and the indexes over them. A transaction is
  ready when it continues the sequence of its account; ready transactions are in the priority index
  and, if they are to be broadcast, in a timeline; the others are parked. Logging and metrics are not
  modelled.
\<close>

section \<open>The state\<close>

type_synonym account_transactions = "(u64, mempool_transaction) btree"

record 'h transaction_store =
  transactions :: "address \<rightharpoonup> account_transactions"
  sequence_numbers :: "address \<rightharpoonup> u64"
  priority_index :: priority_index
  expiration_time_index :: ttl_index
  system_ttl_index :: ttl_index
  timeline_index :: multi_timeline
  parking_lot_index :: parking_lot_index
  hash_index :: "'h \<rightharpoonup> txn_pointer"
  size_bytes :: nat
  capacity :: nat
  capacity_bytes :: nat
  capacity_per_user :: nat
  max_batch_bytes :: u64

record mempool_config =
  broadcast_buckets :: "u64 list"
  config_capacity :: nat
  config_capacity_bytes :: nat
  config_capacity_per_user :: nat
  shared_mempool_max_batch_bytes :: u64
  system_transaction_timeout_secs :: u64
  default_failovers :: nat
  max_broadcasts_per_peer :: nat
  shared_mempool_ack_timeout_ms :: u64
  shared_mempool_batch_size :: nat
  shared_mempool_backoff_interval_ms :: u64
  shared_mempool_tick_interval_ms :: u64

datatype mempool_status_code =
  Accepted | InvalidSeqNumber | MempoolIsFull | TooManyTransactions | InvalidUpdate | VmError | UnknownStatus

definition store_new :: "mempool_config \<Rightarrow> 'h transaction_store option" where
  "store_new config =
     (case multi_new (broadcast_buckets config) of
        Inl _ \<Rightarrow> None
      | Inr lines \<Rightarrow>
          Some \<lparr>transactions = Map.empty, sequence_numbers = Map.empty, priority_index = [],
            expiration_time_index = ttl_new client_expiration, system_ttl_index = ttl_new expiration_time,
            timeline_index = lines, parking_lot_index = lot_new, hash_index = Map.empty, size_bytes = 0,
            capacity = config_capacity config, capacity_bytes = config_capacity_bytes config,
            capacity_per_user = config_capacity_per_user config,
            max_batch_bytes = shared_mempool_max_batch_bytes config\<rparr>)"

section \<open>Lookups\<close>

definition get_mempool_txn :: "'h transaction_store \<Rightarrow> address \<Rightarrow> u64 \<Rightarrow> mempool_transaction option" where
  "get_mempool_txn st a s = do { txns \<leftarrow> transactions st a; bt_get txns s }"

definition store_get :: "'h transaction_store \<Rightarrow> address \<Rightarrow> u64 \<Rightarrow> signed_transaction option" where
  "store_get st a s = map_option mt_txn (get_mempool_txn st a s)"

definition get_with_ranking_score :: "'h transaction_store \<Rightarrow> address \<Rightarrow> u64 \<Rightarrow> (signed_transaction \<times> u64) option" where
  "get_with_ranking_score st a s = map_option (\<lambda>t. (mt_txn t, ranking_score t)) (get_mempool_txn st a s)"

definition get_by_hash :: "'h transaction_store \<Rightarrow> 'h \<Rightarrow> signed_transaction option" where
  "get_by_hash st h = (case hash_index st h of Some (a, s) \<Rightarrow> store_get st a s | None \<Rightarrow> None)"

definition get_ranking_score :: "'h transaction_store \<Rightarrow> address \<Rightarrow> u64 \<Rightarrow> u64 option" where
  "get_ranking_score st a s = map_option ranking_score (get_mempool_txn st a s)"

definition get_sequence_number :: "'h transaction_store \<Rightarrow> address \<Rightarrow> u64 option" where
  "get_sequence_number st a = sequence_numbers st a"

definition iter_queue :: "'h transaction_store \<Rightarrow> ordered_queue_key list" where
  "iter_queue st = prio_iter (priority_index st)"

section \<open>Removing from the indexes\<close>

text \<open>A loop whose body may panic.\<close>

fun ofold :: "('a \<Rightarrow> 's \<Rightarrow> 's option) \<Rightarrow> 'a list \<Rightarrow> 's \<Rightarrow> 's option" where
  "ofold f [] s = Some s"
| "ofold f (x # xs) s = do { s' \<leftarrow> f x s; ofold f xs s' }"

definition put_txns :: "address \<Rightarrow> account_transactions \<Rightarrow> 'h transaction_store \<Rightarrow> 'h transaction_store" where
  "put_txns a txns st = st\<lparr>transactions := (transactions st)(a \<mapsto> txns)\<rparr>"

definition drop_indexes ::
  "'h store_env \<Rightarrow> mempool_transaction \<Rightarrow> multi_timeline \<Rightarrow> parking_lot_index \<Rightarrow> 'h transaction_store \<Rightarrow> 'h transaction_store" where
  "drop_indexes env t lines lot st =
     st\<lparr>system_ttl_index := ttl_remove t (system_ttl_index st),
        expiration_time_index := ttl_remove t (expiration_time_index st),
        priority_index := prio_remove t (priority_index st),
        timeline_index := lines, parking_lot_index := lot,
        hash_index := (hash_index st)(get_committed_hash env t := None),
        size_bytes := size_bytes st - get_estimated_bytes env t\<rparr>"

definition index_remove :: "'h store_env \<Rightarrow> mempool_transaction \<Rightarrow> 'h transaction_store \<Rightarrow> 'h transaction_store option" where
  "index_remove env t st =
     do {
       lines \<leftarrow> multi_remove t (timeline_index st);
       lot \<leftarrow> lot_remove t (parking_lot_index st);
       let st1 = drop_indexes env t lines lot st;
       if size_bytes st < get_estimated_bytes env t then None
       else Some (if transactions st1 (get_sender t) = Some []
                  then st1\<lparr>transactions := (transactions st1)(get_sender t := None),
                           sequence_numbers := (sequence_numbers st1)(get_sender t := None)\<rparr>
                  else st1)
     }"

definition clean_committed_transactions ::
  "'h store_env \<Rightarrow> address \<Rightarrow> u64 \<Rightarrow> 'h transaction_store \<Rightarrow> 'h transaction_store option" where
  "clean_committed_transactions env a s st =
     (case transactions st a of
        None \<Rightarrow> Some st
      | Some txns \<Rightarrow>
          ofold (index_remove env) (map snd (bt_below s txns)) (put_txns a (filter (\<lambda>e. s \<le> fst e) txns) st))"

section \<open>Promoting and parking\<close>

text \<open>
  The loop over the transactions that continue the sequence: each enters the priority index, and a
  timeline unless it is in one or never to be broadcast, and leaves the parking lot. The loop ends at
  the first number that is missing.
\<close>

function promote :: "address \<Rightarrow> u64 \<Rightarrow> 'h transaction_store \<Rightarrow> (u64 \<times> 'h transaction_store) option" where
  "promote a s st =
     (case transactions st a of
        None \<Rightarrow> Some (s, st)
      | Some txns \<Rightarrow>
          (case bt_get txns s of
             None \<Rightarrow> Some (s, st)
           | Some t \<Rightarrow>
               do {
                 (t', lines) \<leftarrow> (if timeline_state t = NotReady then multi_insert t (timeline_index st)
                                 else Some (t, timeline_index st));
                 lot \<leftarrow> lot_remove t' (parking_lot_index st);
                 if s = - 1 then None
                 else promote a (s + 1)
                        (put_txns a (bt_insert s t' txns)
                          (st\<lparr>priority_index := prio_insert t (priority_index st), timeline_index := lines,
                              parking_lot_index := lot\<rparr>))
               }))"
  by pat_completeness auto
termination
proof (relation "measure (\<lambda>(a, s, st). unat (- 1 - s))")
  fix s :: u64
  assume "s \<noteq> - 1"
  then have "- 1 - s \<noteq> 0" by simp
  then have "unat (- 1 - s - 1) < unat (- 1 - s)" by (rule measure_unat)
  moreover have "- 1 - s - 1 = - 1 - (s + 1)" by simp
  ultimately have "unat (- 1 - (s + 1)) < unat (- 1 - s)" by (simp only:)
  then show "((a, s + 1, st'), a, s, st) \<in> measure (\<lambda>(a, s, st). unat (- 1 - s))" for a st st' by simp
qed simp

declare promote.simps [simp del]

definition park :: "mempool_transaction \<Rightarrow> 'h transaction_store \<Rightarrow> 'h transaction_store" where
  "park t st =
     (case timeline_state t of
        Ready _ \<Rightarrow> st
      | _ \<Rightarrow> st\<lparr>parking_lot_index := lot_insert t (parking_lot_index st)\<rparr>)"

definition process_ready_transactions ::
  "address \<Rightarrow> account_sequence_info \<Rightarrow> 'h transaction_store \<Rightarrow> 'h transaction_store option" where
  "process_ready_transactions a info st =
     do {
       (s, st1) \<leftarrow> promote a (min_seq info) st;
       Some (case transactions st1 a of
               None \<Rightarrow> st1
             | Some txns \<Rightarrow> fold park (map snd (filter (\<lambda>e. s < fst e) txns)) st1)
     }"

section \<open>Inserting\<close>

definition is_full :: "'h transaction_store \<Rightarrow> bool" where
  "is_full st \<longleftrightarrow> capacity st \<le> ttl_size (system_ttl_index st) \<or> capacity_bytes st \<le> size_bytes st"

text \<open>\<open>None\<close> is the branch that the source takes to be unreachable.\<close>

definition check_txn_ready :: "mempool_transaction \<Rightarrow> u64 \<Rightarrow> 'h transaction_store \<Rightarrow> bool option" where
  "check_txn_ready t cur_seq st =
     (if txn_seq t = cur_seq then Some True
      else if txn_seq t = 0 then None
      else Some (case get_mempool_txn st (get_sender t) (txn_seq t - 1) of
             None \<Rightarrow> False
           | Some prev \<Rightarrow> (case timeline_state prev of Ready _ \<Rightarrow> True | _ \<Rightarrow> False)))"

definition evict_parked :: "'h store_env \<Rightarrow> nat \<Rightarrow> 'h transaction_store \<Rightarrow> 'h transaction_store option" where
  "evict_parked env rng st =
     (case lot_get_poppable rng (parking_lot_index st) of
        None \<Rightarrow> Some st
      | Some (a, s) \<Rightarrow>
          (case transactions st a of
             None \<Rightarrow> Some st
           | Some txns \<Rightarrow> (case bt_get txns s of None \<Rightarrow> Some st | Some t \<Rightarrow> index_remove env t (put_txns a (bt_remove s txns) st))))"

definition check_is_full_after_eviction ::
  "'h store_env \<Rightarrow> nat \<Rightarrow> mempool_transaction \<Rightarrow> u64 \<Rightarrow> 'h transaction_store \<Rightarrow> (bool \<times> 'h transaction_store) option" where
  "check_is_full_after_eviction env rng t cur_seq st =
     do {
       st' \<leftarrow> (if is_full st then
                 do { ready \<leftarrow> check_txn_ready t cur_seq st; if ready then evict_parked env rng st else Some st }
               else Some st);
       Some (is_full st', st')
     }"

text \<open>The version of a transaction that is already stored: \<open>Inl\<close> ends the insertion with a status.\<close>

definition check_current_version ::
  "'h store_env \<Rightarrow> mempool_transaction \<Rightarrow> 'h transaction_store \<Rightarrow> (mempool_status_code + 'h transaction_store) option" where
  "check_current_version env t st =
     (case transactions st (get_sender t) of
        None \<Rightarrow> Some (Inr st)
      | Some txns \<Rightarrow>
          (case bt_get txns (txn_seq t) of
             None \<Rightarrow> Some (Inr st)
           | Some cur \<Rightarrow>
               if raw_payload (raw_txn (mt_txn cur)) \<noteq> raw_payload (raw_txn (mt_txn t)) then Some (Inl InvalidUpdate)
               else if expiration_timestamp_secs (mt_txn cur) \<noteq> expiration_timestamp_secs (mt_txn t) then Some (Inl InvalidUpdate)
               else if max_gas_amount (mt_txn cur) \<noteq> max_gas_amount (mt_txn t) then Some (Inl InvalidUpdate)
               else if gas_unit_price (mt_txn cur) < get_gas_price t then
                 map_option Inr (index_remove env cur (put_txns (get_sender t) (bt_remove (txn_seq t) txns) st))
               else if get_gas_price t < get_gas_price cur then Some (Inl InvalidUpdate)
               else Some (Inl Accepted)))"

text \<open>Entering a transaction: into the indexes of all transactions, and into its account.\<close>

definition enter_txn ::
  "'h store_env \<Rightarrow> account_transactions \<Rightarrow> mempool_transaction \<Rightarrow> 'h transaction_store \<Rightarrow> 'h transaction_store" where
  "enter_txn env txns t st =
     put_txns (get_sender t) (bt_insert (txn_seq t) t txns)
       (st\<lparr>system_ttl_index := ttl_insert t (system_ttl_index st),
           expiration_time_index := ttl_insert t (expiration_time_index st),
           hash_index := (hash_index st)(get_committed_hash env t \<mapsto> txn_pointer t),
           sequence_numbers := (sequence_numbers st)(get_sender t \<mapsto> min_seq (account_sequence_number_type (sequence_info t))),
           size_bytes := size_bytes st + get_estimated_bytes env t\<rparr>)"

definition store_insert ::
  "'h store_env \<Rightarrow> nat \<Rightarrow> mempool_transaction \<Rightarrow> 'h transaction_store \<Rightarrow> (mempool_status_code \<times> 'h transaction_store) option" where
  "store_insert env rng t st =
     do {
       current \<leftarrow> check_current_version env t st;
       case current of
         Inl code \<Rightarrow> Some (code, st)
       | Inr st1 \<Rightarrow>
           do {
             let info = account_sequence_number_type (sequence_info t);
             (full, st2) \<leftarrow> check_is_full_after_eviction env rng t (min_seq info) st1;
             if full then Some (MempoolIsFull, st2)
             else do {
               st3 \<leftarrow> clean_committed_transactions env (get_sender t) (min_seq info) st2;
               let txns = (case transactions st3 (get_sender t) of Some txns \<Rightarrow> txns | None \<Rightarrow> []);
               if capacity_per_user st3 \<le> length txns then Some (TooManyTransactions, put_txns (get_sender t) txns st3)
               else do {
                 st4 \<leftarrow> process_ready_transactions (get_sender t) info (enter_txn env txns t st3);
                 Some (Accepted, st4)
               }
             }
           }
     }"

section \<open>Committing, rejecting and collecting\<close>

definition store_commit :: "'h store_env \<Rightarrow> address \<Rightarrow> u64 \<Rightarrow> 'h transaction_store \<Rightarrow> 'h transaction_store option" where
  "store_commit env a s st =
     do {
       let current = (case get_sequence_number st a of Some v \<Rightarrow> v | None \<Rightarrow> 0);
       next \<leftarrow> add_chk s 1;
       let new_seq = max current next;
       st1 \<leftarrow> clean_committed_transactions env a new_seq (st\<lparr>sequence_numbers := (sequence_numbers st)(a \<mapsto> new_seq)\<rparr>);
       process_ready_transactions a (Sequential new_seq) st1
     }"

definition store_reject :: "'h store_env \<Rightarrow> address \<Rightarrow> u64 \<Rightarrow> 'h \<Rightarrow> 'h transaction_store \<Rightarrow> 'h transaction_store option" where
  "store_reject env a s h st =
     (if hash_index st h = Some (a, s) then
        (case transactions st a of
           None \<Rightarrow> Some st
         | Some txns \<Rightarrow> (case bt_get txns s of None \<Rightarrow> Some st | Some t \<Rightarrow> index_remove env t (put_txns a (bt_remove s txns) st)))
      else Some st)"

text \<open>Parking the transactions behind an expired one.\<close>

definition gc_park :: "address \<Rightarrow> u64 \<Rightarrow> 'h transaction_store \<Rightarrow> 'h transaction_store option" where
  "gc_park a s st =
     (case transactions st a of
        None \<Rightarrow> Some st
      | Some txns \<Rightarrow>
          (case bt_get txns s of
             None \<Rightarrow> Some st
           | Some t \<Rightarrow>
               do {
                 lines \<leftarrow> multi_remove t (timeline_index st);
                 let t' = (case timeline_state t of Ready _ \<Rightarrow> t\<lparr>timeline_state := NotReady\<rparr> | _ \<Rightarrow> t);
                 Some (put_txns a (bt_insert s t' txns)
                   (st\<lparr>parking_lot_index := lot_insert t (parking_lot_index st),
                       priority_index := prio_remove t (priority_index st), timeline_index := lines\<rparr>))
               }))"

text \<open>
  The range from one expired transaction of an account to the next: \<open>range_mut\<close> panics when its bounds,
  both excluded, do not leave room.
\<close>

definition gc_range :: "u64 \<Rightarrow> u64 option \<Rightarrow> account_transactions \<Rightarrow> u64 list option" where
  "gc_range s up_to txns =
     (case up_to of
        None \<Rightarrow> Some (map fst (filter (\<lambda>e. s < fst e) txns))
      | Some s' \<Rightarrow> if s < s' then Some (map fst (filter (\<lambda>e. s < fst e \<and> fst e < s') txns)) else None)"

definition gc_key :: "'h store_env \<Rightarrow> ttl_ordering_key \<Rightarrow> ttl_ordering_key option \<Rightarrow> 'h transaction_store \<Rightarrow> 'h transaction_store option" where
  "gc_key env key next_key st =
     (let (_, a, s) = key
      in case transactions st a of
           None \<Rightarrow> Some st
         | Some txns \<Rightarrow>
             do {
               following \<leftarrow> gc_range s (case next_key of Some (_, a', s') \<Rightarrow> if a = a' then Some s' else None | None \<Rightarrow> None) txns;
               st1 \<leftarrow> ofold (gc_park a) following st;
               case transactions st1 a of
                 None \<Rightarrow> Some st1
               | Some txns1 \<Rightarrow>
                   (case bt_get txns1 s of None \<Rightarrow> Some st1 | Some t \<Rightarrow> index_remove env t (put_txns a (bt_remove s txns1) st1))
             })"

fun gc_keys :: "'h store_env \<Rightarrow> ttl_ordering_key list \<Rightarrow> 'h transaction_store \<Rightarrow> 'h transaction_store option" where
  "gc_keys env [] st = Some st"
| "gc_keys env (k # ks) st =
     do { st' \<leftarrow> gc_key env k (case ks of [] \<Rightarrow> None | k' # _ \<Rightarrow> Some k') st; gc_keys env ks st' }"

definition store_gc :: "'h store_env \<Rightarrow> duration \<Rightarrow> bool \<Rightarrow> 'h transaction_store \<Rightarrow> 'h transaction_store option" where
  "store_gc env now by_system_ttl st =
     (let (keys, idx) = ttl_gc now (if by_system_ttl then system_ttl_index st else expiration_time_index st);
          st1 = (if by_system_ttl then st\<lparr>system_ttl_index := idx\<rparr> else st\<lparr>expiration_time_index := idx\<rparr>)
      in gc_keys env (sort_key snd keys) st1)"

section \<open>Reading the timelines\<close>

text \<open>The transactions of one bucket until the batch is full, with the last number that was read.\<close>

fun read_bucket ::
  "'h store_env \<Rightarrow> 'h transaction_store \<Rightarrow> txn_pointer list \<Rightarrow> signed_transaction list \<times> nat \<times> u64
    \<Rightarrow> signed_transaction list \<times> nat \<times> u64" where
  "read_bucket env st [] (batch, total_bytes, last_id) = (batch, total_bytes, last_id)"
| "read_bucket env st ((a, s) # ps) (batch, total_bytes, last_id) =
     (case get_mempool_txn st a s of
        None \<Rightarrow> read_bucket env st ps (batch, total_bytes, last_id)
      | Some t \<Rightarrow>
          let total_bytes' = min (total_bytes + raw_txn_bytes_len (serialized_size env) (mt_txn t)) (2 ^ 64 - 1)
          in if unat (max_batch_bytes st) < total_bytes' then (batch, total_bytes, last_id)
             else read_bucket env st ps
                    (batch @ [mt_txn t], total_bytes', case timeline_state t of Ready k \<Rightarrow> k | _ \<Rightarrow> last_id))"

fun read_batch ::
  "'h store_env \<Rightarrow> 'h transaction_store \<Rightarrow> (txn_pointer list \<times> u64) list \<Rightarrow> signed_transaction list \<Rightarrow> nat
    \<Rightarrow> signed_transaction list \<times> u64 list" where
  "read_batch env st [] batch total_bytes = (batch, [])"
| "read_batch env st ((bucket, last_id) # rest) batch total_bytes =
     (let (batch', total_bytes', id') = read_bucket env st bucket (batch, total_bytes, last_id);
          (all, ids) = read_batch env st rest batch' total_bytes'
      in (all, id' # ids))"

text \<open>The buckets are taken from the highest down; the answer lists the numbers in the order of the buckets.\<close>

definition store_read_timeline ::
  "'h store_env \<Rightarrow> u64 list \<Rightarrow> nat \<Rightarrow> 'h transaction_store \<Rightarrow> (signed_transaction list \<times> u64 list) option" where
  "store_read_timeline env ids cnt st =
     do {
       buckets \<leftarrow> multi_read ids cnt (timeline_index st);
       let (batch, ids') = read_batch env st (rev (zip buckets ids)) [] 0;
       Some (batch, rev ids')
     }"

definition store_timeline_range :: "(u64 \<times> u64) list \<Rightarrow> 'h transaction_store \<Rightarrow> signed_transaction list option" where
  "store_timeline_range pairs st =
     map_option (\<lambda>ps. List.map_filter (\<lambda>(a, s). store_get st a s) ps) (multi_range pairs (timeline_index st))"

end
