(* ===== verification/StoreInvariant.thy ===== *)
theory StoreInvariant
  imports TransactionStore
begin

text \<open>
  The invariant of the transaction store: every index agrees with the stored transactions, every
  stored transaction is in the priority index or in the parking lot, and no operation panics. The
  invariant is stated for a map of stored transactions, so that it also describes the states inside
  an operation, where a transaction has left its account but not yet the indexes, or the reverse.
\<close>

section \<open>The invariant\<close>

definition stored :: "'h transaction_store \<Rightarrow> txn_pointer \<rightharpoonup> mempool_transaction" where
  "stored st p = get_mempool_txn st (fst p) (snd p)"

text \<open>
  The indexes of a map of transactions. \<open>Gs\<close> and \<open>Gc\<close> are keys that a collection has already taken out
  of the two indexes by expiration.
\<close>

definition base_ok ::
  "'h store_env \<Rightarrow> (txn_pointer \<rightharpoonup> mempool_transaction) \<Rightarrow> ttl_ordering_key set \<Rightarrow> ttl_ordering_key set
    \<Rightarrow> 'h transaction_store \<Rightarrow> bool" where
  "base_ok env M Gs Gc st \<longleftrightarrow> pointers_ok M \<and> finite (dom M)
     \<and> ttl_ok expiration_time (system_ttl_index st)
     \<and> ttl_keys (system_ttl_index st) = ttl_make_key expiration_time ` ran M - Gs
     \<and> ttl_ok client_expiration (expiration_time_index st)
     \<and> ttl_keys (expiration_time_index st) = ttl_make_key client_expiration ` ran M - Gc
     \<and> prio_ok (priority_index st) \<and> bs_keys (priority_index st) \<subseteq> prio_key ` ran M
     \<and> lot_ok (parking_lot_index st) \<and> parked (parking_lot_index st) \<subseteq> txn_pointer ` ran M
     \<and> (\<forall>h p. hash_index st h = Some p \<longleftrightarrow> (\<exists>t. M p = Some t \<and> get_committed_hash env t = h))
     \<and> size_bytes st = (\<Sum>p \<in> dom M. get_estimated_bytes env (the (M p)))"

text \<open>Nothing is lost: transactions outside \<open>X\<close> are in the priority index or parked, ready ones in the former.\<close>

definition cover_ok :: "(txn_pointer \<rightharpoonup> mempool_transaction) \<Rightarrow> txn_pointer set \<Rightarrow> 'h transaction_store \<Rightarrow> bool" where
  "cover_ok M X st \<longleftrightarrow>
     (\<forall>p t. M p = Some t \<longrightarrow>
        (p \<notin> X \<longrightarrow> prio_contains t (priority_index st) \<or> p \<in> parked (parking_lot_index st))
        \<and> (\<forall>k. timeline_state t = Ready k \<longrightarrow> prio_contains t (priority_index st)))"

definition indexes_ok ::
  "'h store_env \<Rightarrow> (txn_pointer \<rightharpoonup> mempool_transaction) \<Rightarrow> ttl_ordering_key set \<Rightarrow> ttl_ordering_key set
    \<Rightarrow> txn_pointer set \<Rightarrow> 'h transaction_store \<Rightarrow> bool" where
  "indexes_ok env M Gs Gc X st \<longleftrightarrow> base_ok env M Gs Gc st \<and> timeline_ok M (timeline_index st) \<and> cover_ok M X st"

text \<open>The accounts: never empty, and from their sequence number on.\<close>

definition account_ok :: "'h transaction_store \<Rightarrow> address \<Rightarrow> bool" where
  "account_ok st a \<longleftrightarrow>
     (\<forall>txns. transactions st a = Some txns \<longrightarrow> bt_wf txns \<and> txns \<noteq> []
        \<and> (\<exists>n. sequence_numbers st a = Some n \<and> (\<forall>s \<in> bs_keys txns. n \<le> s \<and> s \<noteq> - 1)))"

definition store_inv ::
  "'h store_env \<Rightarrow> ttl_ordering_key set \<Rightarrow> ttl_ordering_key set \<Rightarrow> txn_pointer set \<Rightarrow> 'h transaction_store \<Rightarrow> bool" where
  "store_inv env Gs Gc X st \<longleftrightarrow> indexes_ok env (stored st) Gs Gc X st \<and> (\<forall>a. account_ok st a)"

abbreviation store_ok :: "'h store_env \<Rightarrow> 'h transaction_store \<Rightarrow> bool" where
  "store_ok env st \<equiv> store_inv env {} {} {} st"

text \<open>What no operation but the constructor sets.\<close>

definition same_config :: "'h transaction_store \<Rightarrow> 'h transaction_store \<Rightarrow> bool" where
  "same_config st st' \<longleftrightarrow> capacity st' = capacity st \<and> capacity_bytes st' = capacity_bytes st
     \<and> capacity_per_user st' = capacity_per_user st \<and> max_batch_bytes st' = max_batch_bytes st"

lemma same_config_refl [simp]: "same_config st st"
  by (simp add: same_config_def)

lemma same_config_trans: "same_config st st' \<Longrightarrow> same_config st' st'' \<Longrightarrow> same_config st st''"
  by (simp add: same_config_def)

text \<open>Room for \<open>n\<close> more numbers in every timeline.\<close>

definition room :: "nat \<Rightarrow> 'h transaction_store \<Rightarrow> bool" where
  "room n st \<longleftrightarrow> (\<forall>line \<in> set (timelines (timeline_index st)). unat (timeline_id line) + n < 2 ^ 64)"

lemma stored_put [simp]:
  "stored (put_txns a txns st) p = (if fst p = a then bt_get txns (snd p) else stored st p)"
  by (simp add: stored_def get_mempool_txn_def put_txns_def)

lemma put_txns_fields [simp]:
  "transactions (put_txns a txns st) = (transactions st)(a \<mapsto> txns)"
  "sequence_numbers (put_txns a txns st) = sequence_numbers st"
  "priority_index (put_txns a txns st) = priority_index st" "parking_lot_index (put_txns a txns st) = parking_lot_index st"
  "system_ttl_index (put_txns a txns st) = system_ttl_index st"
  "expiration_time_index (put_txns a txns st) = expiration_time_index st"
  "timeline_index (put_txns a txns st) = timeline_index st" "hash_index (put_txns a txns st) = hash_index st"
  "size_bytes (put_txns a txns st) = size_bytes st" "capacity_per_user (put_txns a txns st) = capacity_per_user st"
  by (simp_all add: put_txns_def)

lemma indexes_ok_put [simp]: "indexes_ok env M Gs Gc X (put_txns a txns st) = indexes_ok env M Gs Gc X st"
  by (simp add: indexes_ok_def base_ok_def cover_ok_def)

lemma indexes_ok_seq [simp]: "indexes_ok env M Gs Gc X (sequence_numbers_update f st) = indexes_ok env M Gs Gc X st"
  by (simp add: indexes_ok_def base_ok_def cover_ok_def)

lemma indexes_ok_txns [simp]: "indexes_ok env M Gs Gc X (transactions_update f st) = indexes_ok env M Gs Gc X st"
  by (simp add: indexes_ok_def base_ok_def cover_ok_def)

lemma base_okD:
  assumes "base_ok env M Gs Gc st"
  shows "pointers_ok M" "finite (dom M)"
    and "ttl_ok expiration_time (system_ttl_index st)"
    and "ttl_keys (system_ttl_index st) = ttl_make_key expiration_time ` ran M - Gs"
    and "ttl_ok client_expiration (expiration_time_index st)"
    and "ttl_keys (expiration_time_index st) = ttl_make_key client_expiration ` ran M - Gc"
    and "prio_ok (priority_index st)" "bs_keys (priority_index st) \<subseteq> prio_key ` ran M"
    and "lot_ok (parking_lot_index st)" "parked (parking_lot_index st) \<subseteq> txn_pointer ` ran M"
    and "hash_index st h = Some p \<longleftrightarrow> (\<exists>t. M p = Some t \<and> get_committed_hash env t = h)"
    and "size_bytes st = (\<Sum>p \<in> dom M. get_estimated_bytes env (the (M p)))"
  using assms unfolding base_ok_def by blast+

lemma cover_okD:
  assumes "cover_ok M X st" "M p = Some t"
  shows "p \<notin> X \<Longrightarrow> prio_contains t (priority_index st) \<or> p \<in> parked (parking_lot_index st)"
    and "timeline_state t = Ready k \<Longrightarrow> prio_contains t (priority_index st)"
  using assms unfolding cover_ok_def by blast+

section \<open>Removing one transaction\<close>

lemma sum_new:
  fixes f :: "'a \<Rightarrow> nat"
  assumes "finite (dom M)" "M p = None"
  shows "(\<Sum>q \<in> dom (M(p \<mapsto> t)). f (the ((M(p \<mapsto> t)) q))) = f t + (\<Sum>q \<in> dom M. f (the (M q)))"
proof -
  have "(\<Sum>q \<in> dom M. f (the ((M(p \<mapsto> t)) q))) = (\<Sum>q \<in> dom M. f (the (M q)))"
    by (rule sum.cong) (use assms(2) in auto)
  then show ?thesis using assms by (simp add: domIff)
qed

lemma drop_indexes_fields [simp]:
  "system_ttl_index (drop_indexes env t lines lot st) = ttl_remove t (system_ttl_index st)"
  "expiration_time_index (drop_indexes env t lines lot st) = ttl_remove t (expiration_time_index st)"
  "priority_index (drop_indexes env t lines lot st) = prio_remove t (priority_index st)"
  "timeline_index (drop_indexes env t lines lot st) = lines" "parking_lot_index (drop_indexes env t lines lot st) = lot"
  "hash_index (drop_indexes env t lines lot st) = (hash_index st)(get_committed_hash env t := None)"
  "size_bytes (drop_indexes env t lines lot st) = size_bytes st - get_estimated_bytes env t"
  "transactions (drop_indexes env t lines lot st) = transactions st"
  "sequence_numbers (drop_indexes env t lines lot st) = sequence_numbers st"
  "same_config st (drop_indexes env t lines lot st)"
  by (simp_all add: drop_indexes_def same_config_def)

lemma drop_indexes_base:
  assumes base: "base_ok env (M(txn_pointer t \<mapsto> t)) Gs Gc st" and new: "M (txn_pointer t) = None"
    and lot: "lot_remove t (parking_lot_index st) = Some lot"
  shows "base_ok env M Gs Gc (drop_indexes env t lines lot st)"
  unfolding base_ok_def drop_indexes_fields
proof (intro conjI allI)
  let ?M = "M(txn_pointer t \<mapsto> t)" and ?p = "txn_pointer t"
  note b = base_okD [OF base]
  show "pointers_ok M" using b(1) new unfolding pointers_ok_def by (metis fun_upd_apply option.distinct(1))
  show "finite (dom M)" using b(2) by simp
  note sys = sys_ttl.exact_rem [OF b(3,4) new b(1) refl]
  show "ttl_ok expiration_time (ttl_remove t (system_ttl_index st))" by (rule conjunct1 [OF sys])
  show "ttl_keys (ttl_remove t (system_ttl_index st)) = ttl_make_key expiration_time ` ran M - Gs" by (rule conjunct2 [OF sys])
  note cli = client_ttl.exact_rem [OF b(5,6) new b(1) refl]
  show "ttl_ok client_expiration (ttl_remove t (expiration_time_index st))" by (rule conjunct1 [OF cli])
  show "ttl_keys (ttl_remove t (expiration_time_index st)) = ttl_make_key client_expiration ` ran M - Gc" by (rule conjunct2 [OF cli])
  note pr = prio.within_rem [OF b(7,8) new b(1) refl]
  show "prio_ok (prio_remove t (priority_index st))" by (rule conjunct1 [OF pr])
  show "bs_keys (prio_remove t (priority_index st)) \<subseteq> prio_key ` ran M" by (rule conjunct2 [OF pr])
  note lo = lot.within_rem [OF b(9,10) new b(1) lot]
  show "lot_ok lot" by (rule conjunct1 [OF lo])
  show "parked lot \<subseteq> txn_pointer ` ran M" by (rule conjunct2 [OF lo])
  show "size_bytes st - get_estimated_bytes env t = (\<Sum>p \<in> dom M. get_estimated_bytes env (the (M p)))"
    using b(12) sum_new [of M ?p "get_estimated_bytes env" t] b(2) new by simp
  show "((hash_index st)(get_committed_hash env t := None)) h = Some p \<longleftrightarrow> (\<exists>u. M p = Some u \<and> get_committed_hash env u = h)" for h p
  proof (cases "h = get_committed_hash env t")
    case True
    have "hash_index st h = Some ?p" unfolding b(11) using True by simp
    then have "p = ?p" if "M p = Some u" "get_committed_hash env u = h" for u
      using b(11) [of h p] that new by (metis fun_upd_apply option.inject)
    with True new show ?thesis by auto
  next
    case False
    then have "((hash_index st)(get_committed_hash env t := None)) h = Some p \<longleftrightarrow> (\<exists>u. ?M p = Some u \<and> get_committed_hash env u = h)"
      using b(11) by simp
    with False new show ?thesis by auto
  qed
qed

lemma drop_indexes_cover:
  assumes base: "base_ok env (M(txn_pointer t \<mapsto> t)) Gs Gc st" and new: "M (txn_pointer t) = None"
    and lot: "lot_remove t (parking_lot_index st) = Some lot" and cov: "cover_ok (M(txn_pointer t \<mapsto> t)) X st"
  shows "cover_ok M X (drop_indexes env t lines lot st)"
  unfolding cover_ok_def drop_indexes_fields
proof (intro allI impI)
  note b = base_okD [OF base]
  fix p u assume u: "M p = Some u"
  then have p: "p \<noteq> txn_pointer t" using new by auto
  have "prio_contains u (prio_remove t (priority_index st)) \<longleftrightarrow> prio_contains u (priority_index st)"
    using prio.other_key [OF b(1) new u] by (simp add: prio_contains_iff prio_remove_def)
  moreover have "parked lot = parked (parking_lot_index st) - {txn_pointer t}"
    using lot.rem_eq [OF lot b(9) pointers_ok_new [OF b(1)]] by blast
  moreover have "(M(txn_pointer t \<mapsto> t)) p = Some u" using u p by simp
  ultimately show "(p \<notin> X \<longrightarrow> prio_contains u (prio_remove t (priority_index st)) \<or> p \<in> parked lot)
      \<and> (\<forall>k. timeline_state u = Ready k \<longrightarrow> prio_contains u (prio_remove t (priority_index st)))"
    using cover_okD [OF cov, of p u] p by auto
qed

lemma index_remove_ok:
  assumes ok: "indexes_ok env (M(txn_pointer t \<mapsto> t)) Gs Gc X st" and new: "M (txn_pointer t) = None"
  shows "\<exists>st'. index_remove env t st = Some st' \<and> indexes_ok env M Gs Gc X st' \<and> same_config st st'
    \<and> map timeline_id (timelines (timeline_index st')) = map timeline_id (timelines (timeline_index st))
    \<and> transactions st' = (if transactions st (get_sender t) = Some [] then (transactions st)(get_sender t := None) else transactions st)
    \<and> sequence_numbers st' = (if transactions st (get_sender t) = Some [] then (sequence_numbers st)(get_sender t := None) else sequence_numbers st)"
proof -
  have base: "base_ok env (M(txn_pointer t \<mapsto> t)) Gs Gc st" and tl: "timeline_ok (M(txn_pointer t \<mapsto> t)) (timeline_index st)"
      and cov: "cover_ok (M(txn_pointer t \<mapsto> t)) X st"
    using ok by (simp_all add: indexes_ok_def)
  note b = base_okD [OF base]
  obtain lines where lines: "multi_remove t (timeline_index st) = Some lines" "timeline_ok M lines"
      "map timeline_id (timelines lines) = map timeline_id (timelines (timeline_index st))"
    using multi_remove_ok [OF tl new] by blast
  obtain lot where lot: "lot_remove t (parking_lot_index st) = Some lot"
    using lot.rem [OF b(9) pointers_ok_new [OF b(1)]] by blast
  let ?st = "drop_indexes env t lines lot st"
  have "indexes_ok env M Gs Gc X ?st"
    using drop_indexes_base [OF base new lot] drop_indexes_cover [OF base new lot cov] lines(2) by (simp add: indexes_ok_def)
  moreover have "get_estimated_bytes env t \<le> size_bytes st"
    using b(2,12) sum_new [of M "txn_pointer t" "get_estimated_bytes env" t] new by simp
  ultimately show ?thesis
    using lines lot by (simp add: index_remove_def Let_def) (simp add: same_config_def drop_indexes_def)
qed

text \<open>Both ways in which an operation reads the result of a removal.\<close>

definition removed_from :: "address \<Rightarrow> account_transactions \<Rightarrow> 'h transaction_store \<Rightarrow> 'h transaction_store \<Rightarrow> bool" where
  "removed_from a txns st st' \<longleftrightarrow>
     transactions st' = (transactions st)(a := if txns = [] then None else Some txns)
     \<and> sequence_numbers st' = (if txns = [] then (sequence_numbers st)(a := None) else sequence_numbers st)"

lemma removed_from_stored:
  "removed_from a txns st st' \<Longrightarrow> stored st' p = (if fst p = a then bt_get txns (snd p) else stored st p)"
  by (auto simp: removed_from_def stored_def get_mempool_txn_def)

lemma removed_from_accounts:
  assumes "removed_from a txns st st'" "\<And>b. account_ok st b" "transactions st a = Some old" "bt_wf txns" "bs_keys txns \<subseteq> bs_keys old"
  shows "account_ok st' b"
proof (cases "b = a")
  case True
  obtain n where n: "sequence_numbers st a = Some n" "\<forall>s \<in> bs_keys old. n \<le> s \<and> s \<noteq> - 1"
    using assms(2) [of a] assms(3) by (auto simp: account_ok_def)
  then have "\<forall>s \<in> bs_keys txns. n \<le> s \<and> s \<noteq> - 1" using assms(5) by (meson subsetD)
  with True n(1) show ?thesis using assms(1,4) by (simp add: removed_from_def account_ok_def)
next
  case False
  then show ?thesis using assms(1) assms(2) [of b] by (auto simp: removed_from_def account_ok_def)
qed

lemma stored_pointer:
  assumes "indexes_ok env (stored st) Gs Gc X st" "transactions st a = Some txns" "bt_get txns s = Some t"
  shows "txn_pointer t = (a, s)" "get_sender t = a" "txn_seq t = s" "txn_wf t"
proof -
  have "stored st (a, s) = Some t" using assms(2,3) by (simp add: stored_def get_mempool_txn_def)
  moreover have "pointers_ok (stored st)" using assms(1) by (simp add: indexes_ok_def base_ok_def)
  ultimately show "txn_pointer t = (a, s)" "txn_wf t" using pointers_okD by blast+
  then show "get_sender t = a" "txn_seq t = s" by (simp_all add: txn_pointer_def)
qed

lemma remove_stored:
  assumes inv: "store_inv env Gs Gc X st" and txns: "transactions st a = Some txns" and t: "bt_get txns s = Some t"
  shows "\<exists>st'. index_remove env t (put_txns a (bt_remove s txns) st) = Some st' \<and> store_inv env Gs Gc X st'
    \<and> stored st' = (stored st)((a, s) := None) \<and> same_config st st'
    \<and> map timeline_id (timelines (timeline_index st')) = map timeline_id (timelines (timeline_index st))"
proof -
  let ?st = "put_txns a (bt_remove s txns) st" and ?M = "(stored st)((a, s) := None)"
  have ok: "indexes_ok env (stored st) Gs Gc X st" and acc: "\<And>b. account_ok st b" using inv by (simp_all add: store_inv_def)
  note p = stored_pointer [OF ok txns t]
  have "stored st (a, s) = Some t" using txns t by (simp add: stored_def get_mempool_txn_def)
  then have "?M(txn_pointer t \<mapsto> t) = stored st" using p(1) by (simp add: fun_eq_iff)
  with ok have "indexes_ok env (?M(txn_pointer t \<mapsto> t)) Gs Gc X ?st" by simp
  from index_remove_ok [OF this] p(1,2) obtain st' where st': "index_remove env t ?st = Some st'"
      "indexes_ok env ?M Gs Gc X st'" "same_config ?st st'"
      "map timeline_id (timelines (timeline_index st')) = map timeline_id (timelines (timeline_index st))"
      "removed_from a (bt_remove s txns) st st'"
    by (auto simp: removed_from_def split: if_splits)
  have wf: "bt_wf txns" using acc [of a] txns by (simp add: account_ok_def)
  have eq: "stored st' = ?M"
    using removed_from_stored [OF st'(5)] txns by (auto simp: fun_eq_iff stored_def get_mempool_txn_def)
  have "account_ok st' b" for b by (rule removed_from_accounts [OF st'(5) acc txns]) (use wf in auto)
  with st'(2) eq have "store_inv env Gs Gc X st'" by (simp add: store_inv_def)
  moreover have "same_config st st'" using st'(3) by (simp add: same_config_def put_txns_def)
  ultimately show ?thesis using st'(1,4) eq by blast
qed

text \<open>Removing several transactions of one account that has been emptied of them.\<close>

lemma index_remove_all:
  assumes "indexes_ok env (M ++ map_of (map (\<lambda>t. (txn_pointer t, t)) ts)) Gs Gc X st"
    "distinct (map txn_pointer ts)" "\<forall>t \<in> set ts. M (txn_pointer t) = None \<and> get_sender t = a"
  shows "\<exists>st'. ofold (index_remove env) ts st = Some st' \<and> indexes_ok env M Gs Gc X st' \<and> same_config st st'
    \<and> map timeline_id (timelines (timeline_index st')) = map timeline_id (timelines (timeline_index st))
    \<and> transactions st' = (if ts \<noteq> [] \<and> transactions st a = Some [] then (transactions st)(a := None) else transactions st)
    \<and> sequence_numbers st' = (if ts \<noteq> [] \<and> transactions st a = Some [] then (sequence_numbers st)(a := None) else sequence_numbers st)"
  using assms
proof (induction ts arbitrary: st)
  case Nil
  then show ?case by simp
next
  case (Cons t ts)
  let ?N = "M ++ map_of (map (\<lambda>t. (txn_pointer t, t)) ts)"
  have none: "?N (txn_pointer t) = None" using Cons.prems(2,3) by (auto simp: map_add_def map_of_eq_None_iff split: option.split)
  have eq: "M ++ map_of (map (\<lambda>t. (txn_pointer t, t)) (t # ts)) = ?N(txn_pointer t \<mapsto> t)"
    by (simp add: map_add_def fun_eq_iff)
  obtain st1 where st1: "index_remove env t st = Some st1" "indexes_ok env ?N Gs Gc X st1" "same_config st st1"
      "map timeline_id (timelines (timeline_index st1)) = map timeline_id (timelines (timeline_index st))"
      "transactions st1 = (if transactions st a = Some [] then (transactions st)(a := None) else transactions st)"
      "sequence_numbers st1 = (if transactions st a = Some [] then (sequence_numbers st)(a := None) else sequence_numbers st)"
    using index_remove_ok [OF Cons.prems(1) [unfolded eq] none] Cons.prems(3) by auto
  obtain st' where st': "ofold (index_remove env) ts st1 = Some st'" "indexes_ok env M Gs Gc X st'" "same_config st1 st'"
      "map timeline_id (timelines (timeline_index st')) = map timeline_id (timelines (timeline_index st1))"
      "transactions st' = (if ts \<noteq> [] \<and> transactions st1 a = Some [] then (transactions st1)(a := None) else transactions st1)"
      "sequence_numbers st' = (if ts \<noteq> [] \<and> transactions st1 a = Some [] then (sequence_numbers st1)(a := None) else sequence_numbers st1)"
    using Cons.IH [OF st1(2)] Cons.prems(2,3) by auto
  have "transactions st1 a \<noteq> Some []" using st1(5) by auto
  with st1 st' show ?case by (auto intro: same_config_trans)
qed

section \<open>Cleaning an account\<close>

lemma bt_get_filter: "bt_get (filter (\<lambda>e. P (fst e)) m) k = (if P k then bt_get m k else None)"
  by (induction m) (auto simp: bt_get_def)

lemma bs_keys_filter: "bs_keys (filter (\<lambda>e. P (fst e)) m) = {k \<in> bs_keys m. P k}"
  by auto

text \<open>The part of a map that belongs to some transactions of one account.\<close>

lemma map_of_account:
  assumes "\<And>s t. (s, t) \<in> set m \<Longrightarrow> txn_pointer t = (a, s)"
  shows "map_of (map (\<lambda>t. (txn_pointer t, t)) (map snd m)) p = (if fst p = a then bt_get m (snd p) else None)"
  using assms
proof (induction m)
  case (Cons e m)
  obtain s t where e: "e = (s, t)" by (cases e)
  have "map_of (map (\<lambda>t. (txn_pointer t, t)) (map snd m)) p = (if fst p = a then bt_get m (snd p) else None)"
    using Cons by simp
  moreover have "txn_pointer t = (a, s)" using Cons.prems e by simp
  ultimately show ?case unfolding e by (cases p) (auto simp: bt_get_def)
qed (simp add: bt_get_def)

text \<open>An account from number \<open>s\<close> on; below it anything may be stored.\<close>

definition account_from :: "u64 \<Rightarrow> 'h transaction_store \<Rightarrow> address \<Rightarrow> bool" where
  "account_from s st a \<longleftrightarrow>
     (\<forall>txns. transactions st a = Some txns \<longrightarrow> bt_wf txns \<and> txns \<noteq> []
        \<and> (\<exists>n. sequence_numbers st a = Some n \<and> (\<forall>k \<in> bs_keys txns. k \<noteq> - 1 \<and> (s \<le> k \<longrightarrow> n \<le> k))))"

lemma clean_committed_ok:
  assumes ok: "indexes_ok env (stored st) Gs Gc X st" and acc: "\<And>b. b \<noteq> a \<Longrightarrow> account_ok st b" and a: "account_from s st a"
  shows "\<exists>st'. clean_committed_transactions env a s st = Some st' \<and> store_inv env Gs Gc X st'
    \<and> stored st' = (\<lambda>p. if fst p = a \<and> snd p < s then None else stored st p) \<and> same_config st st'
    \<and> map timeline_id (timelines (timeline_index st')) = map timeline_id (timelines (timeline_index st))"
proof (cases "transactions st a")
  case None
  then have "\<forall>b. account_ok st b" using acc by (metis account_ok_def option.distinct(1))
  moreover have "stored st = (\<lambda>p. if fst p = a \<and> snd p < s then None else stored st p)"
    using None by (auto simp: fun_eq_iff stored_def get_mempool_txn_def)
  ultimately show ?thesis using None ok by (simp add: clean_committed_transactions_def store_inv_def)
next
  case (Some txns)
  let ?kept = "filter (\<lambda>e. s \<le> fst e) txns" and ?gone = "map snd (bt_below s txns)"
  let ?st = "put_txns a ?kept st"
  obtain n where n: "bt_wf txns" "txns \<noteq> []" "sequence_numbers st a = Some n" "\<forall>k \<in> bs_keys txns. k \<noteq> - 1 \<and> (s \<le> k \<longrightarrow> n \<le> k)"
    using a Some unfolding account_from_def by blast
  have ptr: "txn_pointer t = (a, k)" if "(k, t) \<in> set txns" for k t
    using stored_pointer(1) [OF ok Some bt_mem_get [OF n(1) that]] .
  have gone: "(k, t) \<in> set (bt_below s txns) \<Longrightarrow> txn_pointer t = (a, k)" for k t using ptr by (simp add: bt_below_def)
  have eqv: "stored st = stored ?st ++ map_of (map (\<lambda>t. (txn_pointer t, t)) ?gone)"
  proof (rule ext)
    fix p
    have "(stored ?st ++ map_of (map (\<lambda>t. (txn_pointer t, t)) ?gone)) p =
        (case if fst p = a then bt_get (bt_below s txns) (snd p) else None of None \<Rightarrow> stored ?st p | Some t \<Rightarrow> Some t)"
      unfolding map_add_def by (subst map_of_account [OF gone]) simp_all
    also have "\<dots> = stored st p"
      using Some n(1) by (auto simp: bt_get_filter bt_get_below stored_def get_mempool_txn_def not_less split: option.split)
    finally show "stored st p = (stored ?st ++ map_of (map (\<lambda>t. (txn_pointer t, t)) ?gone)) p" by simp
  qed
  have g1: "indexes_ok env (stored ?st ++ map_of (map (\<lambda>t. (txn_pointer t, t)) ?gone)) Gs Gc X ?st"
    unfolding indexes_ok_put eqv [symmetric] by (rule ok)
  have "map txn_pointer ?gone = map (\<lambda>e. (a, fst e)) (bt_below s txns)" using gone by auto
  moreover have "distinct (map (\<lambda>e. (a, fst e)) (bt_below s txns))"
    using bt_wf_distinct [OF bt_wf_below [OF n(1)]] by (simp add: distinct_map inj_on_def)
  ultimately have g2: "distinct (map txn_pointer ?gone)" by (simp only:)
  have g3: "\<forall>t \<in> set ?gone. stored ?st (txn_pointer t) = None \<and> get_sender t = a"
  proof
    fix t assume "t \<in> set ?gone"
    then obtain k where "(k, t) \<in> set txns" "k < s" by (auto simp: bt_below_def)
    with ptr [of k t] show "stored ?st (txn_pointer t) = None \<and> get_sender t = a" by (auto simp: bt_get_filter txn_pointer_def)
  qed
  from index_remove_all [OF g1 g2 g3] obtain st' where st': "ofold (index_remove env) ?gone ?st = Some st'" "indexes_ok env (stored ?st) Gs Gc X st'"
      "same_config ?st st'" "map timeline_id (timelines (timeline_index st')) = map timeline_id (timelines (timeline_index ?st))"
      "transactions st' = (if ?gone \<noteq> [] \<and> transactions ?st a = Some [] then (transactions ?st)(a := None) else transactions ?st)"
      "sequence_numbers st' = (if ?gone \<noteq> [] \<and> transactions ?st a = Some [] then (sequence_numbers ?st)(a := None) else sequence_numbers ?st)"
    by (elim exE conjE) (rule that)
  have "?gone \<noteq> []" if "?kept = []" using n(2) that by (cases txns) (auto simp: bt_below_def not_le filter_empty_conv split: if_splits)
  then have rem: "removed_from a ?kept st st'" using st'(5,6) by (auto simp: removed_from_def)
  have eq: "stored st' = (\<lambda>p. if fst p = a \<and> snd p < s then None else stored st p)"
    using removed_from_stored [OF rem] Some by (auto simp: fun_eq_iff bt_get_filter stored_def get_mempool_txn_def)
  have "stored st' = stored ?st" using removed_from_stored [OF rem] by (simp add: fun_eq_iff)
  moreover have "account_ok st' b" for b
  proof (cases "b = a")
    case True
    have "\<forall>k \<in> bs_keys ?kept. n \<le> k \<and> k \<noteq> - 1" using n(4) by auto
    then show ?thesis using True rem n(1,3) by (auto simp: account_ok_def removed_from_def)
  next
    case False
    then show ?thesis using acc [of b] rem by (auto simp: account_ok_def removed_from_def)
  qed
  ultimately have "store_inv env Gs Gc X st'" using st'(2) by (simp add: store_inv_def)
  moreover have "same_config st st'" using st'(3) by (simp add: same_config_def put_txns_def)
  ultimately show ?thesis using st'(1,4) eq Some by (simp add: clean_committed_transactions_def)
qed

section \<open>Promoting\<close>

text \<open>Stored transactions up to their timeline states.\<close>

definition contents :: "(txn_pointer \<rightharpoonup> mempool_transaction) \<Rightarrow> txn_pointer \<rightharpoonup> mempool_transaction" where
  "contents M p = map_option (\<lambda>t. t\<lparr>timeline_state := NotReady\<rparr>) (M p)"

lemma contents_upd [simp]: "contents (M(p \<mapsto> t)) = (contents M)(p \<mapsto> t\<lparr>timeline_state := NotReady\<rparr>)"
  by (simp add: contents_def fun_eq_iff)

lemma contents_del [simp]: "contents (M(p := None)) = (contents M)(p := None)"
  by (simp add: contents_def fun_eq_iff)

lemma contents_dom: "contents M = contents M' \<Longrightarrow> dom M = dom M'"
  unfolding dom_def contents_def fun_eq_iff by (metis map_option_is_None)

lemma ran_upd_image:
  assumes "M p = Some t" "f t' = f t"
  shows "f ` ran (M(p \<mapsto> t')) = f ` ran M"
proof -
  have ran: "f ` ran N = {x. \<exists>q. map_option f (N q) = Some x}" for N unfolding ran_def by auto
  have same: "map_option f ((M(p \<mapsto> t')) q) = map_option f (M q)" for q using assms by simp
  show ?thesis unfolding ran same ..
qed

lemma client_expiration_state [simp]: "client_expiration (t\<lparr>timeline_state := x\<rparr>) = client_expiration t"
  by (simp add: client_expiration_def)

lemma ttl_key_state [simp]: "f (t\<lparr>timeline_state := x\<rparr>) = f t \<Longrightarrow> ttl_make_key f (t\<lparr>timeline_state := x\<rparr>) = ttl_make_key f t"
  by (simp add: ttl_make_key_def)

lemma prio_key_state [simp]: "prio_key (t\<lparr>timeline_state := x\<rparr>) = prio_key t"
  by (rule prio.key_state)

lemma base_ok_state:
  assumes base: "base_ok env M Gs Gc st" and p: "M p = Some t"
  shows "base_ok env (M(p \<mapsto> t\<lparr>timeline_state := x\<rparr>)) Gs Gc st"
proof -
  let ?t = "t\<lparr>timeline_state := x\<rparr>"
  note b = base_okD [OF base]
  have "pointers_ok (M(p \<mapsto> ?t))" using b(1) p by (auto simp: pointers_ok_def)
  moreover have "(\<exists>u. (M(p \<mapsto> ?t)) q = Some u \<and> get_committed_hash env u = h) \<longleftrightarrow> (\<exists>u. M q = Some u \<and> get_committed_hash env u = h)" for q h
    using p by (cases "q = p") simp_all
  moreover have "dom (M(p \<mapsto> ?t)) = dom M" using p by auto
  moreover have "(\<Sum>q \<in> dom M. get_estimated_bytes env (the ((M(p \<mapsto> ?t)) q))) = (\<Sum>q \<in> dom M. get_estimated_bytes env (the (M q)))"
    by (rule sum.cong) (use p in auto)
  ultimately show ?thesis
    using base ran_upd_image [of M p t "ttl_make_key expiration_time" ?t] ran_upd_image [of M p t "ttl_make_key client_expiration" ?t]
      ran_upd_image [of M p t prio_key ?t] ran_upd_image [of M p t txn_pointer ?t] p
    unfolding base_ok_def by simp
qed

lemma base_ok_indexes:
  assumes "base_ok env M Gs Gc st" "prio_ok pr" "bs_keys pr \<subseteq> prio_key ` ran M" "lot_ok lot" "parked lot \<subseteq> txn_pointer ` ran M"
  shows "base_ok env M Gs Gc (st\<lparr>priority_index := pr, timeline_index := lines, parking_lot_index := lot\<rparr>)"
  using assms unfolding base_ok_def by simp

lemma ran_key: "M p = Some t \<Longrightarrow> f t \<in> f ` ran M"
  by (auto intro: ranI)

lemma promote_step:
  assumes ok: "indexes_ok env M Gs Gc X st" and t: "M (txn_pointer t) = Some t"
    and room: "\<And>line. line \<in> set (timelines (timeline_index st)) \<Longrightarrow> timeline_id line \<noteq> - 1"
  shows "\<exists>x lines lot. (if timeline_state t = NotReady then multi_insert t (timeline_index st) else Some (t, timeline_index st)) =
        Some (t\<lparr>timeline_state := x\<rparr>, lines)
      \<and> lot_remove (t\<lparr>timeline_state := x\<rparr>) (parking_lot_index st) = Some lot
      \<and> indexes_ok env (M(txn_pointer t \<mapsto> t\<lparr>timeline_state := x\<rparr>)) Gs Gc (X - {txn_pointer t})
          (st\<lparr>priority_index := prio_insert t (priority_index st), timeline_index := lines, parking_lot_index := lot\<rparr>)
      \<and> list_all2 (\<lambda>line' line. unat (timeline_id line') \<le> unat (timeline_id line) + 1) (timelines lines) (timelines (timeline_index st))"
proof -
  let ?p = "txn_pointer t"
  have base: "base_ok env M Gs Gc st" and tl: "timeline_ok M (timeline_index st)" and cov: "cover_ok M X st"
    using ok by (simp_all add: indexes_ok_def)
  note b = base_okD [OF base]
  have same: "M(?p := None, ?p \<mapsto> u) = M(?p \<mapsto> u)" "M(?p \<mapsto> t) = M" for u using t by (auto simp: fun_eq_iff)
  obtain x lines where x: "(if timeline_state t = NotReady then multi_insert t (timeline_index st) else Some (t, timeline_index st)) =
        Some (t\<lparr>timeline_state := x\<rparr>, lines)" "timeline_ok (M(?p \<mapsto> t\<lparr>timeline_state := x\<rparr>)) lines"
      "list_all2 (\<lambda>line' line. unat (timeline_id line') \<le> unat (timeline_id line) + 1) (timelines lines) (timelines (timeline_index st))"
  proof (cases "timeline_state t = NotReady")
    case True
    have "timeline_ok (M(?p := None)) (timeline_index st)" by (rule timeline_ok_unready [OF tl]) (use t True in auto)
    from multi_insert_ok [OF this _ room, of t] obtain k m where "multi_insert t (timeline_index st) = Some (t\<lparr>timeline_state := Ready k\<rparr>, m)"
        "timeline_ok (M(?p \<mapsto> t\<lparr>timeline_state := Ready k\<rparr>)) m"
        "list_all2 (\<lambda>line' line. unat (timeline_id line') \<le> unat (timeline_id line) + 1) (timelines m) (timelines (timeline_index st))"
      by (auto simp: same)
    with True show thesis by (intro that [of "Ready k" m]) simp_all
  next
    case False
    have "t\<lparr>timeline_state := timeline_state t\<rparr> = t" by simp
    with False tl show thesis by (intro that [of "timeline_state t" "timeline_index st"]) (simp_all add: same list_all2_refl)
  qed
  let ?t = "t\<lparr>timeline_state := x\<rparr>"
  have wf: "txn_wf ?t" using pointers_okD [OF b(1) t] by simp
  obtain lot where lot: "lot_remove ?t (parking_lot_index st) = Some lot" "lot_ok lot" "parked lot = parked (parking_lot_index st) - {?p}"
    using lot.rem [OF b(9) wf] by auto
  have pr: "bs_keys (prio_insert t (priority_index st)) = insert (prio_key t) (bs_keys (priority_index st))" by (simp add: prio_insert_def)
  let ?st = "st\<lparr>priority_index := prio_insert t (priority_index st), timeline_index := lines, parking_lot_index := lot\<rparr>"
  have "base_ok env M Gs Gc ?st"
  proof (rule base_ok_indexes [OF base _ _ lot(2)])
    show "prio_ok (prio_insert t (priority_index st))" using b(7) by (rule prio_insert_ok)
    show "bs_keys (prio_insert t (priority_index st)) \<subseteq> prio_key ` ran M" using b(8) pr ran_key [of M _ t prio_key] t by simp
    show "parked lot \<subseteq> txn_pointer ` ran M" using b(10) lot(3) by auto
  qed
  then have "base_ok env (M(?p \<mapsto> ?t)) Gs Gc ?st" using t by (rule base_ok_state)
  moreover have "cover_ok (M(?p \<mapsto> ?t)) (X - {?p}) ?st"
    unfolding cover_ok_def
  proof (intro allI impI)
    fix q u assume u: "(M(?p \<mapsto> ?t)) q = Some u"
    show "(q \<notin> X - {?p} \<longrightarrow> prio_contains u (priority_index ?st) \<or> q \<in> parked (parking_lot_index ?st))
        \<and> (\<forall>k. timeline_state u = Ready k \<longrightarrow> prio_contains u (priority_index ?st))"
    proof (cases "q = ?p")
      case True
      with u pr show ?thesis by (auto simp: prio_contains_iff)
    next
      case False
      with u have "M q = Some u" by simp
      from cover_okD [OF cov this] False pr lot(3) show ?thesis by (auto simp: prio_contains_iff)
    qed
  qed
  ultimately show ?thesis using x lot(1) by (intro exI [of _ x] exI [of _ lines] exI [of _ lot]) (simp add: indexes_ok_def)
qed

lemma room_mono: "room n st \<Longrightarrow> m \<le> n \<Longrightarrow> room m st"
  unfolding room_def by fastforce

lemma room_step:
  assumes "room (Suc n) st" "list_all2 (\<lambda>line' line. unat (timeline_id line') \<le> unat (timeline_id line) + 1) lines (timelines (timeline_index st))"
  shows "\<forall>line \<in> set lines. unat (timeline_id line) + n < 2 ^ 64"
proof
  fix line assume "line \<in> set lines"
  then obtain line' where "line' \<in> set (timelines (timeline_index st))" "unat (timeline_id line) \<le> unat (timeline_id line') + 1"
    using assms(2) by (metis in_set_conv_nth list_all2_conv_all_nth)
  with assms(1) show "unat (timeline_id line) + n < 2 ^ 64" by (fastforce simp: room_def)
qed

lemma room_not_max:
  assumes "room (Suc n) st" "line \<in> set (timelines (timeline_index st))"
  shows "timeline_id line \<noteq> - 1"
proof
  assume "timeline_id line = - 1"
  then have "unat (timeline_id line) = 2 ^ 64 - 1" by (simp add: mask_eq_exp_minus_1 unsigned_minus_1_eq_mask)
  with assms show False by (fastforce simp: room_def)
qed

lemma word_less_next: "s \<noteq> - 1 \<Longrightarrow> s < k \<longleftrightarrow> s + 1 \<le> k" for s k :: "'a::len word"
proof -
  assume "s \<noteq> - 1"
  then have "unat (s + 1) = unat s + 1" using unatSuc [of s] by (metis Suc_eq_plus1 add.commute add_eq_0_iff)
  then show ?thesis by (simp add: word_less_nat_alt word_le_nat_alt Suc_le_eq)
qed

lemma promote_ok:
  assumes "indexes_ok env (stored st) Gs Gc X st" "transactions st a = Some txns" "bt_wf txns" "\<forall>k \<in> bs_keys txns. k \<noteq> - 1"
    "room (n + card {k \<in> bs_keys txns. s \<le> k}) st"
  shows "\<exists>s' st' txns'. promote a s st = Some (s', st') \<and> transactions st' = (transactions st)(a \<mapsto> txns') \<and> bt_wf txns'
    \<and> bs_keys txns' = bs_keys txns \<and> s' \<notin> bs_keys txns \<and> s \<le> s'
    \<and> indexes_ok env (stored st') Gs Gc (X - {a} \<times> {k. s \<le> k \<and> k < s'}) st'
    \<and> sequence_numbers st' = sequence_numbers st \<and> same_config st st' \<and> contents (stored st') = contents (stored st) \<and> room n st'"
  using assms
proof (induction a s st arbitrary: txns X rule: promote.induct)
  case (1 a s st)
  show ?case
  proof (cases "bt_get txns s")
    case None
    then have "promote a s st = Some (s, st)" using "1.prems"(2) by (simp add: promote.simps [of a s st])
    moreover have "X - {a} \<times> {k. s \<le> k \<and> k < s} = X" by auto
    moreover have "s \<notin> bs_keys txns" using None by (rule iffD1 [OF bt_get_None])
    moreover have "transactions st = (transactions st)(a \<mapsto> txns)" using "1.prems"(2) by (simp add: fun_upd_idem)
    moreover have "room n st" using "1.prems"(5) by (rule room_mono) simp
    ultimately show ?thesis
      using "1.prems"(1,3) by (intro exI [of _ s] exI [of _ st] exI [of _ txns]) simp
  next
    case (Some t)
    note p = stored_pointer [OF "1.prems"(1,2) Some]
    have t: "stored st (txn_pointer t) = Some t" using p(1) "1.prems"(2) Some by (simp add: stored_def get_mempool_txn_def)
    have s: "s \<in> bs_keys txns" using bt_get_mem [OF Some] by force
    then have max: "s \<noteq> - 1" using "1.prems"(4) by blast
    note suc = word_less_next [OF max]
    have card: "card {k \<in> bs_keys txns. s \<le> k} = Suc (card {k \<in> bs_keys txns. s + 1 \<le> k})"
    proof -
      have "{k \<in> bs_keys txns. s \<le> k} = insert s {k \<in> bs_keys txns. s + 1 \<le> k}" using s by (auto simp flip: suc)
      moreover have "s \<notin> {k \<in> bs_keys txns. s + 1 \<le> k}" by (simp flip: suc)
      ultimately show ?thesis by simp
    qed
    note room = "1.prems"(5) [unfolded card add_Suc_right]
    obtain x lines lot where step: "(if timeline_state t = NotReady then multi_insert t (timeline_index st) else Some (t, timeline_index st)) =
          Some (t\<lparr>timeline_state := x\<rparr>, lines)" "lot_remove (t\<lparr>timeline_state := x\<rparr>) (parking_lot_index st) = Some lot"
        "indexes_ok env ((stored st)(txn_pointer t \<mapsto> t\<lparr>timeline_state := x\<rparr>)) Gs Gc (X - {txn_pointer t})
          (st\<lparr>priority_index := prio_insert t (priority_index st), timeline_index := lines, parking_lot_index := lot\<rparr>)"
        "list_all2 (\<lambda>line' line. unat (timeline_id line') \<le> unat (timeline_id line) + 1) (timelines lines) (timelines (timeline_index st))"
      using promote_step [OF "1.prems"(1) t room_not_max [OF room]] by blast
    let ?t = "t\<lparr>timeline_state := x\<rparr>"
    define st1 where "st1 = put_txns a (bt_insert s ?t txns)
        (st\<lparr>priority_index := prio_insert t (priority_index st), timeline_index := lines, parking_lot_index := lot\<rparr>)"
    have stored1: "stored st1 = (stored st)(txn_pointer t \<mapsto> ?t)"
      using "1.prems"(2) p(1) by (auto simp: st1_def fun_eq_iff stored_def get_mempool_txn_def put_txns_def)
    have keys: "bs_keys (bt_insert s ?t txns) = bs_keys txns" using s by auto
    have h1: "room (n + card {k \<in> bs_keys (bt_insert s ?t txns). s + 1 \<le> k}) st1"
      using room_step [OF room step(4)] unfolding keys by (simp add: room_def st1_def)
    have h2: "indexes_ok env (stored st1) Gs Gc (X - {txn_pointer t}) st1" unfolding stored1 using step(3) by (simp add: st1_def)
    have h3: "transactions st1 a = Some (bt_insert s ?t txns)" by (simp add: st1_def)
    have h4: "\<forall>k \<in> bs_keys (bt_insert s ?t txns). k \<noteq> - 1" unfolding keys by (rule "1.prems"(4))
    from "1.IH" [OF "1.prems"(2) Some step(1) refl step(2) max, folded st1_def, OF h2 h3 bt_wf_insert [OF "1.prems"(3)] h4 h1, unfolded keys]
    obtain s' st' txns' where IH: "promote a (s + 1) st1 = Some (s', st')" "transactions st' = (transactions st1)(a \<mapsto> txns')"
        "bt_wf txns'" "bs_keys txns' = bs_keys txns" "s' \<notin> bs_keys txns" "s + 1 \<le> s'"
        "indexes_ok env (stored st') Gs Gc (X - {txn_pointer t} - {a} \<times> {k. s + 1 \<le> k \<and> k < s'}) st'"
        "sequence_numbers st' = sequence_numbers st1" "same_config st1 st'" "contents (stored st') = contents (stored st1)"
        "room n st'"
      by (elim exE conjE) (rule that)
    have "promote a s st = Some (s', st')"
      using "1.prems"(2) Some step(1,2) max IH(1) by (simp add: promote.simps [of a s st] st1_def)
    moreover have "X - {txn_pointer t} - {a} \<times> {k. s + 1 \<le> k \<and> k < s'} = X - {a} \<times> {k. s \<le> k \<and> k < s'}"
      using p(1) IH(6) by (auto simp flip: suc)
    moreover have "s \<le> s'" using IH(6) by (simp flip: suc)
    moreover have "contents (stored st1) = contents (stored st)"
      unfolding stored1 using t by (auto simp: fun_eq_iff contents_def)
    moreover have "same_config st st1" by (simp add: same_config_def st1_def put_txns_def)
    ultimately show ?thesis
      using IH by (intro exI [of _ s'] exI [of _ st'] exI [of _ txns']) (auto simp: st1_def intro: same_config_trans)
  qed
qed

end
