(* ===== verification/StoreOperations.thy ===== *)
theory StoreOperations
  imports StoreInvariant
begin

text \<open>
  Every operation of the transaction store returns and keeps its invariant, and what each operation
  does to the stored transactions.
\<close>

section \<open>Promotion and parking\<close>

lemma cover_ok_less: "cover_ok M X st \<Longrightarrow> X \<inter> dom M \<subseteq> Y \<Longrightarrow> cover_ok M Y st"
  unfolding cover_ok_def by (meson IntI domI subsetD)

lemma indexes_ok_less: "indexes_ok env M Gs Gc X st \<Longrightarrow> X \<inter> dom M \<subseteq> Y \<Longrightarrow> indexes_ok env M Gs Gc Y st"
  by (auto simp: indexes_ok_def intro: cover_ok_less)

lemma park_fields [simp]:
  "transactions (park t st) = transactions st" "sequence_numbers (park t st) = sequence_numbers st"
  "stored (park t st) = stored st" "same_config st (park t st)" "timeline_index (park t st) = timeline_index st"
  "priority_index (park t st) = priority_index st"
  by (auto simp: park_def same_config_def stored_def get_mempool_txn_def fun_eq_iff split: timeline_state.split)

lemma park_ok:
  assumes ok: "indexes_ok env M Gs Gc X st" and t: "M (txn_pointer t) = Some t"
  shows "indexes_ok env M Gs Gc (X - {txn_pointer t}) (park t st)"
proof (cases "\<exists>k. timeline_state t = Ready k")
  case True
  then obtain k where k: "timeline_state t = Ready k" ..
  have cov: "cover_ok M X st" using ok by (simp add: indexes_ok_def)
  have "cover_ok M (X - {txn_pointer t}) st"
    unfolding cover_ok_def
  proof (intro allI impI)
    fix q u assume u: "M q = Some u"
    show "(q \<notin> X - {txn_pointer t} \<longrightarrow> prio_contains u (priority_index st) \<or> q \<in> parked (parking_lot_index st))
        \<and> (\<forall>k. timeline_state u = Ready k \<longrightarrow> prio_contains u (priority_index st))"
      using cover_okD [OF cov u] u t k by (cases "q = txn_pointer t") auto
  qed
  with ok k show ?thesis by (simp add: park_def indexes_ok_def)
next
  case False
  have base: "base_ok env M Gs Gc st" and cov: "cover_ok M X st" and tl: "timeline_ok M (timeline_index st)"
    using ok by (simp_all add: indexes_ok_def)
  note b = base_okD [OF base]
  have wf: "txn_wf t" using pointers_okD [OF b(1) t] by simp
  let ?lot = "lot_insert t (parking_lot_index st)"
  have lot: "lot_ok ?lot" "parked ?lot = insert (txn_pointer t) (parked (parking_lot_index st))"
    using lot_insert_ok [OF b(9) wf] by simp_all
  have eq: "park t st = st\<lparr>parking_lot_index := ?lot\<rparr>"
    using False by (simp add: park_def split: timeline_state.split)
  have "txn_pointer t \<in> txn_pointer ` ran M" using t by (auto intro: ranI)
  then have "base_ok env M Gs Gc (st\<lparr>parking_lot_index := ?lot\<rparr>)" using base lot unfolding base_ok_def by simp
  moreover have "cover_ok M (X - {txn_pointer t}) (st\<lparr>parking_lot_index := ?lot\<rparr>)"
    unfolding cover_ok_def
  proof (intro allI impI)
    fix q u assume u: "M q = Some u"
    show "(q \<notin> X - {txn_pointer t} \<longrightarrow> prio_contains u (priority_index (st\<lparr>parking_lot_index := ?lot\<rparr>))
            \<or> q \<in> parked (parking_lot_index (st\<lparr>parking_lot_index := ?lot\<rparr>)))
        \<and> (\<forall>k. timeline_state u = Ready k \<longrightarrow> prio_contains u (priority_index (st\<lparr>parking_lot_index := ?lot\<rparr>)))"
      using cover_okD [OF cov u] lot(2) by auto
  qed
  ultimately show ?thesis unfolding eq using tl by (simp add: indexes_ok_def)
qed

lemma park_all_ok:
  assumes "indexes_ok env M Gs Gc X st" "\<forall>t \<in> set ts. M (txn_pointer t) = Some t"
  shows "indexes_ok env M Gs Gc (X - txn_pointer ` set ts) (fold park ts st)
    \<and> transactions (fold park ts st) = transactions st \<and> sequence_numbers (fold park ts st) = sequence_numbers st
    \<and> same_config st (fold park ts st) \<and> timeline_index (fold park ts st) = timeline_index st"
  using assms
proof (induction ts arbitrary: X st)
  case (Cons t ts)
  from Cons.IH [OF park_ok [OF Cons.prems(1)], of t] Cons.prems(2)
  have "indexes_ok env M Gs Gc (X - {txn_pointer t} - txn_pointer ` set ts) (fold park ts (park t st))"
      "transactions (fold park ts (park t st)) = transactions st" "sequence_numbers (fold park ts (park t st)) = sequence_numbers st"
      "same_config (park t st) (fold park ts (park t st))" "timeline_index (fold park ts (park t st)) = timeline_index st" by simp_all
  moreover have "X - {txn_pointer t} - txn_pointer ` set ts = X - txn_pointer ` set (t # ts)" by auto
  ultimately show ?case by (auto intro: same_config_trans [of st "park t st"])
qed simp

lemma stored_transactions: "transactions st = transactions st' \<Longrightarrow> stored st = stored st'"
  by (simp add: stored_def get_mempool_txn_def fun_eq_iff)

lemma stored_mem: "transactions st a = Some txns \<Longrightarrow> bt_wf txns \<Longrightarrow> (k, t) \<in> set txns \<Longrightarrow> stored st (a, k) = Some t"
  by (simp add: stored_def get_mempool_txn_def bt_mem_get)

lemma card_account:
  assumes "finite (dom (stored st))" "transactions st a = Some txns" "bt_wf txns"
  shows "card {k \<in> bs_keys txns. P k} \<le> card (dom (stored st))"
proof -
  have "(\<lambda>k. (a, k)) ` {k \<in> bs_keys txns. P k} \<subseteq> dom (stored st)" using stored_mem [OF assms(2,3)] by force
  then have "card ((\<lambda>k. (a, k)) ` {k \<in> bs_keys txns. P k}) \<le> card (dom (stored st))" using assms(1) by (intro card_mono)
  then show ?thesis by (simp add: card_image inj_on_def)
qed

lemma account_ok_keys:
  assumes "account_ok st a" "transactions st a = Some txns" "transactions st' a = Some txns'" "bt_wf txns'" "txns' \<noteq> []"
    "bs_keys txns' \<subseteq> bs_keys txns" "sequence_numbers st' a = sequence_numbers st a"
  shows "account_ok st' a"
proof -
  obtain n where "sequence_numbers st a = Some n" and n: "\<forall>k \<in> bs_keys txns. n \<le> k \<and> k \<noteq> - 1"
    using assms(1,2) unfolding account_ok_def by blast
  moreover have "\<forall>k \<in> bs_keys txns'. n \<le> k \<and> k \<noteq> - 1" using n assms(6) by (meson subsetD)
  ultimately show ?thesis using assms(3,4,5,7) by (simp add: account_ok_def)
qed

lemma process_ready_ok:
  assumes ok: "indexes_ok env (stored st) Gs Gc X st" and X: "X \<subseteq> {a} \<times> UNIV" and acc: "\<And>b. account_ok st b"
    and seq: "\<And>txns k. transactions st a = Some txns \<Longrightarrow> k \<in> bs_keys txns \<Longrightarrow> min_seq info \<le> k"
    and room: "room (n + card (dom (stored st))) st"
  shows "\<exists>st'. process_ready_transactions a info st = Some st' \<and> store_inv env Gs Gc {} st' \<and> same_config st st'
    \<and> contents (stored st') = contents (stored st) \<and> sequence_numbers st' = sequence_numbers st \<and> room n st'"
proof (cases "transactions st a")
  case None
  then have "promote a (min_seq info) st = Some (min_seq info, st)" by (simp add: promote.simps)
  moreover have "X \<inter> dom (stored st) \<subseteq> {}" using X None by (auto simp: stored_def get_mempool_txn_def)
  ultimately show ?thesis
    using None indexes_ok_less [OF ok] acc room_mono [OF room, of n] by (auto simp: process_ready_transactions_def store_inv_def)
next
  case (Some txns)
  have wf: "bt_wf txns" "txns \<noteq> []" "\<forall>k \<in> bs_keys txns. k \<noteq> - 1" using acc [of a] Some unfolding account_ok_def by blast+
  have fin: "finite (dom (stored st))" using ok by (simp add: indexes_ok_def base_ok_def)
  have "room (n + card {k \<in> bs_keys txns. min_seq info \<le> k}) st"
    by (rule room_mono [OF room]) (use card_account [OF fin Some wf(1), of "\<lambda>k. min_seq info \<le> k"] in simp)
  from promote_ok [OF ok Some wf(1,3) this] obtain s st1 txns1 where p: "promote a (min_seq info) st = Some (s, st1)"
      "transactions st1 = (transactions st)(a \<mapsto> txns1)" "bt_wf txns1" "bs_keys txns1 = bs_keys txns" "s \<notin> bs_keys txns"
      "indexes_ok env (stored st1) Gs Gc (X - {a} \<times> {k. min_seq info \<le> k \<and> k < s}) st1"
      "sequence_numbers st1 = sequence_numbers st" "same_config st st1" "contents (stored st1) = contents (stored st)" "room n st1"
    by (elim exE conjE) (rule that)
  have t1: "transactions st1 a = Some txns1" by (simp add: p(2))
  let ?ts = "map snd (filter (\<lambda>e. s < fst e) txns1)"
  define st' where "st' = fold park ?ts st1"
  have ptr: "txn_pointer t = (a, k)" if "(k, t) \<in> set txns1" for k t
    using stored_pointer(1) [OF p(6) t1 bt_mem_get [OF p(3) that]] .
  have "\<forall>t \<in> set ?ts. stored st1 (txn_pointer t) = Some t" using ptr stored_mem [OF t1 p(3)] by auto
  from park_all_ok [OF p(6) this] have st': "indexes_ok env (stored st1) Gs Gc (X - {a} \<times> {k. min_seq info \<le> k \<and> k < s} - txn_pointer ` set ?ts) st'"
      "transactions st' = transactions st1" "sequence_numbers st' = sequence_numbers st1" "same_config st1 st'"
      "timeline_index st' = timeline_index st1"
    by (simp_all add: st'_def)
  have eq: "stored st' = stored st1" by (rule stored_transactions [OF st'(2)])
  have "(X - {a} \<times> {k. min_seq info \<le> k \<and> k < s} - txn_pointer ` set ?ts) \<inter> dom (stored st1) \<subseteq> {}"
  proof
    fix q assume q: "q \<in> (X - {a} \<times> {k. min_seq info \<le> k \<and> k < s} - txn_pointer ` set ?ts) \<inter> dom (stored st1)"
    then have "q \<in> {a} \<times> UNIV" using X by blast
    with q obtain k t where k: "q = (a, k)" "stored st1 (a, k) = Some t" by auto
    then have mem: "(k, t) \<in> set txns1" using t1 bt_get_mem by (simp add: stored_def get_mempool_txn_def)
    then have "k \<in> bs_keys txns" using p(4) by force
    then have "min_seq info \<le> k" "k \<noteq> s" using seq [OF Some] p(5) by auto
    moreover have "\<not> s < k" using q k(1) ptr [OF mem] mem by force
    ultimately show "q \<in> {}" using q k(1) by auto
  qed
  with st'(1) have "indexes_ok env (stored st') Gs Gc {} st'" unfolding eq by (rule indexes_ok_less)
  moreover have "account_ok st' b" for b
  proof (cases "b = a")
    case True
    have "txns1 \<noteq> []" using p(4) wf(2) by auto
    then have "account_ok st' a"
      using account_ok_keys [OF acc Some, of st' txns1] p(3,4,7) st'(2,3) t1 by simp
    with True show ?thesis by simp
  next
    case False
    with acc [of b] p(2,7) st'(2,3) show ?thesis by (simp add: account_ok_def)
  qed
  ultimately have "store_inv env Gs Gc {} st'" by (simp add: store_inv_def)
  moreover have "process_ready_transactions a info st = Some st'"
    using p(1) t1 by (simp add: process_ready_transactions_def st'_def)
  moreover have "room n st'" using p(10) st'(5) by (simp add: room_def)
  ultimately show ?thesis using eq p(7,8,9) st'(3,4) by (auto intro: same_config_trans)
qed

section \<open>Removals\<close>

text \<open>The outcome of an operation that leaves the numbers of the timelines alone.\<close>

definition shrinks_to ::
  "'h store_env \<Rightarrow> 'h transaction_store \<Rightarrow> (txn_pointer \<rightharpoonup> mempool_transaction) \<Rightarrow> 'h transaction_store \<Rightarrow> bool" where
  "shrinks_to env st M st' \<longleftrightarrow> store_ok env st' \<and> stored st' = M \<and> same_config st st'
     \<and> map timeline_id (timelines (timeline_index st')) = map timeline_id (timelines (timeline_index st))"

lemma shrinks_refl: "store_ok env st \<Longrightarrow> shrinks_to env st (stored st) st"
  by (simp add: shrinks_to_def)

lemma shrinks_trans: "shrinks_to env st M st' \<Longrightarrow> shrinks_to env st' M' st'' \<Longrightarrow> shrinks_to env st M' st''"
  by (auto simp: shrinks_to_def intro: same_config_trans)

lemma room_ids:
  assumes "map timeline_id (timelines (timeline_index st')) = map timeline_id (timelines (timeline_index st))" "room n st" "m \<le> n"
  shows "room m st'"
proof -
  have "timeline_id ` set (timelines (timeline_index st')) = timeline_id ` set (timelines (timeline_index st))"
    using assms(1) by (metis set_map)
  moreover have "\<forall>x \<in> timeline_id ` set (timelines (timeline_index st)). unat x + m < 2 ^ 64"
    using assms(2,3) unfolding room_def by fastforce
  ultimately show ?thesis unfolding room_def by blast
qed

lemma stored_dom: "store_ok env st \<Longrightarrow> finite (dom (stored st))"
  by (simp add: store_inv_def indexes_ok_def base_ok_def)

text \<open>Taking one transaction out, if it is there.\<close>

lemma remove_at_ok:
  assumes "store_ok env st"
  shows "\<exists>st'. (case transactions st a of
        None \<Rightarrow> Some st
      | Some txns \<Rightarrow> (case bt_get txns s of None \<Rightarrow> Some st | Some t \<Rightarrow> index_remove env t (put_txns a (bt_remove s txns) st))) = Some st'
    \<and> shrinks_to env st ((stored st)((a, s) := None)) st'"
proof (cases "stored st (a, s)")
  case None
  then have "(stored st)((a, s) := None) = stored st" by (simp add: fun_upd_idem)
  moreover have "transactions st a = Some txns \<Longrightarrow> bt_get txns s = None" for txns
    using None by (simp add: stored_def get_mempool_txn_def)
  ultimately show ?thesis using shrinks_refl [OF assms] by (auto split: option.split)
next
  case (Some t)
  then obtain txns where t: "transactions st a = Some txns" "bt_get txns s = Some t"
    by (auto simp: stored_def get_mempool_txn_def split: bind_splits)
  from remove_stored [OF assms t] t show ?thesis by (auto simp: shrinks_to_def)
qed

lemma store_reject_ok:
  assumes "store_ok env st"
  shows "\<exists>st'. store_reject env a s h st = Some st'
    \<and> shrinks_to env st (if hash_index st h = Some (a, s) then (stored st)((a, s) := None) else stored st) st'"
  using remove_at_ok [OF assms, of a s] shrinks_refl [OF assms] by (simp add: store_reject_def)

lemma evict_ok:
  assumes "store_ok env st"
  shows "\<exists>st'. evict_parked env rng st = Some st'
    \<and> shrinks_to env st (case lot_get_poppable rng (parking_lot_index st) of None \<Rightarrow> stored st | Some p \<Rightarrow> (stored st)(p := None)) st'"
proof (cases "lot_get_poppable rng (parking_lot_index st)")
  case None
  then show ?thesis using shrinks_refl [OF assms] by (simp add: evict_parked_def)
next
  case (Some p)
  obtain a s where p: "p = (a, s)" by (cases p)
  show ?thesis using remove_at_ok [OF assms, of a s] Some p by (simp add: evict_parked_def)
qed

section \<open>Committing\<close>

definition without_below :: "address \<Rightarrow> u64 \<Rightarrow> (txn_pointer \<rightharpoonup> mempool_transaction) \<Rightarrow> txn_pointer \<rightharpoonup> mempool_transaction" where
  "without_below a s M p = (if fst p = a \<and> snd p < s then None else M p)"

lemma clean_ok:
  assumes "store_ok env st"
  shows "\<exists>st'. clean_committed_transactions env a s st = Some st' \<and> shrinks_to env st (without_below a s (stored st)) st'"
proof -
  have "account_from s st a"
  proof -
    have "account_ok st a" using assms by (simp add: store_inv_def)
    then show ?thesis unfolding account_ok_def account_from_def by blast
  qed
  from clean_committed_ok [OF _ _ this] assms show ?thesis
    unfolding store_inv_def shrinks_to_def without_below_def fun_eq_iff by blast
qed

lemma without_below_keys:
  assumes "stored st = without_below a s M" "transactions st a = Some txns" "k \<in> bs_keys txns"
  shows "s \<le> k"
proof (rule ccontr)
  assume "\<not> s \<le> k"
  then have "stored st (a, k) = None" by (simp add: assms(1) without_below_def not_le)
  with assms(2,3) show False by (simp add: stored_def get_mempool_txn_def bt_get_None)
qed

lemma without_below_dom: "dom (without_below a s M) \<subseteq> dom M"
  by (auto simp: without_below_def dom_def split: if_splits)

lemma commit_clean_ok:
  assumes inv: "store_ok env st" and s: "s \<noteq> - 1" and n: "n = max (case sequence_numbers st a of Some v \<Rightarrow> v | None \<Rightarrow> 0) (s + 1)"
  shows "\<exists>st1. store_commit env a s st = process_ready_transactions a (Sequential n) st1
    \<and> store_ok env st1 \<and> stored st1 = without_below a n (stored st) \<and> same_config st st1
    \<and> map timeline_id (timelines (timeline_index st1)) = map timeline_id (timelines (timeline_index st))"
proof -
  let ?st = "st\<lparr>sequence_numbers := (sequence_numbers st)(a \<mapsto> n)\<rparr>"
  have eq: "stored ?st = stored st" by (rule stored_transactions) simp
  have "unat (s + 1) = unat s + 1" using unatSuc [of s] s by (metis Suc_eq_plus1 add.commute add_eq_0_iff)
  then have add: "add_chk s 1 = Some (s + 1)" by (simp only: add_chk_Some uint_nat of_nat_add) simp
  have ok: "indexes_ok env (stored ?st) {} {} {} ?st" unfolding eq using inv by (simp add: store_inv_def)
  have acc: "account_ok ?st b" if "b \<noteq> a" for b using inv that by (simp add: store_inv_def account_ok_def)
  have "account_from n ?st a"
  proof -
    have "account_ok st a" using inv by (simp add: store_inv_def)
    then show ?thesis by (auto simp: account_ok_def account_from_def)
  qed
  from clean_committed_ok [OF ok acc this] obtain st1 where st1: "clean_committed_transactions env a n ?st = Some st1"
      "store_ok env st1" "stored st1 = without_below a n (stored st)" "same_config ?st st1"
      "map timeline_id (timelines (timeline_index st1)) = map timeline_id (timelines (timeline_index st))"
    unfolding eq without_below_def by auto
  have "store_commit env a s st = process_ready_transactions a (Sequential n) st1"
    using st1(1) add by (simp add: store_commit_def get_sequence_number_def Let_def n)
  moreover have "same_config st st1" using st1(4) by (simp add: same_config_def)
  ultimately show ?thesis using st1(2,3,5) by blast
qed

lemma store_commit_ok:
  assumes inv: "store_ok env st" and s: "s \<noteq> - 1" and room: "room (m + card (dom (stored st))) st"
  shows "\<exists>st'. store_commit env a s st = Some st' \<and> store_ok env st' \<and> same_config st st' \<and> room m st'
    \<and> contents (stored st') =
        contents (without_below a (max (case sequence_numbers st a of Some v \<Rightarrow> v | None \<Rightarrow> 0) (s + 1)) (stored st))"
proof -
  define n where "n = max (case sequence_numbers st a of Some v \<Rightarrow> v | None \<Rightarrow> 0) (s + 1)"
  obtain st1 where st1: "store_commit env a s st = process_ready_transactions a (Sequential n) st1"
      "store_ok env st1" "stored st1 = without_below a n (stored st)" "same_config st st1"
      "map timeline_id (timelines (timeline_index st1)) = map timeline_id (timelines (timeline_index st))"
    using commit_clean_ok [OF inv s n_def] by blast
  have "m + card (dom (stored st1)) \<le> m + card (dom (stored st))"
    unfolding st1(3) by (intro add_left_mono card_mono stored_dom [OF inv] without_below_dom)
  then have "room (m + card (dom (stored st1))) st1" by (rule room_ids [OF st1(5) room])
  moreover have "min_seq (Sequential n) \<le> k" if "transactions st1 a = Some txns" "k \<in> bs_keys txns" for txns k
    using without_below_keys [OF st1(3) that] by simp
  ultimately obtain st' where st': "process_ready_transactions a (Sequential n) st1 = Some st'" "store_ok env st'"
      "same_config st1 st'" "contents (stored st') = contents (stored st1)" "room m st'"
    using process_ready_ok [of env st1 "{}" "{}" "{}" a "Sequential n"] st1(2) unfolding store_inv_def by blast
  then show ?thesis
    using st1(1,3) same_config_trans [OF st1(4) st'(3)] by (simp add: n_def)
qed

section \<open>Inserting\<close>

lemma shrinks_store_ok: "shrinks_to env st M st' \<Longrightarrow> store_ok env st'"
  by (simp add: shrinks_to_def)

text \<open>A version that is already stored ends the insertion, or makes way for one with a higher gas price.\<close>

definition same_request :: "mempool_transaction \<Rightarrow> mempool_transaction \<Rightarrow> bool" where
  "same_request t u \<longleftrightarrow> raw_payload (raw_txn (mt_txn u)) = raw_payload (raw_txn (mt_txn t))
     \<and> expiration_timestamp_secs (mt_txn u) = expiration_timestamp_secs (mt_txn t)
     \<and> max_gas_amount (mt_txn u) = max_gas_amount (mt_txn t)"

lemma check_current_version_ok:
  assumes "store_ok env st"
  shows "\<exists>r. check_current_version env t st = Some r \<and>
    (case r of
       Inl code \<Rightarrow> (\<exists>u. stored st (txn_pointer t) = Some u \<and>
         (if same_request t u then (if get_gas_price u = get_gas_price t then code = Accepted
                                    else get_gas_price t < get_gas_price u \<and> code = InvalidUpdate)
          else code = InvalidUpdate))
     | Inr st' \<Rightarrow> shrinks_to env st ((stored st)(txn_pointer t := None)) st'
         \<and> (\<forall>u. stored st (txn_pointer t) = Some u \<longrightarrow> same_request t u \<and> get_gas_price u < get_gas_price t))"
proof (cases "stored st (txn_pointer t)")
  case None
  then have "(stored st)(txn_pointer t := None) = stored st" by (simp add: fun_upd_idem)
  moreover have "check_current_version env t st = Some (Inr st)"
    using None by (auto simp: check_current_version_def stored_def get_mempool_txn_def txn_pointer_def split: option.split)
  ultimately show ?thesis using shrinks_refl [OF assms] None by simp
next
  case (Some u)
  then obtain txns where u: "transactions st (get_sender t) = Some txns" "bt_get txns (txn_seq t) = Some u"
    by (auto simp: stored_def get_mempool_txn_def txn_pointer_def split: bind_splits)
  show ?thesis
  proof (cases "same_request t u \<and> get_gas_price u < get_gas_price t")
    case True
    from remove_stored [OF assms u] True u Some show ?thesis
      by (auto simp: check_current_version_def same_request_def get_gas_price_def shrinks_to_def txn_pointer_def)
  next
    case False
    with u Some show ?thesis
      by (auto simp: check_current_version_def same_request_def get_gas_price_def)
  qed
qed

lemma poppable_parked:
  assumes "lot_get_poppable rng l = Some p"
  shows "p \<in> parked l"
proof -
  let ?d = "lot_data l"
  have d: "?d \<noteq> []" using assms by (auto simp: lot_get_poppable_def)
  obtain a ss where e: "?d ! (rng mod length ?d) = (a, ss)" by (cases "?d ! (rng mod length ?d)")
  then have "(a, ss) \<in> set ?d" using d by (metis length_greater_0_conv mod_less_divisor nth_mem)
  moreover have "ss \<noteq> []" "p = (a, fst (last ss))" using assms d e by (auto simp: lot_get_poppable_def split: if_splits)
  ultimately show ?thesis by (auto simp: lot_pointers_def)
qed

text \<open>The stored transactions after an eviction, if there was one.\<close>

definition without :: "txn_pointer option \<Rightarrow> (txn_pointer \<rightharpoonup> mempool_transaction) \<Rightarrow> txn_pointer \<rightharpoonup> mempool_transaction" where
  "without evicted M = (case evicted of None \<Rightarrow> M | Some p \<Rightarrow> M(p := None))"

lemma check_is_full_ok:
  assumes "store_ok env st" "cur_seq \<le> txn_seq t"
  shows "\<exists>st' evicted. check_is_full_after_eviction env rng t cur_seq st = Some (is_full st', st')
    \<and> shrinks_to env st (without evicted (stored st)) st' \<and> set_option evicted \<subseteq> parked (parking_lot_index st)"
proof -
  have ready: "\<exists>b. check_txn_ready t cur_seq st = Some b" using assms(2) by (auto simp: check_txn_ready_def word_le_0_iff)
  show ?thesis
  proof (cases "is_full st \<and> check_txn_ready t cur_seq st = Some True")
    case True
    obtain st' where st': "evict_parked env rng st = Some st'"
        "shrinks_to env st (without (lot_get_poppable rng (parking_lot_index st)) (stored st)) st'"
      using evict_ok [OF assms(1)] unfolding without_def by blast
    moreover have "check_is_full_after_eviction env rng t cur_seq st = Some (is_full st', st')"
      using True st'(1) by (simp add: check_is_full_after_eviction_def)
    moreover have "set_option (lot_get_poppable rng (parking_lot_index st)) \<subseteq> parked (parking_lot_index st)"
      using poppable_parked [of rng "parking_lot_index st"] by (cases "lot_get_poppable rng (parking_lot_index st)") auto
    ultimately show ?thesis by blast
  next
    case False
    with ready have "check_is_full_after_eviction env rng t cur_seq st = Some (is_full st, st)"
      by (auto simp: check_is_full_after_eviction_def)
    moreover have "without None (stored st) = stored st" by (simp add: without_def)
    ultimately show ?thesis using shrinks_refl [OF assms(1)] by (metis empty_subsetI option.set(1))
  qed
qed

lemma enter_fields [simp]:
  "system_ttl_index (enter_txn env txns t st) = ttl_insert t (system_ttl_index st)"
  "expiration_time_index (enter_txn env txns t st) = ttl_insert t (expiration_time_index st)"
  "priority_index (enter_txn env txns t st) = priority_index st" "timeline_index (enter_txn env txns t st) = timeline_index st"
  "parking_lot_index (enter_txn env txns t st) = parking_lot_index st"
  "hash_index (enter_txn env txns t st) = (hash_index st)(get_committed_hash env t \<mapsto> txn_pointer t)"
  "size_bytes (enter_txn env txns t st) = size_bytes st + get_estimated_bytes env t"
  "transactions (enter_txn env txns t st) = (transactions st)(get_sender t \<mapsto> bt_insert (txn_seq t) t txns)"
  "sequence_numbers (enter_txn env txns t st) =
     (sequence_numbers st)(get_sender t \<mapsto> min_seq (account_sequence_number_type (sequence_info t)))"
  "same_config st (enter_txn env txns t st)"
  by (simp_all add: enter_txn_def put_txns_def same_config_def)

text \<open>The hash of a transaction is taken to identify it.\<close>

definition hash_ok :: "'h store_env \<Rightarrow> bool" where
  "hash_ok env \<longleftrightarrow> inj (committed_hash env)"

lemma enter_base:
  assumes base: "base_ok env M {} {} st" and new: "M (txn_pointer t) = None" and wf: "txn_wf t" and hash: "hash_ok env"
  shows "base_ok env (M(txn_pointer t \<mapsto> t)) {} {} (enter_txn env txns t st)"
  unfolding base_ok_def enter_fields
proof (intro conjI allI)
  let ?M = "M(txn_pointer t \<mapsto> t)"
  note b = base_okD [OF base]
  show "pointers_ok ?M" using b(1) wf by (auto simp: pointers_ok_def)
  show "finite (dom ?M)" using b(2) by simp
  have keys: "ttl_keys (system_ttl_index st) = ttl_make_key expiration_time ` ran M"
      "ttl_keys (expiration_time_index st) = ttl_make_key client_expiration ` ran M" using b(4,6) by simp_all
  note sys = sys_ttl.exact_ins [OF b(3) keys(1) new wf refl]
  show "ttl_ok expiration_time (ttl_insert t (system_ttl_index st))" by (rule conjunct1 [OF sys])
  show "ttl_keys (ttl_insert t (system_ttl_index st)) = ttl_make_key expiration_time ` ran ?M - {}" using conjunct2 [OF sys] by simp
  note cli = client_ttl.exact_ins [OF b(5) keys(2) new wf refl]
  show "ttl_ok client_expiration (ttl_insert t (expiration_time_index st))" by (rule conjunct1 [OF cli])
  show "ttl_keys (ttl_insert t (expiration_time_index st)) = ttl_make_key client_expiration ` ran ?M - {}" using conjunct2 [OF cli] by simp
  have ran: "ran ?M = insert t (ran M)" using new by (rule ran_map_upd)
  show "prio_ok (priority_index st)" "lot_ok (parking_lot_index st)" by (rule b)+
  show "bs_keys (priority_index st) \<subseteq> prio_key ` ran ?M" "parked (parking_lot_index st) \<subseteq> txn_pointer ` ran ?M"
    unfolding ran using b(8,10) by auto
  show "size_bytes st + get_estimated_bytes env t = (\<Sum>p \<in> dom ?M. get_estimated_bytes env (the (?M p)))"
    using b(2,12) sum_new [of M "txn_pointer t" "get_estimated_bytes env" t] new by simp
  show "((hash_index st)(get_committed_hash env t \<mapsto> txn_pointer t)) h = Some p \<longleftrightarrow> (\<exists>u. ?M p = Some u \<and> get_committed_hash env u = h)" for h p
  proof (cases "h = get_committed_hash env t")
    case True
    have "txn_pointer u = txn_pointer t" if "M p = Some u" "get_committed_hash env u = h" for u
    proof -
      have "mt_txn u = mt_txn t" using that(2) True hash by (simp add: hash_ok_def get_committed_hash_def inj_eq)
      then show ?thesis using wf pointers_okD [OF b(1) that(1)] by (simp add: txn_pointer_def txn_wf_def get_sender_def)
    qed
    then have "\<not> (M p = Some u \<and> get_committed_hash env u = h)" for u using new pointers_okD [OF b(1), of p u] by auto
    with True show ?thesis by auto
  next
    case False
    with b(11) [of h p] new show ?thesis by auto
  qed
qed

lemma enter_ok:
  assumes inv: "store_ok env st" and new: "stored st (txn_pointer t) = None" and wf: "txn_wf t" and hash: "hash_ok env"
    and unready: "\<And>k. timeline_state t \<noteq> Ready k" and max: "txn_seq t \<noteq> - 1"
    and txns: "txns = (case transactions st (get_sender t) of Some txns \<Rightarrow> txns | None \<Rightarrow> [])"
    and seq: "\<And>k. k \<in> insert (txn_seq t) (bs_keys txns) \<Longrightarrow> min_seq (account_sequence_number_type (sequence_info t)) \<le> k"
  shows "stored (enter_txn env txns t st) = (stored st)(txn_pointer t \<mapsto> t)"
    and "indexes_ok env (stored (enter_txn env txns t st)) {} {} {txn_pointer t} (enter_txn env txns t st)"
    and "account_ok (enter_txn env txns t st) b"
proof -
  let ?st = "enter_txn env txns t st" and ?M = "(stored st)(txn_pointer t \<mapsto> t)"
  have ok: "base_ok env (stored st) {} {} st" "timeline_ok (stored st) (timeline_index st)" "cover_ok (stored st) {} st"
      and acc: "\<And>b. account_ok st b" using inv by (simp_all add: store_inv_def indexes_ok_def)
  have get: "bt_get txns k = stored st (get_sender t, k)" for k
    by (simp add: txns stored_def get_mempool_txn_def split: option.split)
  show eq: "stored ?st = ?M"
    using get by (auto simp: fun_eq_iff stored_def get_mempool_txn_def txn_pointer_def)
  have "timeline_ok ?M (timeline_index ?st)"
    unfolding enter_fields by (rule timeline_ok_unready [OF ok(2)]) (use unready new in auto)
  moreover have "cover_ok ?M {txn_pointer t} ?st"
    unfolding cover_ok_def enter_fields
  proof (intro allI impI)
    fix q u assume "?M q = Some u"
    then show "(q \<notin> {txn_pointer t} \<longrightarrow> prio_contains u (priority_index st) \<or> q \<in> parked (parking_lot_index st))
        \<and> (\<forall>k. timeline_state u = Ready k \<longrightarrow> prio_contains u (priority_index st))"
      using cover_okD [OF ok(3), of q u] unready by (cases "q = txn_pointer t") auto
  qed
  ultimately show "indexes_ok env (stored ?st) {} {} {txn_pointer t} ?st"
    unfolding eq indexes_ok_def using enter_base [OF ok(1) new wf hash, of txns] by blast
  show "account_ok ?st b"
  proof (cases "b = get_sender t")
    case True
    have "bt_wf txns \<and> (\<forall>k \<in> bs_keys txns. k \<noteq> - 1)"
    proof (cases "transactions st (get_sender t)")
      case None
      then show ?thesis by (simp add: txns)
    next
      case (Some xs)
      then have "txns = xs" by (simp add: txns)
      with Some acc [of "get_sender t"] show ?thesis unfolding account_ok_def by blast
    qed
    then have "bt_wf txns" and keys: "\<forall>k \<in> bs_keys txns. k \<noteq> - 1" by blast+
    moreover have "bt_insert (txn_seq t) t txns \<noteq> []" using bt_keys_insert [of "txn_seq t" t txns] by fastforce
    moreover have "\<forall>k \<in> bs_keys (bt_insert (txn_seq t) t txns). min_seq (account_sequence_number_type (sequence_info t)) \<le> k \<and> k \<noteq> - 1"
    proof
      fix k assume "k \<in> bs_keys (bt_insert (txn_seq t) t txns)"
      then have k: "k \<in> insert (txn_seq t) (bs_keys txns)" by simp
      with max keys have "k \<noteq> - 1" by (metis insertE)
      with seq [OF k] show "min_seq (account_sequence_number_type (sequence_info t)) \<le> k \<and> k \<noteq> - 1" by simp
    qed
    ultimately show ?thesis
      unfolding account_ok_def True enter_fields fun_upd_same by (metis bt_wf_insert option.inject)
  next
    case False
    with acc [of b] show ?thesis by (simp add: account_ok_def)
  qed
qed

text \<open>Bounds: the number of transactions altogether and of every account.\<close>

definition in_capacity :: "'h transaction_store \<Rightarrow> bool" where
  "in_capacity st \<longleftrightarrow> card (dom (stored st)) \<le> capacity st
     \<and> (\<forall>a txns. transactions st a = Some txns \<longrightarrow> length txns \<le> capacity_per_user st)"

lemma ttl_size_card:
  assumes "store_ok env st"
  shows "ttl_size (system_ttl_index st) = card (dom (stored st))"
proof -
  have base: "base_ok env (stored st) {} {} st" using assms by (simp add: store_inv_def indexes_ok_def)
  note b = base_okD [OF base]
  have "ttl_size (system_ttl_index st) = card (ttl_keys (system_ttl_index st))"
    using b(3) by (simp add: ttl_size_def ttl_keys_def ttl_ok_def bt_length)
  also have "\<dots> = card ((\<lambda>p. ttl_make_key expiration_time (the (stored st p))) ` dom (stored st))"
  proof -
    have "ran (stored st) = (\<lambda>p. the (stored st p)) ` dom (stored st)" by (force simp: ran_def)
    then show ?thesis using b(4) by (simp add: image_image)
  qed
  also have "\<dots> = card (dom (stored st))"
  proof (rule card_image, rule inj_onI)
    fix p q assume "p \<in> dom (stored st)" "q \<in> dom (stored st)"
      and eq: "ttl_make_key expiration_time (the (stored st p)) = ttl_make_key expiration_time (the (stored st q))"
    then obtain t u where "stored st p = Some t" "stored st q = Some u" by blast
    with eq sys_ttl.key_pointer [of t u] pointers_okD [OF b(1)] show "p = q" by (metis option.sel)
  qed
  finally show ?thesis .
qed

lemma account_card:
  assumes "account_ok st a" "transactions st a = Some txns"
  shows "length txns = card {k. stored st (a, k) \<noteq> None}"
proof -
  have "bt_wf txns" using assms by (simp add: account_ok_def)
  moreover have "{k. stored st (a, k) \<noteq> None} = bs_keys txns"
    using assms(2) by (auto simp: stored_def get_mempool_txn_def bt_get_None)
  ultimately show ?thesis by (simp add: bt_length)
qed

lemma in_capacity_shrink:
  assumes "store_ok env st" "store_ok env st'" "in_capacity st" "dom (stored st') \<subseteq> dom (stored st)" "same_config st st'"
  shows "in_capacity st'"
proof -
  have "card (dom (stored st')) \<le> card (dom (stored st))" by (rule card_mono [OF stored_dom [OF assms(1)] assms(4)])
  moreover have "length txns' \<le> capacity_per_user st" if t: "transactions st' a = Some txns'" for a txns'
  proof -
    have acc: "account_ok st a" "account_ok st' a" using assms(1,2) by (simp_all add: store_inv_def)
    have "txns' \<noteq> []" using acc(2) t by (simp add: account_ok_def)
    then obtain k u where "(k, u) \<in> set txns'" by (cases txns') auto
    moreover have "bt_wf txns'" using acc(2) t by (simp add: account_ok_def)
    ultimately have "(a, k) \<in> dom (stored st')" using stored_mem [OF t] by blast
    then have "(a, k) \<in> dom (stored st)" using assms(4) by blast
    then obtain txns where txns: "transactions st a = Some txns"
      by (auto simp: stored_def get_mempool_txn_def split: bind_splits)
    have "finite {k. stored st (a, k) \<noteq> None}"
      using txns by (simp add: stored_def get_mempool_txn_def bt_get_None)
    then have "card {k. stored st' (a, k) \<noteq> None} \<le> card {k. stored st (a, k) \<noteq> None}"
      by (rule card_mono) (use assms(4) in \<open>auto simp: dom_def\<close>)
    then have "length txns' \<le> length txns" using account_card [OF acc(1) txns] account_card [OF acc(2) t] by simp
    moreover have "length txns \<le> capacity_per_user st" using assms(3) txns by (simp add: in_capacity_def)
    ultimately show ?thesis by simp
  qed
  ultimately show ?thesis using assms(3,5) by (auto simp: in_capacity_def same_config_def)
qed

lemma in_capacity_contents:
  assumes "store_ok env st'" "\<And>b. account_ok st b" "contents (stored st') = contents (stored st)" "same_config st st'" "in_capacity st"
  shows "in_capacity st'"
proof -
  have dom: "dom (stored st') = dom (stored st)" by (rule contents_dom [OF assms(3)])
  have none: "stored st' p \<noteq> None \<longleftrightarrow> stored st p \<noteq> None" for p using dom by (metis domIff)
  have "length txns' \<le> capacity_per_user st" if t: "transactions st' a = Some txns'" for a txns'
  proof -
    have acc: "account_ok st' a" using assms(1) by (simp add: store_inv_def)
    then have "txns' \<noteq> []" "bt_wf txns'" using t by (simp_all add: account_ok_def)
    then obtain k u where "(k, u) \<in> set txns'" by (cases txns') auto
    then have "stored st (a, k) \<noteq> None" using stored_mem [OF t \<open>bt_wf txns'\<close>] none by force
    then obtain txns where txns: "transactions st a = Some txns" by (auto simp: stored_def get_mempool_txn_def split: bind_splits)
    have "length txns' = length txns" using account_card [OF acc t] account_card [OF assms(2) txns] none by simp
    then show ?thesis using assms(5) txns by (simp add: in_capacity_def)
  qed
  then show ?thesis using assms(4,5) dom by (auto simp: in_capacity_def same_config_def)
qed

lemma enter_capacity:
  assumes inv: "store_ok env st" and cap: "in_capacity st" and new: "stored st (txn_pointer t) = None" and less: "card (dom (stored st)) < capacity st"
    and txns: "txns = (case transactions st (get_sender t) of Some txns \<Rightarrow> txns | None \<Rightarrow> [])" "length txns < capacity_per_user st"
    and eq: "stored (enter_txn env txns t st) = (stored st)(txn_pointer t \<mapsto> t)"
  shows "in_capacity (enter_txn env txns t st)"
proof -
  let ?st = "enter_txn env txns t st"
  have conf: "capacity ?st = capacity st" "capacity_per_user ?st = capacity_per_user st"
    using enter_fields(10) [of st env txns t] by (simp_all add: same_config_def)
  have "card (dom (stored ?st)) = Suc (card (dom (stored st)))"
    unfolding eq using stored_dom [OF inv] new by (simp add: domIff)
  moreover have "length (bt_insert (txn_seq t) t txns) \<le> Suc (length txns)"
    by (induction "txn_seq t" t txns rule: bt_insert.induct) auto
  moreover have "length ts \<le> capacity_per_user st" if "transactions st b = Some ts" for b ts
    using cap that by (simp add: in_capacity_def)
  ultimately show ?thesis using less txns(2) unfolding in_capacity_def conf enter_fields by (auto split: if_splits)
qed

end
