(* ===== verification/StoreSafety.thy ===== *)
theory StoreSafety
  imports StoreOperations
begin

text \<open>
  The two operations of the transaction store that are built from several others: inserting a transaction
  (\<^verbatim>\<open>TransactionStore::insert\<close>) and collecting expired ones (\<^verbatim>\<open>TransactionStore::gc\<close>).  Both
  keep the store's invariant and never panic, and so does every run of the store from \<^verbatim>\<open>TransactionStore::new\<close>.
\<close>

section \<open>Inserting\<close>

text \<open>A transaction that may be inserted: consistent, not yet in a timeline, and not below its account's number.\<close>

abbreviation account_seq :: "mempool_transaction \<Rightarrow> u64" where
  "account_seq t \<equiv> min_seq (account_sequence_number_type (sequence_info t))"

definition insertable :: "mempool_transaction \<Rightarrow> bool" where
  "insertable t \<longleftrightarrow> txn_wf t \<and> (case timeline_state t of Ready k \<Rightarrow> False | _ \<Rightarrow> True) \<and> txn_seq t \<noteq> - 1 \<and> account_seq t \<le> txn_seq t"

lemma enter_promote_ok:
  assumes inv: "store_ok env st" and cap: "in_capacity st" and hash: "hash_ok env" and t: "insertable t"
    and new: "stored st (txn_pointer t) = None" and low: "without_below (get_sender t) (account_seq t) (stored st) = stored st"
    and less: "card (dom (stored st)) < capacity st" and room: "room (n + Suc (card (dom (stored st)))) st"
    and txns: "txns = (case transactions st (get_sender t) of Some txns \<Rightarrow> txns | None \<Rightarrow> [])" "length txns < capacity_per_user st"
  shows "\<exists>st'. process_ready_transactions (get_sender t) (account_sequence_number_type (sequence_info t)) (enter_txn env txns t st) = Some st'
    \<and> store_ok env st' \<and> same_config st st' \<and> in_capacity st' \<and> room n st'
    \<and> contents (stored st') = (contents (stored st))(txn_pointer t \<mapsto> t\<lparr>timeline_state := NotReady\<rparr>)"
proof -
  let ?st = "enter_txn env txns t st"
  have wf: "txn_wf t" "\<And>k. timeline_state t \<noteq> Ready k" "txn_seq t \<noteq> - 1" "account_seq t \<le> txn_seq t"
    using t by (auto simp: insertable_def)
  have seq: "account_seq t \<le> k" if k: "k \<in> insert (txn_seq t) (bs_keys txns)" for k
  proof (cases "k = txn_seq t")
    case True
    with wf(4) show ?thesis by simp
  next
    case False
    with k have "k \<in> bs_keys txns" by simp
    then show ?thesis
      using without_below_keys [of st "get_sender t" "account_seq t" "stored st" txns k] low txns(1) by (auto split: option.splits)
  qed
  note enter = enter_ok [OF inv new wf(1) hash wf(2,3) txns(1) seq]
  have "card (dom (stored ?st)) = Suc (card (dom (stored st)))"
    using stored_dom [OF inv] new by (simp only: enter(1) dom_fun_upd) (simp add: domIff)
  then have "room (n + card (dom (stored ?st))) ?st" using room by (simp add: room_def)
  moreover have "{txn_pointer t} \<subseteq> {get_sender t} \<times> UNIV" by (simp add: txn_pointer_def)
  moreover have "account_seq t \<le> k" if "transactions ?st (get_sender t) = Some ts" "k \<in> bs_keys ts" for ts k
    by (rule seq) (use that bt_keys_insert [of "txn_seq t" t txns] in auto)
  ultimately obtain st' where st': "process_ready_transactions (get_sender t) (account_sequence_number_type (sequence_info t)) ?st = Some st'"
      "store_ok env st'" "same_config ?st st'" "contents (stored st') = contents (stored ?st)" "room n st'"
    using process_ready_ok [OF enter(2) _ enter(3)] by metis
  have "in_capacity st'"
    by (rule in_capacity_contents [OF st'(2) enter(3) st'(4,3) enter_capacity [OF inv cap new less txns enter(1)]])
  moreover have "same_config st st'" using st'(3) enter_fields(10) by (rule same_config_trans [rotated])
  moreover have "contents (stored ?st) = (contents (stored st))(txn_pointer t \<mapsto> t\<lparr>timeline_state := NotReady\<rparr>)"
    by (subst enter(1)) (assumption, rule contents_upd)
  ultimately show ?thesis using st'(1,2,4,5) by metis
qed

lemma without_below_idem: "without_below a s (without_below a s M) = without_below a s M"
  by (auto simp: without_below_def fun_eq_iff)

text \<open>What an insertion leaves: a good store within its capacity, the transaction stored when the code is
  \<^verbatim>\<open>Accepted\<close>, and of the others only one evicted one and those below the account's number missing.\<close>

definition insert_result ::
  "'h store_env \<Rightarrow> mempool_transaction \<Rightarrow> 'h transaction_store \<Rightarrow> txn_pointer option \<Rightarrow> mempool_status_code \<Rightarrow> 'h transaction_store \<Rightarrow> bool" where
  "insert_result env t st evicted code st' \<longleftrightarrow> store_ok env st' \<and> same_config st st' \<and> in_capacity st'
     \<and> (code = Accepted \<longrightarrow> (\<exists>u. stored st' (txn_pointer t) = Some u
          \<and> (mt_txn u = mt_txn t \<or> stored st (txn_pointer t) = Some u \<and> same_request t u \<and> get_gas_price u = get_gas_price t)))
     \<and> (\<forall>p. p \<noteq> txn_pointer t \<longrightarrow> contents (stored st') p = contents (stored st) p
          \<or> contents (stored st') p = None \<and> (evicted = Some p \<or> fst p = get_sender t \<and> snd p < account_seq t))"

lemma insert_result_shrunk:
  assumes "shrinks_to env st M st'" "in_capacity st'" "code \<noteq> Accepted"
    "\<And>p. p \<noteq> txn_pointer t \<Longrightarrow> M p = stored st p \<or> M p = None \<and> (evicted = Some p \<or> fst p = get_sender t \<and> snd p < account_seq t)"
  shows "insert_result env t st evicted code st'"
  unfolding insert_result_def
proof (intro conjI allI impI)
  fix p assume "p \<noteq> txn_pointer t"
  then show "contents (stored st') p = contents (stored st) p
      \<or> contents (stored st') p = None \<and> (evicted = Some p \<or> fst p = get_sender t \<and> snd p < account_seq t)"
    using assms(4) [of p] assms(1) by (auto simp: shrinks_to_def contents_def)
qed (use assms in \<open>simp_all add: shrinks_to_def\<close>)

lemma insert_result_entered:
  assumes s: "shrinks_to env st M st1" and st': "store_ok env st'" "same_config st1 st'" "in_capacity st'"
      "contents (stored st') = (contents (stored st1))(txn_pointer t \<mapsto> t\<lparr>timeline_state := NotReady\<rparr>)"
    and M: "\<And>p. p \<noteq> txn_pointer t \<Longrightarrow> M p = stored st p \<or> M p = None \<and> (evicted = Some p \<or> fst p = get_sender t \<and> snd p < account_seq t)"
  shows "insert_result env t st evicted Accepted st'"
  unfolding insert_result_def
proof (intro conjI allI impI)
  have "contents (stored st') (txn_pointer t) = Some (t\<lparr>timeline_state := NotReady\<rparr>)" by (simp add: st'(4))
  then obtain u where u: "stored st' (txn_pointer t) = Some u" "u\<lparr>timeline_state := NotReady\<rparr> = t\<lparr>timeline_state := NotReady\<rparr>"
    by (auto simp: contents_def)
  have "mt_txn u = mt_txn (u\<lparr>timeline_state := NotReady\<rparr>)" by simp
  also have "\<dots> = mt_txn t" unfolding u(2) by simp
  finally show "\<exists>u. stored st' (txn_pointer t) = Some u
      \<and> (mt_txn u = mt_txn t \<or> stored st (txn_pointer t) = Some u \<and> same_request t u \<and> get_gas_price u = get_gas_price t)"
    using u(1) by blast
  show "same_config st st'" using s st'(2) by (auto simp: shrinks_to_def intro: same_config_trans)
next
  fix p assume "p \<noteq> txn_pointer t"
  then show "contents (stored st') p = contents (stored st) p
      \<or> contents (stored st') p = None \<and> (evicted = Some p \<or> fst p = get_sender t \<and> snd p < account_seq t)"
    using M [of p] s st'(4) by (auto simp: shrinks_to_def contents_def)
qed (use st' in simp_all)

text \<open>The insertion after the eviction, when the store is not full.\<close>

lemma insert_not_full_ok:
  assumes s: "shrinks_to env st M st2" and inv: "store_ok env st" and in2: "in_capacity st2" and full: "\<not> is_full st2"
    and hash: "hash_ok env" and t: "insertable t" and room: "room (n + Suc (card (dom (stored st)))) st" and user: "0 < capacity_per_user st"
    and sub: "dom M \<subseteq> dom (stored st)" and new: "M (txn_pointer t) = None"
    and other: "\<And>p. p \<noteq> txn_pointer t \<Longrightarrow> M p = stored st p \<or> M p = None \<and> evicted = Some p"
  shows "\<exists>code st3 st'. clean_committed_transactions env (get_sender t) (account_seq t) st2 = Some st3
    \<and> (let txns = (case transactions st3 (get_sender t) of Some txns \<Rightarrow> txns | None \<Rightarrow> []) in
         if capacity_per_user st3 \<le> length txns then code = TooManyTransactions \<and> st' = put_txns (get_sender t) txns st3
         else code = Accepted \<and> process_ready_transactions (get_sender t) (account_sequence_number_type (sequence_info t)) (enter_txn env txns t st3) = Some st')
    \<and> insert_result env t st evicted code st' \<and> room n st'"
proof -
  let ?M = "without_below (get_sender t) (account_seq t) M"
  have inv2: "store_ok env st2" "stored st2 = M" "same_config st st2" using s by (simp_all add: shrinks_to_def)
  obtain st3 where st3: "clean_committed_transactions env (get_sender t) (account_seq t) st2 = Some st3" "shrinks_to env st2 ?M st3"
    using clean_ok [OF inv2(1)] inv2(2) by blast
  have s3: "shrinks_to env st ?M st3" using shrinks_trans [OF s st3(2)] .
  have inv3: "store_ok env st3" "stored st3 = ?M" "same_config st2 st3" using st3(2) by (simp_all add: shrinks_to_def)
  have dom3: "dom (stored st3) \<subseteq> dom (stored st2)" unfolding inv2 inv3 by (rule without_below_dom)
  have in3: "in_capacity st3" by (rule in_capacity_shrink [OF inv2(1) inv3(1) in2 dom3 inv3(3)])
  have M: "?M p = stored st p \<or> ?M p = None \<and> (evicted = Some p \<or> fst p = get_sender t \<and> snd p < account_seq t)" if "p \<noteq> txn_pointer t" for p
    using other [OF that] by (auto simp: without_below_def)
  define txns where "txns = (case transactions st3 (get_sender t) of Some txns \<Rightarrow> txns | None \<Rightarrow> [])"
  show ?thesis
  proof (cases "capacity_per_user st3 \<le> length txns")
    case True
    have "capacity_per_user st3 = capacity_per_user st" using s3 by (simp add: shrinks_to_def same_config_def)
    with True user have "transactions st3 (get_sender t) = Some txns" by (auto simp: txns_def split: option.splits)
    then have put: "put_txns (get_sender t) txns st3 = st3" by (simp add: put_txns_def fun_upd_idem)
    have "insert_result env t st evicted TooManyTransactions st3" by (rule insert_result_shrunk [OF s3 in3 _ M]) simp_all
    moreover have "room n st3" using s3 by (intro room_ids [OF _ room]) (simp_all add: shrinks_to_def)
    ultimately show ?thesis
      using st3(1) True put unfolding txns_def by (intro exI [of _ TooManyTransactions] exI [of _ st3]) (simp add: Let_def)
  next
    case False
    have "ttl_size (system_ttl_index st2) < capacity st2" using full by (simp add: is_full_def)
    then have "card (dom (stored st2)) < capacity st2" using ttl_size_card [OF inv2(1)] by simp
    moreover have "card (dom (stored st3)) \<le> card (dom (stored st2))" by (rule card_mono [OF stored_dom [OF inv2(1)] dom3])
    ultimately have less: "card (dom (stored st3)) < capacity st3" using inv3(3) by (simp add: same_config_def)
    have "card (dom (stored st3)) \<le> card (dom (stored st))" using dom3 sub unfolding inv2(2) by (intro card_mono stored_dom [OF inv]) blast
    then have rm: "room (n + Suc (card (dom (stored st3)))) st3" using s3 by (intro room_ids [OF _ room]) (simp_all add: shrinks_to_def)
    have new3: "stored st3 (txn_pointer t) = None" using new by (simp add: inv3(2) without_below_def)
    have low: "without_below (get_sender t) (account_seq t) (stored st3) = stored st3" by (simp add: inv3(2) without_below_idem)
    obtain st' where st': "process_ready_transactions (get_sender t) (account_sequence_number_type (sequence_info t)) (enter_txn env txns t st3) = Some st'"
        "store_ok env st'" "same_config st3 st'" "in_capacity st'"
        "contents (stored st') = (contents (stored st3))(txn_pointer t \<mapsto> t\<lparr>timeline_state := NotReady\<rparr>)" "room n st'"
      using enter_promote_ok [OF inv3(1) in3 hash t new3 low less rm txns_def] False by auto
    have "insert_result env t st evicted Accepted st'" by (rule insert_result_entered [OF s3 st'(2-5) M])
    then show ?thesis
      using st3(1) False st'(1,6) unfolding txns_def by (intro exI [of _ Accepted] exI [of _ st3] exI [of _ st']) (simp add: Let_def)
  qed
qed

lemma store_insert_ok:
  assumes inv: "store_ok env st" and cap: "in_capacity st" and hash: "hash_ok env" and t: "insertable t"
    and room: "room (n + Suc (card (dom (stored st)))) st" and user: "0 < capacity_per_user st"
  shows "\<exists>code st' evicted. store_insert env rng t st = Some (code, st') \<and> insert_result env t st evicted code st' \<and> room n st'"
proof -
  obtain r where r: "check_current_version env t st = Some r" "case r of
       Inl code \<Rightarrow> (\<exists>u. stored st (txn_pointer t) = Some u \<and>
         (if same_request t u then (if get_gas_price u = get_gas_price t then code = Accepted
                                    else get_gas_price t < get_gas_price u \<and> code = InvalidUpdate)
          else code = InvalidUpdate))
     | Inr st' \<Rightarrow> shrinks_to env st ((stored st)(txn_pointer t := None)) st'
         \<and> (\<forall>u. stored st (txn_pointer t) = Some u \<longrightarrow> same_request t u \<and> get_gas_price u < get_gas_price t)"
    using check_current_version_ok [OF inv] by blast
  show ?thesis
  proof (cases r)
    case (Inl code)
    then have "store_insert env rng t st = Some (code, st)" using r(1) by (simp add: store_insert_def)
    moreover have "insert_result env t st None code st"
      using r(2) Inl inv cap by (auto simp: insert_result_def split: if_splits)
    moreover have "room n st" using room by (rule room_mono) simp
    ultimately show ?thesis by blast
  next
    case (Inr st1)
    then have s1: "shrinks_to env st ((stored st)(txn_pointer t := None)) st1" using r(2) by simp
    have ge: "account_seq t \<le> txn_seq t" using t by (simp add: insertable_def)
    obtain st2 evicted where c: "check_is_full_after_eviction env rng t (account_seq t) st1 = Some (is_full st2, st2)"
        "shrinks_to env st1 (without evicted (stored st1)) st2"
      using check_is_full_ok [OF shrinks_store_ok [OF s1] ge] by blast
    define M where "M = without evicted ((stored st)(txn_pointer t := None))"
    have s2: "shrinks_to env st M st2" using shrinks_trans [OF s1 c(2)] s1 by (simp add: shrinks_to_def M_def)
    have sub: "dom M \<subseteq> dom (stored st)" by (auto simp: M_def without_def split: option.splits if_splits)
    have new: "M (txn_pointer t) = None" by (simp add: M_def without_def split: option.split)
    have M: "M p = stored st p \<or> M p = None \<and> evicted = Some p" if "p \<noteq> txn_pointer t" for p
      using that by (auto simp: M_def without_def split: option.splits)
    have in2: "in_capacity st2"
      by (rule in_capacity_shrink [OF inv shrinks_store_ok [OF s2] cap]) (use s2 sub in \<open>simp_all add: shrinks_to_def\<close>)
    show ?thesis
    proof (cases "is_full st2")
      case True
      then have "store_insert env rng t st = Some (MempoolIsFull, st2)" using r(1) Inr c(1) by (simp add: store_insert_def Let_def)
      moreover have "insert_result env t st evicted MempoolIsFull st2"
        by (rule insert_result_shrunk [OF s2 in2]) (use M in auto)
      moreover have "room n st2" using s2 by (intro room_ids [OF _ room]) (simp_all add: shrinks_to_def)
      ultimately show ?thesis by blast
    next
      case False
      from insert_not_full_ok [OF s2 inv in2 False hash t room user sub new M] show ?thesis
        using r(1) Inr c(1) False by (auto simp: store_insert_def Let_def split: if_splits)
    qed
  qed
qed

section \<open>Collecting\<close>

text \<open>Two states of the store with the same transactions, whose timelines may differ in the states only.\<close>

definition only_states :: "'h transaction_store \<Rightarrow> 'h transaction_store \<Rightarrow> bool" where
  "only_states st st' \<longleftrightarrow> contents (stored st') = contents (stored st) \<and> same_config st st'
     \<and> map timeline_id (timelines (timeline_index st')) = map timeline_id (timelines (timeline_index st))"

lemma only_states_refl [simp]: "only_states st st"
  by (simp add: only_states_def)

lemma only_states_trans: "only_states st st' \<Longrightarrow> only_states st' st'' \<Longrightarrow> only_states st st''"
  by (auto simp: only_states_def intro: same_config_trans)

lemma gc_park_cover:
  assumes base: "base_ok env M Gs Gc st" and cov: "cover_ok M X st" and t: "M (txn_pointer t) = Some t" and x: "\<And>k. x \<noteq> Ready k"
  shows "cover_ok (M(txn_pointer t \<mapsto> t\<lparr>timeline_state := x\<rparr>)) X
    (st\<lparr>parking_lot_index := lot_insert t (parking_lot_index st), priority_index := prio_remove t (priority_index st), timeline_index := lines\<rparr>)"
  unfolding cover_ok_def
proof (intro allI impI)
  let ?p = "txn_pointer t" and ?st = "st\<lparr>parking_lot_index := lot_insert t (parking_lot_index st),
      priority_index := prio_remove t (priority_index st), timeline_index := lines\<rparr>"
  note b = base_okD [OF base]
  have lot: "parked (lot_insert t (parking_lot_index st)) = insert ?p (parked (parking_lot_index st))"
    using lot_insert_ok [OF b(9)] pointers_okD [OF b(1) t] by simp
  fix q u assume u: "(M(?p \<mapsto> t\<lparr>timeline_state := x\<rparr>)) q = Some u"
  show "(q \<notin> X \<longrightarrow> prio_contains u (priority_index ?st) \<or> q \<in> parked (parking_lot_index ?st))
      \<and> (\<forall>k. timeline_state u = Ready k \<longrightarrow> prio_contains u (priority_index ?st))"
  proof (cases "q = ?p")
    case True
    with u lot x show ?thesis by auto
  next
    case False
    have same: "(M(?p := None))(?p \<mapsto> t) = M" using t by auto
    have "(M(?p := None)) q = Some u" "M q = Some u" using u False by simp_all
    then have "prio_contains u (prio_remove t (priority_index st)) \<longleftrightarrow> prio_contains u (priority_index st)"
      using prio.other_key [of "M(?p := None)" t q u] b(1) same by (simp add: prio_contains_iff prio_remove_def)
    with cover_okD [OF cov \<open>M q = Some u\<close>] lot show ?thesis by auto
  qed
qed

lemma gc_park_ok:
  assumes inv: "store_inv env Gs Gc X st"
  shows "\<exists>st'. gc_park a s st = Some st' \<and> store_inv env Gs Gc X st' \<and> only_states st st'"
proof (cases "stored st (a, s)")
  case None
  then have "gc_park a s st = Some st" by (auto simp: gc_park_def stored_def get_mempool_txn_def split: option.split)
  with inv show ?thesis by simp
next
  case (Some t)
  then obtain txns where txns: "transactions st a = Some txns" "bt_get txns s = Some t"
    by (auto simp: stored_def get_mempool_txn_def split: bind_splits)
  have ok: "indexes_ok env (stored st) Gs Gc X st" and acc: "\<And>b. account_ok st b" using inv by (simp_all add: store_inv_def)
  note p = stored_pointer [OF ok txns]
  let ?M = "stored st" and ?p = "(a, s)"
  have base: "base_ok env ?M Gs Gc st" and tl: "timeline_ok ?M (timeline_index st)" and cov: "cover_ok ?M X st"
    using ok by (simp_all add: indexes_ok_def)
  note b = base_okD [OF base]
  have t: "?M (txn_pointer t) = Some t" using Some p(1) by simp
  have same: "(?M(txn_pointer t := None))(txn_pointer t \<mapsto> t) = ?M" using t by auto
  obtain lines where lines: "multi_remove t (timeline_index st) = Some lines" "timeline_ok (?M(txn_pointer t := None)) lines"
      "map timeline_id (timelines lines) = map timeline_id (timelines (timeline_index st))"
    using multi_remove_ok [of "?M(txn_pointer t := None)" t "timeline_index st"] tl same by auto
  obtain x where x: "(case timeline_state t of Ready _ \<Rightarrow> t\<lparr>timeline_state := NotReady\<rparr> | _ \<Rightarrow> t) = t\<lparr>timeline_state := x\<rparr>" "\<And>k. x \<noteq> Ready k"
  proof (cases "timeline_state t")
    case (Ready k)
    then show thesis by (intro that [of NotReady]) simp_all
  qed (intro that [of "timeline_state t"], simp_all)+
  let ?t = "t\<lparr>timeline_state := x\<rparr>"
  let ?st = "st\<lparr>parking_lot_index := lot_insert t (parking_lot_index st), priority_index := prio_remove t (priority_index st), timeline_index := lines\<rparr>"
  let ?st' = "put_txns a (bt_insert s ?t txns) ?st"
  have eq: "stored ?st' = ?M(txn_pointer t \<mapsto> ?t)"
    using txns(1) p(1) by (auto simp: fun_eq_iff stored_def get_mempool_txn_def put_txns_def)
  have "timeline_ok (?M(txn_pointer t \<mapsto> ?t)) lines" by (rule timeline_ok_unready [OF lines(2)]) (use x(2) in auto)
  moreover have "base_ok env ?M Gs Gc ?st"
  proof -
    have "parked (lot_insert t (parking_lot_index st)) \<subseteq> txn_pointer ` ran ?M" "lot_ok (lot_insert t (parking_lot_index st))"
      using lot_insert_ok [OF b(9) p(4)] b(10) ran_key [of ?M _ t txn_pointer] t by simp_all
    moreover have "prio_ok (prio_remove t (priority_index st))" "bs_keys (prio_remove t (priority_index st)) \<subseteq> prio_key ` ran ?M"
      using prio_remove_ok [OF b(7)] b(8) by (auto simp: prio_remove_def)
    ultimately show ?thesis using base unfolding base_ok_def by simp
  qed
  ultimately have "indexes_ok env (stored ?st') Gs Gc X ?st'"
    unfolding eq indexes_ok_put using base_ok_state [where p = "txn_pointer t" and t = t and M = ?M and x = x] t gc_park_cover [OF base cov t x(2)] by (simp add: indexes_ok_def)
  moreover have "account_ok ?st' b" for b
  proof (cases "b = a")
    case True
    have "bt_wf txns" using acc [of a] txns(1) by (simp add: account_ok_def)
    moreover have "s \<in> bs_keys txns" using txns(2) bt_get_None [of txns s] by auto
    then have keys: "bs_keys (bt_insert s ?t txns) = bs_keys txns" using bt_keys_insert [of s ?t txns] by auto
    moreover have "bt_insert s ?t txns \<noteq> []" using bt_keys_insert [of s ?t txns] by fastforce
    ultimately show ?thesis unfolding True by (intro account_ok_keys [OF acc txns(1) _ _ _ equalityD1 [OF keys]]) simp_all
  next
    case False
    with acc [of b] show ?thesis by (simp add: account_ok_def)
  qed
  moreover have "contents (stored ?st') = contents ?M" unfolding eq using t by (auto simp: contents_def fun_eq_iff)
  ultimately show ?thesis
    using txns lines x(1) by (intro exI [of _ ?st']) (simp add: gc_park_def store_inv_def only_states_def same_config_def put_txns_def)
qed

lemma gc_park_all_ok:
  assumes "store_inv env Gs Gc X st"
  shows "\<exists>st'. ofold (gc_park a) ss st = Some st' \<and> store_inv env Gs Gc X st' \<and> only_states st st'"
  using assms
proof (induction ss arbitrary: st)
  case (Cons s ss)
  from gc_park_ok [OF Cons.prems, of a s] obtain st1 where st1: "gc_park a s st = Some st1" "store_inv env Gs Gc X st1" "only_states st st1" by blast
  from Cons.IH [OF st1(2)] st1(1,3) show ?case by (auto intro: only_states_trans)
qed simp

text \<open>Collecting one expired transaction parks those behind it and removes it.\<close>

lemma gc_key_ok:
  assumes inv: "store_inv env Gs Gc {} st"
    and up_to: "\<And>s'. (case next_key of Some (_, a', s') \<Rightarrow> if a = a' then Some s' else None | None \<Rightarrow> None) = Some s' \<Longrightarrow> s < s'"
  shows "\<exists>st'. gc_key env (e, a, s) next_key st = Some st' \<and> store_inv env Gs Gc {} st' \<and> same_config st st'
    \<and> contents (stored st') = (contents (stored st))((a, s) := None)
    \<and> map timeline_id (timelines (timeline_index st')) = map timeline_id (timelines (timeline_index st))"
proof (cases "transactions st a")
  case None
  then have "contents (stored st) (a, s) = None" by (simp add: contents_def stored_def get_mempool_txn_def)
  with None inv show ?thesis by (simp add: gc_key_def fun_upd_idem)
next
  case (Some txns)
  let ?up = "case next_key of Some (_, a', s') \<Rightarrow> if a = a' then Some s' else None | None \<Rightarrow> None"
  obtain following where f: "gc_range s ?up txns = Some following"
    using up_to unfolding gc_range_def by (cases ?up) auto
  obtain st1 where st1: "ofold (gc_park a) following st = Some st1" "store_inv env Gs Gc {} st1" "only_states st st1"
    using gc_park_all_ok [OF inv] by blast
  have key: "gc_key env (e, a, s) next_key st = (case transactions st1 a of
      None \<Rightarrow> Some st1
    | Some txns1 \<Rightarrow> (case bt_get txns1 s of None \<Rightarrow> Some st1 | Some t \<Rightarrow> index_remove env t (put_txns a (bt_remove s txns1) st1)))"
    using Some f st1(1) by (simp add: gc_key_def)
  show ?thesis
  proof (cases "stored st1 (a, s)")
    case None
    then have "contents (stored st1) (a, s) = None" by (simp add: contents_def)
    moreover have "gc_key env (e, a, s) next_key st = Some st1"
      unfolding key using None by (auto simp: stored_def get_mempool_txn_def split: option.split)
    ultimately show ?thesis using st1(2,3) by (simp add: only_states_def fun_upd_idem)
  next
    case (Some t)
    then obtain txns1 where t: "transactions st1 a = Some txns1" "bt_get txns1 s = Some t"
      by (auto simp: stored_def get_mempool_txn_def split: bind_splits)
    obtain st' where st': "index_remove env t (put_txns a (bt_remove s txns1) st1) = Some st'" "store_inv env Gs Gc {} st'"
        "stored st' = (stored st1)((a, s) := None)" "same_config st1 st'"
        "map timeline_id (timelines (timeline_index st')) = map timeline_id (timelines (timeline_index st1))"
      using remove_stored [OF st1(2) t] by blast
    then show ?thesis
      using t st1(3) unfolding key by (intro exI [of _ st']) (auto simp: only_states_def intro: same_config_trans)
  qed
qed

lemma gc_keys_ok:
  assumes "store_inv env Gs Gc {} st" "sorted_wrt (<) (map snd ks)"
  shows "\<exists>st'. gc_keys env ks st = Some st' \<and> store_inv env Gs Gc {} st' \<and> same_config st st'
    \<and> contents (stored st') = (\<lambda>p. if p \<in> snd ` set ks then None else contents (stored st) p)
    \<and> map timeline_id (timelines (timeline_index st')) = map timeline_id (timelines (timeline_index st))"
  using assms
proof (induction ks arbitrary: st)
  case (Cons k ks)
  obtain e a s where k: "k = (e, a, s)" by (cases k)
  have "s < s'" if "(case (case ks of [] \<Rightarrow> None | k' # _ \<Rightarrow> Some k') of Some (_, a', s') \<Rightarrow> if a = a' then Some s' else None | None \<Rightarrow> None) = Some s'" for s'
    using that Cons.prems(2) k by (auto split: list.splits if_splits)
  from gc_key_ok [OF Cons.prems(1) this] obtain st1 where st1: "gc_key env k (case ks of [] \<Rightarrow> None | k' # _ \<Rightarrow> Some k') st = Some st1"
      "store_inv env Gs Gc {} st1" "same_config st st1" "contents (stored st1) = (contents (stored st))((a, s) := None)"
      "map timeline_id (timelines (timeline_index st1)) = map timeline_id (timelines (timeline_index st))"
    unfolding k by blast
  have sorted: "sorted_wrt (<) (map snd ks)" using Cons.prems(2) by simp
  obtain st' where st': "gc_keys env ks st1 = Some st'" "store_inv env Gs Gc {} st'" "same_config st1 st'"
      "contents (stored st') = (\<lambda>p. if p \<in> snd ` set ks then None else contents (stored st1) p)"
      "map timeline_id (timelines (timeline_index st')) = map timeline_id (timelines (timeline_index st1))"
    using Cons.IH [OF st1(2) sorted] by blast
  have "contents (stored st') = (\<lambda>p. if p \<in> snd ` set (k # ks) then None else contents (stored st) p)"
    unfolding st'(4) st1(4) k by (auto simp: fun_eq_iff)
  moreover have "gc_keys env (k # ks) st = Some st'" using st1(1) st'(1) by simp
  ultimately show ?case using st'(2,5) st1(5) same_config_trans [OF st1(3) st'(3)] by auto
qed simp

text \<open>What remains of the stored transactions when those that expired before \<open>now\<close> are taken out.\<close>

definition unexpired ::
  "(mempool_transaction \<Rightarrow> duration) \<Rightarrow> duration \<Rightarrow> (txn_pointer \<rightharpoonup> mempool_transaction) \<Rightarrow> txn_pointer \<rightharpoonup> mempool_transaction" where
  "unexpired f now M p = (case M p of None \<Rightarrow> None | Some t \<Rightarrow> if f t < now then None else Some t)"

lemma ttl_below: "k < (now, 0, 0) \<longleftrightarrow> fst k < now" for k :: ttl_ordering_key
  by (cases k) (auto simp: less_prod_def)

lemma ttl_gc_ok:
  assumes i: "ttl_ok f i" "ttl_keys i = ttl_make_key f ` ran M" and M: "pointers_ok M" and gc: "ttl_gc now i = (keys, i')"
  shows "ttl_ok f i'" "ttl_keys i' = ttl_make_key f ` ran M - set keys" "distinct (map snd keys)"
    and "snd ` set keys = {p. \<exists>t. M p = Some t \<and> f t < now}" "set keys = {k \<in> ttl_make_key f ` ran M. fst k < now}"
proof -
  have wf: "bt_wf (ttl_data i)" and keys: "keys = map fst (bt_below (now, 0, 0) (ttl_data i))"
      and i': "i' = i\<lparr>ttl_data := filter (\<lambda>e. (now, 0, 0) \<le> fst e) (ttl_data i)\<rparr>"
    using i(1) gc by (simp_all add: ttl_ok_def ttl_gc_def Let_def)
  have set: "set keys = {k \<in> ttl_keys i. k < (now, 0, 0)}" unfolding keys ttl_keys_def bt_below_def by auto
  show eq: "set keys = {k \<in> ttl_make_key f ` ran M. fst k < now}" unfolding set i(2) ttl_below ..
  show "ttl_ok f i'" using i(1) by (simp add: i' ttl_ok_def)
  have "ttl_keys i' = ttl_keys i - set keys" unfolding set by (auto simp: i' ttl_keys_def not_less)
  then show "ttl_keys i' = ttl_make_key f ` ran M - set keys" by (simp add: i(2))
  have snd: "snd (ttl_make_key f t) = txn_pointer t" for t by (simp add: ttl_make_key_def txn_pointer_def)
  have ran: "t \<in> ran M \<longleftrightarrow> M (txn_pointer t) = Some t" for t using M unfolding ran_def pointers_ok_def by blast
  have "inj_on snd (set keys)"
  proof (rule inj_onI)
    fix k k' assume "k \<in> set keys" "k' \<in> set keys" "snd k = snd k'"
    then obtain t t' where "k = ttl_make_key f t" "k' = ttl_make_key f t'" "t \<in> ran M" "t' \<in> ran M" "txn_pointer t = txn_pointer t'"
      unfolding eq using snd by auto
    then show "k = k'" using ran by (metis option.inject)
  qed
  moreover have "distinct keys" using bt_wf_distinct [of "bt_below (now, 0, 0) (ttl_data i)"] wf by (simp add: keys)
  ultimately show "distinct (map snd keys)" by (simp add: distinct_map)
  show "snd ` set keys = {p. \<exists>t. M p = Some t \<and> f t < now}"
  proof (intro set_eqI iffI)
    fix p assume "p \<in> snd ` set keys"
    then obtain t where "t \<in> ran M" "f t < now" "p = txn_pointer t" unfolding eq using snd by (auto simp: ttl_make_key_def)
    then show "p \<in> {p. \<exists>t. M p = Some t \<and> f t < now}" using ran by auto
  next
    fix p assume "p \<in> {p. \<exists>t. M p = Some t \<and> f t < now}"
    then obtain t where t: "M p = Some t" "f t < now" by blast
    then have "ttl_make_key f t \<in> set keys" "snd (ttl_make_key f t) = p"
      unfolding eq using snd pointers_okD [OF M t(1)] by (auto intro: ranI simp: ttl_make_key_def)
    then show "p \<in> snd ` set keys" by force
  qed
qed

lemma sorted_keys:
  fixes keys :: "('a \<times> 'b :: linorder) list"
  assumes "distinct (map snd keys)"
  shows "sorted_wrt (<) (map snd (sort_key snd keys))"
proof -
  have "distinct (map snd (sort_key snd keys))" using assms by (simp add: distinct_map)
  moreover have "sorted (map snd (sort_key snd keys))" by (rule sorted_sort_key)
  ultimately show ?thesis by (simp add: strict_sorted_iff)
qed

text \<open>When the expired transactions are gone, so are the keys that the collection took out of the index.\<close>

lemma collected_keys:
  assumes inv: "store_inv env Gs Gc {} st" and Gs: "\<And>k. k \<in> Gs \<Longrightarrow> stored st (snd k) = None" and Gc: "\<And>k. k \<in> Gc \<Longrightarrow> stored st (snd k) = None"
  shows "store_ok env st"
proof -
  have base: "base_ok env (stored st) Gs Gc st" using inv by (simp add: store_inv_def indexes_ok_def)
  have key: "ttl_make_key f t \<notin> G" if "\<And>k. k \<in> G \<Longrightarrow> stored st (snd k) = None" "t \<in> ran (stored st)" for f t G
  proof
    assume "ttl_make_key f t \<in> G"
    then have "stored st (txn_pointer t) = None" using that(1) by (fastforce simp: ttl_make_key_def txn_pointer_def)
    moreover have "stored st (txn_pointer t) = Some t" using that(2) base_okD(1) [OF base] unfolding ran_def pointers_ok_def by blast
    ultimately show False by simp
  qed
  have no: "ttl_make_key f ` ran (stored st) - G = ttl_make_key f ` ran (stored st)" if "\<And>k. k \<in> G \<Longrightarrow> stored st (snd k) = None" for f G
    using key [OF that] by auto
  have "ttl_make_key f ` ran (stored st) - Gs = ttl_make_key f ` ran (stored st)" "ttl_make_key f ` ran (stored st) - Gc = ttl_make_key f ` ran (stored st)" for f
    by (rule no, erule Gs) (rule no, erule Gc)
  then have "base_ok env (stored st) {} {} st" using base unfolding base_ok_def by simp
  with inv show ?thesis by (simp add: store_inv_def indexes_ok_def)
qed

lemma store_gc_ok:
  assumes inv: "store_ok env st"
  shows "\<exists>st'. store_gc env now by_system_ttl st = Some st' \<and> store_ok env st' \<and> same_config st st'
    \<and> contents (stored st') = contents (unexpired (if by_system_ttl then expiration_time else client_expiration) now (stored st))
    \<and> map timeline_id (timelines (timeline_index st')) = map timeline_id (timelines (timeline_index st))"
proof -
  let ?f = "if by_system_ttl then expiration_time else client_expiration"
  let ?i = "if by_system_ttl then system_ttl_index st else expiration_time_index st"
  obtain keys i' where gc: "ttl_gc now ?i = (keys, i')" by (cases "ttl_gc now ?i") auto
  have ok: "base_ok env (stored st) {} {} st" "timeline_ok (stored st) (timeline_index st)" "cover_ok (stored st) {} st"
      and acc: "\<And>b. account_ok st b" using inv by (simp_all add: store_inv_def indexes_ok_def)
  note b = base_okD [OF ok(1)]
  have "ttl_ok ?f ?i" "ttl_keys ?i = ttl_make_key ?f ` ran (stored st)" using b(3-6) by simp_all
  note g = ttl_gc_ok [OF this b(1) gc]
  let ?st = "if by_system_ttl then st\<lparr>system_ttl_index := i'\<rparr> else st\<lparr>expiration_time_index := i'\<rparr>"
  let ?Gs = "if by_system_ttl then set keys else {}" and ?Gc = "if by_system_ttl then {} else set keys"
  have st: "stored ?st = stored st" by (simp add: stored_def get_mempool_txn_def fun_eq_iff)
  have "base_ok env (stored st) ?Gs ?Gc ?st" using ok(1) g(1,2) unfolding base_ok_def by (cases by_system_ttl) simp_all
  moreover have "timeline_ok (stored st) (timeline_index ?st)" "cover_ok (stored st) {} ?st" "account_ok ?st a" for a
    using ok(2,3) acc [of a] by (simp_all add: cover_ok_def account_ok_def)
  ultimately have "store_inv env ?Gs ?Gc {} ?st" unfolding store_inv_def indexes_ok_def st by blast
  from gc_keys_ok [OF this sorted_keys [OF g(3)]] obtain st' where st': "gc_keys env (sort_key snd keys) ?st = Some st'"
      "store_inv env ?Gs ?Gc {} st'" "same_config ?st st'"
      "contents (stored st') = (\<lambda>p. if p \<in> snd ` set keys then None else contents (stored st) p)"
      "map timeline_id (timelines (timeline_index st')) = map timeline_id (timelines (timeline_index ?st))"
    unfolding st set_sort by (elim exE conjE) (rule that)
  have "stored st' (snd k) = None" if "k \<in> set keys" for k
    using fun_cong [OF st'(4), of "snd k"] that by (simp add: contents_def)
  then have "store_ok env st'" by (intro collected_keys [OF st'(2)]) (auto split: if_splits)
  moreover have "contents (stored st') = contents (unexpired ?f now (stored st))"
    unfolding st'(4) g(4) by (auto simp: contents_def unexpired_def fun_eq_iff split: option.split)
  moreover have "store_gc env now by_system_ttl st = Some st'" using st'(1) gc by (simp add: store_gc_def)
  moreover have "same_config st st'" using st'(3) by (auto simp: same_config_def split: if_splits)
  moreover have "timeline_index ?st = timeline_index st" by simp
  ultimately show ?thesis using st'(5) by metis
qed

lemma store_gc_capacity:
  assumes "store_ok env st" "in_capacity st" "store_gc env now by_system_ttl st = Some st'"
  shows "in_capacity st'"
proof -
  let ?M = "unexpired (if by_system_ttl then expiration_time else client_expiration) now (stored st)"
  have st': "store_ok env st'" "same_config st st'" "contents (stored st') = contents ?M"
    using store_gc_ok [OF assms(1), of now by_system_ttl] assms(3) by auto
  have "dom ?M \<subseteq> dom (stored st)" by (auto simp: unexpired_def split: option.splits if_splits)
  then have "dom (stored st') \<subseteq> dom (stored st)" unfolding contents_dom [OF st'(3)] .
  then show ?thesis by (rule in_capacity_shrink [OF assms(1) st'(1) assms(2) _ st'(2)])
qed

section \<open>Runs of the store\<close>

text \<open>The calls that change the store, and the states that they reach from an empty one.\<close>

datatype 'h store_call =
  Insert nat mempool_transaction
| Commit address u64
| Reject address u64 'h
| Collect duration bool

definition store_call :: "'h store_env \<Rightarrow> 'h store_call \<Rightarrow> 'h transaction_store \<Rightarrow> 'h transaction_store option" where
  "store_call env c st =
     (case c of
        Insert rng t \<Rightarrow> map_option snd (store_insert env rng t st)
      | Commit a s \<Rightarrow> store_commit env a s st
      | Reject a s h \<Rightarrow> store_reject env a s h st
      | Collect now by_system_ttl \<Rightarrow> store_gc env now by_system_ttl st)"

text \<open>Insertions are of transactions that the shared mempool has checked, and no account is at its last number.\<close>

definition admissible :: "'h store_call \<Rightarrow> bool" where
  "admissible c \<longleftrightarrow> (case c of Insert _ t \<Rightarrow> insertable t | Commit _ s \<Rightarrow> s \<noteq> - 1 | _ \<Rightarrow> True)"

inductive store_reach :: "'h store_env \<Rightarrow> mempool_config \<Rightarrow> nat \<Rightarrow> 'h transaction_store \<Rightarrow> bool" for env config where
  start: "store_new config = Some st \<Longrightarrow> store_reach env config 0 st"
| step: "store_reach env config n st \<Longrightarrow> admissible c \<Longrightarrow> store_call env c st = Some st' \<Longrightarrow> store_reach env config (Suc n) st'"

text \<open>A configuration that admits transactions, and few enough calls that no timeline runs out of numbers.\<close>

definition in_budget :: "mempool_config \<Rightarrow> nat \<Rightarrow> bool" where
  "in_budget config n \<longleftrightarrow> n * Suc (config_capacity config) + 2 \<le> 2 ^ 64"

definition budget :: "mempool_config \<Rightarrow> nat \<Rightarrow> nat" where
  "budget config n = 2 ^ 64 - 2 - n * Suc (config_capacity config)"

lemma budget_Suc: "in_budget config (Suc n) \<Longrightarrow> budget config n = budget config (Suc n) + Suc (config_capacity config)"
  by (simp add: in_budget_def budget_def)

definition run_ok :: "'h store_env \<Rightarrow> mempool_config \<Rightarrow> nat \<Rightarrow> 'h transaction_store \<Rightarrow> bool" where
  "run_ok env config n st \<longleftrightarrow> store_ok env st \<and> in_capacity st \<and> room (budget config n) st
     \<and> capacity st = config_capacity config \<and> capacity_per_user st = config_capacity_per_user config"

lemma store_new_ok:
  assumes "store_new config = Some st"
  shows "run_ok env config 0 st"
proof -
  obtain lines where lines: "multi_new (broadcast_buckets config) = Inr lines"
    using assms by (auto simp: store_new_def split: sum.splits)
  have M: "stored st = Map.empty" using assms lines by (auto simp: store_new_def stored_def get_mempool_txn_def fun_eq_iff)
  have "timeline_ok Map.empty lines" by (rule multi_new_ok [OF lines])
  then have "store_ok env st"
    using assms lines unfolding store_inv_def indexes_ok_def M
    by (auto simp: store_new_def base_ok_def cover_ok_def account_ok_def pointers_ok_def ttl_ok_def ttl_keys_def ttl_new_def prio_ok_def)
  moreover have "room (budget config 0) st"
    using assms lines by (auto simp: store_new_def room_def budget_def multi_new_def timeline_new_def split: if_splits)
  moreover have "in_capacity st" using assms lines unfolding in_capacity_def M by (auto simp: store_new_def)
  ultimately show ?thesis using assms lines by (auto simp: run_ok_def store_new_def)
qed

lemma same_config_run:
  assumes "same_config st st'" "run_ok env config n st" "store_ok env st'" "in_capacity st'" "room (budget config (Suc n)) st'"
  shows "run_ok env config (Suc n) st'"
  using assms by (simp add: run_ok_def same_config_def)

lemma store_call_ok:
  assumes run: "run_ok env config n st" and hash: "hash_ok env" and c: "admissible c"
    and b: "in_budget config (Suc n)" and user: "0 < config_capacity_per_user config"
  shows "\<exists>st'. store_call env c st = Some st' \<and> run_ok env config (Suc n) st'"
proof -
  have inv: "store_ok env st" and cap: "in_capacity st" and conf: "capacity st = config_capacity config" "capacity_per_user st = config_capacity_per_user config"
    using run by (simp_all add: run_ok_def)
  have "card (dom (stored st)) \<le> config_capacity config" using cap conf by (simp add: in_capacity_def)
  then have room: "room (budget config (Suc n) + Suc (card (dom (stored st)))) st"
    using run budget_Suc [OF b] by (auto simp: run_ok_def intro: room_mono)
  have next_run: "run_ok env config (Suc n) st'" if "shrinks_to env st M st'" "dom M \<subseteq> dom (stored st)" for M st'
    using that by (intro same_config_run [OF _ run] in_capacity_shrink [OF inv _ cap] room_ids [OF _ room]) (simp_all add: shrinks_to_def)
  show ?thesis
  proof (cases c)
    case (Insert rng t)
    then have "insertable t" using c by (simp add: admissible_def)
    from store_insert_ok [OF inv cap hash this room, where rng = rng] user conf obtain code st' evicted where
        "store_insert env rng t st = Some (code, st')" "insert_result env t st evicted code st'" "room (budget config (Suc n)) st'" by auto
    then show ?thesis using Insert same_config_run [OF _ run] by (auto simp: store_call_def insert_result_def)
  next
    case (Commit a s)
    then have "s \<noteq> - 1" using c by (simp add: admissible_def)
    from store_commit_ok [OF inv this room_mono [OF room], of "budget config (Suc n)"] obtain st' where st': "store_commit env a s st = Some st'"
        "store_ok env st'" "same_config st st'" "room (budget config (Suc n)) st'"
        "contents (stored st') = contents (without_below a (max (case sequence_numbers st a of Some v \<Rightarrow> v | None \<Rightarrow> 0) (s + 1)) (stored st))"
      by auto
    have "dom (stored st') \<subseteq> dom (stored st)" unfolding contents_dom [OF st'(5)] by (rule without_below_dom)
    then have "in_capacity st'" by (rule in_capacity_shrink [OF inv st'(2) cap _ st'(3)])
    then show ?thesis using Commit st'(1-4) same_config_run [OF _ run] by (auto simp: store_call_def)
  next
    case (Reject a s h)
    from store_reject_ok [OF inv, of a s h] next_run show ?thesis
      unfolding Reject store_call_def by (fastforce split: if_splits)
  next
    case (Collect now by_system_ttl)
    from store_gc_ok [OF inv, of now by_system_ttl] obtain st' where st': "store_gc env now by_system_ttl st = Some st'" "store_ok env st'" "same_config st st'"
        "map timeline_id (timelines (timeline_index st')) = map timeline_id (timelines (timeline_index st))" by blast
    have "room (budget config (Suc n)) st'" by (rule room_ids [OF st'(4) room]) simp
    then show ?thesis
      using Collect st' same_config_run [OF st'(3) run st'(2) store_gc_capacity [OF inv cap st'(1)]] by (simp add: store_call_def)
  qed
qed

lemma store_reach_ok:
  assumes "store_reach env config n st" "hash_ok env" "in_budget config n" "0 < config_capacity_per_user config"
  shows "run_ok env config n st"
  using assms
proof (induction rule: store_reach.induct)
  case (start st)
  then show ?case by (intro store_new_ok)
next
  case (step n st c st')
  have "in_budget config n" using step.prems(2) by (simp add: in_budget_def)
  with step have "run_ok env config n st" by blast
  from store_call_ok [OF this step.prems(1) step.hyps(2) step.prems(2,3)] step.hyps(3) show ?case by simp
qed

end
