(* ===== verification/StoreProperties.thy ===== *)
theory StoreProperties
  imports StoreSafety
begin

text \<open>
  What the transaction store of the mempool promises: no call panics, the store stays within its
  capacity, its indexes agree with the stored transactions, and each operation changes exactly the
  transactions it is meant to change.  The properties speak of every state that calls reach from an
  empty store.
\<close>

section \<open>Lookups\<close>

lemma store_get_contents: "store_get st a s = map_option mt_txn (contents (stored st) (a, s))"
  by (simp add: store_get_def contents_def stored_def option.map_comp o_def)

lemma reached_store:
  assumes "store_reach env config n st" "hash_ok env" "in_budget config (Suc n)" "0 < config_capacity_per_user config"
  shows "run_ok env config n st" "store_ok env st" "in_capacity st" "room (budget config (Suc n) + Suc (card (dom (stored st)))) st"
    "0 < capacity_per_user st"
proof -
  have "in_budget config n" using assms(3) by (simp add: in_budget_def)
  then show run: "run_ok env config n st" by (rule store_reach_ok [OF assms(1,2) _ assms(4)])
  then show "store_ok env st" "in_capacity st" "0 < capacity_per_user st" using assms(4) by (simp_all add: run_ok_def)
  have "card (dom (stored st)) \<le> config_capacity config" using run by (simp add: run_ok_def in_capacity_def)
  then show "room (budget config (Suc n) + Suc (card (dom (stored st)))) st"
    using run budget_Suc [OF assms(3)] by (auto simp: run_ok_def intro: room_mono)
qed

lemma get_by_hash_stored:
  assumes "store_ok env st"
  shows "get_by_hash st h = Some txn \<longleftrightarrow> (\<exists>p u. stored st p = Some u \<and> mt_txn u = txn \<and> committed_hash env txn = h)"
proof -
  have hash: "hash_index st h = Some p \<longleftrightarrow> (\<exists>t. stored st p = Some t \<and> committed_hash env (mt_txn t) = h)" for p
    using base_okD(11) [of env "stored st" "{}" "{}" st h p] assms by (simp add: store_inv_def indexes_ok_def get_committed_hash_def)
  show ?thesis
  proof
    assume "get_by_hash st h = Some txn"
    then obtain a s where p: "hash_index st h = Some (a, s)" "store_get st a s = Some txn"
      by (auto simp: get_by_hash_def split: option.splits)
    then obtain u where "stored st (a, s) = Some u" "committed_hash env (mt_txn u) = h" using hash by blast
    with p(2) show "\<exists>p u. stored st p = Some u \<and> mt_txn u = txn \<and> committed_hash env txn = h"
      by (intro exI [of _ "(a, s)"] exI [of _ u]) (simp add: store_get_def stored_def)
  next
    assume "\<exists>p u. stored st p = Some u \<and> mt_txn u = txn \<and> committed_hash env txn = h"
    then obtain a s u where u: "stored st (a, s) = Some u" "mt_txn u = txn" "committed_hash env txn = h" by auto
    then have "hash_index st h = Some (a, s)" using hash [of "(a, s)"] by auto
    with u show "get_by_hash st h = Some txn" by (simp add: get_by_hash_def store_get_def stored_def)
  qed
qed

section \<open>Transactions that continue the sequence\<close>

lemma promote_dec:
  fixes s :: u64
  assumes "s \<noteq> - 1"
  shows "unat (- 1 - (s + 1)) < unat (- 1 - s)"
proof -
  have "- 1 - s \<noteq> 0" using assms by simp
  then have "unat (- 1 - s - 1) < unat (- 1 - s)" by (rule measure_unat)
  moreover have "- 1 - s - 1 = - 1 - (s + 1)" by simp
  ultimately show ?thesis by (simp only:)
qed

lemma promote_unfold:
  assumes "promote a s st = Some (s', st')" "stored st (a, s) = Some t"
  obtains x st1 where "s \<noteq> - 1" "promote a (s + 1) st1 = Some (s', st')" "stored st1 = (stored st)((a, s) \<mapsto> t\<lparr>timeline_state := x\<rparr>)"
    "bs_keys (priority_index st1) = insert (prio_key t) (bs_keys (priority_index st))"
proof -
  obtain txns where txns: "transactions st a = Some txns" "bt_get txns s = Some t"
    using assms(2) by (auto simp: stored_def get_mempool_txn_def split: bind_splits)
  with assms(1) obtain t' lines lot where step: "(if timeline_state t = NotReady then multi_insert t (timeline_index st) else Some (t, timeline_index st)) = Some (t', lines)"
      "s \<noteq> - 1" "promote a (s + 1) (put_txns a (bt_insert s t' txns)
          (st\<lparr>priority_index := prio_insert t (priority_index st), timeline_index := lines, parking_lot_index := lot\<rparr>)) = Some (s', st')"
    by (subst (asm) promote.simps) (auto split: bind_splits if_splits)
  have "\<exists>x. t' = t\<lparr>timeline_state := x\<rparr>"
  proof (cases "timeline_state t = NotReady")
    case True
    with step(1) show ?thesis by (auto simp: multi_insert_def timeline_insert_def split: bind_splits)
  next
    case False
    with step(1) have "t' = t\<lparr>timeline_state := timeline_state t\<rparr>" by simp
    then show ?thesis by blast
  qed
  then obtain x where x: "t' = t\<lparr>timeline_state := x\<rparr>" ..
  show thesis
    by (rule that [OF step(2,3), of x]) (use txns x in \<open>auto simp: fun_eq_iff stored_def get_mempool_txn_def put_txns_def prio_insert_def\<close>)
qed

lemma promote_queue:
  assumes "promote a s st = Some (s', st')"
  shows "bs_keys (priority_index st) \<subseteq> bs_keys (priority_index st')"
    and "s \<le> k \<Longrightarrow> \<forall>j. s \<le> j \<and> j \<le> k \<longrightarrow> stored st (a, j) \<noteq> None \<Longrightarrow> \<exists>t. stored st (a, k) = Some t \<and> prio_key t \<in> bs_keys (priority_index st')"
  using assms
proof (induction "unat (- 1 - s)" arbitrary: s st rule: less_induct)
  case less
  { case 1
    show ?case
    proof (cases "stored st (a, s)")
      case None
      with 1 have "st' = st" by (subst (asm) promote.simps) (auto simp: stored_def get_mempool_txn_def split: option.splits)
      then show ?thesis by simp
    next
      case (Some t)
      obtain x st1 where st1: "s \<noteq> - 1" "promote a (s + 1) st1 = Some (s', st')"
          "bs_keys (priority_index st1) = insert (prio_key t) (bs_keys (priority_index st))"
        by (rule promote_unfold [OF 1 Some])
      have "unat (- 1 - (s + 1)) < unat (- 1 - s)"
        by (rule promote_dec [OF st1(1)])
      from less(1) [OF this st1(2)] st1(3) show ?thesis by blast
    qed
  next
    case 2
    then obtain t where t: "stored st (a, s) = Some t" by fastforce
    obtain x st1 where st1: "s \<noteq> - 1" "promote a (s + 1) st1 = Some (s', st')" "stored st1 = (stored st)((a, s) \<mapsto> t\<lparr>timeline_state := x\<rparr>)"
        "bs_keys (priority_index st1) = insert (prio_key t) (bs_keys (priority_index st))"
      by (rule promote_unfold [OF 2(3) t])
    have dec: "unat (- 1 - (s + 1)) < unat (- 1 - s)"
      by (rule promote_dec [OF st1(1)])
    show ?case
    proof (cases "k = s")
      case True
      with t st1(4) less(1) [OF dec st1(2)] show ?thesis by blast
    next
      case False
      then have k: "s + 1 \<le> k" using 2(1) word_less_next [OF st1(1), of k] by (metis order_le_imp_less_or_eq)
      have "\<forall>j. s + 1 \<le> j \<and> j \<le> k \<longrightarrow> stored st1 (a, j) \<noteq> None"
        using 2(2) word_less_next [OF st1(1)] unfolding st1(3) by (metis fun_upd_apply order_less_imp_le option.distinct(1))
      from less(2) [OF dec k this st1(2)] st1(3) False show ?thesis by simp
    qed
  }
qed

lemma process_ready_queue:
  assumes "process_ready_transactions a info st = Some st'" "min_seq info \<le> k"
    "\<forall>j. min_seq info \<le> j \<and> j \<le> k \<longrightarrow> stored st (a, j) \<noteq> None"
  shows "\<exists>t. stored st (a, k) = Some t \<and> prio_key t \<in> bs_keys (priority_index st')"
proof -
  obtain s st1 where st1: "promote a (min_seq info) st = Some (s, st1)"
      "st' = (case transactions st1 a of None \<Rightarrow> st1 | Some txns \<Rightarrow> fold park (map snd (filter (\<lambda>e. s < fst e) txns)) st1)"
    using assms(1) by (auto simp: process_ready_transactions_def split: bind_splits)
  have "priority_index (fold park ts st1) = priority_index st1" for ts by (induction ts arbitrary: st1) simp_all
  then have "priority_index st' = priority_index st1" by (simp add: st1(2) split: option.split)
  with promote_queue(2) [OF st1(1) assms(2,3)] show ?thesis by simp
qed

section \<open>Reading a timeline\<close>

lemma push_until_length: "length batch < cnt \<Longrightarrow> length (push_until cnt batch xs) \<le> cnt"
  by (induction cnt batch xs rule: push_until.induct) (auto simp: Let_def)

lemma read_buckets_ok:
  assumes "added < cnt"
  shows "\<exists>bs. read_buckets cnt added ls = Some bs \<and> added + length (concat bs) \<le> cnt \<and> length bs \<le> length ls"
  using assms
proof (induction cnt added ls rule: read_buckets.induct)
  case (2 cnt added line since rest)
  let ?txns = "timeline_read since (cnt - added) line"
  have len: "length ?txns \<le> cnt - added" unfolding timeline_read_def by (rule push_until_length) (use 2(2) in simp)
  show ?case
  proof (cases "added + length ?txns = cnt")
    case True
    with 2(2) show ?thesis by (simp add: Let_def)
  next
    case False
    with len 2(2) have "added + length ?txns < cnt" by simp
    from 2(1) [OF _ refl refl False this] 2(2) False show ?thesis by (auto simp: Let_def)
  qed
qed simp

lemma multi_read_ok:
  assumes "length ids = length (bucket_mins m)" "length (timelines m) = length (bucket_mins m)" "0 < cnt"
  shows "\<exists>bs. multi_read ids cnt m = Some bs \<and> length (concat bs) \<le> cnt \<and> length bs = length ids"
proof -
  obtain bs where bs: "read_buckets cnt 0 (rev (zip (timelines m) ids)) = Some bs" "length (concat bs) \<le> cnt" "length bs \<le> length ids"
    using read_buckets_ok [OF assms(3), of "rev (zip (timelines m) ids)"] assms(1,2) by auto
  have "length (concat (rev (bs @ replicate n []))) = length (concat bs)" for n
    by (simp add: length_concat rev_map [symmetric] sum_list_replicate)
  with bs assms(1,2) show ?thesis by (simp add: multi_read_def)
qed

text \<open>Bytes of a batch, without the saturation of the source's counter.\<close>

definition batch_bytes :: "'h store_env \<Rightarrow> signed_transaction list \<Rightarrow> nat" where
  "batch_bytes env txns = sum_list (map (raw_txn_bytes_len (serialized_size env)) txns)"

definition batch_ok :: "'h store_env \<Rightarrow> 'h transaction_store \<Rightarrow> signed_transaction list \<Rightarrow> nat \<Rightarrow> bool" where
  "batch_ok env st batch total_bytes \<longleftrightarrow> total_bytes = batch_bytes env batch \<and> total_bytes \<le> unat (max_batch_bytes st)
     \<and> (\<forall>txn \<in> set batch. \<exists>a s. store_get st a s = Some txn)"

lemma unat_not_max: "w \<noteq> - 1 \<Longrightarrow> unat w \<noteq> 2 ^ 64 - 1" for w :: u64
proof
  assume w: "w \<noteq> - 1" "unat w = 2 ^ 64 - 1"
  have "unat (- 1 :: u64) = 2 ^ 64 - 1" by (simp add: mask_eq_exp_minus_1 unsigned_minus_1_eq_mask)
  with w show False by (metis word_unat_eq_iff)
qed

lemma read_bucket_ok:
  assumes "batch_ok env st batch total_bytes" "max_batch_bytes st \<noteq> - 1" "read_bucket env st ps (batch, total_bytes, last_id) = (batch', total', id')"
  shows "batch_ok env st batch' total' \<and> length batch' \<le> length batch + length ps"
  using assms
proof (induction env st ps "(batch, total_bytes, last_id)" arbitrary: batch total_bytes last_id rule: read_bucket.induct)
  case (2 env st a s ps batch total_bytes last_id)
  show ?case
  proof (cases "get_mempool_txn st a s")
    case None
    with 2 show ?thesis by fastforce
  next
    case (Some t)
    let ?n = "min (total_bytes + raw_txn_bytes_len (serialized_size env) (mt_txn t)) (2 ^ 64 - 1)"
    show ?thesis
    proof (cases "unat (max_batch_bytes st) < ?n")
      case True
      with 2 Some show ?thesis by (auto simp: Let_def)
    next
      case False
      have "unat (max_batch_bytes st) \<noteq> 2 ^ 64 - 1"
        using 2(4) unat_not_max by blast
      then have "unat (max_batch_bytes st) < 2 ^ 64 - 1" using unsigned_less [of "max_batch_bytes st", where ?'a = nat] by simp
      with False have n: "?n = total_bytes + raw_txn_bytes_len (serialized_size env) (mt_txn t)" "?n \<le> unat (max_batch_bytes st)" by simp_all
      moreover have "store_get st a s = Some (mt_txn t)" using Some by (simp add: store_get_def)
      ultimately have "batch_ok env st (batch @ [mt_txn t]) ?n"
        using 2(3) unfolding n(1) by (auto simp: batch_ok_def batch_bytes_def)
      from 2(2) [OF Some refl False this 2(4)] 2(5) Some False show ?thesis by (auto simp: Let_def split: if_splits)
    qed
  qed
qed simp

lemma read_batch_ok:
  assumes "batch_ok env st batch total_bytes" "max_batch_bytes st \<noteq> - 1" "read_batch env st bs batch total_bytes = (all, ids)"
  shows "(\<exists>n. batch_ok env st all n) \<and> length all \<le> length batch + length (concat (map fst bs)) \<and> length ids = length bs"
  using assms
proof (induction env st bs batch total_bytes arbitrary: all ids rule: read_batch.induct)
  case (2 env st bucket last_id rest batch total_bytes)
  obtain batch' total' id' where b: "read_bucket env st bucket (batch, total_bytes, last_id) = (batch', total', id')"
    by (metis prod_cases3)
  obtain all' ids' where r: "read_batch env st rest batch' total' = (all', ids')" by (metis surj_pair)
  have ok: "batch_ok env st batch' total'" "length batch' \<le> length batch + length bucket"
    using read_bucket_ok [OF 2(2,3) b] by simp_all
  from 2(1) [OF b [symmetric] refl refl ok(1) 2(3) r] ok(2) 2(4) b r show ?case by (auto simp: Let_def)
qed auto

section \<open>A run\<close>

lemma store_reach_run:
  assumes "store_reach env config n st" "list_all admissible cs" "ofold (store_call env) cs st = Some st'"
  shows "store_reach env config (n + length cs) st'"
  using assms
proof (induction cs arbitrary: n st)
  case (Cons c cs)
  then obtain st1 where st1: "store_call env c st = Some st1" "ofold (store_call env) cs st1 = Some st'" by (auto split: bind_splits)
  have "store_reach env config (Suc n) st1" by (rule store_reach.step [OF Cons.prems(1) _ st1(1)]) (use Cons.prems(2) in simp)
  from Cons.IH [OF this _ st1(2)] Cons.prems(2) show ?case by simp
qed simp

text \<open>Two accounts: the first sends the numbers 0 and 2, so that the second of them is parked.\<close>

definition pool_txn :: "address \<Rightarrow> u64 \<Rightarrow> mempool_transaction" where
  "pool_txn a n = mempool_transaction_new
     \<lparr>raw_txn = \<lparr>raw_sender = a, raw_sequence_number = n, raw_payload = [], raw_max_gas_amount = 10, raw_gas_unit_price = 100,
        raw_expiration_timestamp_secs = 5 + n, raw_chain_id = 1\<rparr>, authenticator = []\<rparr>
     (from_secs 60) 100 NotReady (Sequential 0) 0"

definition pool_env :: "signed_transaction store_env" where
  "pool_env = \<lparr>serialized_size = (\<lambda>_. 40), committed_hash = (\<lambda>txn. txn), estimated_overhead = 160\<rparr>"

definition pool_config :: mempool_config where
  "pool_config = \<lparr>broadcast_buckets = [0, 150], config_capacity = 3, config_capacity_bytes = 10000, config_capacity_per_user = 2,
     shared_mempool_max_batch_bytes = 100, system_transaction_timeout_secs = 60,
     default_failovers = 3, max_broadcasts_per_peer = 1, shared_mempool_ack_timeout_ms = 2000, shared_mempool_batch_size = 250,
     shared_mempool_backoff_interval_ms = 30000, shared_mempool_tick_interval_ms = 50\<rparr>"

definition pool_start :: "signed_transaction transaction_store" where
  "pool_start = the (store_new pool_config)"

definition pool_calls :: "signed_transaction store_call list" where
  "pool_calls = [Insert 0 (pool_txn 1 0), Insert 0 (pool_txn 1 2), Insert 0 (pool_txn 2 0)]"

definition pool :: "signed_transaction transaction_store" where
  "pool = the (ofold (store_call pool_env) pool_calls pool_start)"

text \<open>The run is computed one operation after the other: nothing is simplified behind a bind before its first part.\<close>

lemma bind_weak_cong: "m = m' \<Longrightarrow> Option.bind m f = Option.bind m' f"
  by simp

lemmas pool_eval = pool_txn_def pool_env_def store_call_def store_insert_def check_current_version_def check_is_full_after_eviction_def
  is_full_def check_txn_ready_def clean_committed_transactions_def enter_txn_def process_ready_transactions_def promote.simps park_def
  put_txns_def index_remove_def drop_indexes_def ttl_insert_def ttl_size_def ttl_make_key_def ttl_new_def bs_insert_def txn_seq_def
  get_sender_def sender_def get_gas_price_def gas_unit_price_def multi_insert_def timeline_insert_def bucket_index_def binary_search_def
  lot_remove_def lot_insert_def lot_new_def timeline_new_def prio_insert_def prio_key_def queue_key_order_def prio_make_key_def
  txn_pointer_def get_committed_hash_def get_estimated_bytes_def raw_txn_bytes_len_def bt_below_def bt_get_def client_expiration_def
  expiration_timestamp_secs_def from_secs_def mempool_transaction_new_def sequence_number_def add_chk_def Let_def

lemma pool_start_eq:
  "pool_start = \<lparr>transactions = Map.empty, sequence_numbers = Map.empty, priority_index = [],
     expiration_time_index = ttl_new client_expiration, system_ttl_index = ttl_new expiration_time,
     timeline_index = \<lparr>timelines = [timeline_new, timeline_new], bucket_mins = [0, 150]\<rparr>, parking_lot_index = lot_new,
     hash_index = Map.empty, size_bytes = 0, capacity = 3, capacity_bytes = 10000, capacity_per_user = 2, max_batch_bytes = 100\<rparr>"
  by (simp add: pool_start_def store_new_def pool_config_def multi_new_def)

lemma pool_run:
  "ofold (store_call pool_env) pool_calls pool_start = Some pool" "stored pool (1, 2) \<noteq> None" "stored pool (2, 0) \<noteq> None"
  "length (bucket_mins (timeline_index pool)) = 2" "max_batch_bytes pool = 100" "sequence_numbers pool 1 = Some 0"
  "map_option expiration_time (stored pool (1, 0)) = Some (from_secs 60)" "stored pool (3, 0) = None"
proof -
  let ?P = "\<lambda>st. stored st (1, 2) \<noteq> None \<and> stored st (2, 0) \<noteq> None \<and> length (bucket_mins (timeline_index st)) = 2
      \<and> max_batch_bytes st = 100 \<and> sequence_numbers st 1 = Some 0
      \<and> map_option expiration_time (stored st (1, 0)) = Some (from_secs 60) \<and> stored st (3, 0) = None"
  have ex: "\<exists>st. ofold (store_call pool_env) pool_calls pool_start = Some st \<and> ?P st"
    by (simp add: pool_start_eq pool_calls_def pool_eval stored_def get_mempool_txn_def cong: bind_weak_cong)
  then show run: "ofold (store_call pool_env) pool_calls pool_start = Some pool" unfolding pool_def by auto
  with ex have "?P pool" by auto
  then show "stored pool (1, 2) \<noteq> None" "stored pool (2, 0) \<noteq> None" "length (bucket_mins (timeline_index pool)) = 2"
      "max_batch_bytes pool = 100" "sequence_numbers pool 1 = Some 0"
      "map_option expiration_time (stored pool (1, 0)) = Some (from_secs 60)" "stored pool (3, 0) = None" by blast+
qed

lemma pool_hash: "hash_ok pool_env"
  by (simp add: hash_ok_def pool_env_def inj_def)

lemma pool_insertable: "insertable (pool_txn 1 0)" "insertable (pool_txn 1 1)" "insertable (pool_txn 1 2)" "insertable (pool_txn 2 0)"
  by (simp_all add: insertable_def txn_wf_def pool_eval)

lemma pool_starts: "store_reach pool_env pool_config 0 pool_start"
  by (rule store_reach.start) (simp add: pool_start_def store_new_def pool_config_def multi_new_def)

lemma pool_reached: "store_reach pool_env pool_config 3 pool"
proof -
  have "list_all admissible pool_calls" by (simp add: pool_calls_def admissible_def pool_insertable)
  from store_reach_run [OF pool_starts this pool_run(1)] show ?thesis by (simp add: pool_calls_def eval_nat_numeral)
qed

lemma pool_limits: "in_budget pool_config (Suc 3)" "in_budget pool_config (Suc 0)" "0 < config_capacity_per_user pool_config"
  by (simp_all add: in_budget_def pool_config_def)

section \<open>What the store promises\<close>

text \<open>C12. No call on the transaction store panics: from an empty store with a capacity for each user, in every
  state that admissible insertions, commits, rejections and collections reach, every further one returns, as long as the
  number of calls times one more than the capacity stays below the numbers of a timeline.\<close>

theorem store_never_panics:
  assumes "store_reach env config n st" "hash_ok env" "admissible c" "in_budget config (Suc n)" "0 < config_capacity_per_user config"
  shows "store_call env c st \<noteq> None"
  using store_call_ok [OF reached_store(1) [OF assms(1,2,4,5)] assms(2,3,4,5)] by auto

theorem store_never_panics_witness:
  "store_call pool_env (Insert 7 (pool_txn 1 1)) pool \<noteq> None \<and> store_call pool_env (Collect (from_secs 6) False) pool \<noteq> None"
proof
  show "store_call pool_env (Insert 7 (pool_txn 1 1)) pool \<noteq> None"
    by (rule store_never_panics [OF pool_reached pool_hash _ pool_limits(1,3)]) (simp add: admissible_def pool_insertable)
  show "store_call pool_env (Collect (from_secs 6) False) pool \<noteq> None"
    by (rule store_never_panics [OF pool_reached pool_hash _ pool_limits(1,3)]) (simp add: admissible_def)
qed

text \<open>C18. The store stays within its configured capacity: never more transactions than its capacity, and never more
  of one account than the capacity per user.\<close>

theorem store_within_capacity:
  assumes "store_reach env config n st" "hash_ok env" "in_budget config (Suc n)" "0 < config_capacity_per_user config"
  shows "card (dom (stored st)) \<le> config_capacity config
    \<and> (\<forall>a txns. transactions st a = Some txns \<longrightarrow> length txns \<le> config_capacity_per_user config)"
  using reached_store(1) [OF assms] by (auto simp: run_ok_def in_capacity_def)

theorem store_within_capacity_witness: "card (dom (stored pool)) \<le> 3"
  using store_within_capacity [OF pool_reached pool_hash pool_limits(1,3)] by (simp add: pool_config_def)

text \<open>C13. The indexes describe exactly what is stored.  Both indexes by expiration hold the key of every stored
  transaction and no other; the queue and the parking lot hold only stored transactions, and every stored
  transaction is in one of them; a lookup by hash finds exactly the stored transaction of that hash; and the size in
  bytes is the sum over the stored transactions.\<close>

theorem store_indexes_agree:
  assumes "store_reach env config n st" "hash_ok env" "in_budget config (Suc n)" "0 < config_capacity_per_user config"
  shows "ttl_keys (system_ttl_index st) = ttl_make_key expiration_time ` ran (stored st)
    \<and> ttl_keys (expiration_time_index st) = ttl_make_key client_expiration ` ran (stored st)
    \<and> bs_keys (priority_index st) \<subseteq> prio_key ` ran (stored st) \<and> parked (parking_lot_index st) \<subseteq> txn_pointer ` ran (stored st)
    \<and> (\<forall>t \<in> ran (stored st). prio_contains t (priority_index st) \<or> lot_contains (get_sender t) (txn_seq t) (parking_lot_index st))
    \<and> (\<forall>h txn. get_by_hash st h = Some txn \<longleftrightarrow> committed_hash env txn = h \<and> (\<exists>a s. store_get st a s = Some txn))
    \<and> size_bytes st = (\<Sum>p \<in> dom (stored st). get_estimated_bytes env (the (stored st p)))"
proof -
  have base: "base_ok env (stored st) {} {} st" and cov: "cover_ok (stored st) {} st"
    using reached_store(2) [OF assms] by (simp_all add: store_inv_def indexes_ok_def)
  note b = base_okD [OF base]
  have "prio_contains t (priority_index st) \<or> lot_contains (get_sender t) (txn_seq t) (parking_lot_index st)" if t: "t \<in> ran (stored st)" for t
  proof -
    obtain p where p: "stored st p = Some t" using t by (auto simp: ran_def)
    then have "p = txn_pointer t" using pointers_okD [OF b(1)] by blast
    with cover_okD(1) [OF cov p] lot_contains_iff [OF b(9)] show ?thesis by (simp add: txn_pointer_def)
  qed
  moreover have "get_by_hash st h = Some txn \<longleftrightarrow> committed_hash env txn = h \<and> (\<exists>a s. store_get st a s = Some txn)" for h txn
    unfolding get_by_hash_stored [OF reached_store(2) [OF assms]] by (auto simp: store_get_def stored_def)
  ultimately show ?thesis using b by simp
qed

theorem store_indexes_agree_witness:
  "size_bytes pool = (\<Sum>p \<in> dom (stored pool). get_estimated_bytes pool_env (the (stored pool p)))
    \<and> ttl_keys (system_ttl_index pool) = ttl_make_key expiration_time ` ran (stored pool)"
  using store_indexes_agree [OF pool_reached pool_hash pool_limits(1,3)] by blast

lemma insert_result_found:
  assumes "insert_result env t st evicted Accepted st'" "store_get st (get_sender t) (txn_seq t) = None"
  shows "store_get st' (get_sender t) (txn_seq t) = Some (mt_txn t) \<and> get_by_hash st' (committed_hash env (mt_txn t)) = Some (mt_txn t)"
proof -
  have "stored st (txn_pointer t) = None" using assms(2) by (simp add: store_get_def stored_def txn_pointer_def)
  with assms(1) obtain u where u: "stored st' (txn_pointer t) = Some u" "mt_txn u = mt_txn t" "store_ok env st'" by (auto simp: insert_result_def)
  then have "get_by_hash st' (committed_hash env (mt_txn t)) = Some (mt_txn t)" using get_by_hash_stored [OF u(3)] by blast
  with u(1,2) show ?thesis by (simp add: store_get_def stored_def txn_pointer_def)
qed

text \<open>C17. A new transaction that an insertion accepts is found afterwards, under its account and number and by its hash. Whatever
  the outcome, every other transaction stays as it is, apart from one that may be evicted when the store is full and those of the
  transaction's own account that lie below the account's sequence number.\<close>

theorem insert_exact:
  assumes "store_reach env config n st" "hash_ok env" "in_budget config (Suc n)" "0 < config_capacity_per_user config" "insertable t"
  shows "\<exists>code st' evicted. store_insert env rng t st = Some (code, st') \<and>
    (code = Accepted \<and> store_get st (get_sender t) (txn_seq t) = None \<longrightarrow>
       store_get st' (get_sender t) (txn_seq t) = Some (mt_txn t) \<and> get_by_hash st' (committed_hash env (mt_txn t)) = Some (mt_txn t)) \<and>
    (\<forall>a s. (a, s) \<noteq> txn_pointer t \<longrightarrow> store_get st' a s = store_get st a s
       \<or> store_get st' a s = None \<and> (evicted = Some (a, s) \<or> a = get_sender t \<and> s < account_seq t))"
proof -
  obtain code st' evicted where r: "store_insert env rng t st = Some (code, st')" "insert_result env t st evicted code st'"
    using store_insert_ok [OF reached_store(2,3) [OF assms(1-4)] assms(2,5) reached_store(4,5) [OF assms(1-4)], of rng] by blast
  from r(2) have "(a, s) \<noteq> txn_pointer t \<longrightarrow> store_get st' a s = store_get st a s
       \<or> store_get st' a s = None \<and> (evicted = Some (a, s) \<or> a = get_sender t \<and> s < account_seq t)" for a s
    unfolding store_get_contents insert_result_def by fastforce
  with r insert_result_found show ?thesis by blast
qed

lemma pool_first: "\<exists>st. store_insert pool_env 0 (pool_txn 1 0) pool_start = Some (Accepted, st)" "store_get pool_start a s = None"
  by (simp_all add: pool_start_eq pool_eval store_get_def get_mempool_txn_def cong: bind_weak_cong)

theorem insert_exact_witness:
  "\<exists>st. store_insert pool_env 0 (pool_txn 1 0) pool_start = Some (Accepted, st) \<and> get_by_hash st (mt_txn (pool_txn 1 0)) = Some (mt_txn (pool_txn 1 0))"
  using insert_exact [OF pool_starts pool_hash pool_limits(2,3) pool_insertable(1), of 0] pool_first by (auto simp: pool_env_def)

lemma store_commit_get:
  assumes "store_reach env config n st" "hash_ok env" "in_budget config (Suc n)" "0 < config_capacity_per_user config" "s \<noteq> - 1"
  shows "\<exists>st'. store_commit env a s st = Some st' \<and>
    (\<forall>b k. store_get st' b k =
       (if b = a \<and> k < max (case get_sequence_number st a of Some v \<Rightarrow> v | None \<Rightarrow> 0) (s + 1) then None else store_get st b k))"
proof -
  have "room (0 + card (dom (stored st))) st" using reached_store(4) [OF assms(1-4)] by (rule room_mono) simp
  from store_commit_ok [OF reached_store(2) [OF assms(1-4)] assms(5) this, of a] obtain st' where st': "store_commit env a s st = Some st'"
      "contents (stored st') = contents (without_below a (max (case sequence_numbers st a of Some v \<Rightarrow> v | None \<Rightarrow> 0) (s + 1)) (stored st))"
    by blast
  have "store_get st' b k =
      (if b = a \<and> k < max (case get_sequence_number st a of Some v \<Rightarrow> v | None \<Rightarrow> 0) (s + 1) then None else store_get st b k)" for b k
    unfolding store_get_contents st'(2) get_sequence_number_def by (auto simp: without_below_def contents_def)
  with st'(1) show ?thesis by blast
qed

text \<open>C14. Committing a number removes exactly the account's transactions up to it: those below the larger of the
  account's number and the next one.\<close>

theorem commit_removes_exactly:
  assumes "store_reach env config n st" "hash_ok env" "in_budget config (Suc n)" "0 < config_capacity_per_user config" "s \<noteq> - 1"
  shows "\<exists>st'. store_commit env a s st = Some st' \<and>
    (\<forall>b k. store_get st' b k =
       (if b = a \<and> k < max (case get_sequence_number st a of Some v \<Rightarrow> v | None \<Rightarrow> 0) (s + 1) then None else store_get st b k))"
  by (rule store_commit_get [OF assms])

theorem commit_removes_exactly_witness:
  "\<exists>st'. store_commit pool_env 1 0 pool = Some st' \<and> store_get st' 1 0 = None \<and> store_get st' 2 0 = store_get pool 2 0"
proof -
  obtain st' where st': "store_commit pool_env 1 0 pool = Some st'" "\<And>b k. store_get st' b k =
      (if b = 1 \<and> k < max (case get_sequence_number pool 1 of Some v \<Rightarrow> v | None \<Rightarrow> 0) (0 + 1) then None else store_get pool b k)"
    using commit_removes_exactly [OF pool_reached pool_hash pool_limits(1,3), of 0 1] by auto
  have "0 < max v (0 + 1)" for v :: u64 by (simp add: less_max_iff_disj)
  with st' show ?thesis by simp
qed

text \<open>C15. After a commit, every transaction that continues the sequence of the account without a gap is in the
  priority queue, from which blocks are built.\<close>

theorem commit_promotes_sequence:
  assumes "store_reach env config n st" "hash_ok env" "in_budget config (Suc n)" "0 < config_capacity_per_user config" "s \<noteq> - 1"
    and "nxt = max (case get_sequence_number st a of Some v \<Rightarrow> v | None \<Rightarrow> 0) (s + 1)" "nxt \<le> k"
    and "\<forall>j. nxt \<le> j \<and> j \<le> k \<longrightarrow> store_get st a j \<noteq> None"
  shows "\<exists>st' t. store_commit env a s st = Some st' \<and> stored st' (a, k) = Some t \<and> prio_contains t (priority_index st')"
proof -
  have "room (0 + card (dom (stored st))) st" using reached_store(4) [OF assms(1-4)] by (rule room_mono) simp
  from store_commit_ok [OF reached_store(2) [OF assms(1-4)] assms(5) this, of a] obtain st' where st': "store_commit env a s st = Some st'"
      "contents (stored st') = contents (without_below a nxt (stored st))"
    unfolding assms(6) get_sequence_number_def by blast
  obtain st1 where st1: "store_commit env a s st = process_ready_transactions a (Sequential nxt) st1" "stored st1 = without_below a nxt (stored st)"
    using commit_clean_ok [OF reached_store(2) [OF assms(1-4)] assms(5), of nxt a] assms(6) by (auto simp: get_sequence_number_def)
  have "stored st1 (a, j) \<noteq> None" if "nxt \<le> j \<and> j \<le> k" for j
    using assms(8) that by (auto simp: st1(2) without_below_def store_get_def stored_def)
  then obtain t where t: "stored st1 (a, k) = Some t" "prio_key t \<in> bs_keys (priority_index st')"
    using process_ready_queue [of a "Sequential nxt" st1 st' k] st'(1) st1(1) assms(7) by auto
  have "contents (stored st') (a, k) = contents (stored st1) (a, k)" unfolding st'(2) st1(2) ..
  then obtain u where u: "stored st' (a, k) = Some u" "u\<lparr>timeline_state := NotReady\<rparr> = t\<lparr>timeline_state := NotReady\<rparr>"
    using t(1) by (auto simp: contents_def)
  have "prio_key u = prio_key (u\<lparr>timeline_state := NotReady\<rparr>)" by simp
  also have "\<dots> = prio_key t" unfolding u(2) by simp
  finally show ?thesis using st'(1) u(1) t(2) by (auto simp: prio_contains_iff)
qed

theorem commit_promotes_sequence_witness:
  "\<exists>st' t. store_commit pool_env 1 1 pool = Some st' \<and> stored st' (1, 2) = Some t \<and> prio_contains t (priority_index st')"
proof (rule commit_promotes_sequence [OF pool_reached pool_hash pool_limits(1,3)])
  show "(2 :: u64) = max (case get_sequence_number pool 1 of Some v \<Rightarrow> v | None \<Rightarrow> 0) (1 + 1)"
    using pool_run(6) by (simp add: get_sequence_number_def)
  show "\<forall>j. 2 \<le> j \<and> j \<le> 2 \<longrightarrow> store_get pool 1 j \<noteq> None"
    using pool_run(2) by (metis order_antisym store_get_def stored_def fst_conv snd_conv map_option_is_None)
qed simp_all

lemma store_gc_get:
  assumes "store_reach env config n st" "hash_ok env" "in_budget config (Suc n)" "0 < config_capacity_per_user config"
  shows "\<exists>st'. store_gc env now by_system_ttl st = Some st' \<and>
    (\<forall>a k. store_get st' a k =
       (case get_mempool_txn st a k of
          None \<Rightarrow> None
        | Some t \<Rightarrow> if (if by_system_ttl then expiration_time t else client_expiration t) < now then None else Some (mt_txn t)))"
proof -
  from store_gc_ok [OF reached_store(2) [OF assms], of now by_system_ttl] obtain st' where st': "store_gc env now by_system_ttl st = Some st'"
      "contents (stored st') = contents (unexpired (if by_system_ttl then expiration_time else client_expiration) now (stored st))" by blast
  have "store_get st' a k =
      (case get_mempool_txn st a k of
         None \<Rightarrow> None
       | Some t \<Rightarrow> if (if by_system_ttl then expiration_time t else client_expiration t) < now then None else Some (mt_txn t))" for a k
    unfolding store_get_contents st'(2) by (auto simp: contents_def unexpired_def stored_def split: option.split)
  with st'(1) show ?thesis by blast
qed

text \<open>C16. A collection removes exactly the transactions that expired before its time, by the system's limit or by
  the client's, and keeps every other one.\<close>

theorem collect_removes_exactly:
  assumes "store_reach env config n st" "hash_ok env" "in_budget config (Suc n)" "0 < config_capacity_per_user config"
  shows "\<exists>st'. store_gc env now by_system_ttl st = Some st' \<and>
    (\<forall>a k. store_get st' a k =
       (case get_mempool_txn st a k of
          None \<Rightarrow> None
        | Some t \<Rightarrow> if (if by_system_ttl then expiration_time t else client_expiration t) < now then None else Some (mt_txn t)))"
  by (rule store_gc_get [OF assms])

theorem collect_removes_exactly_witness:
  "\<exists>st'. store_gc pool_env (from_secs 61) True pool = Some st' \<and> store_get st' 1 0 = None \<and> store_get st' 3 0 = None"
proof -
  obtain st' where st': "store_gc pool_env (from_secs 61) True pool = Some st'" "\<And>a k. store_get st' a k =
      (case get_mempool_txn pool a k of None \<Rightarrow> None | Some t \<Rightarrow> if expiration_time t < from_secs 61 then None else Some (mt_txn t))"
    using collect_removes_exactly [OF pool_reached pool_hash pool_limits(1,3), of "from_secs 61" True] by (simp only: if_True) blast
  have "expiration_time t < from_secs 61" if "get_mempool_txn pool 1 0 = Some t" for t
    using that pool_run(7) by (simp add: from_secs_def stored_def)
  moreover have "get_mempool_txn pool 3 0 = None" using pool_run(8) by (simp add: stored_def)
  ultimately show ?thesis using st' by (auto split: option.split)
qed

text \<open>Reading a batch for broadcasting, with a number for each bucket and a positive count, returns: at most \<open>count\<close>
  transactions, all of them stored, of at most the configured number of bytes together, and one number for each bucket.\<close>

theorem read_timeline_bounded:
  assumes "store_reach env config n st" "hash_ok env" "in_budget config (Suc n)" "0 < config_capacity_per_user config"
    and "length ids = length (bucket_mins (timeline_index st))" "0 < cnt" "max_batch_bytes st \<noteq> - 1"
  shows "\<exists>batch ids'. store_read_timeline env ids cnt st = Some (batch, ids') \<and> length batch \<le> cnt \<and> length ids' = length ids
    \<and> batch_bytes env batch \<le> unat (max_batch_bytes st) \<and> (\<forall>txn \<in> set batch. \<exists>a s. store_get st a s = Some txn)"
proof -
  have "length (timelines (timeline_index st)) = length (bucket_mins (timeline_index st))"
    using reached_store(2) [OF assms(1-4)] by (simp add: store_inv_def indexes_ok_def timeline_ok_def)
  from multi_read_ok [OF assms(5) this assms(6)] obtain bs where bs: "multi_read ids cnt (timeline_index st) = Some bs"
      "length (concat bs) \<le> cnt" "length bs = length ids" by blast
  obtain batch ids' where r: "read_batch env st (rev (zip bs ids)) [] 0 = (batch, ids')" by (cases "read_batch env st (rev (zip bs ids)) [] 0")
  have "batch_ok env st [] 0" by (simp add: batch_ok_def batch_bytes_def)
  from read_batch_ok [OF this assms(7) r] obtain m where b: "batch_ok env st batch m" "length batch \<le> length (concat (map fst (rev (zip bs ids))))"
      "length ids' = length (zip bs ids)" by auto
  have "length (concat (map fst (rev (zip bs ids)))) = length (concat bs)"
    using bs(3) by (simp add: length_concat rev_map [symmetric])
  with b bs r show ?thesis by (auto simp: store_read_timeline_def batch_ok_def)
qed

theorem read_timeline_bounded_witness:
  "\<exists>batch ids'. store_read_timeline pool_env [0, 0] 5 pool = Some (batch, ids') \<and> length batch \<le> 5 \<and> batch_bytes pool_env batch \<le> 100"
  using read_timeline_bounded [OF pool_reached pool_hash pool_limits(1,3), of "[0, 0]" 5] pool_run(4,5) by auto

end
