(* ===== verification/StoreTimelines.thy ===== *)
theory StoreTimelines
  imports StoreProperties
begin

text \<open>
  How the timelines of a transaction store develop: entries come and go, but a new entry always has a new
  number, so that a range of numbers that was read once never receives another transaction.  This is what
  the broadcasts to the peers rely on.
\<close>

section \<open>Numbers are never used again\<close>

definition line_grows :: "timeline_index \<Rightarrow> timeline_index \<Rightarrow> bool" where
  "line_grows l l' \<longleftrightarrow> timeline_id l \<le> timeline_id l'
     \<and> (\<forall>k p. bt_get (timeline l') k = Some p \<longrightarrow> bt_get (timeline l) k = Some p \<or> timeline_id l \<le> k)"

definition store_grows :: "'h transaction_store \<Rightarrow> 'h transaction_store \<Rightarrow> bool" where
  "store_grows st st' \<longleftrightarrow> list_all2 line_grows (timelines (timeline_index st)) (timelines (timeline_index st'))
     \<and> bucket_mins (timeline_index st') = bucket_mins (timeline_index st)"

lemma line_grows_refl [simp]: "line_grows l l"
  by (simp add: line_grows_def)

lemma line_grows_trans: "line_grows l l' \<Longrightarrow> line_grows l' l'' \<Longrightarrow> line_grows l l''"
  unfolding line_grows_def by (meson order_trans)

lemma store_grows_refl [simp]: "store_grows st st"
  by (simp add: store_grows_def list_all2_refl)

lemma store_grows_trans: "store_grows st st' \<Longrightarrow> store_grows st' st'' \<Longrightarrow> store_grows st st''"
  unfolding store_grows_def using list_all2_trans [of line_grows line_grows line_grows] line_grows_trans by metis

lemma store_grows_lines:
  assumes "store_grows st st'" "timelines (timeline_index st'') = timelines (timeline_index st')" "bucket_mins (timeline_index st'') = bucket_mins (timeline_index st')"
  shows "store_grows st st''"
  using assms by (simp add: store_grows_def)

lemma store_grows_same [intro]: "timeline_index st' = timeline_index st \<Longrightarrow> store_grows st st'"
  by (simp add: store_grows_def list_all2_refl)

lemma list_update_grows:
  assumes "i < length ls" "line_grows (ls ! i) l"
  shows "list_all2 line_grows ls (ls[i := l])"
  using assms by (auto simp: list_all2_conv_all_nth nth_list_update)

lemma multi_remove_grows:
  assumes "multi_remove t m = Some m'"
  shows "list_all2 line_grows (timelines m) (timelines m') \<and> bucket_mins m' = bucket_mins m"
proof -
  obtain i where i: "bucket_index (ranking_score t) m = Some i" "m' = m\<lparr>timelines := (timelines m)[i := timeline_remove t (timelines m ! i)]\<rparr>"
    using assms by (auto simp: multi_remove_def split: bind_splits)
  have "i < length (timelines m)" using i(1) by (auto simp: bucket_index_def split: bind_splits if_splits)
  moreover have "line_grows (timelines m ! i) (timeline_remove t (timelines m ! i))"
    by (auto simp: line_grows_def timeline_remove_def split: timeline_state.split if_splits)
  ultimately show ?thesis using i(2) by (simp add: list_update_grows)
qed

lemma multi_insert_grows:
  assumes "multi_insert t m = Some (t', m')"
  shows "list_all2 line_grows (timelines m) (timelines m') \<and> bucket_mins m' = bucket_mins m"
proof -
  obtain i l where i: "bucket_index (ranking_score t) m = Some i" "timeline_insert t (timelines m ! i) = Some (t', l)"
      "m' = m\<lparr>timelines := (timelines m)[i := l]\<rparr>"
    using assms by (auto simp: multi_insert_def split: bind_splits)
  have "i < length (timelines m)" using i(1) by (auto simp: bucket_index_def split: bind_splits if_splits)
  moreover have "line_grows (timelines m ! i) l"
  proof -
    obtain n where n: "add_chk (timeline_id (timelines m ! i)) 1 = Some n"
        "l = (timelines m ! i)\<lparr>timeline := bt_insert (timeline_id (timelines m ! i)) (txn_pointer t) (timeline (timelines m ! i)), timeline_id := n\<rparr>"
      using i(2) by (auto simp: timeline_insert_def split: bind_splits)
    have "timeline_id (timelines m ! i) \<le> n" using n(1) by (auto simp: add_chk_Some word_le_def)
    then show ?thesis using n(2) by (auto simp: line_grows_def split: if_splits)
  qed
  ultimately show ?thesis using i(3) by (simp add: list_update_grows)
qed

section \<open>Every operation\<close>

lemma put_txns_grows [simp]: "store_grows (put_txns a txns st) st' = store_grows st st'" "store_grows st (put_txns a txns st') = store_grows st st'"
  by (simp_all add: store_grows_def)

lemma index_remove_grows:
  assumes "index_remove env t st = Some st'"
  shows "store_grows st st'"
proof -
  obtain lines lot where l: "multi_remove t (timeline_index st) = Some lines" "timeline_index st' = lines"
    using assms by (auto simp: index_remove_def Let_def split: bind_splits if_splits)
  with multi_remove_grows [OF l(1)] show ?thesis by (simp add: store_grows_def)
qed

lemma ofold_grows:
  assumes f: "\<And>x st st'. f x st = Some st' \<Longrightarrow> store_grows st st'" and run: "ofold f xs st = Some st'"
  shows "store_grows st st'"
  using run
proof (induction xs arbitrary: st)
  case (Cons x xs)
  then obtain st1 where "f x st = Some st1" "ofold f xs st1 = Some st'" by (auto split: bind_splits)
  then show ?case using Cons.IH store_grows_trans [OF f] by blast
qed simp

lemma clean_grows: "clean_committed_transactions env a s st = Some st' \<Longrightarrow> store_grows st st'"
  using ofold_grows [of "index_remove env", OF index_remove_grows]
  by (fastforce simp: clean_committed_transactions_def split: option.splits)

lemma promote_grows: "promote a s st = Some (s', st') \<Longrightarrow> store_grows st st'"
proof (induction a s st rule: promote.induct)
  case (1 a s st)
  show ?case
  proof (cases "get_mempool_txn st a s")
    case None
    with 1(2) show ?thesis by (subst (asm) promote.simps) (auto simp: get_mempool_txn_def split: option.splits)
  next
    case (Some t)
    then obtain txns where txns: "transactions st a = Some txns" "bt_get txns s = Some t"
      by (auto simp: get_mempool_txn_def split: bind_splits)
    with 1(2) obtain t' lines lot where step: "(if timeline_state t = NotReady then multi_insert t (timeline_index st) else Some (t, timeline_index st)) = Some (t', lines)"
        "lot_remove t' (parking_lot_index st) = Some lot" "s \<noteq> - 1" "promote a (s + 1) (put_txns a (bt_insert s t' txns)
          (st\<lparr>priority_index := prio_insert t (priority_index st), timeline_index := lines, parking_lot_index := lot\<rparr>)) = Some (s', st')"
      by (subst (asm) promote.simps) (auto split: bind_splits if_splits)
    let ?st = "st\<lparr>priority_index := prio_insert t (priority_index st), timeline_index := lines, parking_lot_index := lot\<rparr>"
    have "store_grows ?st st'" using 1(1) [OF txns step(1) refl step(2,3,4)] by simp
    moreover have "store_grows st ?st" using step(1) multi_insert_grows [of t "timeline_index st" t' lines]
      by (auto simp: store_grows_def list_all2_refl split: if_splits)
    ultimately show ?thesis by (rule store_grows_trans [rotated])
  qed
qed

lemma process_ready_grows:
  assumes "process_ready_transactions a info st = Some st'"
  shows "store_grows st st'"
proof -
  obtain s st1 where st1: "promote a (min_seq info) st = Some (s, st1)"
      "st' = (case transactions st1 a of None \<Rightarrow> st1 | Some txns \<Rightarrow> fold park (map snd (filter (\<lambda>e. s < fst e) txns)) st1)"
    using assms by (auto simp: process_ready_transactions_def split: bind_splits)
  have "timeline_index (fold park ts st1) = timeline_index st1" for ts by (induction ts arbitrary: st1) simp_all
  then have "timeline_index st' = timeline_index st1" by (simp add: st1(2) split: option.split)
  with promote_grows [OF st1(1)] show ?thesis by (auto simp: store_grows_def)
qed

lemma remove_at_grows:
  assumes "(case transactions st a of
        None \<Rightarrow> Some st
      | Some txns \<Rightarrow> (case bt_get txns s of None \<Rightarrow> Some st | Some t \<Rightarrow> index_remove env t (put_txns a (bt_remove s txns) st))) = Some st'"
  shows "store_grows st st'"
  using assms by (auto split: option.splits dest!: index_remove_grows)

lemma store_insert_grows:
  assumes "store_insert env rng t st = Some (code, st')"
  shows "store_grows st st'"
proof -
  have cur: "store_grows st st1" if "check_current_version env t st = Some (Inr st1)" for st1
    using that by (auto simp: check_current_version_def split: option.splits if_splits dest!: index_remove_grows)
  have evict: "store_grows st1 st2" if "check_is_full_after_eviction env rng t s st1 = Some (full, st2)" for full st1 st2 s
    using that by (auto simp: check_is_full_after_eviction_def evict_parked_def split: bind_splits if_splits option.splits dest!: index_remove_grows)
  have enter: "store_grows st3 st4" if "process_ready_transactions a info (enter_txn env txns t st3) = Some st4" for a info txns st3 st4
    using process_ready_grows [OF that] by (simp add: store_grows_def)
  obtain r where r: "check_current_version env t st = Some r" using assms by (auto simp: store_insert_def split: bind_splits)
  show ?thesis
  proof (cases r)
    case (Inl x)
    with r assms show ?thesis by (auto simp: store_insert_def)
  next
    case (Inr st1)
    obtain full st2 where st2: "check_is_full_after_eviction env rng t (min_seq (account_sequence_number_type (sequence_info t))) st1 = Some (full, st2)"
      using r Inr assms by (auto simp: store_insert_def Let_def split: bind_splits)
    have g2: "store_grows st st2" using store_grows_trans [OF cur evict [OF st2]] r Inr by simp
    show ?thesis
    proof (cases full)
      case True
      with r Inr st2 assms g2 show ?thesis by (auto simp: store_insert_def Let_def)
    next
      case False
      then obtain st3 where st3: "clean_committed_transactions env (get_sender t) (min_seq (account_sequence_number_type (sequence_info t))) st2 = Some st3"
        using r Inr st2 assms by (auto simp: store_insert_def Let_def split: bind_splits)
      have "store_grows st3 st'" using r Inr st2 st3 False assms enter by (auto simp: store_insert_def Let_def split: bind_splits if_splits)
      then show ?thesis using store_grows_trans [OF g2 clean_grows [OF st3]] store_grows_trans by blast
    qed
  qed
qed

lemma store_commit_grows:
  assumes "store_commit env a s st = Some st'"
  shows "store_grows st st'"
proof -
  obtain n st1 where st1: "clean_committed_transactions env a n (st\<lparr>sequence_numbers := (sequence_numbers st)(a \<mapsto> n)\<rparr>) = Some st1"
      "process_ready_transactions a (Sequential n) st1 = Some st'"
    using assms by (auto simp: store_commit_def Let_def split: bind_splits)
  have "store_grows (st\<lparr>sequence_numbers := (sequence_numbers st)(a \<mapsto> n)\<rparr>) st'"
    by (rule store_grows_trans [OF clean_grows [OF st1(1)] process_ready_grows [OF st1(2)]])
  then show ?thesis by (simp add: store_grows_def)
qed

lemma store_reject_grows: "store_reject env a s h st = Some st' \<Longrightarrow> store_grows st st'"
  unfolding store_reject_def by (auto split: if_splits dest!: remove_at_grows)

lemma gc_park_grows:
  assumes "gc_park a s st = Some st'"
  shows "store_grows st st'"
proof (cases "get_mempool_txn st a s")
  case None
  with assms show ?thesis by (auto simp: gc_park_def get_mempool_txn_def split: option.splits)
next
  case (Some t)
  then obtain lines where "multi_remove t (timeline_index st) = Some lines" "timeline_index st' = lines"
    using assms by (auto simp: gc_park_def get_mempool_txn_def Let_def split: bind_splits option.splits)
  with multi_remove_grows [of t "timeline_index st" lines] show ?thesis by (simp add: store_grows_def)
qed

lemma gc_key_grows:
  assumes "gc_key env (e, a, s) next_key st = Some st'"
  shows "store_grows st st'"
proof (cases "transactions st a")
  case None
  with assms show ?thesis by (simp add: gc_key_def)
next
  case (Some txns)
  with assms obtain following st1 where st1: "ofold (gc_park a) following st = Some st1"
      "(case transactions st1 a of
          None \<Rightarrow> Some st1
        | Some txns1 \<Rightarrow> (case bt_get txns1 s of None \<Rightarrow> Some st1 | Some t \<Rightarrow> index_remove env t (put_txns a (bt_remove s txns1) st1))) = Some st'"
    by (auto simp: gc_key_def split: bind_splits)
  show ?thesis by (rule store_grows_trans [OF ofold_grows [OF gc_park_grows st1(1)] remove_at_grows [OF st1(2)]])
qed

lemma gc_keys_grows: "gc_keys env ks st = Some st' \<Longrightarrow> store_grows st st'"
proof (induction ks arbitrary: st)
  case (Cons k ks)
  then obtain st1 where st1: "gc_key env k (case ks of [] \<Rightarrow> None | k' # _ \<Rightarrow> Some k') st = Some st1" "gc_keys env ks st1 = Some st'"
    by (auto split: bind_splits)
  obtain e a s where k: "k = (e, a, s)" by (cases k)
  show ?case by (rule store_grows_trans [OF gc_key_grows [OF st1(1) [unfolded k]] Cons.IH [OF st1(2)]])
qed simp

lemma store_gc_grows:
  assumes "store_gc env now by_system_ttl st = Some st'"
  shows "store_grows st st'"
proof -
  obtain ks st1 where "gc_keys env ks st1 = Some st'" "timeline_index st1 = timeline_index st"
    using assms by (auto simp: store_gc_def Let_def split: prod.splits if_splits)
  with gc_keys_grows [of env ks st1 st'] show ?thesis by (simp add: store_grows_def)
qed

lemma store_call_grows: "store_call env c st = Some st' \<Longrightarrow> store_grows st st'"
  by (auto simp: store_call_def split: store_call.splits
      dest: store_insert_grows store_commit_grows store_reject_grows store_gc_grows)

text \<open>The numbers of a timeline begin with 1.\<close>

lemma store_reach_grows:
  assumes "store_reach env config n st"
  shows "\<exists>st0. store_new config = Some st0 \<and> store_grows st0 st"
  using assms by induction (use store_grows_refl store_call_grows store_grows_trans in blast)+

lemma store_reach_numbers:
  assumes "store_reach env config n st" "b < length (timelines (timeline_index st))" "bt_get (timeline (timelines (timeline_index st) ! b)) k = Some p"
  shows "1 \<le> k"
proof -
  obtain st0 where st0: "store_new config = Some st0" "store_grows st0 st" using store_reach_grows [OF assms(1)] by blast
  have b: "b < length (timelines (timeline_index st0))" "line_grows (timelines (timeline_index st0) ! b) (timelines (timeline_index st) ! b)"
    using st0(2) assms(2) by (auto simp: store_grows_def list_all2_conv_all_nth)
  have "timelines (timeline_index st0) ! b = timeline_new"
    using st0(1) b(1) by (auto simp: store_new_def multi_new_def split: sum.splits if_splits)
  with b(2) assms(3) show ?thesis by (auto simp: line_grows_def timeline_new_def)
qed

lemma store_reach_lines:
  assumes "store_reach env config n st"
  shows "length (timelines (timeline_index st)) = length (broadcast_buckets config)"
    and "line \<in> set (timelines (timeline_index st)) \<Longrightarrow> 1 \<le> timeline_id line"
proof -
  obtain st0 where st0: "store_new config = Some st0" "store_grows st0 st" using store_reach_grows [OF assms] by blast
  have new: "timelines (timeline_index st0) = map (\<lambda>_. timeline_new) (broadcast_buckets config)"
    using st0(1) by (auto simp: store_new_def multi_new_def split: sum.splits if_splits)
  have lines: "list_all2 line_grows (timelines (timeline_index st0)) (timelines (timeline_index st))" using st0(2) by (simp add: store_grows_def)
  then show "length (timelines (timeline_index st)) = length (broadcast_buckets config)" using new by (auto dest: list_all2_lengthD)
  assume "line \<in> set (timelines (timeline_index st))"
  with lines obtain b where "b < length (broadcast_buckets config)" "line_grows timeline_new line"
    unfolding new by (auto simp: list_all2_conv_all_nth in_set_conv_nth)
  then show "1 \<le> timeline_id line" by (simp add: line_grows_def timeline_new_def)
qed

end
