(* ===== verification/Mempool.thy ===== *)
theory Mempool
  imports StoreProperties Filler
begin

text \<open>
  The mempool over the transaction store (\<open>mempool/src/core_mempool/mempool.rs\<close>): which senders a peer
  of the network takes transactions from, adding a transaction, and the walk over the queue that
  selects transactions for a block.  The clock and the channel on which accepted transactions are
  handed on are arguments.  Logging and metrics are not modelled, and neither are the fields
  \<open>cached_ex\<close>, \<open>total\<close> and \<open>current\<close>, which nothing reads or writes.
\<close>

section \<open>The state\<close>

record 'h mempool =
  mp_transactions :: "'h transaction_store"
  system_transaction_timeout :: duration
  last_max_gas :: u64

definition mempool_new :: "mempool_config \<Rightarrow> 'h mempool option" where
  "mempool_new config =
     map_option (\<lambda>st. \<lparr>mp_transactions = st, system_transaction_timeout = from_secs (system_transaction_timeout_secs config),
       last_max_gas = 2000000000\<rparr>) (store_new config)"

definition commit_transaction :: "'h store_env \<Rightarrow> address \<Rightarrow> u64 \<Rightarrow> 'h mempool \<Rightarrow> 'h mempool option" where
  "commit_transaction env a s mp = map_option (\<lambda>st. mp\<lparr>mp_transactions := st\<rparr>) (store_commit env a s (mp_transactions mp))"

definition reject_transaction :: "'h store_env \<Rightarrow> address \<Rightarrow> u64 \<Rightarrow> 'h \<Rightarrow> 'h mempool \<Rightarrow> 'h mempool option" where
  "reject_transaction env a s h mp = map_option (\<lambda>st. mp\<lparr>mp_transactions := st\<rparr>) (store_reject env a s h (mp_transactions mp))"

definition mempool_gc :: "'h store_env \<Rightarrow> duration \<Rightarrow> 'h mempool \<Rightarrow> 'h mempool option" where
  "mempool_gc env now mp = map_option (\<lambda>st. mp\<lparr>mp_transactions := st\<rparr>) (store_gc env now True (mp_transactions mp))"

definition gc_by_expiration_time :: "'h store_env \<Rightarrow> duration \<Rightarrow> 'h mempool \<Rightarrow> 'h mempool option" where
  "gc_by_expiration_time env block_time mp =
     map_option (\<lambda>st. mp\<lparr>mp_transactions := st\<rparr>) (store_gc env block_time False (mp_transactions mp))"

section \<open>The shard of a peer\<close>

text \<open>
  The addresses are split by the sum of their bytes, modulo 256. With \<open>peer_count\<close> peers, a peer takes the
  sums of \<open>peer_count / 3 + 1\<close> consecutive parts, beginning with its own. The source divides floats: a
  quotient of two numbers up to 256 that is not a whole number is farther from one than the rounding
  error, so that \<open>floor\<close> and \<open>ceil\<close> give the quotients of whole numbers. The sums of products stay far
  below \<open>2 ^ 32\<close>.
\<close>

definition shard_of :: "address \<Rightarrow> u8" where
  "shard_of a = foldl (+) 0 (address_bytes a)"

definition my_space :: "u8 \<Rightarrow> u8 \<Rightarrow> nat \<times> nat" where
  "my_space peer_count peer_id =
     (if 1 < peer_count then
        let shards = unat peer_count div 3 + 1;
            dif = (256 + unat peer_count - 1) div unat peer_count;
            my_space_start = unat peer_id * dif
        in (my_space_start, my_space_start + dif * shards)
      else (0, 255))"

definition sharded_out :: "u8 \<Rightarrow> u8 \<Rightarrow> u8 \<Rightarrow> bool" where
  "sharded_out peer_count peer_id shard =
     (let (my_space_start, my_space_end) = my_space peer_count peer_id; val = unat shard
      in if 255 < my_space_end then let dif_end = my_space_end - 255 in val < my_space_start \<and> dif_end \<le> val
         else val < my_space_start \<or> my_space_end \<le> val)"

section \<open>Adding a transaction\<close>

text \<open>The sum of two durations panics when it does not fit the seconds of 64 bits.\<close>

definition add_duration :: "duration \<Rightarrow> duration \<Rightarrow> duration option" where
  "add_duration d e = (if d + e < 2 ^ 64 * 10 ^ 9 then Some (d + e) else None)"

text \<open>
  Beside the status and the mempool: the transactions sent on the channel. \<open>connected\<close> says whether the
  channel's receiver still exists; \<open>unwrap\<close> panics otherwise.
\<close>

definition add_sharded_txn ::
  "'h store_env \<Rightarrow> nat \<Rightarrow> duration \<Rightarrow> bool \<Rightarrow> signed_transaction \<Rightarrow> u64 \<Rightarrow> account_sequence_info \<Rightarrow> timeline_state
    \<Rightarrow> u8 \<Rightarrow> u8 \<Rightarrow> 'h mempool \<Rightarrow> (mempool_status_code \<times> 'h mempool \<times> signed_transaction list) option" where
  "add_sharded_txn env rng now connected txn score info state peer_count peer_id mp =
     (let db_sequence_number = min_seq info
      in if sequence_number txn < db_sequence_number then Some (InvalidSeqNumber, mp, [])
         else if sharded_out peer_count peer_id (shard_of (sender txn)) then Some (UnknownStatus, mp, [])
         else if \<not> connected then None
         else do {
           expiration \<leftarrow> add_duration now (system_transaction_timeout mp);
           (code, st) \<leftarrow> store_insert env rng (mempool_transaction_new txn expiration score state (Sequential db_sequence_number) now)
                         (mp_transactions mp);
           Some (code, mp\<lparr>mp_transactions := st\<rparr>, [txn])
         })"

definition add_txn ::
  "'h store_env \<Rightarrow> nat \<Rightarrow> duration \<Rightarrow> signed_transaction \<Rightarrow> u64 \<Rightarrow> account_sequence_info \<Rightarrow> timeline_state
    \<Rightarrow> 'h mempool \<Rightarrow> (mempool_status_code \<times> 'h mempool) option" where
  "add_txn env rng now txn score info state mp =
     map_option (\<lambda>(code, mp', sent). (code, mp')) (add_sharded_txn env rng now True txn score info state 1 0 mp)"

section \<open>Selecting transactions for a block\<close>

text \<open>
  The state of the walk: the transactions seen, those skipped because their predecessor was not seen,
  the bytes and the transactions chosen so far. \<open>result\<close> maps consecutive numbers from 0 on: it is a list.
\<close>

record walk =
  seen :: "txn_pointer set"
  skipped :: "txn_pointer set"
  walk_bytes :: nat
  chosen :: "signed_transaction list"

text \<open>The inner loop, over the skipped successors of a chosen transaction; \<open>True\<close> leaves the outer loop.\<close>

function pull_skipped :: "'h transaction_store \<Rightarrow> u64 \<Rightarrow> address \<Rightarrow> u64 \<Rightarrow> walk \<Rightarrow> (bool \<times> walk) option" where
  "pull_skipped st max_txn a s w =
     (if (a, s) \<notin> skipped w then Some (False, w)
      else if unat max_txn \<le> length (chosen w) then Some (True, w)
      else case store_get st a s of
             None \<Rightarrow> None
           | Some txn \<Rightarrow>
               if s = - 1 then None
               else pull_skipped st max_txn a (s + 1) (w\<lparr>seen := insert (a, s) (seen w), chosen := chosen w @ [txn]\<rparr>))"
  by pat_completeness auto
termination
proof (relation "measure (\<lambda>(st, max_txn, a, s, w). unat (- 1 - s))")
  show "s \<noteq> - 1 \<Longrightarrow> ((st, max_txn, a, s + 1, w'), st, max_txn, a, s, w) \<in> measure (\<lambda>(st, max_txn, a, s, w). unat (- 1 - s))"
    for st :: "'h transaction_store" and max_txn a w w' and s :: u64 unfolding in_measure prod.case by (rule promote_dec)
qed simp

declare pull_skipped.simps [simp del]

definition walk_step ::
  "'h store_env \<Rightarrow> 'h transaction_store \<Rightarrow> u64 \<Rightarrow> u64 \<Rightarrow> ordered_queue_key \<Rightarrow> walk \<Rightarrow> (bool \<times> walk) option" where
  "walk_step env st max_txn max_byte k w =
     (let ptr = queue_pointer k; (a, tx_seq) = ptr
      in if ptr \<in> seen w then Some (False, w)
         else
           let seen_previous = (0 < tx_seq \<and> (a, tx_seq - 1) \<in> seen w)
           in if seen_previous \<or> get_sequence_number st a = Some tx_seq then
                if unat max_txn \<le> length (chosen w) then Some (True, w)
                else case store_get st a tx_seq of
                       None \<Rightarrow> None
                     | Some full_tx \<Rightarrow>
                         let bytes_len = raw_txn_bytes_len (serialized_size env) full_tx
                         in if unat max_byte < walk_bytes w + bytes_len then Some (True, w)
                            else if tx_seq = - 1 then None
                            else pull_skipped st max_txn a (tx_seq + 1)
                                   (w\<lparr>seen := insert ptr (seen w), walk_bytes := walk_bytes w + bytes_len, chosen := chosen w @ [full_tx]\<rparr>)
              else Some (False, w\<lparr>skipped := insert ptr (skipped w)\<rparr>))"

fun walk_queue ::
  "'h store_env \<Rightarrow> 'h transaction_store \<Rightarrow> u64 \<Rightarrow> u64 \<Rightarrow> ordered_queue_key list \<Rightarrow> walk \<Rightarrow> walk option" where
  "walk_queue env st max_txn max_byte [] w = Some w"
| "walk_queue env st max_txn max_byte (k # ks) w =
     do { (stop, w') \<leftarrow> walk_step env st max_txn max_byte k w; if stop then Some w' else walk_queue env st max_txn max_byte ks w' }"

text \<open>
  The new filler is only given its gas per core: the call that would fill it is commented out, so that
  \<open>get_blockx\<close> is empty. \<open>num_threads\<close> is the size of the executor's thread pool.
\<close>

definition get_full_batch ::
  "'h store_env \<Rightarrow> u32 \<Rightarrow> txn_pointer set \<Rightarrow> 'h mempool \<Rightarrow> (dependency_filler \<times> 'h mempool) option" where
  "get_full_batch env num_threads seen_txns mp =
     do {
       block_filler \<leftarrow> dependency_filler_new 2000000000 1000000 10000 num_threads;
       w \<leftarrow> walk_queue env (mp_transactions mp) (max_txns block_filler) (max_bytes block_filler) (iter_queue (mp_transactions mp))
              \<lparr>seen = seen_txns, skipped = {}, walk_bytes = 0, chosen = []\<rparr>;
       if chosen w \<noteq> [] then
         do {
           block_filler' \<leftarrow> set_gas_per_core (last_max_gas mp) block_filler;
           let n = length (block block_filler');
           if 500 \<le> n then
             do {
               gas \<leftarrow> mul_chk (total_estimated_gas block_filler') (of_nat (max (unat (max_txns block_filler') div n) 1));
               Some (block_filler', mp\<lparr>last_max_gas := gas\<rparr>)
             }
           else Some (block_filler', mp)
         }
       else Some (block_filler, mp)
     }"

definition get_batch :: "txn_pointer set \<Rightarrow> 'f \<Rightarrow> 'h mempool \<Rightarrow> 'f" where
  "get_batch seen_txns block_filler mp = block_filler"

section \<open>What the walk selects\<close>

definition txn_ptr :: "signed_transaction \<Rightarrow> txn_pointer" where
  "txn_ptr txn = (sender txn, sequence_number txn)"

text \<open>A transaction may be taken when it is the next one of its account, or its predecessor has been taken.\<close>

definition continues :: "'h transaction_store \<Rightarrow> txn_pointer set \<Rightarrow> txn_pointer \<Rightarrow> bool" where
  "continues st S p \<longleftrightarrow> get_sequence_number st (fst p) = Some (snd p) \<or> 0 < snd p \<and> (fst p, snd p - 1) \<in> S"

fun in_sequence :: "'h transaction_store \<Rightarrow> txn_pointer set \<Rightarrow> signed_transaction list \<Rightarrow> bool" where
  "in_sequence st S [] \<longleftrightarrow> True"
| "in_sequence st S (t # ts) \<longleftrightarrow> continues st S (txn_ptr t) \<and> txn_ptr t \<notin> S \<and> in_sequence st (insert (txn_ptr t) S) ts"

lemma in_sequence_snoc:
  "in_sequence st S (ts @ [t]) \<longleftrightarrow> in_sequence st S ts \<and> continues st (S \<union> txn_ptr ` set ts) (txn_ptr t) \<and> txn_ptr t \<notin> S \<union> txn_ptr ` set ts"
  by (induction ts arbitrary: S) auto

definition skip_ok :: "'h transaction_store \<Rightarrow> walk \<Rightarrow> bool" where
  "skip_ok st w \<longleftrightarrow> (\<forall>p \<in> skipped w. stored st p \<noteq> None \<and> get_sequence_number st (fst p) \<noteq> Some (snd p)
     \<and> (p \<in> seen w \<longrightarrow> (fst p, snd p - 1) \<in> seen w))"

lemma skip_ok_seen:
  assumes "skip_ok st w" "p \<in> skipped w \<Longrightarrow> (fst p, snd p - 1) \<in> seen w"
  shows "skip_ok st (w\<lparr>seen := insert p (seen w), walk_bytes := b, chosen := c\<rparr>)"
  using assms unfolding skip_ok_def by simp

definition walk_inv :: "'h transaction_store \<Rightarrow> txn_pointer set \<Rightarrow> walk \<Rightarrow> bool" where
  "walk_inv st S w \<longleftrightarrow> seen w = S \<union> txn_ptr ` set (chosen w) \<and> in_sequence st S (chosen w)
     \<and> (\<forall>txn \<in> set (chosen w). store_get st (sender txn) (sequence_number txn) = Some txn) \<and> skip_ok st w"

lemma store_get_ptr:
  assumes "store_ok env st" "store_get st a s = Some txn"
  shows "txn_ptr txn = (a, s)" "sender txn = a" "sequence_number txn = s" "s \<noteq> - 1"
proof -
  have ok: "indexes_ok env (stored st) {} {} {} st" and acc: "account_ok st a" using assms(1) by (simp_all add: store_inv_def)
  obtain txns t where t: "transactions st a = Some txns" "bt_get txns s = Some t" "txn = mt_txn t"
    using assms(2) by (auto simp: store_get_def get_mempool_txn_def split: bind_splits)
  have p: "get_sender t = a" "txn_seq t = s" "txn_wf t" using stored_pointer(2-4) [OF ok t(1,2)] .
  then show "sender txn = a" "sequence_number txn = s" by (simp_all add: t(3) get_sender_def txn_wf_def)
  then show "txn_ptr txn = (a, s)" by (simp add: txn_ptr_def)
  have "s \<in> bs_keys txns" using t(2) bt_get_None [of txns s] by auto
  then show "s \<noteq> - 1" using acc t(1) unfolding account_ok_def by blast
qed

lemma stored_get: "stored st (a, s) \<noteq> None \<Longrightarrow> \<exists>txn. store_get st a s = Some txn"
  by (auto simp: stored_def store_get_def)

lemma walk_choose:
  assumes inv: "walk_inv st S w" and ok: "store_ok env st" and txn: "store_get st a s = Some txn" and new: "(a, s) \<notin> seen w"
    and cont: "continues st (seen w) (a, s)" and skip: "(a, s) \<in> skipped w \<Longrightarrow> (a, s - 1) \<in> seen w"
  shows "walk_inv st S (w\<lparr>seen := insert (a, s) (seen w), walk_bytes := b, chosen := chosen w @ [txn]\<rparr>)"
proof -
  note ptr = store_get_ptr [OF ok txn]
  have "in_sequence st S (chosen w @ [txn])" unfolding in_sequence_snoc using inv new cont by (simp add: walk_inv_def ptr(1))
  moreover have "skip_ok st (w\<lparr>seen := insert (a, s) (seen w), walk_bytes := b, chosen := chosen w @ [txn]\<rparr>)"
    using inv skip by (intro skip_ok_seen) (simp_all add: walk_inv_def)
  moreover have "seen w = S \<union> txn_ptr ` set (chosen w)" using inv by (simp add: walk_inv_def)
  ultimately show ?thesis using inv txn ptr unfolding walk_inv_def by simp
qed

lemma pull_ok:
  assumes "walk_inv st S w" "store_ok env st" "(a, s - 1) \<in> seen w" "s \<noteq> 0" "(a, s) \<in> skipped w \<Longrightarrow> (a, s) \<notin> seen w"
    "length (chosen w) \<le> unat max_txn"
  shows "\<exists>stop w'. pull_skipped st max_txn a s w = Some (stop, w') \<and> walk_inv st S w' \<and> length (chosen w') \<le> unat max_txn"
  using assms
proof (induction st max_txn a s w rule: pull_skipped.induct)
  case (1 st max_txn a s w)
  show ?case
  proof (cases "(a, s) \<notin> skipped w \<or> unat max_txn \<le> length (chosen w)")
    case True
    with 1(2,7) show ?thesis by (subst pull_skipped.simps) auto
  next
    case False
    then have sk: "(a, s) \<in> skipped w" and len: "length (chosen w) < unat max_txn" by auto
    then have "stored st (a, s) \<noteq> None" using 1(2) unfolding walk_inv_def skip_ok_def by blast
    then obtain txn where txn: "store_get st a s = Some txn" using stored_get by blast
    have max: "s \<noteq> - 1" by (rule store_get_ptr(4) [OF 1(3) txn])
    have new: "(a, s) \<notin> seen w" using 1(6) sk .
    let ?w = "w\<lparr>seen := insert (a, s) (seen w), chosen := chosen w @ [txn]\<rparr>"
    have cont: "continues st (seen w) (a, s)" using 1(4,5) by (simp add: continues_def word_neq_0_conv)
    have "walk_inv st S (w\<lparr>seen := insert (a, s) (seen w), walk_bytes := walk_bytes w, chosen := chosen w @ [txn]\<rparr>)"
      by (rule walk_choose [OF 1(2,3) txn new cont 1(4)])
    then have inv: "walk_inv st S ?w" by simp
    have nz: "s + 1 \<noteq> 0" using max by (metis add.inverse_unique add.commute)
    have fresh: "(a, s + 1) \<notin> seen ?w" if "(a, s + 1) \<in> skipped ?w"
    proof -
      have "(a, s + 1) \<in> skipped w" using that by simp
      with 1(2) have "(a, s + 1) \<in> seen w \<longrightarrow> (a, s + 1 - 1) \<in> seen w" unfolding walk_inv_def skip_ok_def by fastforce
      with new show ?thesis by simp
    qed
    have "\<exists>stop w'. pull_skipped st max_txn a (s + 1) ?w = Some (stop, w') \<and> walk_inv st S w' \<and> length (chosen w') \<le> unat max_txn"
      by (rule 1(1)) (use False txn max inv 1(3) nz fresh len in auto)
    then show ?thesis using sk len txn max by (subst pull_skipped.simps) simp
  qed
qed

lemma queue_stored:
  assumes "store_ok env st" "k \<in> set (iter_queue st)"
  shows "stored st (queue_pointer k) \<noteq> None"
proof -
  have base: "base_ok env (stored st) {} {} st" using assms(1) by (simp add: store_inv_def indexes_ok_def)
  note b = base_okD [OF base]
  obtain r where r: "(r, k) \<in> set (priority_index st)" using assms(2) by (auto simp: iter_queue_def prio_iter_def)
  then have "queue_key_order k = r" using b(7) unfolding prio_ok_def by fastforce
  moreover have "r \<in> prio_key ` ran (stored st)" using b(8) r by force
  ultimately obtain t where t: "t \<in> ran (stored st)" "queue_key_order k = prio_key t" by auto
  then have "queue_pointer k = txn_pointer t"
    by (simp add: queue_key_order_def prio_key_def prio_make_key_def queue_pointer_def txn_pointer_def txn_seq_def)
  moreover have "stored st (txn_pointer t) = Some t" using t(1) b(1) unfolding ran_def pointers_ok_def by blast
  ultimately show ?thesis by simp
qed

lemma walk_step_ok:
  assumes inv: "walk_inv st S w" and ok: "store_ok env st" and k: "stored st (queue_pointer k) \<noteq> None" and len: "length (chosen w) \<le> unat max_txn"
  shows "\<exists>stop w'. walk_step env st max_txn max_byte k w = Some (stop, w') \<and> walk_inv st S w' \<and> length (chosen w') \<le> unat max_txn"
proof -
  obtain a s where p: "queue_pointer k = (a, s)" by (cases "queue_pointer k")
  obtain txn where txn: "store_get st a s = Some txn" using k stored_get unfolding p by blast
  note max = store_get_ptr(4) [OF ok txn]
  consider "(a, s) \<in> seen w" | "(a, s) \<notin> seen w" "\<not> continues st (seen w) (a, s)"
    | "(a, s) \<notin> seen w" "continues st (seen w) (a, s)" "unat max_txn \<le> length (chosen w)"
    | "(a, s) \<notin> seen w" "continues st (seen w) (a, s)" "length (chosen w) < unat max_txn"
    by fastforce
  then show ?thesis
  proof cases
    case 1
    with inv len show ?thesis by (intro exI [of _ False] exI [of _ w]) (simp add: walk_step_def p)
  next
    case 2
    then have "walk_step env st max_txn max_byte k w = Some (False, w\<lparr>skipped := insert (a, s) (skipped w)\<rparr>)"
      by (auto simp: walk_step_def p continues_def Let_def)
    moreover have "skip_ok st w" using inv by (simp add: walk_inv_def)
    then have "skip_ok st (w\<lparr>skipped := insert (a, s) (skipped w)\<rparr>)"
      using 2 k unfolding skip_ok_def by (simp add: p continues_def)
    ultimately show ?thesis using inv len by (auto simp: walk_inv_def)
  next
    case 3
    then show ?thesis using inv len by (intro exI [of _ True] exI [of _ w]) (auto simp: walk_step_def p continues_def Let_def)
  next
    case 4
    let ?n = "raw_txn_bytes_len (serialized_size env) txn"
    let ?w = "w\<lparr>seen := insert (a, s) (seen w), walk_bytes := walk_bytes w + ?n, chosen := chosen w @ [txn]\<rparr>"
    have step: "walk_step env st max_txn max_byte k w =
        (if unat max_byte < walk_bytes w + ?n then Some (True, w) else pull_skipped st max_txn a (s + 1) ?w)"
      using 4 txn max by (auto simp: walk_step_def p continues_def Let_def)
    have skip: "(a, s - 1) \<in> seen w" if "(a, s) \<in> skipped w"
    proof -
      have "get_sequence_number st a \<noteq> Some s" using inv that unfolding walk_inv_def skip_ok_def by fastforce
      with 4(2) show ?thesis by (simp add: continues_def)
    qed
    have w: "walk_inv st S ?w" by (rule walk_choose [OF inv ok txn 4(1,2) skip])
    have nz: "s + 1 \<noteq> 0" using max by (metis add.inverse_unique add.commute)
    have fresh: "(a, s + 1) \<notin> seen ?w" if "(a, s + 1) \<in> skipped ?w"
    proof -
      have "(a, s + 1) \<in> skipped w" using that by simp
      with inv have "(a, s + 1) \<in> seen w \<longrightarrow> (a, s + 1 - 1) \<in> seen w" unfolding walk_inv_def skip_ok_def by fastforce
      with 4(1) show ?thesis by simp
    qed
    have "\<exists>stop w'. pull_skipped st max_txn a (s + 1) ?w = Some (stop, w') \<and> walk_inv st S w' \<and> length (chosen w') \<le> unat max_txn"
      by (rule pull_ok [OF w ok _ nz fresh]) (use 4(3) in auto)
    with step inv len show ?thesis by auto
  qed
qed

lemma walk_queue_ok:
  assumes "walk_inv st S w" "store_ok env st" "\<forall>k \<in> set ks. stored st (queue_pointer k) \<noteq> None" "length (chosen w) \<le> unat max_txn"
  shows "\<exists>w'. walk_queue env st max_txn max_byte ks w = Some w' \<and> walk_inv st S w' \<and> length (chosen w') \<le> unat max_txn"
  using assms
proof (induction ks arbitrary: w)
  case (Cons k ks)
  have "stored st (queue_pointer k) \<noteq> None" using Cons.prems(3) by simp
  from walk_step_ok [OF Cons.prems(1,2) this Cons.prems(4)] obtain stop w1 where w1: "walk_step env st max_txn max_byte k w = Some (stop, w1)"
      "walk_inv st S w1" "length (chosen w1) \<le> unat max_txn" by blast
  then show ?case using Cons.IH [OF w1(2) Cons.prems(2) _ w1(3)] Cons.prems(3) by (cases stop) auto
qed simp

section \<open>Properties\<close>

lemma ceil_parts: "256 \<le> ((256 + p - 1) div p) * p" if "0 < p" for p :: nat
proof -
  have "256 + p - 1 = ((256 + p - 1) div p) * p + (256 + p - 1) mod p" by (rule div_mult_mod_eq [symmetric])
  moreover have "(256 + p - 1) mod p < p" using that by simp
  ultimately show ?thesis by linarith
qed

text \<open>The peer that is \<open>j\<close> places before the one whose part a value lies in takes the value, if \<open>j\<close> is below the number of parts that a peer takes.\<close>

lemma peer_before_takes:
  fixes n d v j :: nat
  assumes v: "v < 256" and d: "256 \<le> d * n" "0 < d" "0 < n" and j: "j < k" "k \<le> n"
  defines "i \<equiv> (if j \<le> v div d then v div d - j else n + v div d - j)"
  shows "i < n"
    and "\<not> (if 255 < i * d + d * k then v < i * d \<and> i * d + d * k - 255 \<le> v else v < i * d \<or> i * d + d * k \<le> v)"
proof -
  have q: "v div d < n" using v d by (simp add: div_less_iff_less_mult mult.commute)
  have vd: "(v div d) * d \<le> v" "v < Suc (v div d) * d"
    using dividend_less_div_times [OF d(2), of v] by (simp_all add: add.commute)
  show "i < n" using q j by (auto simp: i_def)
  show "\<not> (if 255 < i * d + d * k then v < i * d \<and> i * d + d * k - 255 \<le> v else v < i * d \<or> i * d + d * k \<le> v)"
  proof (cases "j \<le> v div d")
    case True
    then have i: "i = v div d - j" by (simp add: i_def)
    have "i * d \<le> (v div d) * d" by (rule mult_le_mono1) (simp add: i)
    moreover have "Suc (v div d) * d \<le> (i + k) * d" by (rule mult_le_mono1) (use i True j in simp)
    moreover have "(i + k) * d = i * d + d * k" by (simp add: algebra_simps)
    ultimately have "i * d \<le> v" "v < i * d + d * k" using vd by linarith+
    then show ?thesis by simp
  next
    case False
    then have i: "i = n + v div d - j" by (simp add: i_def)
    have "(n + Suc (v div d)) * d \<le> (i + k) * d" by (rule mult_le_mono1) (use i False j in simp)
    then have "256 + v < i * d + d * k" using d(1) vd(2) by (simp add: algebra_simps)
    then have "255 < i * d + d * k" "v < i * d + d * k - 255" by linarith+
    then show ?thesis by simp
  qed
qed

lemma peers_before_distinct:
  fixes n q k :: nat
  assumes "q < n" "k \<le> n"
  shows "inj_on (\<lambda>j. if j \<le> q then q - j else n + q - j) {..<k}"
  by (rule inj_onI) (use assms in \<open>auto split: if_splits\<close>)

text \<open>C25. Of two or more peers, at least a third of their number and one more take the transactions of any sender.
  So when at most a third of the peers fail, one that works takes them.\<close>

theorem shards_overlap:
  assumes "1 < peer_count"
  shows "unat peer_count div 3 + 1 \<le> card {peer_id. peer_id < peer_count \<and> \<not> sharded_out peer_count peer_id (shard_of a)}"
proof -
  let ?n = "unat peer_count" and ?v = "unat (shard_of a)"
  let ?k = "?n div 3 + 1" and ?d = "(256 + ?n - 1) div ?n"
  let ?f = "\<lambda>j. if j \<le> ?v div ?d then ?v div ?d - j else ?n + ?v div ?d - j"
  have n: "1 < ?n" "?n < 256" using assms unsigned_less [of peer_count, where ?'a = nat] by (simp_all add: word_less_nat_alt)
  have v: "?v < 256" using unsigned_less [of "shard_of a", where ?'a = nat] by simp
  have k: "?k \<le> ?n" using n by simp
  have d: "256 \<le> ?d * ?n" "0 < ?d" using ceil_parts [of ?n] n by (simp_all add: div_greater_zero_iff)
  have takes: "?f j < ?n \<and> \<not> sharded_out peer_count (of_nat (?f j)) (shard_of a)" if "j < ?k" for j
  proof -
    note t = peer_before_takes [OF v d _ that k]
    have "?f j < ?n" using t(1) n by simp
    then have u: "unat (of_nat (?f j) :: u8) = ?f j" using n by (simp add: unat_of_nat)
    have "\<not> sharded_out peer_count (of_nat (?f j)) (shard_of a)"
      using t(2) n assms unfolding sharded_out_def my_space_def Let_def by (simp only: u if_True prod.case) simp
    with \<open>?f j < ?n\<close> show ?thesis ..
  qed
  have "(\<lambda>j. of_nat (?f j) :: u8) ` {..<?k} \<subseteq> {peer_id. peer_id < peer_count \<and> \<not> sharded_out peer_count peer_id (shard_of a)}"
  proof
    fix p assume "p \<in> (\<lambda>j. of_nat (?f j) :: u8) ` {..<?k}"
    then obtain j where j: "j < ?k" "p = of_nat (?f j)" by blast
    then have "unat p = ?f j" using takes [OF j(1)] n by (simp add: unat_of_nat)
    then show "p \<in> {peer_id. peer_id < peer_count \<and> \<not> sharded_out peer_count peer_id (shard_of a)}"
      using takes [OF j(1)] j(2) by (simp add: word_less_nat_alt)
  qed
  then have "card ((\<lambda>j. of_nat (?f j) :: u8) ` {..<?k}) \<le> card {peer_id. peer_id < peer_count \<and> \<not> sharded_out peer_count peer_id (shard_of a)}"
    by (intro card_mono) simp_all
  moreover have "inj_on (\<lambda>j. of_nat (?f j) :: u8) {..<?k}"
  proof (rule inj_onI)
    fix i j assume ij: "i \<in> {..<?k}" "j \<in> {..<?k}" "(of_nat (?f i) :: u8) = of_nat (?f j)"
    have "unat (of_nat (?f l) :: u8) = ?f l" if "l < ?k" for l using takes [OF that] n by (simp add: unat_of_nat)
    then have "?f i = ?f j" using ij by (metis lessThan_iff)
    moreover have "?v div ?d < ?n" using v d by (simp add: div_less_iff_less_mult mult.commute)
    ultimately show "i = j" using peers_before_distinct [OF _ k] ij(1,2) unfolding inj_on_def by blast
  qed
  ultimately show ?thesis by (simp add: card_image)
qed

theorem shards_overlap_witness: "2 \<le> card {peer_id. peer_id < 4 \<and> \<not> sharded_out 4 peer_id (shard_of 7)}"
  using shards_overlap [of 4 7] by simp

lemma forget_sent:
  "map_option (\<lambda>(code, mp', sent). (code, mp')) (m \<bind> (\<lambda>e. g e \<bind> (\<lambda>(code, st). Some (code, h st, txns)))) =
     (m \<bind> (\<lambda>e. g e \<bind> (\<lambda>(code, st). Some (code, h st))))"
  by (cases m) (auto split: bind_split)

text \<open>C26. What adding a transaction without sharding does.  A sequence number below the account's is refused, and so is every
  transaction of a sender whose address bytes sum to 255, although a single peer has no others to leave it to.  Any
  other transaction is inserted into the store, with the system's timeout from now on.\<close>

theorem add_txn_exact:
  "add_txn env rng now txn score info state mp =
     (if sequence_number txn < min_seq info then Some (InvalidSeqNumber, mp)
      else if shard_of (sender txn) = 255 then Some (UnknownStatus, mp)
      else do {
        expiration \<leftarrow> add_duration now (system_transaction_timeout mp);
        (code, st) \<leftarrow> store_insert env rng (mempool_transaction_new txn expiration score state info now) (mp_transactions mp);
        Some (code, mp\<lparr>mp_transactions := st\<rparr>)
      })"
proof -
  have shard: "sharded_out 1 0 v \<longleftrightarrow> v = 255" for v
    using unsigned_less [of v, where ?'a = nat] by (auto simp: sharded_out_def my_space_def word_unat_eq_iff)
  have info: "Sequential (min_seq info) = info" by (cases info) simp
  show ?thesis unfolding add_txn_def add_sharded_txn_def Let_def shard info by (simp add: forget_sent)
qed

text \<open>C27. The walk over the queue for a block returns, and selects only stored transactions that were not seen before, at
  most as many as fit a block, each of them the next one of its account or the successor of one that was seen or
  selected earlier.  The block that is handed out, however, is empty, and the mempool unchanged.\<close>

theorem full_batch_selected_not_filled:
  assumes "store_reach env config n (mp_transactions mp)" "hash_ok env" "in_budget config (Suc n)" "0 < config_capacity_per_user config"
    and "0 < num_threads"
  shows "\<exists>w f. walk_queue env (mp_transactions mp) 10000 1000000 (iter_queue (mp_transactions mp))
        \<lparr>seen = seen_txns, skipped = {}, walk_bytes = 0, chosen = []\<rparr> = Some w
    \<and> in_sequence (mp_transactions mp) seen_txns (chosen w) \<and> length (chosen w) \<le> 10000
    \<and> (\<forall>txn \<in> set (chosen w). store_get (mp_transactions mp) (sender txn) (sequence_number txn) = Some txn)
    \<and> get_full_batch env num_threads seen_txns mp = Some (f, mp) \<and> block f = []"
proof -
  let ?st = "mp_transactions mp" and ?w = "\<lparr>seen = seen_txns, skipped = {}, walk_bytes = 0, chosen = []\<rparr>"
  have ok: "store_ok env ?st" by (rule reached_store(2) [OF assms(1-4)])
  have "walk_inv ?st seen_txns ?w" by (simp add: walk_inv_def skip_ok_def)
  from walk_queue_ok [OF this ok, of "iter_queue ?st" 10000 1000000] queue_stored [OF ok]
  obtain w where w: "walk_queue env ?st 10000 1000000 (iter_queue ?st) ?w = Some w" "walk_inv ?st seen_txns w" "length (chosen w) \<le> 10000"
    by auto
  have "uint num_threads < 2 ^ 32" using unsigned_less [of num_threads, where ?'a = int] by simp
  then have "mul_chk 2000000000 (ucast num_threads :: u64) \<noteq> None" by (simp add: mul_chk_def unsigned_ucast_eq take_bit_int_eq_self)
  then obtain f where f: "dependency_filler_new 2000000000 1000000 10000 num_threads = Some f" "max_txns f = 10000" "max_bytes f = 1000000"
      "block f = []" "cores f = num_threads"
    by (auto simp: dependency_filler_new_def)
  then have "\<exists>f'. get_full_batch env num_threads seen_txns mp = Some (f', mp) \<and> block f' = []"
    using w(1) assms(5) by (simp add: get_full_batch_def set_gas_per_core_def)
  with w show ?thesis by (auto simp: walk_inv_def)
qed

definition pool_mempool :: "signed_transaction mempool" where
  "pool_mempool = \<lparr>mp_transactions = pool, system_transaction_timeout = from_secs 60, last_max_gas = 2000000000\<rparr>"

theorem full_batch_selected_not_filled_witness:
  "\<exists>w f. walk_queue pool_env pool 10000 1000000 (iter_queue pool) \<lparr>seen = {}, skipped = {}, walk_bytes = 0, chosen = []\<rparr> = Some w
    \<and> in_sequence pool {} (chosen w) \<and> get_full_batch pool_env 8 {} pool_mempool = Some (f, pool_mempool) \<and> block f = []"
proof -
  have mp: "mp_transactions pool_mempool = pool" by (simp add: pool_mempool_def)
  have "store_reach pool_env pool_config 3 (mp_transactions pool_mempool)" unfolding mp by (rule pool_reached)
  from full_batch_selected_not_filled [OF this pool_hash pool_limits(1,3), of 8 "{}"] show ?thesis unfolding mp by auto
qed

end
