(* ===== verification/Broadcast.thy ===== *)
theory Broadcast
  imports StoreTimelines Mempool
begin

text \<open>
  Broadcasting the transactions of the mempool to its peers (\<open>mempool/src/shared_mempool/network.rs\<close> and
  \<open>types.rs\<close>): for every peer the position it has been sent the timelines up to, and the batches that it
  has not acknowledged or asked to be sent again.  Sending itself, the clock and the random numbers that break
  ties between peers are arguments.  Metrics and logging are not modelled.
\<close>

section \<open>Batches\<close>

type_synonym multi_batch_id = "(u64 \<times> u64) list"

text \<open>
  The order of batches: pair by pair from the last bucket on, as far as both have buckets. Two identifiers
  of different lengths may compare as equal.
\<close>

datatype ordering = OLess | OEqual | OGreater

fun pairs_cmp :: "((u64 \<times> u64) \<times> (u64 \<times> u64)) list \<Rightarrow> ordering" where
  "pairs_cmp [] = OEqual"
| "pairs_cmp ((p, q) # rest) = (if p < q then OLess else if q < p then OGreater else pairs_cmp rest)"

definition batch_cmp :: "multi_batch_id \<Rightarrow> multi_batch_id \<Rightarrow> ordering" where
  "batch_cmp x y = pairs_cmp (zip (rev x) (rev y))"

definition timeline_ids_new :: "nat \<Rightarrow> u64 list" where
  "timeline_ids_new num_buckets = replicate num_buckets 0"

definition timeline_ids_update :: "multi_batch_id \<Rightarrow> u64 list \<Rightarrow> u64 list" where
  "timeline_ids_update batch_id ids =
     (if length ids \<noteq> length batch_id then ids else map2 (\<lambda>cur (start_id, end_id). max cur end_id) ids batch_id)"

definition from_timeline_ids :: "u64 list \<Rightarrow> u64 list \<Rightarrow> multi_batch_id" where
  "from_timeline_ids old new = zip old new"

text \<open>
  Maps from batches, in their order. A search stops at the first entry that compares as equal; among
  identifiers of one length there is at most one. With identifiers of different lengths several entries
  may compare as equal: a \<open>BTreeMap\<close> then finds the first entry of its root that does, which is the
  first of all as long as the map fits into one node (eleven entries).
\<close>

type_synonym 'v batch_map = "(multi_batch_id \<times> 'v) list"

fun batch_remove :: "multi_batch_id \<Rightarrow> 'v batch_map \<Rightarrow> 'v option \<times> 'v batch_map" where
  "batch_remove x [] = (None, [])"
| "batch_remove x ((y, v) # es) =
     (if batch_cmp x y = OEqual then (Some v, es) else let (r, es') = batch_remove x es in (r, (y, v) # es'))"

fun batch_insert :: "multi_batch_id \<Rightarrow> 'v \<Rightarrow> 'v batch_map \<Rightarrow> 'v batch_map" where
  "batch_insert x w [] = [(x, w)]"
| "batch_insert x w ((y, v) # es) =
     (case batch_cmp x y of OLess \<Rightarrow> (x, w) # (y, v) # es | OEqual \<Rightarrow> (y, w) # es | OGreater \<Rightarrow> (y, v) # batch_insert x w es)"

section \<open>Peers\<close>

datatype network_id = ValidatorNetwork | VfnNetwork | PublicNetwork

datatype peer_role = ValidatorRole | PreferredUpstream | Upstream | ValidatorFullNode | Downstream | Known | Unknown

datatype role_type = ValidatorNode | FullNode

datatype connection_origin = Inbound | Outbound

type_synonym peer_network_id = "network_id \<times> address"

text \<open>Of the data of a connection only its origin and the role of the peer are used here.\<close>

record connection_metadata =
  conn_origin :: connection_origin
  conn_role :: peer_role

record broadcast_info =
  sent_batches :: "duration batch_map"
  retry_batches :: "unit batch_map"
  backoff_mode :: bool

definition broadcast_info_new :: broadcast_info where
  "broadcast_info_new = \<lparr>sent_batches = [], retry_batches = [], backoff_mode = False\<rparr>"

record peer_sync_state =
  peer_timeline_id :: "u64 list"
  peer_info :: broadcast_info
  peer_metadata :: connection_metadata

definition peer_sync_state_new :: "connection_metadata \<Rightarrow> nat \<Rightarrow> peer_sync_state" where
  "peer_sync_state_new metadata num_broadcast_buckets =
     \<lparr>peer_timeline_id = timeline_ids_new num_broadcast_buckets, peer_info = broadcast_info_new, peer_metadata = metadata\<rparr>"

text \<open>The hash map of the peers is a list of entries, in the order in which it happens to be walked.\<close>

record network_interface =
  sync_states :: "(peer_network_id \<times> peer_sync_state) list"
  prioritized_peers :: "peer_network_id list"
  ni_role :: role_type
  ni_config :: mempool_config
  ni_peer_id :: address

definition network_interface_new :: "role_type \<Rightarrow> mempool_config \<Rightarrow> address \<Rightarrow> network_interface" where
  "network_interface_new role config pid =
     \<lparr>sync_states = [], prioritized_peers = [], ni_role = role, ni_config = config, ni_peer_id = pid\<rparr>"

definition put_state :: "peer_network_id \<Rightarrow> peer_sync_state \<Rightarrow> network_interface \<Rightarrow> network_interface" where
  "put_state peer state ni = ni\<lparr>sync_states := map (\<lambda>(p, s). (p, if p = peer then state else s)) (sync_states ni)\<rparr>"

definition get_peer_count :: "network_interface \<Rightarrow> nat" where
  "get_peer_count ni = length (sync_states ni)"

definition get_peer_position :: "network_interface \<Rightarrow> nat" where
  "get_peer_position ni = get_peer_count ni - length (filter (\<lambda>((netw, pid), s). ni_peer_id ni < pid) (sync_states ni))"

definition network_rank :: "network_id \<Rightarrow> nat" where
  "network_rank netw = (case netw of ValidatorNetwork \<Rightarrow> 0 | VfnNetwork \<Rightarrow> 3 | PublicNetwork \<Rightarrow> 4)"

definition role_rank :: "peer_role \<Rightarrow> nat" where
  "role_rank role = (case role of ValidatorRole \<Rightarrow> 0 | PreferredUpstream \<Rightarrow> 1 | Upstream \<Rightarrow> 2 | ValidatorFullNode \<Rightarrow> 3
     | Downstream \<Rightarrow> 4 | Known \<Rightarrow> 5 | Unknown \<Rightarrow> 6)"

text \<open>Peers are ordered by network, by role, and by a hash with random keys.\<close>

definition peer_order :: "(address \<Rightarrow> u64) \<Rightarrow> peer_network_id \<times> peer_role \<Rightarrow> nat \<times> nat \<times> u64" where
  "peer_order hash_peer_id = (\<lambda>((netw, pid), role). (network_rank netw, role_rank role, hash_peer_id pid))"

definition update_prioritized_peers :: "(address \<Rightarrow> u64) \<Rightarrow> network_interface \<Rightarrow> network_interface" where
  "update_prioritized_peers hash_peer_id ni =
     (if ni_role ni = ValidatorNode then ni
      else ni\<lparr>prioritized_peers :=
             map fst (sort_key (peer_order hash_peer_id) (map (\<lambda>(p, s). (p, conn_role (peer_metadata s))) (sync_states ni)))\<rparr>)"

definition is_upstream_peer :: "peer_network_id \<Rightarrow> connection_metadata option \<Rightarrow> network_interface \<Rightarrow> bool" where
  "is_upstream_peer peer metadata ni \<longleftrightarrow>
     fst peer = ValidatorNetwork
     \<or> (case metadata of Some m \<Rightarrow> conn_origin m = Outbound | None \<Rightarrow> map_of (sync_states ni) peer \<noteq> None)"

definition add_peer :: "(address \<Rightarrow> u64) \<Rightarrow> peer_network_id \<Rightarrow> connection_metadata \<Rightarrow> network_interface \<Rightarrow> bool \<times> network_interface" where
  "add_peer hash_peer_id peer metadata ni =
     (let is_new_peer = (map_of (sync_states ni) peer = None);
          ni' = (if is_upstream_peer peer (Some metadata) ni then
                   case map_of (sync_states ni) peer of
                     None \<Rightarrow> ni\<lparr>sync_states := sync_states ni @ [(peer, peer_sync_state_new metadata (length (broadcast_buckets (ni_config ni))))]\<rparr>
                   | Some state \<Rightarrow> put_state peer (state\<lparr>peer_metadata := metadata\<rparr>) ni
                 else ni)
      in (is_new_peer, update_prioritized_peers hash_peer_id ni'))"

definition disable_peer :: "(address \<Rightarrow> u64) \<Rightarrow> peer_network_id \<Rightarrow> network_interface \<Rightarrow> network_interface" where
  "disable_peer hash_peer_id peer ni =
     update_prioritized_peers hash_peer_id (ni\<lparr>sync_states := filter (\<lambda>(p, s). p \<noteq> peer) (sync_states ni)\<rparr>)"

section \<open>Acknowledgements\<close>

text \<open>An acknowledgement from before the batch was sent makes \<open>expect\<close> panic.\<close>

definition process_broadcast_ack ::
  "peer_network_id \<Rightarrow> multi_batch_id \<Rightarrow> bool \<Rightarrow> bool \<Rightarrow> duration \<Rightarrow> network_interface \<Rightarrow> network_interface option" where
  "process_broadcast_ack peer batch_id retry backoff timestamp ni =
     (case map_of (sync_states ni) peer of
        None \<Rightarrow> Some ni
      | Some state \<Rightarrow>
          (case batch_remove batch_id (sent_batches (peer_info state)) of
             (None, _) \<Rightarrow> Some ni
           | (Some sent_timestamp, sent) \<Rightarrow>
               if timestamp < sent_timestamp then None
               else
                 let info = (peer_info state)\<lparr>sent_batches := sent\<rparr>;
                     info1 = (if retry then info\<lparr>retry_batches := batch_insert batch_id () (retry_batches info)\<rparr> else info);
                     info2 = (if backoff then info1\<lparr>backoff_mode := True\<rparr> else info1)
                 in Some (put_state peer (state\<lparr>peer_info := info2\<rparr>) ni)))"

definition is_backoff_mode :: "peer_network_id \<Rightarrow> network_interface \<Rightarrow> bool" where
  "is_backoff_mode peer ni =
     (case map_of (sync_states ni) peer of None \<Rightarrow> False | Some state \<Rightarrow> backoff_mode (peer_info state))"

section \<open>Broadcasts\<close>

datatype broadcast_error =
  NetworkError peer_network_id
| NoTransactions peer_network_id
| PeerNotFound peer_network_id
| PeerNotPrioritized peer_network_id nat
| PeerNotScheduled peer_network_id
| TooManyPendingBroadcasts peer_network_id

datatype broadcast_label = ExpiredBroadcast | RetryBroadcast

definition check_peer_prioritized :: "peer_network_id \<Rightarrow> network_interface \<Rightarrow> broadcast_error + unit" where
  "check_peer_prioritized peer ni =
     (if ni_role ni \<noteq> ValidatorNode then
        let pos = length (takeWhile (\<lambda>p. p \<noteq> peer) (prioritized_peers ni));
            priority = (if pos < length (prioritized_peers ni) then pos else 2 ^ 64 - 1)
        in if default_failovers (ni_config ni) < priority then Inl (PeerNotPrioritized peer priority) else Inr ()
      else Inr ())"

text \<open>Filtering with a predicate that may panic.\<close>

fun try_filter :: "('a \<Rightarrow> bool option) \<Rightarrow> 'a list \<Rightarrow> 'a list option" where
  "try_filter f [] = Some []"
| "try_filter f (x # xs) = do { b \<leftarrow> f x; ys \<leftarrow> try_filter f xs; Some (if b then x # ys else ys) }"

definition has_transactions :: "'h transaction_store \<Rightarrow> multi_batch_id \<Rightarrow> bool option" where
  "has_transactions st batch_id = map_option (\<lambda>txns. txns \<noteq> []) (store_timeline_range batch_id st)"

text \<open>
  The loop over the batches that were sent: \<open>clock i\<close> is the time at its \<open>i\<close>-th round. \<open>Inl\<close> leaves it because too
  many batches are pending. Times are numbers of nanoseconds; the model does not bound them.
\<close>

fun find_expired ::
  "(nat \<Rightarrow> duration) \<Rightarrow> duration \<Rightarrow> nat \<Rightarrow> nat \<Rightarrow> nat \<Rightarrow> multi_batch_id option \<Rightarrow> duration batch_map \<Rightarrow> unit + multi_batch_id option" where
  "find_expired clock timeout max_pending i pending expired [] = Inr expired"
| "find_expired clock timeout max_pending i pending expired ((batch, sent_time) # rest) =
     (let (pending', expired') = (if sent_time + timeout \<le> clock i then (pending, Some batch) else (pending + 1, expired))
      in if max_pending \<le> pending' then Inl () else find_expired clock timeout max_pending (i + 1) pending' expired' rest)"

text \<open>\<open>std::cmp::max\<close> of two options: the second one unless the first is greater.\<close>

definition max_batch :: "multi_batch_id option \<Rightarrow> multi_batch_id option \<Rightarrow> multi_batch_id option" where
  "max_batch x y =
     (case (x, y) of (Some a, Some b) \<Rightarrow> if batch_cmp a b = OGreater then x else y | (Some a, None) \<Rightarrow> x | _ \<Rightarrow> y)"

definition from_millis :: "u64 \<Rightarrow> duration" where
  "from_millis ms = unat ms * 10 ^ 6"

definition determine_broadcast_batch ::
  "'h store_env \<Rightarrow> (nat \<Rightarrow> duration) \<Rightarrow> peer_network_id \<Rightarrow> bool \<Rightarrow> 'h transaction_store \<Rightarrow> network_interface
    \<Rightarrow> ((broadcast_error + multi_batch_id \<times> signed_transaction list \<times> broadcast_label option) \<times> network_interface) option" where
  "determine_broadcast_batch env clock peer scheduled_backoff st ni =
     (case map_of (sync_states ni) peer of
        None \<Rightarrow> Some (Inl (PeerNotFound peer), ni)
      | Some state \<Rightarrow>
          (case check_peer_prioritized peer ni of
             Inl e \<Rightarrow> Some (Inl e, ni)
           | Inr _ \<Rightarrow>
               if backoff_mode (peer_info state) \<and> \<not> scheduled_backoff then Some (Inl (PeerNotScheduled peer), ni)
               else do {
                 sent \<leftarrow> try_filter (\<lambda>e. has_transactions st (fst e)) (sent_batches (peer_info state));
                 retries \<leftarrow> try_filter (\<lambda>e. has_transactions st (fst e)) (retry_batches (peer_info state));
                 let ni' = put_state peer (state\<lparr>peer_info := (peer_info state)\<lparr>sent_batches := sent, retry_batches := retries\<rparr>\<rparr>) ni;
                 case find_expired clock (from_millis (shared_mempool_ack_timeout_ms (ni_config ni))) (max_broadcasts_per_peer (ni_config ni)) 0 0 None sent of
                   Inl _ \<Rightarrow> Some (Inl (TooManyPendingBroadcasts peer), ni')
                 | Inr expired \<Rightarrow>
                     do {
                       let retry = (if retries = [] then None else Some (fst (last retries)));
                       (batch_id, txns, label) \<leftarrow>
                         (case max_batch expired retry of
                            Some x \<Rightarrow>
                              map_option (\<lambda>txns. (x, txns, Some (if expired = Some x then ExpiredBroadcast else RetryBroadcast)))
                                (store_timeline_range x st)
                          | None \<Rightarrow>
                              map_option (\<lambda>(txns, ids). (from_timeline_ids (peer_timeline_id state) ids, txns, None))
                                (store_read_timeline env (peer_timeline_id state) (shared_mempool_batch_size (ni_config ni)) st));
                       Some (if txns = [] then Inl (NoTransactions peer) else Inr (batch_id, txns, label), ni')
                     }
               }))"

definition update_broadcast_state ::
  "peer_network_id \<Rightarrow> multi_batch_id \<Rightarrow> duration \<Rightarrow> network_interface \<Rightarrow> (broadcast_error + nat) \<times> network_interface" where
  "update_broadcast_state peer batch_id send_time ni =
     (case map_of (sync_states ni) peer of
        None \<Rightarrow> (Inl (PeerNotFound peer), ni)
      | Some state \<Rightarrow>
          let info = peer_info state;
              sent = batch_insert batch_id send_time (sent_batches info);
              state' = state\<lparr>peer_timeline_id := timeline_ids_update batch_id (peer_timeline_id state),
                peer_info := \<lparr>sent_batches = sent, retry_batches = snd (batch_remove batch_id (retry_batches info)), backoff_mode = False\<rparr>\<rparr>
          in (Inr (length sent), put_state peer state' ni))"

text \<open>\<open>delivered\<close> says whether the network accepted the message; the third component is what was sent.\<close>

definition execute_broadcast ::
  "'h store_env \<Rightarrow> (nat \<Rightarrow> duration) \<Rightarrow> duration \<Rightarrow> bool \<Rightarrow> peer_network_id \<Rightarrow> bool \<Rightarrow> 'h transaction_store \<Rightarrow> network_interface
    \<Rightarrow> ((broadcast_error + unit) \<times> network_interface \<times> (multi_batch_id \<times> signed_transaction list) option) option" where
  "execute_broadcast env clock send_time delivered peer scheduled_backoff st ni =
     do {
       (r, ni') \<leftarrow> determine_broadcast_batch env clock peer scheduled_backoff st ni;
       Some (case r of
               Inl e \<Rightarrow> (Inl e, ni', None)
             | Inr (batch_id, txns, label) \<Rightarrow>
                 if \<not> delivered then (Inl (NetworkError peer), ni', None)
                 else (case update_broadcast_state peer batch_id send_time ni' of
                         (Inl e, ni'') \<Rightarrow> (Inl e, ni'', Some (batch_id, txns))
                       | (Inr _, ni'') \<Rightarrow> (Inr (), ni'', Some (batch_id, txns))))
     }"

end
