(* ===== verification/BroadcastSafety.thy ===== *)
theory BroadcastSafety
  imports Broadcast "HOL-Library.Sublist"
begin

text \<open>
  What the broadcasts guarantee: a batch holds exactly the transactions of the range that its identifier names,
  and no transaction that a peer's position has passed is forgotten before the peer has acknowledged it.
\<close>

section \<open>Batches of one length\<close>

lemma pairs_cmp_Equal: "length xs = length ys \<Longrightarrow> pairs_cmp (zip xs ys) = OEqual \<longleftrightarrow> xs = ys"
  by (induction xs ys rule: list_induct2) auto

lemma batch_cmp_Equal: "length x = length y \<Longrightarrow> batch_cmp x y = OEqual \<longleftrightarrow> x = y"
  by (simp add: batch_cmp_def pairs_cmp_Equal)

definition same_length :: "nat \<Rightarrow> 'v batch_map \<Rightarrow> bool" where
  "same_length n es \<longleftrightarrow> (\<forall>e \<in> set es. length (fst e) = n)"

lemma same_length_Cons [simp]: "same_length n (e # es) \<longleftrightarrow> length (fst e) = n \<and> same_length n es"
  by (simp add: same_length_def)

lemma batch_remove_lookup: "same_length (length x) es \<Longrightarrow> fst (batch_remove x es) = map_of es x"
  by (induction x es rule: batch_remove.induct) (auto simp: batch_cmp_Equal split: prod.split)

lemma batch_remove_spec:
  assumes "batch_remove x es = (r, es')" "same_length (length x) es"
  shows "set es' \<subseteq> set es" "fst ` set es \<subseteq> insert x (fst ` set es')" "r = Some v \<Longrightarrow> (x, v) \<in> set es" "r = None \<Longrightarrow> x \<notin> fst ` set es"
proof -
  have "set es' \<subseteq> set es \<and> fst ` set es \<subseteq> insert x (fst ` set es') \<and> (\<forall>v. r = Some v \<longrightarrow> (x, v) \<in> set es) \<and> (r = None \<longrightarrow> x \<notin> fst ` set es)"
    using assms
  proof (induction x es arbitrary: r es' rule: batch_remove.induct)
    case (2 x y v es)
    obtain r1 es1 where r: "batch_remove x es = (r1, es1)" by (cases "batch_remove x es")
    show ?case
    proof (cases "batch_cmp x y = OEqual")
      case True
      with 2 show ?thesis by (auto simp: batch_cmp_Equal)
    next
      case False
      from 2(3) have "same_length (length x) es" by simp
      note IH = 2(1) [OF False r this]
      have eq: "r1 = r" "es' = (y, v) # es1" "y \<noteq> x" using 2(2,3) False r by (auto simp: batch_cmp_Equal)
      have "fst ` set es \<subseteq> insert x (fst ` set es1)" using IH by blast
      then have "fst ` set ((y, v) # es) \<subseteq> insert x (fst ` set es')" unfolding eq(2) list.set image_insert fst_conv by blast
      with IH eq show ?thesis by auto
    qed
  qed simp
  then show "set es' \<subseteq> set es" "fst ` set es \<subseteq> insert x (fst ` set es')" "r = Some v \<Longrightarrow> (x, v) \<in> set es" "r = None \<Longrightarrow> x \<notin> fst ` set es"
    by blast+
qed

lemma batch_insert_spec:
  assumes "same_length (length x) es"
  shows "fst ` set (batch_insert x w es) = insert x (fst ` set es)" "set (batch_insert x w es) \<subseteq> insert (x, w) (set es)"
proof -
  have "fst ` set (batch_insert x w es) = insert x (fst ` set es) \<and> set (batch_insert x w es) \<subseteq> insert (x, w) (set es)"
    using assms by (induction x w es rule: batch_insert.induct) (auto split: ordering.split simp: batch_cmp_Equal)
  then show "fst ` set (batch_insert x w es) = insert x (fst ` set es)" "set (batch_insert x w es) \<subseteq> insert (x, w) (set es)" by simp_all
qed

lemma try_filter_total: "\<forall>x \<in> set xs. f x \<noteq> None \<Longrightarrow> try_filter f xs = Some (filter (\<lambda>x. f x = Some True) xs)"
  by (induction xs) auto

section \<open>Ranges\<close>

definition batch_fits :: "'h transaction_store \<Rightarrow> multi_batch_id \<Rightarrow> bool" where
  "batch_fits st bid \<longleftrightarrow> length bid = length (timelines (timeline_index st)) \<and> (\<forall>(s, e) \<in> set bid. s \<le> e)"

definition covers :: "multi_batch_id \<Rightarrow> nat \<Rightarrow> u64 \<Rightarrow> bool" where
  "covers bid b k \<longleftrightarrow> b < length bid \<and> fst (bid ! b) < k \<and> k \<le> snd (bid ! b)"

definition entries_in :: "u64 \<Rightarrow> u64 \<Rightarrow> timeline_index \<Rightarrow> (u64 \<times> txn_pointer) list" where
  "entries_in s e line = filter (\<lambda>x. s < fst x \<and> fst x \<le> e) (timeline line)"

lemma those_all: "\<forall>x \<in> set xs. f x = Some (g x) \<Longrightarrow> those (map f xs) = Some (map g xs)"
  by (induction xs) auto

lemma multi_range_fits:
  assumes "batch_fits st bid"
  shows "multi_range bid (timeline_index st) =
    Some (concat (map (\<lambda>(line, s, e). map snd (entries_in s e line)) (zip (timelines (timeline_index st)) bid)))"
proof -
  have "timeline_range s e line = Some (map snd (entries_in s e line))" if "(line, s, e) \<in> set (zip (timelines (timeline_index st)) bid)" for line s e
    using assms set_zip_rightD [OF that] by (auto simp: batch_fits_def timeline_range_def entries_in_def)
  then have "those (map (\<lambda>(line, s, e). timeline_range s e line) (zip (timelines (timeline_index st)) bid))
      = Some (map (\<lambda>(line, s, e). map snd (entries_in s e line)) (zip (timelines (timeline_index st)) bid))"
    by (intro those_all) auto
  then show ?thesis using assms by (simp add: multi_range_def batch_fits_def)
qed

lemma store_ok_timeline: "store_ok env st \<Longrightarrow> timeline_ok (stored st) (timeline_index st)"
  by (simp add: store_inv_def indexes_ok_def)

lemma store_ok_lengths: "store_ok env st \<Longrightarrow> length (timelines (timeline_index st)) = length (bucket_mins (timeline_index st))"
  using store_ok_timeline [of env st] by (simp add: timeline_ok_def)

definition entry_txn :: "'h transaction_store \<Rightarrow> u64 \<times> txn_pointer \<Rightarrow> signed_transaction" where
  "entry_txn st e = mt_txn (the (stored st (snd e)))"

text \<open>Every entry of a timeline stands for a stored transaction that carries its number.\<close>

lemma entry_stored:
  assumes "store_ok env st" "line \<in> set (timelines (timeline_index st))" "e \<in> set (timeline line)"
  shows "\<exists>t. stored st (snd e) = Some t \<and> timeline_state t = Ready (fst e)" "fst e < timeline_id line"
proof -
  note ok = store_ok_timeline [OF assms(1)]
  obtain b where b: "b < length (timelines (timeline_index st))" "line = timelines (timeline_index st) ! b"
    using assms(2) by (auto simp: in_set_conv_nth)
  note t = timeline_okD [OF ok b(1), folded b(2)]
  have "bt_get (timeline line) (fst e) = Some (snd e)" using t(1) assms(3) by (simp add: bt_mem_get)
  then show "\<exists>t. stored st (snd e) = Some t \<and> timeline_state t = Ready (fst e)" using t(3) by blast
  show "fst e < timeline_id line" using t(2) assms(3) by simp
qed

lemma store_get_entry:
  assumes "stored st p = Some t"
  shows "(case p of (a, s) \<Rightarrow> store_get st a s) = Some (mt_txn t)"
  using assms by (cases p) (simp add: stored_def store_get_def)

lemma map_filter_entries:
  "(\<And>e. e \<in> set es \<Longrightarrow> (case snd e of (a, s) \<Rightarrow> f a s) = Some (g e)) \<Longrightarrow> List.map_filter (\<lambda>(a, s). f a s) (map snd es) = map g es"
  by (induction es) (auto simp: List.map_filter_simps)

lemma store_range_fits:
  assumes "store_ok env st" "batch_fits st bid"
  shows "store_timeline_range bid st =
    Some (map (entry_txn st) (concat (map (\<lambda>(line, s, e). entries_in s e line) (zip (timelines (timeline_index st)) bid))))"
proof -
  let ?es = "concat (map (\<lambda>(line, s, e). entries_in s e line) (zip (timelines (timeline_index st)) bid))"
  have get: "(case snd e of (a, s) \<Rightarrow> store_get st a s) = Some (entry_txn st e)" if e: "e \<in> set ?es" for e
  proof -
    from e obtain line where "line \<in> set (timelines (timeline_index st))" "e \<in> set (timeline line)"
      by (auto simp: entries_in_def dest: set_zip_leftD)
    from entry_stored(1) [OF assms(1) this] show ?thesis using store_get_entry by (fastforce simp: entry_txn_def)
  qed
  then have "List.map_filter (\<lambda>(a, s). store_get st a s) (map snd ?es) = map (entry_txn st) ?es"
    by (rule map_filter_entries)
  moreover have "concat (map (\<lambda>(line, s, e). map snd (entries_in s e line)) zs) = map snd (concat (map (\<lambda>(line, s, e). entries_in s e line) zs))" for zs
    by (induction zs) auto
  ultimately show ?thesis unfolding store_timeline_range_def multi_range_fits [OF assms(2)] by simp
qed

lemma has_transactions_total: "store_ok env st \<Longrightarrow> batch_fits st bid \<Longrightarrow> has_transactions st bid \<noteq> None"
  by (simp add: has_transactions_def store_range_fits)

lemma has_transactions_covers:
  assumes "store_ok env st" "batch_fits st bid" "covers bid b k" "bt_get (timeline (timelines (timeline_index st) ! b)) k = Some p"
  shows "has_transactions st bid = Some True"
proof -
  have b: "b < length (timelines (timeline_index st))" using assms(2,3) by (simp add: batch_fits_def covers_def)
  have "(k, p) \<in> set (timeline (timelines (timeline_index st) ! b))" using assms(4) by (rule bt_get_mem)
  then have "(k, p) \<in> set (entries_in (fst (bid ! b)) (snd (bid ! b)) (timelines (timeline_index st) ! b))"
    using assms(3) by (simp add: entries_in_def covers_def)
  moreover have "(timelines (timeline_index st) ! b, fst (bid ! b), snd (bid ! b)) \<in> set (zip (timelines (timeline_index st)) bid)"
    using b assms(3) by (auto simp: set_zip covers_def)
  ultimately have "(k, p) \<in> set (concat (map (\<lambda>(line, s, e). entries_in s e line) (zip (timelines (timeline_index st)) bid)))" by force
  then have "concat (map (\<lambda>(line, s, e). entries_in s e line) (zip (timelines (timeline_index st)) bid)) \<noteq> []" by (metis empty_iff list.set(1))
  then show ?thesis unfolding has_transactions_def store_range_fits [OF assms(1,2)] by (simp del: concat_eq_Nil_conv)
qed

section \<open>Fresh batches\<close>

text \<open>The entries of a timeline after a number; each bucket is read up to some prefix of them.\<close>

definition entries_after :: "u64 \<Rightarrow> timeline_index \<Rightarrow> (u64 \<times> txn_pointer) list" where
  "entries_after since line = filter (\<lambda>e. since < fst e) (timeline line)"

definition last_number :: "u64 \<Rightarrow> (u64 \<times> txn_pointer) list \<Rightarrow> u64" where
  "last_number since es = last (since # map fst es)"

lemma push_until_take: "length batch < cnt \<Longrightarrow> push_until cnt batch xs = batch @ take (cnt - length batch) xs"
proof (induction cnt batch xs rule: push_until.induct)
  case (2 cnt batch x xs)
  show ?case
  proof (cases "length (batch @ [x]) = cnt")
    case False
    with 2 have "push_until cnt (batch @ [x]) xs = (batch @ [x]) @ take (cnt - length (batch @ [x])) xs" by simp
    with False 2(2) show ?thesis by (simp add: Let_def take_Cons')
  qed (auto simp: Let_def)
qed simp

lemma timeline_read_prefix:
  assumes "0 < cnt"
  shows "\<exists>es. prefix es (entries_after since line) \<and> timeline_read since cnt line = map snd es"
proof (intro exI conjI)
  show "prefix (take cnt (entries_after since line)) (entries_after since line)" by (rule take_is_prefix)
  show "timeline_read since cnt line = map snd (take cnt (entries_after since line))"
    using assms by (simp add: timeline_read_def push_until_take entries_after_def take_map)
qed

lemma read_buckets_prefix:
  assumes "read_buckets cnt added ls = Some bs" "added < cnt"
  shows "\<exists>Es. list_all2 (\<lambda>(line, since) es. prefix es (entries_after since line)) (take (length bs) ls) Es \<and> bs = map (map snd) Es"
  using assms
proof (induction cnt added ls arbitrary: bs rule: read_buckets.induct)
  case (2 cnt added line since rest)
  let ?txns = "timeline_read since (cnt - added) line"
  obtain es where es: "prefix es (entries_after since line)" "?txns = map snd es"
    using timeline_read_prefix [of "cnt - added" since line] 2(3) by auto
  show ?case
  proof (cases "added + length ?txns = cnt")
    case True
    with 2 es show ?thesis by (intro exI [of _ "[es]"]) (auto simp: Let_def)
  next
    case False
    have "length ?txns \<le> cnt - added" unfolding timeline_read_def by (rule push_until_length) (use 2(3) in simp)
    with False 2(3) have lt: "added + length ?txns < cnt" by simp
    obtain bs1 where bs1: "read_buckets cnt (added + length ?txns) rest = Some bs1" "bs = ?txns # bs1"
      using 2(2,3) False by (auto simp: Let_def)
    obtain Es where "list_all2 (\<lambda>(line, since) es. prefix es (entries_after since line)) (take (length bs1) rest) Es" "bs1 = map (map snd) Es"
      using 2(1) [OF _ refl refl False bs1(1) lt] 2(3) by auto
    then show ?thesis using es bs1(2) by (intro exI [of _ "es # Es"]) simp
  qed
qed simp

lemma multi_read_prefix:
  assumes "multi_read ids cnt m = Some bs" "0 < cnt" "length (timelines m) = length ids"
  shows "\<exists>Es. list_all2 (\<lambda>(line, since) es. prefix es (entries_after since line)) (zip (timelines m) ids) Es \<and> bs = map (map snd) Es"
proof -
  let ?P = "\<lambda>(line, since) es. prefix es (entries_after since line)" and ?zs = "rev (zip (timelines m) ids)"
  obtain rs where rs: "read_buckets cnt 0 ?zs = Some rs" "bs = rev (rs @ replicate (length (timelines m) - length rs) [])"
    using assms(1) by (auto simp: multi_read_def split: if_splits)
  obtain Es where Es: "list_all2 ?P (take (length rs) ?zs) Es" "rs = map (map snd) Es" using read_buckets_prefix [OF rs(1) assms(2)] by blast
  have "length rs \<le> length ?zs" using read_buckets_ok [OF assms(2), of ?zs] rs(1) by auto
  then have "list_all2 ?P (drop (length rs) ?zs) (replicate (length (timelines m) - length rs) [])"
    using assms(3) by (auto simp: list_all2_conv_all_nth split: prod.split)
  with Es(1) have "list_all2 ?P (take (length rs) ?zs @ drop (length rs) ?zs) (Es @ replicate (length (timelines m) - length rs) [])"
    by (rule list_all2_appendI)
  then have "list_all2 ?P ?zs (Es @ replicate (length (timelines m) - length rs) [])" by simp
  then have "list_all2 ?P (zip (timelines m) ids) (rev (Es @ replicate (length (timelines m) - length rs) []))"
    by (subst list_all2_rev [symmetric]) (simp only: rev_rev_ident)
  then show ?thesis using rs(2) Es(2) by (intro exI conjI) (assumption, simp add: rev_map)
qed

definition live_entries :: "'h transaction_store \<Rightarrow> (u64 \<times> txn_pointer) list \<Rightarrow> bool" where
  "live_entries st es \<longleftrightarrow> (\<forall>e \<in> set es. \<exists>t. stored st (snd e) = Some t \<and> timeline_state t = Ready (fst e))"

lemma read_bucket_prefix:
  assumes "live_entries st es"
  shows "\<exists>P bytes'. prefix P es \<and> read_bucket env st (map snd es) (batch, bytes, n) = (batch @ map (entry_txn st) P, bytes', last_number n P)"
  using assms
proof (induction es arbitrary: batch bytes n)
  case (Cons e es)
  obtain k a s where e: "e = (k, a, s)" by (cases e) auto
  obtain t where t: "stored st (a, s) = Some t" "timeline_state t = Ready k" using Cons.prems by (auto simp: live_entries_def e)
  let ?n = "min (bytes + raw_txn_bytes_len (serialized_size env) (mt_txn t)) (2 ^ 64 - 1)"
  have step: "read_bucket env st (map snd (e # es)) (batch, bytes, n) =
      (if unat (max_batch_bytes st) < ?n then (batch, bytes, n) else read_bucket env st (map snd es) (batch @ [mt_txn t], ?n, k))"
    using t by (simp add: e stored_def Let_def)
  show ?case
  proof (cases "unat (max_batch_bytes st) < ?n")
    case True
    then show ?thesis unfolding step by (intro exI [of _ "[]"]) (simp add: last_number_def)
  next
    case False
    obtain P bytes' where P: "prefix P es"
        "read_bucket env st (map snd es) (batch @ [mt_txn t], ?n, k) = ((batch @ [mt_txn t]) @ map (entry_txn st) P, bytes', last_number k P)"
      using Cons.IH [of "batch @ [mt_txn t]" ?n k] Cons.prems by (auto simp: live_entries_def)
    then show ?thesis unfolding step using False t
      by (intro exI [of _ "e # P"]) (simp add: e last_number_def entry_txn_def)
  qed
qed (simp add: last_number_def)

lemma read_batch_prefix:
  assumes "\<forall>z \<in> set zs. live_entries st (fst z)"
  shows "\<exists>Ps. list_all2 (\<lambda>z P. prefix P (fst z)) zs Ps \<and>
    read_batch env st (map (\<lambda>z. (map snd (fst z), snd z)) zs) batch bytes =
      (batch @ concat (map (map (entry_txn st)) Ps), map2 (\<lambda>z P. last_number (snd z) P) zs Ps)"
  using assms
proof (induction zs arbitrary: batch bytes)
  case (Cons z zs)
  obtain P bytes' where P: "prefix P (fst z)"
      "read_bucket env st (map snd (fst z)) (batch, bytes, snd z) = (batch @ map (entry_txn st) P, bytes', last_number (snd z) P)"
    using read_bucket_prefix [of st "fst z" env batch bytes "snd z"] Cons.prems by auto
  obtain Ps where Ps: "list_all2 (\<lambda>z P. prefix P (fst z)) zs Ps"
      "read_batch env st (map (\<lambda>z. (map snd (fst z), snd z)) zs) (batch @ map (entry_txn st) P) bytes' =
        ((batch @ map (entry_txn st) P) @ concat (map (map (entry_txn st)) Ps), map2 (\<lambda>z P. last_number (snd z) P) zs Ps)"
    using Cons.IH [of "batch @ map (entry_txn st) P" bytes'] Cons.prems by auto
  show ?case by (intro exI [of _ "P # Ps"]) (use P Ps in \<open>simp add: Let_def\<close>)
qed simp

lemma sorted_last: "sorted_wrt (<) (map fst es) \<Longrightarrow> e \<in> set es \<Longrightarrow> fst e \<le> last (n # map fst es)" for es :: "(u64 \<times> 'v) list"
proof -
  assume sorted: "sorted_wrt (<) (map fst es)" and e: "e \<in> set es"
  obtain xs x where es: "es = xs @ [x]" using e by (metis empty_iff list.set(1) rev_exhaust)
  show ?thesis using sorted e by (auto simp: es sorted_wrt_append intro: less_imp_le)
qed

lemma last_number_range:
  assumes "bt_wf (timeline line)" "prefix P (entries_after since line)"
  shows "entries_in since (last_number since P) line = P" "since \<le> last_number since P" "last_number since P \<in> insert since (fst ` set (timeline line))"
proof -
  obtain Q where Q: "entries_after since line = P @ Q" using assms(2) by (auto elim: prefixE)
  have "sorted_wrt (<) (map fst (entries_after since line))"
    using assms(1) by (simp add: bt_wf_def entries_after_def sorted_wrt_map sorted_wrt_filter)
  then have sorted: "sorted_wrt (<) (map fst P)" "\<forall>x \<in> set P. \<forall>y \<in> set Q. fst x < fst y" by (auto simp: Q sorted_wrt_append)
  have after: "since < fst e" "e \<in> set (timeline line)" if "e \<in> set P \<union> set Q" for e
  proof -
    have "e \<in> set (entries_after since line)" using that by (simp add: Q)
    then show "since < fst e" "e \<in> set (timeline line)" by (auto simp: entries_after_def)
  qed
  have ends: "last_number since P = since \<or> (\<exists>e \<in> set P. last_number since P = fst e)"
    by (cases P rule: rev_cases) (auto simp: last_number_def)
  then show "since \<le> last_number since P" "last_number since P \<in> insert since (fst ` set (timeline line))"
    using after by (metis UnI1 less_imp_le order_refl, blast)
  have P: "fst e \<le> last_number since P" if "e \<in> set P" for e unfolding last_number_def by (rule sorted_last [OF sorted(1) that])
  have Q': "\<not> fst e \<le> last_number since P" if "e \<in> set Q" for e using ends sorted(2) after(1) [of e] that by (metis UnI2 not_less)
  have "entries_in since (last_number since P) line = filter (\<lambda>e. fst e \<le> last_number since P) (entries_after since line)"
    by (simp add: entries_in_def entries_after_def conj_commute)
  then show "entries_in since (last_number since P) line = P" using P Q' by (simp add: Q filter_id_conv filter_empty_conv)
qed

lemma store_read_prefix:
  assumes "store_ok env st" "length ids = length (timelines (timeline_index st))" "0 < cnt"
  shows "\<exists>Ps. list_all2 (\<lambda>(line, since) P. prefix P (entries_after since line)) (zip (timelines (timeline_index st)) ids) Ps
    \<and> store_read_timeline env ids cnt st = Some (concat (map (map (entry_txn st)) (rev Ps)), map2 last_number ids Ps)"
proof -
  let ?m = "timeline_index st" and ?P = "\<lambda>(line, since) P. prefix P (entries_after since line)"
  have len: "length ids = length (bucket_mins ?m)" "length (timelines ?m) = length (bucket_mins ?m)"
    using assms(2) store_ok_lengths [OF assms(1)] by simp_all
  from multi_read_ok [OF len assms(3)] obtain bs where bs: "multi_read ids cnt ?m = Some bs" by blast
  then obtain Es where Es: "list_all2 ?P (zip (timelines ?m) ids) Es" "bs = map (map snd) Es"
    using multi_read_prefix [OF bs assms(3)] assms(2) by auto
  let ?zs = "rev (zip Es ids)"
  have lenE: "length Es = length ids" using list_all2_lengthD [OF Es(1)] assms(2) by simp
  have pre: "prefix (Es ! b) (entries_after (ids ! b) (timelines ?m ! b))" if "b < length ids" for b
    using list_all2_nthD [OF Es(1), of b] that assms(2) by simp
  have live: "live_entries st es" if es: "es \<in> set Es" for es
  proof -
    obtain b where b: "b < length ids" "es = Es ! b" using es unfolding in_set_conv_nth lenE by blast
    have "set es \<subseteq> set (timeline (timelines ?m ! b))" using set_mono_prefix [OF pre [OF b(1)]] by (auto simp: b(2) entries_after_def)
    moreover have "timelines ?m ! b \<in> set (timelines ?m)" using b(1) assms(2) by simp
    ultimately show ?thesis unfolding live_entries_def by (blast intro: entry_stored(1) [OF assms(1)])
  qed
  have "\<forall>z \<in> set ?zs. live_entries st (fst z)" using live by (auto dest: set_zip_leftD)
  from read_batch_prefix [OF this, of env "[]" 0] obtain Ps where Ps: "list_all2 (\<lambda>z P. prefix P (fst z)) ?zs Ps"
      "read_batch env st (map (\<lambda>z. (map snd (fst z), snd z)) ?zs) [] 0 = (concat (map (map (entry_txn st)) Ps), map2 (\<lambda>z P. last_number (snd z) P) ?zs Ps)"
    by auto
  have "map (\<lambda>z. (map snd (fst z), snd z)) ?zs = rev (zip bs ids)" using lenE by (simp add: Es(2) rev_map zip_map1 case_prod_beta)
  with bs Ps(2) have read: "store_read_timeline env ids cnt st =
      Some (concat (map (map (entry_txn st)) Ps), rev (map2 (\<lambda>z P. last_number (snd z) P) ?zs Ps))"
    by (simp add: store_read_timeline_def)
  have lenP: "length Ps = length ids" using list_all2_lengthD [OF Ps(1)] lenE by simp
  have numbers: "rev (map2 (\<lambda>z P. last_number (snd z) P) ?zs Ps) = map2 last_number ids (rev Ps)"
    using lenP lenE by (intro nth_equalityI) (auto simp: rev_nth)
  have "list_all2 (\<lambda>z P. prefix P (fst z)) (zip Es ids) (rev Ps)"
    using Ps(1) by (metis list_all2_rev rev_rev_ident)
  then have "prefix (rev Ps ! b) (Es ! b)" if "b < length ids" for b using list_all2_nthD [of "\<lambda>z P. prefix P (fst z)" "zip Es ids" "rev Ps" b] that lenE by simp
  then have "list_all2 ?P (zip (timelines ?m) ids) (rev Ps)"
    using pre lenP assms(2) by (auto simp: list_all2_conv_all_nth intro: prefix_order.trans)
  then show ?thesis using read numbers by (intro exI [of _ "rev Ps"]) simp
qed

text \<open>The identifier of a fresh batch: it fits the timelines, begins at the position, and names exactly what was read.\<close>

lemma fresh_batch:
  assumes "store_ok env st" "length ids = length (timelines (timeline_index st))" "0 < cnt"
    and "\<And>b. b < length ids \<Longrightarrow> ids ! b < timeline_id (timelines (timeline_index st) ! b)"
  shows "\<exists>txns ids' txns'. store_read_timeline env ids cnt st = Some (txns, ids') \<and> length ids' = length ids \<and> batch_fits st (zip ids ids')
    \<and> (\<forall>b < length ids. ids' ! b < timeline_id (timelines (timeline_index st) ! b))
    \<and> store_timeline_range (zip ids ids') st = Some txns' \<and> mset txns = mset txns'"
proof -
  let ?L = "timelines (timeline_index st)"
  obtain Ps where Ps: "list_all2 (\<lambda>(line, since) P. prefix P (entries_after since line)) (zip ?L ids) Ps"
      "store_read_timeline env ids cnt st = Some (concat (map (map (entry_txn st)) (rev Ps)), map2 last_number ids Ps)"
    using store_read_prefix [OF assms(1-3)] by blast
  let ?ids = "map2 last_number ids Ps"
  have len: "length Ps = length ids" using list_all2_lengthD [OF Ps(1)] assms(2) by simp
  have wf: "bt_wf (timeline (?L ! b))" if "b < length ids" for b
    using timeline_okD(1) [OF store_ok_timeline [OF assms(1)]] that assms(2) by simp
  have "prefix (Ps ! b) (entries_after (ids ! b) (?L ! b))" if "b < length ids" for b using list_all2_nthD [OF Ps(1), of b] that assms(2) by simp
  note r = last_number_range [OF wf this]
  have fits: "batch_fits st (zip ids ?ids)" using assms(2) len r(2) by (auto simp: batch_fits_def set_zip)
  have below: "?ids ! b < timeline_id (?L ! b)" if "b < length ids" for b
    using r(3) [OF that that] assms(4) [OF that] entry_stored(2) [OF assms(1), of "?L ! b"] that len assms(2) by auto
  have "map (\<lambda>(line, s, e). entries_in s e line) (zip ?L (zip ids ?ids)) = Ps"
    using r(1) len assms(2) by (intro nth_equalityI) auto
  then have "store_timeline_range (zip ids ?ids) st = Some (map (entry_txn st) (concat Ps))"
    by (simp add: store_range_fits [OF assms(1) fits])
  moreover have "mset (concat (map (map (entry_txn st)) (rev Ps))) = mset (map (entry_txn st) (concat Ps))"
    by (simp add: mset_concat map_concat rev_map [symmetric] sum_list_rev)
  ultimately show ?thesis using Ps(2) fits below len by auto
qed

end
