(* ===== verification/BroadcastSystem.thy ===== *)
theory BroadcastSystem
  imports BroadcastSafety
begin

text \<open>
  A node and its peers over time: the calls on the store, the broadcasts, the acknowledgements and the peers that
  come and go, in any order.  In every state that is reached, what a peer's position has passed lies in a batch
  that is pending, waiting to be sent again, or acknowledged.
\<close>

section \<open>The state of a peer\<close>

definition tracked_batches :: "peer_sync_state \<Rightarrow> multi_batch_id set" where
  "tracked_batches ps = fst ` set (sent_batches (peer_info ps)) \<union> fst ` set (retry_batches (peer_info ps))"

definition covered :: "'h transaction_store \<Rightarrow> u64 list \<Rightarrow> multi_batch_id set \<Rightarrow> bool" where
  "covered st ids X \<longleftrightarrow> (\<forall>b < length ids. \<forall>k p. bt_get (timeline (timelines (timeline_index st) ! b)) k = Some p \<and> k \<le> ids ! b
     \<longrightarrow> (\<exists>x \<in> X. covers x b k))"

definition position_ok :: "'h transaction_store \<Rightarrow> u64 list \<Rightarrow> bool" where
  "position_ok st ids \<longleftrightarrow> length ids = length (timelines (timeline_index st))
     \<and> (\<forall>b < length ids. ids ! b < timeline_id (timelines (timeline_index st) ! b))"

definition batch_passed :: "'h transaction_store \<Rightarrow> u64 list \<Rightarrow> multi_batch_id \<Rightarrow> bool" where
  "batch_passed st ids x \<longleftrightarrow> batch_fits st x \<and> (\<forall>b < length x. snd (x ! b) \<le> ids ! b)"

definition peer_ok :: "'h transaction_store \<Rightarrow> multi_batch_id set \<Rightarrow> peer_sync_state \<Rightarrow> bool" where
  "peer_ok st acked ps \<longleftrightarrow> position_ok st (peer_timeline_id ps)
     \<and> (\<forall>x \<in> tracked_batches ps. batch_passed st (peer_timeline_id ps) x)
     \<and> covered st (peer_timeline_id ps) (tracked_batches ps \<union> acked)"

lemma peer_okD:
  assumes "peer_ok st acked ps"
  shows "position_ok st (peer_timeline_id ps)" "x \<in> tracked_batches ps \<Longrightarrow> batch_passed st (peer_timeline_id ps) x"
    "covered st (peer_timeline_id ps) (tracked_batches ps \<union> acked)"
  using assms by (auto simp: peer_ok_def)

lemma store_grows_line:
  assumes "store_grows st st'" "b < length (timelines (timeline_index st))"
  shows "line_grows (timelines (timeline_index st) ! b) (timelines (timeline_index st') ! b)"
  using assms by (auto simp: store_grows_def list_all2_conv_all_nth)

lemma store_grows_length: "store_grows st st' \<Longrightarrow> length (timelines (timeline_index st')) = length (timelines (timeline_index st))"
  by (auto simp: store_grows_def dest: list_all2_lengthD)

lemma peer_ok_grows:
  assumes "peer_ok st acked ps" "store_grows st st'"
  shows "peer_ok st' acked ps"
proof -
  let ?ids = "peer_timeline_id ps"
  note ok = peer_okD [OF assms(1)] and len = store_grows_length [OF assms(2)]
  have line: "line_grows (timelines (timeline_index st) ! b) (timelines (timeline_index st') ! b)" if "b < length ?ids" for b
    using store_grows_line [OF assms(2)] that ok(1) by (simp add: position_ok_def)
  have "?ids ! b < timeline_id (timelines (timeline_index st') ! b)" if "b < length ?ids" for b
    using ok(1) line [OF that] that unfolding position_ok_def line_grows_def by (meson less_le_trans)
  then have "position_ok st' ?ids" using ok(1) len by (simp add: position_ok_def)
  moreover have "batch_passed st' ?ids x" if "x \<in> tracked_batches ps" for x using ok(2) [OF that] len by (simp add: batch_passed_def batch_fits_def)
  moreover have "bt_get (timeline (timelines (timeline_index st) ! b)) k = Some p"
    if "b < length ?ids" "bt_get (timeline (timelines (timeline_index st') ! b)) k = Some p" "k \<le> ?ids ! b" for b k p
  proof -
    have "?ids ! b < timeline_id (timelines (timeline_index st) ! b)" using ok(1) that(1) by (simp add: position_ok_def)
    with line [OF that(1)] that(2,3) show ?thesis unfolding line_grows_def by (meson le_less_trans not_le)
  qed
  then have "covered st' ?ids (tracked_batches ps \<union> acked)" using ok(3) unfolding covered_def by meson
  ultimately show ?thesis by (simp add: peer_ok_def)
qed

lemma covered_mono: "covered st ids X \<Longrightarrow> X \<subseteq> Y \<Longrightarrow> covered st ids Y"
  unfolding covered_def by (meson subsetD)

lemma peer_ok_new:
  assumes "store_reach env config n st"
  shows "peer_ok st {} (peer_sync_state_new metadata (length (broadcast_buckets config)))"
proof -
  note lines = store_reach_lines [OF assms]
  have "0 < timeline_id (timelines (timeline_index st) ! b)" if "b < length (broadcast_buckets config)" for b
  proof -
    have "1 \<le> timeline_id (timelines (timeline_index st) ! b)" using lines(2) lines(1) that by simp
    then show ?thesis by (simp add: word_le_nat_alt word_less_nat_alt)
  qed
  moreover have "1 \<le> k" if "b < length (broadcast_buckets config)" "bt_get (timeline (timelines (timeline_index st) ! b)) k = Some p" for b k p
    using store_reach_numbers [OF assms, of b k p] that lines(1) by simp
  then have "covered st (replicate (length (broadcast_buckets config)) 0) {}" unfolding covered_def by fastforce
  ultimately show ?thesis using lines(1)
    by (simp add: peer_ok_def peer_sync_state_new_def position_ok_def timeline_ids_new_def tracked_batches_def broadcast_info_new_def)
qed

section \<open>Choosing a batch\<close>

lemma put_state_map:
  "map_of (sync_states (put_state peer s ni)) = (if map_of (sync_states ni) peer = None then map_of (sync_states ni) else (map_of (sync_states ni))(peer \<mapsto> s))"
proof
  fix q
  have "map_of (map (\<lambda>(p, s'). (p, if p = peer then s else s')) xs) q =
      (if q = peer then map_option (\<lambda>_. s) (map_of xs q) else map_of xs q)" for xs
    by (induction xs) auto
  then show "map_of (sync_states (put_state peer s ni)) q =
      (if map_of (sync_states ni) peer = None then map_of (sync_states ni) else (map_of (sync_states ni))(peer \<mapsto> s)) q"
    by (auto simp: put_state_def)
qed

lemma put_state_config [simp]: "ni_config (put_state peer s ni) = ni_config ni"
  by (simp add: put_state_def)

text \<open>A batch that may be sent: it begins at or before the position and ends at numbers in use.\<close>

definition sendable :: "'h transaction_store \<Rightarrow> u64 list \<Rightarrow> multi_batch_id \<Rightarrow> bool" where
  "sendable st ids x \<longleftrightarrow> batch_fits st x
     \<and> (\<forall>b < length x. fst (x ! b) \<le> ids ! b \<and> snd (x ! b) < timeline_id (timelines (timeline_index st) ! b))"

lemma passed_sendable:
  assumes "batch_passed st ids x" "position_ok st ids"
  shows "sendable st ids x"
proof -
  have "fst (x ! b) \<le> snd (x ! b)" if "b < length x" for b
    using assms(1) nth_mem [OF that] by (auto simp: batch_passed_def batch_fits_def split: prod.splits)
  moreover have "snd (x ! b) \<le> ids ! b \<and> ids ! b < timeline_id (timelines (timeline_index st) ! b)" if "b < length x" for b
    using assms that by (simp add: batch_passed_def position_ok_def batch_fits_def)
  ultimately show ?thesis using assms(1) unfolding sendable_def batch_passed_def by (meson le_less_trans order_trans)
qed

definition still_needed :: "'h transaction_store \<Rightarrow> 'v batch_map \<Rightarrow> 'v batch_map" where
  "still_needed st es = filter (\<lambda>e. has_transactions st (fst e) = Some True) es"

lemma try_filter_batches:
  assumes "store_ok env st" "\<forall>e \<in> set es. batch_fits st (fst e)"
  shows "try_filter (\<lambda>e. has_transactions st (fst e)) es = Some (still_needed st es)"
  unfolding still_needed_def by (rule try_filter_total) (use assms has_transactions_total in blast)

definition refresh :: "'h transaction_store \<Rightarrow> peer_sync_state \<Rightarrow> peer_sync_state" where
  "refresh st ps = ps\<lparr>peer_info := (peer_info ps)\<lparr>sent_batches := still_needed st (sent_batches (peer_info ps)),
     retry_batches := still_needed st (retry_batches (peer_info ps))\<rparr>\<rparr>"

lemma refresh_ok:
  assumes "peer_ok st acked ps" "store_ok env st"
  shows "peer_ok st acked (refresh st ps)"
proof -
  note ok = peer_okD [OF assms(1)]
  have sub: "tracked_batches (refresh st ps) \<subseteq> tracked_batches ps" by (auto simp: tracked_batches_def refresh_def still_needed_def)
  have keep: "x \<in> tracked_batches (refresh st ps)" if "x \<in> tracked_batches ps" "has_transactions st x = Some True" for x
    using that by (force simp: tracked_batches_def refresh_def still_needed_def)
  have "\<exists>x \<in> tracked_batches (refresh st ps) \<union> acked. covers x b k"
    if "b < length (peer_timeline_id ps)" "bt_get (timeline (timelines (timeline_index st) ! b)) k = Some p" "k \<le> peer_timeline_id ps ! b" for b k p
  proof -
    have "\<exists>x \<in> tracked_batches ps \<union> acked. covers x b k" using ok(3) that unfolding covered_def by blast
    then obtain x where x: "x \<in> tracked_batches ps \<union> acked" "covers x b k" by blast
    show ?thesis
    proof (cases "x \<in> tracked_batches ps")
      case True
      then have "batch_fits st x" using ok(2) by (simp add: batch_passed_def)
      from keep [OF True has_transactions_covers [OF assms(2) this x(2) that(2)]] x(2) show ?thesis by blast
    qed (use x in blast)
  qed
  then have "covered st (peer_timeline_id ps) (tracked_batches (refresh st ps) \<union> acked)" unfolding covered_def by blast
  then show ?thesis using ok sub by (auto simp: peer_ok_def refresh_def still_needed_def)
qed

lemma find_expired_in:
  "find_expired clock timeout m i pending expired es = Inr (Some x) \<Longrightarrow> expired = Some x \<or> x \<in> fst ` set es"
  by (induction clock timeout m i pending expired es rule: find_expired.induct) (auto simp: Let_def split: if_splits)

lemma max_batch_in: "max_batch x y = Some z \<Longrightarrow> x = Some z \<or> y = Some z"
  by (auto simp: max_batch_def split: option.splits if_splits)

text \<open>
  The batch that is chosen may be sent, and holds exactly what the range of its identifier holds. The peer's batches
  are those before, without the empty ones.
\<close>

definition chosen_ok :: "'h transaction_store \<Rightarrow> peer_sync_state \<Rightarrow> multi_batch_id \<Rightarrow> signed_transaction list \<Rightarrow> broadcast_label option \<Rightarrow> bool" where
  "chosen_ok st ps x txns label \<longleftrightarrow> sendable st (peer_timeline_id ps) x \<and> txns \<noteq> []
     \<and> (\<exists>txns'. store_timeline_range x st = Some txns' \<and> mset txns = mset txns')
     \<and> (if label = None then map fst x = peer_timeline_id ps else x \<in> tracked_batches ps)"

lemma resent_batch:
  assumes "peer_ok st acked ps" "store_ok env st" "x \<in> tracked_batches (refresh st ps)"
  shows "\<exists>txns. store_timeline_range x st = Some txns \<and> txns \<noteq> [] \<and> chosen_ok st ps x txns (Some l)"
proof -
  have x: "x \<in> tracked_batches ps" "has_transactions st x = Some True"
    using assms(3) by (auto simp: tracked_batches_def refresh_def still_needed_def)
  then have "sendable st (peer_timeline_id ps) x" using peer_okD(1,2) [OF assms(1)] passed_sendable by blast
  then show ?thesis using x by (auto simp: chosen_ok_def has_transactions_def)
qed

lemma fresh_chosen:
  assumes "peer_ok st acked ps" "store_ok env st" "0 < cnt"
  shows "\<exists>txns ids. store_read_timeline env (peer_timeline_id ps) cnt st = Some (txns, ids)
    \<and> (txns \<noteq> [] \<longrightarrow> chosen_ok st ps (from_timeline_ids (peer_timeline_id ps) ids) txns None)"
proof -
  let ?pos = "peer_timeline_id ps"
  have pos: "length ?pos = length (timelines (timeline_index st))"
      "\<And>b. b < length ?pos \<Longrightarrow> ?pos ! b < timeline_id (timelines (timeline_index st) ! b)"
    using peer_okD(1) [OF assms(1)] by (simp_all add: position_ok_def)
  obtain txns ids txns' where f: "store_read_timeline env ?pos cnt st = Some (txns, ids)" "length ids = length ?pos" "batch_fits st (zip ?pos ids)"
      "\<forall>b < length ?pos. ids ! b < timeline_id (timelines (timeline_index st) ! b)"
      "store_timeline_range (zip ?pos ids) st = Some txns'" "mset txns = mset txns'"
    using fresh_batch [OF assms(2) pos(1) assms(3) pos(2)] by blast
  then have "sendable st ?pos (zip ?pos ids)" by (simp add: sendable_def)
  with f show ?thesis by (auto simp: chosen_ok_def from_timeline_ids_def)
qed

lemma find_expired_refreshed:
  assumes "find_expired clock timeout m 0 0 None (still_needed st (sent_batches (peer_info ps))) = Inr expired"
    and "max_batch expired (if still_needed st (retry_batches (peer_info ps)) = [] then None
           else Some (fst (last (still_needed st (retry_batches (peer_info ps)))))) = Some x"
  shows "x \<in> tracked_batches (refresh st ps)"
  using max_batch_in [OF assms(2)] find_expired_in [of clock timeout m 0 0 None "still_needed st (sent_batches (peer_info ps))" x] assms(1)
  by (auto simp: tracked_batches_def refresh_def split: if_splits)

lemma determine_ok:
  assumes "peer_ok st acked ps" "store_ok env st" "map_of (sync_states ni) peer = Some ps" "0 < shared_mempool_batch_size (ni_config ni)"
  shows "\<exists>r ni' ps'. determine_broadcast_batch env clock peer scheduled st ni = Some (r, ni') \<and> ni_config ni' = ni_config ni
    \<and> map_of (sync_states ni') = (map_of (sync_states ni))(peer \<mapsto> ps') \<and> ps' \<in> {ps, refresh st ps}
    \<and> (\<forall>x txns l. r = Inr (x, txns, l) \<longrightarrow> chosen_ok st ps x txns l)"
proof (cases "isl (check_peer_prioritized peer ni) \<or> backoff_mode (peer_info ps) \<and> \<not> scheduled")
  case True
  then show ?thesis using assms(3)
    by (cases "check_peer_prioritized peer ni") (auto simp: determine_broadcast_batch_def map_upd_triv intro!: exI [of _ ps])
next
  case False
  let ?sent = "still_needed st (sent_batches (peer_info ps))" and ?retries = "still_needed st (retry_batches (peer_info ps))"
  let ?ni = "put_state peer (refresh st ps) ni"
  let ?retry = "if ?retries = [] then None else Some (fst (last ?retries))"
  let ?find = "find_expired clock (from_millis (shared_mempool_ack_timeout_ms (ni_config ni))) (max_broadcasts_per_peer (ni_config ni)) 0 0 None ?sent"
  have fits: "\<forall>e \<in> set (sent_batches (peer_info ps)). batch_fits st (fst e)" "\<forall>e \<in> set (retry_batches (peer_info ps)). batch_fits st (fst e)"
    using peer_okD(2) [OF assms(1)] by (auto simp: tracked_batches_def batch_passed_def)
  note filter = try_filter_batches [OF assms(2) fits(1)] try_filter_batches [OF assms(2) fits(2)]
  have prio: "check_peer_prioritized peer ni = Inr ()" "\<not> (backoff_mode (peer_info ps) \<and> \<not> scheduled)"
    using False by (cases "check_peer_prioritized peer ni"; auto)+
  have ni: "ni_config ?ni = ni_config ni" "map_of (sync_states ?ni) = (map_of (sync_states ni))(peer \<mapsto> refresh st ps)"
    using assms(3) by (simp_all add: put_state_map)
  have "\<exists>r. determine_broadcast_batch env clock peer scheduled st ni = Some (r, ?ni) \<and> (\<forall>x txns l. r = Inr (x, txns, l) \<longrightarrow> chosen_ok st ps x txns l)"
  proof (cases ?find)
    case (Inl e)
    then show ?thesis using assms(3) prio filter by (auto simp: determine_broadcast_batch_def refresh_def)
  next
    case (Inr expired)
    show ?thesis
    proof (cases "max_batch expired ?retry")
      case None
      obtain txns ids where t: "store_read_timeline env (peer_timeline_id ps) (shared_mempool_batch_size (ni_config ni)) st = Some (txns, ids)"
          "txns \<noteq> [] \<longrightarrow> chosen_ok st ps (from_timeline_ids (peer_timeline_id ps) ids) txns None"
        using fresh_chosen [OF assms(1,2,4)] by blast
      then show ?thesis using assms(3) prio filter Inr None by (auto simp: determine_broadcast_batch_def refresh_def Let_def)
    next
      case (Some x)
      let ?l = "if expired = Some x then ExpiredBroadcast else RetryBroadcast"
      obtain txns where t: "store_timeline_range x st = Some txns" "txns \<noteq> []" "chosen_ok st ps x txns (Some ?l)"
        using resent_batch [OF assms(1,2) find_expired_refreshed [OF Inr Some]] by blast
      then show ?thesis using assms(3) prio filter Inr Some by (auto simp: determine_broadcast_batch_def refresh_def Let_def)
    qed
  qed
  with ni show ?thesis by blast
qed

section \<open>Sending and acknowledging\<close>

lemma update_nth:
  assumes "length x = length ids" "b < length ids"
  shows "timeline_ids_update x ids ! b = max (ids ! b) (snd (x ! b))"
  using assms by (simp add: timeline_ids_update_def case_prod_beta)

lemma update_length [simp]: "length (timeline_ids_update x ids) = length ids"
  by (simp add: timeline_ids_update_def)

lemma tracked_length:
  assumes "peer_ok st acked ps" "batch_fits st x"
  shows "same_length (length x) (sent_batches (peer_info ps))" "same_length (length x) (retry_batches (peer_info ps))"
  using peer_okD(2) [OF assms(1)] assms(2) by (auto simp: same_length_def tracked_batches_def batch_passed_def batch_fits_def)

lemma covered_update:
  assumes "covered st ids X" "sendable st ids x" "length ids = length x"
  shows "covered st (timeline_ids_update x ids) (insert x X)"
  unfolding covered_def
proof (intro allI impI, elim conjE)
  fix b k p
  assume b: "b < length (timeline_ids_update x ids)" and k: "bt_get (timeline (timelines (timeline_index st) ! b)) k = Some p"
    "k \<le> timeline_ids_update x ids ! b"
  show "\<exists>y \<in> insert x X. covers y b k"
  proof (cases "k \<le> ids ! b")
    case True
    moreover have "b < length ids" using b by simp
    ultimately have "\<exists>y \<in> X. covers y b k" using assms(1) k(1) unfolding covered_def by blast
    then show ?thesis by blast
  next
    case False
    have "k \<le> snd (x ! b)" using k(2) False b assms(3) by (simp add: update_nth le_max_iff_disj)
    moreover have "fst (x ! b) \<le> ids ! b" using assms(2,3) b by (simp add: sendable_def)
    ultimately have "covers x b k" using False b assms(3) by (simp add: covers_def)
    then show ?thesis by blast
  qed
qed

lemma update_ok:
  assumes "peer_ok st acked ps" "sendable st (peer_timeline_id ps) x" "map_of (sync_states ni) peer = Some ps"
  shows "\<exists>k ni' ps'. update_broadcast_state peer x send_time ni = (Inr k, ni') \<and> ni_config ni' = ni_config ni
    \<and> map_of (sync_states ni') = (map_of (sync_states ni))(peer \<mapsto> ps') \<and> peer_ok st acked ps' \<and> x \<in> fst ` set (sent_batches (peer_info ps'))"
proof -
  let ?info = "peer_info ps" and ?pos = "peer_timeline_id ps"
  obtain r retries where rem: "batch_remove x (retry_batches ?info) = (r, retries)" by (cases "batch_remove x (retry_batches ?info)")
  let ?ps = "ps\<lparr>peer_timeline_id := timeline_ids_update x ?pos,
      peer_info := \<lparr>sent_batches = batch_insert x send_time (sent_batches ?info), retry_batches = retries, backoff_mode = False\<rparr>\<rparr>"
  note ok = peer_okD [OF assms(1)]
  have fits: "batch_fits st x" using assms(2) by (simp add: sendable_def)
  note lens = tracked_length [OF assms(1) fits]
  note ins = batch_insert_spec [OF lens(1), of send_time] and del = batch_remove_spec [OF rem lens(2)]
  have len: "length x = length ?pos" using fits ok(1) by (simp add: batch_fits_def position_ok_def)
  have tracked: "insert x (tracked_batches ps) = tracked_batches ?ps"
    using ins(1) del(1,2) by (auto simp: tracked_batches_def)
  have pos: "?pos ! b \<le> timeline_ids_update x ?pos ! b" "snd (x ! b) \<le> timeline_ids_update x ?pos ! b" if "b < length ?pos" for b
    using update_nth [OF len that] by simp_all
  have "position_ok st (peer_timeline_id ?ps)"
    using ok(1) assms(2) len by (simp add: position_ok_def sendable_def update_nth)
  moreover have "batch_passed st (peer_timeline_id ?ps) y" if "y \<in> tracked_batches ?ps" for y
  proof (cases "y = x")
    case False
    with that tracked have "y \<in> tracked_batches ps" by blast
    from ok(2) [OF this] have y: "batch_fits st y" "\<And>b. b < length y \<Longrightarrow> snd (y ! b) \<le> ?pos ! b" by (simp_all add: batch_passed_def)
    then have "length y = length ?pos" using fits len by (simp add: batch_fits_def)
    with y pos(1) show ?thesis unfolding batch_passed_def by (fastforce intro: order_trans)
  qed (use fits pos(2) len in \<open>simp add: batch_passed_def\<close>)
  moreover have "covered st (peer_timeline_id ?ps) (tracked_batches ?ps \<union> acked)"
    using covered_update [OF ok(3) assms(2)] len by (simp add: tracked [symmetric])
  ultimately have "peer_ok st acked ?ps" by (simp add: peer_ok_def)
  moreover have "x \<in> fst ` set (sent_batches (peer_info ?ps))" using ins(1) by simp
  moreover have "update_broadcast_state peer x send_time ni = (Inr (length (batch_insert x send_time (sent_batches ?info))), put_state peer ?ps ni)"
    using assms(3) rem by (simp add: update_broadcast_state_def Let_def)
  ultimately show ?thesis using assms(3) by (intro exI [of _ ?ps] exI conjI) (assumption | simp add: put_state_map)+
qed

text \<open>
  An acknowledgement of a pending batch panics exactly when its time is before the time the batch was
  sent: the clock of the system has been set back in between.
\<close>

lemma ack_ok:
  assumes "peer_ok st acked ps" "map_of (sync_states ni) peer = Some ps" "length x = length (timelines (timeline_index st))"
  shows "process_broadcast_ack peer x retry backoff timestamp ni = None \<longleftrightarrow>
      (\<exists>t. map_of (sent_batches (peer_info ps)) x = Some t \<and> timestamp < t)"
    "process_broadcast_ack peer x retry backoff timestamp ni = Some ni' \<Longrightarrow> ni_config ni' = ni_config ni
      \<and> (\<exists>ps'. map_of (sync_states ni') = (map_of (sync_states ni))(peer \<mapsto> ps')
          \<and> peer_ok st (if x \<in> fst ` set (sent_batches (peer_info ps)) \<and> \<not> retry then insert x acked else acked) ps')"
proof -
  let ?info = "peer_info ps"
  obtain r sent where rem: "batch_remove x (sent_batches ?info) = (r, sent)" by (cases "batch_remove x (sent_batches ?info)")
  note ok = peer_okD [OF assms(1)]
  have lens: "same_length (length x) (sent_batches ?info)" "same_length (length x) (retry_batches ?info)"
    using ok(2) assms(3) by (auto simp: same_length_def tracked_batches_def batch_passed_def batch_fits_def)
  note del = batch_remove_spec [OF rem lens(1)]
  have r: "r = map_of (sent_batches ?info) x" using batch_remove_lookup [OF lens(1)] rem by simp
  show "process_broadcast_ack peer x retry backoff timestamp ni = None \<longleftrightarrow>
      (\<exists>t. map_of (sent_batches ?info) x = Some t \<and> timestamp < t)"
    using assms(2) rem by (cases r) (auto simp: process_broadcast_ack_def Let_def r)
  assume call: "process_broadcast_ack peer x retry backoff timestamp ni = Some ni'"
  show "ni_config ni' = ni_config ni \<and> (\<exists>ps'. map_of (sync_states ni') = (map_of (sync_states ni))(peer \<mapsto> ps')
      \<and> peer_ok st (if x \<in> fst ` set (sent_batches ?info) \<and> \<not> retry then insert x acked else acked) ps')"
  proof (cases r)
    case None
    then have "x \<notin> fst ` set (sent_batches ?info)" using del(4) by blast
    then show ?thesis using assms(1,2) rem None call
      by (auto simp: process_broadcast_ack_def map_upd_triv intro!: exI [of _ ps])
  next
    case (Some t)
    let ?retries = "if retry then batch_insert x () (retry_batches ?info) else retry_batches ?info"
    let ?ps = "ps\<lparr>peer_info := \<lparr>sent_batches = sent, retry_batches = ?retries, backoff_mode = (backoff \<or> backoff_mode ?info)\<rparr>\<rparr>"
    have x: "(x, t) \<in> set (sent_batches ?info)" using del(3) [OF Some] .
    then have mem: "x \<in> fst ` set (sent_batches ?info)" by force
    have time: "\<not> timestamp < t" using call assms(2) rem Some by (auto simp: process_broadcast_ack_def)
    note ins = batch_insert_spec(1) [OF lens(2), of "()"]
    have sub: "tracked_batches ?ps \<subseteq> tracked_batches ps" using ins del(1) mem by (auto simp: tracked_batches_def)
    have sup: "tracked_batches ps \<subseteq> insert x (tracked_batches ?ps)" "retry \<Longrightarrow> tracked_batches ps \<subseteq> tracked_batches ?ps"
      using ins del(2) by (auto simp: tracked_batches_def)
    let ?acked = "if x \<in> fst ` set (sent_batches ?info) \<and> \<not> retry then insert x acked else acked"
    have "tracked_batches ps \<union> acked \<subseteq> tracked_batches ?ps \<union> ?acked" using sup mem by (cases retry) auto
    from covered_mono [OF ok(3) this] have "covered st (peer_timeline_id ?ps) (tracked_batches ?ps \<union> ?acked)" by simp
    then have "peer_ok st ?acked ?ps" using ok(1,2) sub by (auto simp: peer_ok_def)
    moreover have "process_broadcast_ack peer x retry backoff timestamp ni = Some (put_state peer ?ps ni)"
      using assms(2) rem Some time by (cases ?info) (simp add: process_broadcast_ack_def Let_def)
    then have "ni' = put_state peer ?ps ni" using call by simp
    ultimately show ?thesis using assms(2) by (intro conjI exI [of _ ?ps]) (assumption | simp add: put_state_map)+
  qed
qed

lemma execute_ok:
  assumes "peer_ok st acked ps" "store_ok env st" "map_of (sync_states ni) peer = Some ps"
    "0 < shared_mempool_batch_size (ni_config ni)"
  shows "\<exists>r ni' out ps'. execute_broadcast env clock send_time delivered peer scheduled st ni = Some (r, ni', out) \<and> ni_config ni' = ni_config ni
    \<and> map_of (sync_states ni') = (map_of (sync_states ni))(peer \<mapsto> ps') \<and> peer_ok st acked ps'"
proof -
  obtain r ni1 ps1 where d: "determine_broadcast_batch env clock peer scheduled st ni = Some (r, ni1)" "ni_config ni1 = ni_config ni"
      "map_of (sync_states ni1) = (map_of (sync_states ni))(peer \<mapsto> ps1)" "ps1 \<in> {ps, refresh st ps}"
      "\<And>x txns l. r = Inr (x, txns, l) \<Longrightarrow> chosen_ok st ps x txns l"
    using determine_ok [OF assms(1-4)] by blast
  have ok1: "peer_ok st acked ps1" using d(4) assms(1) refresh_ok [OF assms(1,2)] by auto
  have pos1: "peer_timeline_id ps1 = peer_timeline_id ps" using d(4) by (auto simp: refresh_def)
  consider e where "r = Inl e" | x txns l where "r = Inr (x, txns, l)" "\<not> delivered" | x txns l where "r = Inr (x, txns, l)" delivered
    by (cases r; cases delivered) auto
  then show ?thesis
  proof cases
    case 3
    have "sendable st (peer_timeline_id ps1) x" using d(5) [OF 3(1)] by (simp add: chosen_ok_def pos1)
    from update_ok [OF ok1 this, of ni1 peer send_time] d(3) obtain k ni2 ps2 where u: "update_broadcast_state peer x send_time ni1 = (Inr k, ni2)"
        "ni_config ni2 = ni_config ni1" "map_of (sync_states ni2) = (map_of (sync_states ni1))(peer \<mapsto> ps2)" "peer_ok st acked ps2"
      by auto
    then show ?thesis using 3 d(1-3) by (auto simp: execute_broadcast_def)
  qed (use d(1-3) ok1 in \<open>auto simp: execute_broadcast_def\<close>)
qed

section \<open>The node\<close>

text \<open>
  The coordinator handles one event after the other; the transactions are processed by tasks beside it, which only
  change the store, under its lock. \<open>nd_acked\<close> remembers, for the proofs only, the batches a peer has
  acknowledged since it connected. The times of sends and acknowledgements come from the clock of the
  system and are arbitrary.
\<close>

record 'h node =
  nd_store :: "'h transaction_store"
  nd_net :: network_interface
  nd_acked :: "peer_network_id \<Rightarrow> multi_batch_id set"

datatype 'h node_event =
  StoreCall "'h store_call"
| SendBroadcast "nat \<Rightarrow> duration" duration bool peer_network_id bool
| Acknowledge peer_network_id multi_batch_id bool bool duration
| NewPeer "address \<Rightarrow> u64" peer_network_id connection_metadata
| LostPeer "address \<Rightarrow> u64" peer_network_id

text \<open>An event: \<open>None\<close> is a panic. A broadcast to a peer that is gone is dropped.\<close>

definition pending_for :: "peer_network_id \<Rightarrow> network_interface \<Rightarrow> multi_batch_id set" where
  "pending_for peer ni = (case map_of (sync_states ni) peer of None \<Rightarrow> {} | Some ps \<Rightarrow> fst ` set (sent_batches (peer_info ps)))"

definition node_step :: "'h store_env \<Rightarrow> 'h node_event \<Rightarrow> 'h node \<Rightarrow> 'h node option" where
  "node_step env ev nd =
     (case ev of
        StoreCall c \<Rightarrow> map_option (\<lambda>st. nd\<lparr>nd_store := st\<rparr>) (store_call env c (nd_store nd))
      | SendBroadcast clock send_time delivered peer scheduled \<Rightarrow>
          map_option (\<lambda>(r, ni, out). nd\<lparr>nd_net := ni\<rparr>)
            (execute_broadcast env clock send_time delivered peer scheduled (nd_store nd) (nd_net nd))
      | Acknowledge peer x retry backoff timestamp \<Rightarrow>
          map_option (\<lambda>ni. nd\<lparr>nd_net := ni,
              nd_acked := (if x \<in> pending_for peer (nd_net nd) \<and> \<not> retry then (nd_acked nd)(peer := insert x (nd_acked nd peer)) else nd_acked nd)\<rparr>)
            (process_broadcast_ack peer x retry backoff timestamp (nd_net nd))
      | NewPeer hash_peer_id peer metadata \<Rightarrow>
          Some (case add_peer hash_peer_id peer metadata (nd_net nd) of (is_new_peer, ni) \<Rightarrow>
            nd\<lparr>nd_net := ni, nd_acked := (if is_new_peer then (nd_acked nd)(peer := {}) else nd_acked nd)\<rparr>)
      | LostPeer hash_peer_id peer \<Rightarrow> Some (nd\<lparr>nd_net := disable_peer hash_peer_id peer (nd_net nd)\<rparr>))"

text \<open>
  Acknowledgements carry identifiers with one pair for each bucket, as this node's own have; nothing else is
  expected of the peers, and nothing of the clock.
\<close>

definition event_admissible :: "mempool_config \<Rightarrow> 'h node_event \<Rightarrow> bool" where
  "event_admissible config ev \<longleftrightarrow>
     (case ev of
        StoreCall c \<Rightarrow> admissible c
      | Acknowledge peer x retry backoff timestamp \<Rightarrow> length x = length (broadcast_buckets config)
      | _ \<Rightarrow> True)"

text \<open>The number counts the calls on the store.\<close>

definition store_calls :: "'h node_event \<Rightarrow> nat" where
  "store_calls ev = (case ev of StoreCall _ \<Rightarrow> 1 | _ \<Rightarrow> 0)"

inductive node_reach :: "'h store_env \<Rightarrow> mempool_config \<Rightarrow> nat \<Rightarrow> 'h node \<Rightarrow> bool" for env config where
  start: "store_new config = Some st \<Longrightarrow>
    node_reach env config 0 \<lparr>nd_store = st, nd_net = network_interface_new role config pid, nd_acked = (\<lambda>_. {})\<rparr>"
| step: "node_reach env config n nd \<Longrightarrow> event_admissible config ev \<Longrightarrow> node_step env ev nd = Some nd'
    \<Longrightarrow> node_reach env config (n + store_calls ev) nd'"

section \<open>The invariant of the node\<close>

definition net_ok :: "'h transaction_store \<Rightarrow> (peer_network_id \<Rightarrow> multi_batch_id set) \<Rightarrow> network_interface \<Rightarrow> bool" where
  "net_ok st acked ni \<longleftrightarrow> (\<forall>peer ps. map_of (sync_states ni) peer = Some ps \<longrightarrow> peer_ok st (acked peer) ps)"

lemma net_okD: "net_ok st acked ni \<Longrightarrow> map_of (sync_states ni) peer = Some ps \<Longrightarrow> peer_ok st (acked peer) ps"
  unfolding net_ok_def by blast

lemma net_ok_same: "net_ok st acked ni \<Longrightarrow> map_of (sync_states ni') = map_of (sync_states ni) \<Longrightarrow> net_ok st acked ni'"
  unfolding net_ok_def by metis

lemma net_ok_update:
  assumes "net_ok st acked ni" "map_of (sync_states ni') = (map_of (sync_states ni))(peer \<mapsto> ps)" "peer_ok st (acked' peer) ps"
    "\<And>q. q \<noteq> peer \<Longrightarrow> acked' q = acked q"
  shows "net_ok st acked' ni'"
  unfolding net_ok_def
proof (intro allI impI)
  fix q s assume q: "map_of (sync_states ni') q = Some s"
  show "peer_ok st (acked' q) s"
  proof (cases "q = peer")
    case False
    then have "map_of (sync_states ni) q = Some s" using q assms(2) by simp
    then show ?thesis using net_okD [OF assms(1)] assms(4) [OF False] by metis
  qed (use q assms(2,3) in simp)
qed

lemma prioritized_fields [simp]:
  "sync_states (update_prioritized_peers h ni) = sync_states ni" "ni_config (update_prioritized_peers h ni) = ni_config ni"
  by (simp_all add: update_prioritized_peers_def)

lemma map_of_without: "map_of (filter (\<lambda>(p, s). p \<noteq> peer) xs) q = (if q = peer then None else map_of xs q)"
  by (induction xs) auto

lemma lost_peer_ok: "net_ok st acked ni \<Longrightarrow> net_ok st acked (disable_peer h peer ni)"
  unfolding net_ok_def disable_peer_def by (simp add: map_of_without)

lemma peer_ok_metadata: "peer_ok st acked (ps\<lparr>peer_metadata := m\<rparr>) = peer_ok st acked ps"
  by (simp add: peer_ok_def tracked_batches_def)

lemma new_peer_ok:
  assumes "net_ok st acked ni" "store_reach env config n st" "ni_config ni = config" "add_peer h peer metadata ni = (is_new, ni')"
  shows "net_ok st (if is_new then acked(peer := {}) else acked) ni' \<and> ni_config ni' = config"
proof (cases "map_of (sync_states ni) peer")
  case None
  let ?new = "peer_sync_state_new metadata (length (broadcast_buckets config))"
  have new: "is_new" "map_of (sync_states ni') = map_of (sync_states ni) \<or> map_of (sync_states ni') = (map_of (sync_states ni))(peer \<mapsto> ?new)"
      "ni_config ni' = config"
    using assms(3,4) None by (auto simp: add_peer_def Let_def map_add_def split: if_splits option.split)
  have same: "net_ok st (acked(peer := {})) ni" unfolding net_ok_def
  proof (intro allI impI)
    fix q s assume q: "map_of (sync_states ni) q = Some s"
    then have "q \<noteq> peer" using None by auto
    then show "peer_ok st ((acked(peer := {})) q) s" using net_okD [OF assms(1) q] by simp
  qed
  have "peer_ok st ((acked(peer := {})) peer) ?new" using peer_ok_new [OF assms(2)] by simp
  with same new(2) have "net_ok st (acked(peer := {})) ni'" using net_ok_same net_ok_update [OF same _ _ refl] by blast
  with new show ?thesis by simp
next
  case (Some ps)
  let ?new = "ps\<lparr>peer_metadata := metadata\<rparr>"
  have old: "\<not> is_new" "map_of (sync_states ni') = map_of (sync_states ni) \<or> map_of (sync_states ni') = (map_of (sync_states ni))(peer \<mapsto> ?new)"
      "ni_config ni' = config"
    using assms(3,4) Some by (auto simp: add_peer_def Let_def put_state_map split: if_splits)
  have "peer_ok st (acked peer) ?new" using net_okD [OF assms(1) Some] by (simp add: peer_ok_metadata)
  with assms(1) old(2) have "net_ok st acked ni'" using net_ok_same net_ok_update [OF assms(1) _ _ refl] by blast
  with old show ?thesis by simp
qed

lemma net_ok_grows: "net_ok st acked ni \<Longrightarrow> store_grows st st' \<Longrightarrow> net_ok st' acked ni"
  unfolding net_ok_def using peer_ok_grows by blast

definition node_ok :: "'h store_env \<Rightarrow> mempool_config \<Rightarrow> nat \<Rightarrow> 'h node \<Rightarrow> bool" where
  "node_ok env config n nd \<longleftrightarrow> store_reach env config n (nd_store nd) \<and> ni_config (nd_net nd) = config
     \<and> net_ok (nd_store nd) (nd_acked nd) (nd_net nd)"

lemma node_okD:
  assumes "node_ok env config n nd"
  shows "store_reach env config n (nd_store nd)" "ni_config (nd_net nd) = config" "net_ok (nd_store nd) (nd_acked nd) (nd_net nd)"
  using assms by (simp_all add: node_ok_def)

text \<open>A configuration with which a node can work: room for transactions, and batches of at least one.\<close>

definition node_config :: "mempool_config \<Rightarrow> bool" where
  "node_config config \<longleftrightarrow> 0 < config_capacity_per_user config \<and> 0 < shared_mempool_batch_size config"

lemma broadcast_step:
  assumes "node_ok env config n nd" "store_ok env (nd_store nd)" "node_config config"
  shows "\<exists>nd'. node_step env (SendBroadcast clock send_time delivered peer scheduled) nd = Some nd' \<and> node_ok env config n nd'"
proof (cases "map_of (sync_states (nd_net nd)) peer")
  case None
  then show ?thesis using node_okD [OF assms(1)]
    by (auto simp: node_step_def execute_broadcast_def determine_broadcast_batch_def node_ok_def)
next
  case (Some ps)
  note nd = node_okD [OF assms(1)]
  have "0 < shared_mempool_batch_size (ni_config (nd_net nd))" using assms(3) nd(2) by (simp add: node_config_def)
  from execute_ok [OF net_okD [OF nd(3) Some] assms(2) Some this] obtain r ni out ps' where e:
      "execute_broadcast env clock send_time delivered peer scheduled (nd_store nd) (nd_net nd) = Some (r, ni, out)"
      "ni_config ni = ni_config (nd_net nd)" "map_of (sync_states ni) = (map_of (sync_states (nd_net nd)))(peer \<mapsto> ps')"
      "peer_ok (nd_store nd) (nd_acked nd peer) ps'" by blast
  have "net_ok (nd_store nd) (nd_acked nd) ni" by (rule net_ok_update [OF nd(3) e(3,4) refl])
  then show ?thesis using e(1,2) nd(1,2) by (simp add: node_step_def node_ok_def)
qed

text \<open>The one event that makes a node panic: a pending batch is acknowledged before it was sent.\<close>

definition early_ack :: "'h node_event \<Rightarrow> 'h node \<Rightarrow> bool" where
  "early_ack ev nd =
     (case ev of
        Acknowledge peer x retry backoff timestamp \<Rightarrow>
          (case map_of (sync_states (nd_net nd)) peer of
             None \<Rightarrow> False
           | Some ps \<Rightarrow> (case map_of (sent_batches (peer_info ps)) x of None \<Rightarrow> False | Some sent_time \<Rightarrow> timestamp < sent_time))
      | _ \<Rightarrow> False)"

lemma ack_step:
  assumes "node_ok env config n nd" "length x = length (broadcast_buckets config)"
  shows "node_step env (Acknowledge peer x retry backoff timestamp) nd = None \<longleftrightarrow> early_ack (Acknowledge peer x retry backoff timestamp) nd"
    "node_step env (Acknowledge peer x retry backoff timestamp) nd = Some nd' \<Longrightarrow> node_ok env config n nd'"
proof -
  note nd = node_okD [OF assms(1)]
  have len: "length x = length (timelines (timeline_index (nd_store nd)))" using assms(2) store_reach_lines(1) [OF nd(1)] by simp
  show "node_step env (Acknowledge peer x retry backoff timestamp) nd = None \<longleftrightarrow> early_ack (Acknowledge peer x retry backoff timestamp) nd"
  proof (cases "map_of (sync_states (nd_net nd)) peer")
    case (Some ps)
    then show ?thesis using ack_ok(1) [OF net_okD [OF nd(3) Some] Some len]
      by (auto simp: node_step_def early_ack_def split: option.split)
  qed (simp add: node_step_def process_broadcast_ack_def early_ack_def)
  assume call: "node_step env (Acknowledge peer x retry backoff timestamp) nd = Some nd'"
  show "node_ok env config n nd'"
  proof (cases "map_of (sync_states (nd_net nd)) peer")
    case None
    then show ?thesis using nd call by (auto simp: node_step_def process_broadcast_ack_def node_ok_def pending_for_def)
  next
    case (Some ps)
    let ?new = "x \<in> pending_for peer (nd_net nd) \<and> \<not> retry"
    let ?acked = "if ?new then (nd_acked nd)(peer := insert x (nd_acked nd peer)) else nd_acked nd"
    have pend: "pending_for peer (nd_net nd) = fst ` set (sent_batches (peer_info ps))" using Some by (simp add: pending_for_def)
    obtain ni where ni: "process_broadcast_ack peer x retry backoff timestamp (nd_net nd) = Some ni" "nd' = nd\<lparr>nd_net := ni, nd_acked := ?acked\<rparr>"
      using call by (auto simp: node_step_def)
    from ack_ok(2) [OF net_okD [OF nd(3) Some] Some len ni(1)] obtain ps' where a: "ni_config ni = ni_config (nd_net nd)"
        "map_of (sync_states ni) = (map_of (sync_states (nd_net nd)))(peer \<mapsto> ps')"
        "peer_ok (nd_store nd) (if ?new then insert x (nd_acked nd peer) else nd_acked nd peer) ps'"
      unfolding pend by blast
    have "peer_ok (nd_store nd) (?acked peer) ps'" using a(3) by (cases "x \<in> pending_for peer (nd_net nd)"; cases retry) simp_all
    then have "net_ok (nd_store nd) ?acked ni" by (rule net_ok_update [OF nd(3) a(2)]) simp
    then show ?thesis using a(1) nd(1,2) ni(2) by (simp add: node_ok_def)
  qed
qed

lemma node_step_ok:
  assumes "node_ok env config n nd" "hash_ok env" "in_budget config (n + store_calls ev)" "node_config config" "event_admissible config ev"
  shows "if early_ack ev nd then node_step env ev nd = None
    else \<exists>nd'. node_step env ev nd = Some nd' \<and> node_ok env config (n + store_calls ev) nd'"
proof -
  note nd = node_okD [OF assms(1)]
  have cap: "0 < config_capacity_per_user config" using assms(4) by (simp add: node_config_def)
  have "in_budget config n" using assms(3) by (auto simp: in_budget_def store_calls_def split: node_event.splits)
  from store_reach_ok [OF nd(1) assms(2) this cap] have run: "run_ok env config n (nd_store nd)" .
  then have ok: "store_ok env (nd_store nd)" by (simp add: run_ok_def)
  show ?thesis
  proof (cases ev)
    case (StoreCall c)
    have adm: "admissible c" and bud: "in_budget config (Suc n)" using assms(3,5) StoreCall by (simp_all add: event_admissible_def store_calls_def)
    obtain st where st: "store_call env c (nd_store nd) = Some st" using store_call_ok [OF run assms(2) adm bud cap] by blast
    have "net_ok st (nd_acked nd) (nd_net nd)" by (rule net_ok_grows [OF nd(3) store_call_grows [OF st]])
    then show ?thesis using store_reach.step [OF nd(1) adm st] st nd(2) StoreCall
      by (simp add: node_step_def node_ok_def store_calls_def early_ack_def)
  next
    case (SendBroadcast clock send_time delivered peer scheduled)
    then show ?thesis using broadcast_step [OF assms(1) ok assms(4)] by (simp add: store_calls_def early_ack_def)
  next
    case (Acknowledge peer x retry backoff timestamp)
    then have "length x = length (broadcast_buckets config)" using assms(5) by (simp add: event_admissible_def)
    from ack_step [OF assms(1) this, of peer retry backoff timestamp] Acknowledge show ?thesis
      by (cases "node_step env ev nd") (auto simp: store_calls_def)
  next
    case (NewPeer h peer metadata)
    obtain is_new ni where a: "add_peer h peer metadata (nd_net nd) = (is_new, ni)" by (cases "add_peer h peer metadata (nd_net nd)")
    from new_peer_ok [OF nd(3,1,2) a] show ?thesis using a nd(1) NewPeer
      by (simp add: node_step_def node_ok_def store_calls_def early_ack_def)
  next
    case (LostPeer h peer)
    then show ?thesis using nd lost_peer_ok by (simp add: node_step_def node_ok_def store_calls_def disable_peer_def early_ack_def)
  qed
qed

lemma node_reach_ok:
  assumes "node_reach env config n nd" "hash_ok env" "in_budget config n" "node_config config"
  shows "node_ok env config n nd"
  using assms
proof (induction rule: node_reach.induct)
  case (start st role pid)
  then show ?case by (simp add: node_ok_def store_reach.start network_interface_new_def net_ok_def)
next
  case (step n nd ev nd')
  have "in_budget config n" using step.prems(2) by (auto simp: in_budget_def store_calls_def split: node_event.splits)
  with step have "node_ok env config n nd" by blast
  from node_step_ok [OF this step.prems(1,2,3) step.hyps(2)] step.hyps(3) show ?case by (auto split: if_splits)
qed

end
