(* ===== verification/BroadcastProperties.thy ===== *)
theory BroadcastProperties
  imports BroadcastSystem
begin

text \<open>The properties of the broadcasts, on every state of a node that events reach, and a node on which they are instantiated.\<close>

section \<open>A node with one peer\<close>

definition demo_peer :: peer_network_id where
  "demo_peer = (ValidatorNetwork, 7)"

definition demo_start :: "signed_transaction node" where
  "demo_start = \<lparr>nd_store = pool_start, nd_net = network_interface_new ValidatorNode pool_config 9, nd_acked = (\<lambda>_. {})\<rparr>"

definition demo_events :: "signed_transaction node_event list" where
  "demo_events = [NewPeer (\<lambda>_. 0) demo_peer \<lparr>conn_origin = Outbound, conn_role = ValidatorRole\<rparr>, StoreCall (Insert 0 (pool_txn 1 0)),
     SendBroadcast (\<lambda>_. 5) 5 True demo_peer False]"

definition demo_state :: peer_sync_state where
  "demo_state = \<lparr>peer_timeline_id = [1, 0], peer_info = \<lparr>sent_batches = [([(0, 1), (0, 0)], 5)], retry_batches = [], backoff_mode = False\<rparr>,
     peer_metadata = \<lparr>conn_origin = Outbound, conn_role = ValidatorRole\<rparr>\<rparr>"

definition demo_node :: "signed_transaction node" where
  "demo_node = the (ofold (node_step pool_env) demo_events demo_start)"

lemmas net_eval = node_step_def add_peer_def is_upstream_peer_def network_interface_new_def update_prioritized_peers_def
  peer_sync_state_new_def timeline_ids_new_def broadcast_info_new_def execute_broadcast_def determine_broadcast_batch_def
  check_peer_prioritized_def store_read_timeline_def multi_read_def timeline_read_def get_mempool_txn_def from_timeline_ids_def
  max_batch_def update_broadcast_state_def timeline_ids_update_def put_state_def has_transactions_def
  store_timeline_range_def store_get_def multi_range_def timeline_range_def from_millis_def List.map_filter_simps

lemma demo_run:
  "ofold (node_step pool_env) demo_events demo_start = Some demo_node" "map_of (sync_states (nd_net demo_node)) demo_peer = Some demo_state"
  "map_option timeline_state (get_mempool_txn (nd_store demo_node) 1 0) = Some (Ready 1)"
  "map_option (\<lambda>t. bucket_index (ranking_score t) (timeline_index (nd_store demo_node))) (get_mempool_txn (nd_store demo_node) 1 0) = Some (Some 0)"
  "nd_acked demo_node demo_peer = {}" "timelines (timeline_index (nd_store demo_node)) \<noteq> []" "ni_role (nd_net demo_node) = ValidatorNode"
  "\<exists>ni. determine_broadcast_batch pool_env (\<lambda>_. 3000000000) demo_peer False (nd_store demo_node) (nd_net demo_node)
        = Some (Inr ([(0, 1), (0, 0)], [mt_txn (pool_txn 1 0)], Some ExpiredBroadcast), ni)"
proof -
  let ?P = "\<lambda>nd. map_of (sync_states (nd_net nd)) demo_peer = Some demo_state
      \<and> map_option timeline_state (get_mempool_txn (nd_store nd) 1 0) = Some (Ready 1)
      \<and> map_option (\<lambda>t. bucket_index (ranking_score t) (timeline_index (nd_store nd))) (get_mempool_txn (nd_store nd) 1 0) = Some (Some 0)
      \<and> nd_acked nd demo_peer = {} \<and> timelines (timeline_index (nd_store nd)) \<noteq> [] \<and> ni_role (nd_net nd) = ValidatorNode
      \<and> (\<exists>ni. determine_broadcast_batch pool_env (\<lambda>_. 3000000000) demo_peer False (nd_store nd) (nd_net nd)
        = Some (Inr ([(0, 1), (0, 0)], [mt_txn (pool_txn 1 0)], Some ExpiredBroadcast), ni))"
  have ex: "\<exists>nd. ofold (node_step pool_env) demo_events demo_start = Some nd \<and> ?P nd"
    by (simp add: demo_start_def demo_events_def demo_state_def demo_peer_def pool_config_def pool_start_eq pool_eval net_eval cong: bind_weak_cong)
  then show run: "ofold (node_step pool_env) demo_events demo_start = Some demo_node" unfolding demo_node_def by auto
  with ex have "?P demo_node" by auto
  then show "map_of (sync_states (nd_net demo_node)) demo_peer = Some demo_state"
      "map_option timeline_state (get_mempool_txn (nd_store demo_node) 1 0) = Some (Ready 1)"
      "map_option (\<lambda>t. bucket_index (ranking_score t) (timeline_index (nd_store demo_node))) (get_mempool_txn (nd_store demo_node) 1 0) = Some (Some 0)"
      "nd_acked demo_node demo_peer = {}" "timelines (timeline_index (nd_store demo_node)) \<noteq> []" "ni_role (nd_net demo_node) = ValidatorNode"
      "\<exists>ni. determine_broadcast_batch pool_env (\<lambda>_. 3000000000) demo_peer False (nd_store demo_node) (nd_net demo_node)
        = Some (Inr ([(0, 1), (0, 0)], [mt_txn (pool_txn 1 0)], Some ExpiredBroadcast), ni)"
    by blast+
qed

fun run_admissible :: "'h store_env \<Rightarrow> mempool_config \<Rightarrow> 'h node_event list \<Rightarrow> 'h node \<Rightarrow> bool" where
  "run_admissible env config [] nd \<longleftrightarrow> True"
| "run_admissible env config (ev # evs) nd \<longleftrightarrow> event_admissible config ev
     \<and> (case node_step env ev nd of None \<Rightarrow> False | Some nd' \<Rightarrow> run_admissible env config evs nd')"

lemma node_reach_run:
  assumes "node_reach env config n nd" "run_admissible env config evs nd" "ofold (node_step env) evs nd = Some nd'"
  shows "node_reach env config (n + sum_list (map store_calls evs)) nd'"
  using assms
proof (induction evs arbitrary: n nd)
  case (Cons ev evs)
  then obtain nd1 where nd1: "node_step env ev nd = Some nd1" "ofold (node_step env) evs nd1 = Some nd'" by (auto split: bind_splits)
  have adm: "event_admissible config ev" "run_admissible env config evs nd1" using Cons.prems(2) nd1(1) by simp_all
  from node_reach.step [OF Cons.prems(1) adm(1) nd1(1)] have "node_reach env config (n + store_calls ev) nd1" .
  from Cons.IH [OF this adm(2) nd1(2)] show ?case by (simp add: add.assoc)
qed simp

lemma demo_reached: "node_reach pool_env pool_config 1 demo_node"
proof -
  have "store_new pool_config = Some pool_start" by (simp add: pool_start_def store_new_def pool_config_def multi_new_def)
  from node_reach.start [OF this, of pool_env ValidatorNode 9] have start: "node_reach pool_env pool_config 0 demo_start" by (simp add: demo_start_def)
  let ?ev = "NewPeer (\<lambda>_. 0) demo_peer \<lparr>conn_origin = Outbound, conn_role = ValidatorRole\<rparr>"
  obtain nd1 where nd1: "node_step pool_env ?ev demo_start = Some nd1" by (simp add: node_step_def split: prod.split)
  obtain nd2 where nd2: "node_step pool_env (StoreCall (Insert 0 (pool_txn 1 0))) nd1 = Some nd2"
      "node_step pool_env (SendBroadcast (\<lambda>_. 5) 5 True demo_peer False) nd2 \<noteq> None"
    using demo_run(1) nd1 by (auto simp: demo_events_def split: bind_splits)
  have "run_admissible pool_env pool_config demo_events demo_start"
    using demo_run(1) nd1 nd2 by (auto simp: demo_events_def event_admissible_def admissible_def pool_insertable)
  from node_reach_run [OF start this demo_run(1)] show ?thesis by (simp add: demo_events_def store_calls_def)
qed

lemma demo_limits: "in_budget pool_config (1 + store_calls ev)" "in_budget pool_config 1" "node_config pool_config"
  by (auto simp: in_budget_def pool_config_def node_config_def store_calls_def split: node_event.split)

section \<open>Properties\<close>

text \<open>C21. Exactly one thing makes a node panic, in any state that events reach and whatever the order of store calls,
  broadcasts, acknowledgements and connections: an acknowledgement of a pending batch whose time, read from the clock
  of the system, lies before the time at which the batch was sent. The identifiers of acknowledgements carry as many pairs
  as there are buckets; the insertions and the number of store calls are those the store is proved for.\<close>

theorem broadcasts_panic_iff:
  assumes "node_reach env config n nd" "hash_ok env" "in_budget config (n + store_calls ev)" "node_config config" "event_admissible config ev"
  shows "node_step env ev nd = None \<longleftrightarrow>
    (\<exists>peer x retry backoff timestamp ps sent_time. ev = Acknowledge peer x retry backoff timestamp
       \<and> map_of (sync_states (nd_net nd)) peer = Some ps \<and> map_of (sent_batches (peer_info ps)) x = Some sent_time
       \<and> timestamp < sent_time)"
proof -
  have "in_budget config n" using assms(3) by (auto simp: in_budget_def store_calls_def split: node_event.splits)
  from node_step_ok [OF node_reach_ok [OF assms(1,2) this assms(4)] assms(2-5)]
  have "node_step env ev nd = None \<longleftrightarrow> early_ack ev nd" by (auto split: if_splits)
  also have "\<dots> \<longleftrightarrow> (\<exists>peer x retry backoff timestamp ps sent_time. ev = Acknowledge peer x retry backoff timestamp
       \<and> map_of (sync_states (nd_net nd)) peer = Some ps \<and> map_of (sent_batches (peer_info ps)) x = Some sent_time
       \<and> timestamp < sent_time)"
    by (auto simp: early_ack_def split: node_event.splits option.splits)
  finally show ?thesis .
qed

theorem broadcasts_panic_iff_witness:
  "node_step pool_env (Acknowledge demo_peer [(0, 1), (0, 0)] True True 4) demo_node = None
    \<and> node_step pool_env (Acknowledge demo_peer [(0, 1), (0, 0)] True True 6) demo_node \<noteq> None
    \<and> node_step pool_env (SendBroadcast (\<lambda>_. 3) 3 False demo_peer False) demo_node \<noteq> None"
proof -
  note panics = broadcasts_panic_iff [OF demo_reached pool_hash demo_limits(1,3)]
  have "node_step pool_env (Acknowledge demo_peer [(0, 1), (0, 0)] True True t) demo_node = None \<longleftrightarrow> t < 5" for t
    by (subst panics) (auto simp: event_admissible_def demo_run(2) demo_state_def pool_config_def)
  moreover have "node_step pool_env (SendBroadcast (\<lambda>_. 3) 3 False demo_peer False) demo_node \<noteq> None"
    by (subst panics) (simp_all add: event_admissible_def)
  ultimately show ?thesis by simp
qed

text \<open>C19. No ready transaction is forgotten: once a peer's position has passed the number of a transaction that is still in
  the store, a batch whose range holds that number is pending, waits to be sent again, or was acknowledged by the peer without asking
  for it again.\<close>

theorem broadcasts_forget_nothing:
  assumes "node_reach env config n nd" "hash_ok env" "in_budget config n" "node_config config"
    and "map_of (sync_states (nd_net nd)) peer = Some ps" "get_mempool_txn (nd_store nd) a s = Some t" "timeline_state t = Ready k"
    and "bucket_index (ranking_score t) (timeline_index (nd_store nd)) = Some b" "k \<le> peer_timeline_id ps ! b"
  shows "\<exists>x \<in> fst ` set (sent_batches (peer_info ps)) \<union> fst ` set (retry_batches (peer_info ps)) \<union> nd_acked nd peer. fst (x ! b) < k \<and> k \<le> snd (x ! b)"
proof -
  let ?m = "timeline_index (nd_store nd)"
  note nd = node_okD [OF node_reach_ok [OF assms(1-4)]]
  note ok = peer_okD [OF net_okD [OF nd(3) assms(5)]]
  have "0 < config_capacity_per_user config" using assms(4) by (simp add: node_config_def)
  then have "store_ok env (nd_store nd)" using store_reach_ok [OF nd(1) assms(2,3)] by (simp add: run_ok_def)
  note tl = store_ok_timeline [OF this]
  have b: "b < length (timelines ?m)" using assms(8) by (auto simp: bucket_index_def split: bind_splits if_splits)
  then have "bt_get (timeline (timelines ?m ! b)) k = Some (a, s)"
    using timeline_okD(3) [OF tl b, of k "(a, s)"] assms(6-8) by (auto simp: stored_def)
  moreover have "b < length (peer_timeline_id ps)" using ok(1) b by (simp add: position_ok_def)
  ultimately have "\<exists>x \<in> tracked_batches ps \<union> nd_acked nd peer. covers x b k" using ok(3) assms(9) unfolding covered_def by blast
  then show ?thesis unfolding tracked_batches_def covers_def by blast
qed

theorem broadcasts_forget_nothing_witness:
  "\<exists>x \<in> {[(0, 1), (0, 0)] :: multi_batch_id}. fst (x ! 0) < 1 \<and> 1 \<le> snd (x ! 0)"
proof -
  obtain t where t: "get_mempool_txn (nd_store demo_node) 1 0 = Some t" "timeline_state t = Ready 1"
      "bucket_index (ranking_score t) (timeline_index (nd_store demo_node)) = Some 0"
    using demo_run(3,4) by auto
  have "1 \<le> peer_timeline_id demo_state ! 0" by (simp add: demo_state_def)
  from broadcasts_forget_nothing [OF demo_reached pool_hash demo_limits(2,3) demo_run(2) t this]
  have "\<exists>x \<in> fst ` set (sent_batches (peer_info demo_state)) \<union> fst ` set (retry_batches (peer_info demo_state)) \<union> nd_acked demo_node demo_peer.
      fst (x ! 0) < 1 \<and> 1 \<le> snd (x ! 0)" .
  moreover have "fst ` set (sent_batches (peer_info demo_state)) \<union> fst ` set (retry_batches (peer_info demo_state)) \<union> nd_acked demo_node demo_peer
      = {[(0, 1), (0, 0)]}" by (simp add: demo_state_def demo_run(5))
  ultimately show ?thesis by simp
qed

text \<open>C20. The batch chosen for a peer is never empty and holds exactly the transactions of the range that its identifier names. A
  fresh batch begins where the peer's position is; any other is one that was pending or waited to be sent again.\<close>

theorem chosen_batch_exact:
  assumes "node_reach env config n nd" "hash_ok env" "in_budget config n" "node_config config"
    and "map_of (sync_states (nd_net nd)) peer = Some ps"
    and "determine_broadcast_batch env clock peer scheduled (nd_store nd) (nd_net nd) = Some (Inr (x, txns, label), ni)"
  shows "txns \<noteq> [] \<and> (\<exists>txns'. store_timeline_range x (nd_store nd) = Some txns' \<and> mset txns = mset txns')
    \<and> (if label = None then map fst x = peer_timeline_id ps
       else x \<in> fst ` set (sent_batches (peer_info ps)) \<union> fst ` set (retry_batches (peer_info ps)))"
proof -
  note nd = node_okD [OF node_reach_ok [OF assms(1-4)]]
  have conf: "0 < config_capacity_per_user config" "0 < shared_mempool_batch_size (ni_config (nd_net nd))"
    using assms(4) nd(2) by (simp_all add: node_config_def)
  have ok: "store_ok env (nd_store nd)" using store_reach_ok [OF nd(1) assms(2,3) conf(1)] by (simp add: run_ok_def)
  from determine_ok [OF net_okD [OF nd(3) assms(5)] ok assms(5) conf(2), of clock scheduled] assms(6)
  have "chosen_ok (nd_store nd) ps x txns label" by auto
  then show ?thesis unfolding chosen_ok_def tracked_batches_def by blast
qed

theorem chosen_batch_exact_witness:
  "\<exists>txns'. store_timeline_range [(0, 1), (0, 0)] (nd_store demo_node) = Some txns' \<and> mset [mt_txn (pool_txn 1 0)] = mset txns'"
proof -
  obtain ni where "determine_broadcast_batch pool_env (\<lambda>_. 3000000000) demo_peer False (nd_store demo_node) (nd_net demo_node)
      = Some (Inr ([(0, 1), (0, 0)], [mt_txn (pool_txn 1 0)], Some ExpiredBroadcast), ni)" using demo_run(8) by blast
  from chosen_batch_exact [OF demo_reached pool_hash demo_limits(2,3) demo_run(2) this] show ?thesis by blast
qed

text \<open>C22. The identifier of an acknowledgement is not checked: after an empty one that asks to send again, while a batch is
  pending and none waits, the next broadcast to that peer panics.\<close>

theorem empty_ack_panics:
  assumes "map_of (sync_states ni) peer = Some ps" "sent_batches (peer_info ps) = (x, sent_time) # rest" "retry_batches (peer_info ps) = []"
    and "\<not> backoff_mode (peer_info ps)" "sent_time \<le> timestamp" "check_peer_prioritized peer ni = Inr ()" "timelines (timeline_index st) \<noteq> []"
  shows "\<exists>ni'. process_broadcast_ack peer [] True False timestamp ni = Some ni' \<and>
    execute_broadcast env clock send_time delivered peer scheduled st ni' = None"
proof -
  let ?ps = "ps\<lparr>peer_info := (peer_info ps)\<lparr>sent_batches := rest, retry_batches := [([], ())]\<rparr>\<rparr>"
  let ?ni = "put_state peer ?ps ni"
  have "process_broadcast_ack peer [] True False timestamp ni = Some ?ni"
    using assms(1-5) by (simp add: process_broadcast_ack_def batch_cmp_def)
  moreover have "map_of (sync_states ?ni) peer = Some ?ps" using assms(1) by (simp add: put_state_map)
  moreover have "check_peer_prioritized peer ?ni = check_peer_prioritized peer ni" by (simp add: check_peer_prioritized_def put_state_def)
  moreover have "has_transactions st [] = None" using assms(7) by (simp add: has_transactions_def store_timeline_range_def multi_range_def)
  ultimately show ?thesis using assms(4,6) by (auto simp: execute_broadcast_def determine_broadcast_batch_def bind_eq_None_conv)
qed

theorem empty_ack_panics_witness:
  "\<exists>ni'. process_broadcast_ack demo_peer [] True False 6 (nd_net demo_node) = Some ni' \<and>
    execute_broadcast pool_env (\<lambda>_. 7) 7 True demo_peer False (nd_store demo_node) ni' = None"
  by (rule empty_ack_panics [OF demo_run(2), of "[(0, 1), (0, 0)]" 5 "[]"]) (simp_all add: demo_state_def demo_run check_peer_prioritized_def)

end
