(* ===== verification/SharedMempool.thy ===== *)
theory SharedMempool
  imports BroadcastProperties
begin

text \<open>
  The tasks of the shared mempool (\<open>mempool/src/shared_mempool/tasks.rs\<close>, \<open>types.rs\<close>, \<open>coordinator.rs\<close>): transactions that
  clients submit or peers broadcast, the answers to the peers, the requests of consensus, and the transactions
  that were committed.  The database, the transaction validator, the clock and the random numbers are arguments.  Timers, logs, metrics,
  the callbacks and the notifications of subscribers are not modelled.
\<close>

section \<open>The state\<close>

text \<open>
  Beside the fields of the struct: whether the receiver of \<open>tx_channel\<close> still exists. \<open>new\<close> creates it and
  neither stores it nor moves it into the thread that it starts, so that it is dropped when \<open>new\<close> returns.
\<close>

record 'h shared_mempool =
  smp_mempool :: "'h mempool"
  smp_config :: mempool_config
  smp_network :: network_interface
  broadcast_within_validator_network :: bool
  tx_receiver_alive :: bool

definition shared_mempool_new :: "'h mempool \<Rightarrow> mempool_config \<Rightarrow> role_type \<Rightarrow> address \<Rightarrow> 'h shared_mempool" where
  "shared_mempool_new mp config role pid =
     \<lparr>smp_mempool = mp, smp_config = config, smp_network = network_interface_new role config pid,
      broadcast_within_validator_network = True, tx_receiver_alive = False\<rparr>"

section \<open>Incoming transactions\<close>

datatype discarded_vm_status = SequenceNumberTooOld | ResourceDoesNotExist | UnknownVmStatus | OtherVmStatus u64

type_synonym submission_status = "mempool_status_code \<times> discarded_vm_status option"

type_synonym submission_status_bundle = "signed_transaction \<times> submission_status"

record vm_validator_result =
  vm_status :: "discarded_vm_status option"
  vm_score :: u64

text \<open>
  What the tasks get from outside: the view of the database with the sequence numbers in it (\<open>None\<close> where reading
  fails), the result of validating the \<open>i\<close>-th transaction (\<open>None\<close> is an error), and for its insertion a random number and the time.
\<close>

record incoming_env =
  checkpoint_view :: "(address \<Rightarrow> account_sequence_info option) option"
  validate_transaction :: "nat \<Rightarrow> signed_transaction \<Rightarrow> vm_validator_result option"
  insert_rng :: "nat \<Rightarrow> nat"
  insert_time :: "nat \<Rightarrow> duration"

text \<open>The transactions whose account can be read and that are not too old, and the statuses of the others.\<close>

fun check_sequence_numbers ::
  "(address \<Rightarrow> account_sequence_info option) \<Rightarrow> signed_transaction list
    \<Rightarrow> submission_status_bundle list \<times> (signed_transaction \<times> account_sequence_info) list" where
  "check_sequence_numbers seq_of [] = ([], [])"
| "check_sequence_numbers seq_of (t # ts) =
     (let (statuses, kept) = check_sequence_numbers seq_of ts
      in case seq_of (sender t) of
           Some info \<Rightarrow>
             if min_seq info \<le> sequence_number t then (statuses, (t, info) # kept)
             else ((t, VmError, Some SequenceNumberTooOld) # statuses, kept)
         | None \<Rightarrow> ((t, VmError, Some ResourceDoesNotExist) # statuses, kept))"

fun add_validated ::
  "'h store_env \<Rightarrow> incoming_env \<Rightarrow> bool \<Rightarrow> timeline_state \<Rightarrow> u8 \<Rightarrow> u8 \<Rightarrow> nat \<Rightarrow> (signed_transaction \<times> account_sequence_info) list
    \<Rightarrow> 'h mempool \<Rightarrow> (submission_status_bundle list \<times> 'h mempool) option" where
  "add_validated env inc alive state num_peers pid i [] mp = Some ([], mp)"
| "add_validated env inc alive state num_peers pid i ((t, info) # ts) mp =
     do {
       (status, mp1) \<leftarrow>
         (case validate_transaction inc i t of
            None \<Rightarrow> Some ((VmError, Some UnknownVmStatus), mp)
          | Some result \<Rightarrow>
              (case vm_status result of
                 Some s \<Rightarrow> Some ((VmError, Some s), mp)
               | None \<Rightarrow>
                   map_option (\<lambda>(code, mp', sent). ((code, None), mp'))
                     (add_sharded_txn env (insert_rng inc i) (insert_time inc i) alive t (vm_score result) info state num_peers pid mp)));
       (statuses, mp2) \<leftarrow> add_validated env inc alive state num_peers pid (i + 1) ts mp1;
       Some ((t, status) # statuses, mp2)
     }"

text \<open>The number of peers is cut to 8 bits before 1 is added.\<close>

definition validate_and_add_transactions ::
  "'h store_env \<Rightarrow> incoming_env \<Rightarrow> timeline_state \<Rightarrow> (signed_transaction \<times> account_sequence_info) list \<Rightarrow> 'h shared_mempool
    \<Rightarrow> (submission_status_bundle list \<times> 'h shared_mempool) option" where
  "validate_and_add_transactions env inc state txns smp =
     do {
       num_peers \<leftarrow> add_chk (of_nat (get_peer_count (smp_network smp)) :: u8) 1;
       let pid = of_nat (get_peer_position (smp_network smp));
       (statuses, mp) \<leftarrow> add_validated env inc (tx_receiver_alive smp) state num_peers pid 0 txns (smp_mempool smp);
       Some (statuses, smp\<lparr>smp_mempool := mp\<rparr>)
     }"

definition process_incoming_transactions ::
  "'h store_env \<Rightarrow> incoming_env \<Rightarrow> timeline_state \<Rightarrow> signed_transaction list \<Rightarrow> 'h shared_mempool
    \<Rightarrow> (submission_status_bundle list \<times> 'h shared_mempool) option" where
  "process_incoming_transactions env inc state txns smp =
     do {
       seq_of \<leftarrow> checkpoint_view inc;
       let (statuses, kept) = check_sequence_numbers seq_of txns;
       (statuses', smp') \<leftarrow> validate_and_add_transactions env inc state kept smp;
       Some (statuses @ statuses', smp')
     }"

definition is_validator :: "network_interface \<Rightarrow> bool" where
  "is_validator ni \<longleftrightarrow> ni_role ni = ValidatorNode"

definition process_client_transaction_submission ::
  "'h store_env \<Rightarrow> incoming_env \<Rightarrow> signed_transaction \<Rightarrow> 'h shared_mempool \<Rightarrow> (submission_status option \<times> 'h shared_mempool) option" where
  "process_client_transaction_submission env inc txn smp =
     (let ineligible = is_validator (smp_network smp) \<and> \<not> broadcast_within_validator_network smp;
          state = (if ineligible then NonQualified else NotReady)
      in map_option (\<lambda>(statuses, smp'). (case statuses of [] \<Rightarrow> None | s # _ \<Rightarrow> Some (snd s), smp'))
           (process_incoming_transactions env inc state [txn] smp))"

definition process_client_get_transaction :: "'h \<Rightarrow> 'h shared_mempool \<Rightarrow> signed_transaction option" where
  "process_client_get_transaction h smp = get_by_hash (mp_transactions (smp_mempool smp)) h"

text \<open>The answer to a broadcast: the identifier, whether to send again, and whether to back off.\<close>

definition gen_ack_response :: "multi_batch_id \<Rightarrow> submission_status_bundle list \<Rightarrow> multi_batch_id \<times> bool \<times> bool" where
  "gen_ack_response request_id results =
     (let backoff_and_retry = list_ex (\<lambda>(t, code, vm). code = MempoolIsFull) results in (request_id, backoff_and_retry, backoff_and_retry))"

definition process_transaction_broadcast ::
  "'h store_env \<Rightarrow> incoming_env \<Rightarrow> timeline_state \<Rightarrow> signed_transaction list \<Rightarrow> multi_batch_id \<Rightarrow> 'h shared_mempool
    \<Rightarrow> ((multi_batch_id \<times> bool \<times> bool) \<times> 'h shared_mempool) option" where
  "process_transaction_broadcast env inc state txns request_id smp =
     map_option (\<lambda>(results, smp'). (gen_ack_response request_id results, smp')) (process_incoming_transactions env inc state txns smp)"

section \<open>Broadcasts\<close>

text \<open>The next broadcast to the peer: its delay, and whether it is scheduled as one in backoff mode.\<close>

definition execute_broadcast_task ::
  "'h store_env \<Rightarrow> (nat \<Rightarrow> duration) \<Rightarrow> duration \<Rightarrow> bool \<Rightarrow> peer_network_id \<Rightarrow> bool \<Rightarrow> 'h shared_mempool
    \<Rightarrow> ((duration \<times> bool) option \<times> 'h shared_mempool) option" where
  "execute_broadcast_task env clock send_time delivered peer backoff smp =
     (if map_of (sync_states (smp_network smp)) peer = None then Some (None, smp)
      else do {
        (r, ni, out) \<leftarrow> execute_broadcast env clock send_time delivered peer backoff (mp_transactions (smp_mempool smp)) (smp_network smp);
        let schedule_backoff = is_backoff_mode peer ni;
        let interval_ms = (if schedule_backoff then shared_mempool_backoff_interval_ms (smp_config smp) else shared_mempool_tick_interval_ms (smp_config smp));
        Some (Some (from_millis interval_ms, schedule_backoff), smp\<lparr>smp_network := ni\<rparr>)
      })"

text \<open>The events of the network: a new peer, and the messages of peers.\<close>

definition handle_new_peer ::
  "'h store_env \<Rightarrow> (nat \<Rightarrow> duration) \<Rightarrow> duration \<Rightarrow> bool \<Rightarrow> (address \<Rightarrow> u64) \<Rightarrow> peer_network_id \<Rightarrow> connection_metadata \<Rightarrow> 'h shared_mempool
    \<Rightarrow> ((duration \<times> bool) option \<times> 'h shared_mempool) option" where
  "handle_new_peer env clock send_time delivered hash_peer_id peer metadata smp =
     (let (is_new_peer, ni) = add_peer hash_peer_id peer metadata (smp_network smp); smp' = smp\<lparr>smp_network := ni\<rparr>
      in if is_new_peer \<and> is_upstream_peer peer (Some metadata) ni then execute_broadcast_task env clock send_time delivered peer False smp'
         else Some (None, smp'))"

definition handle_broadcast_request ::
  "'h store_env \<Rightarrow> incoming_env \<Rightarrow> peer_network_id \<Rightarrow> multi_batch_id \<Rightarrow> signed_transaction list \<Rightarrow> 'h shared_mempool
    \<Rightarrow> ((multi_batch_id \<times> bool \<times> bool) \<times> 'h shared_mempool) option" where
  "handle_broadcast_request env inc peer request_id txns smp =
     (let ineligible = is_validator (smp_network smp) \<and> \<not> broadcast_within_validator_network smp \<or> is_upstream_peer peer None (smp_network smp)
      in process_transaction_broadcast env inc (if ineligible then NonQualified else NotReady) txns request_id smp)"

definition handle_broadcast_response ::
  "peer_network_id \<Rightarrow> multi_batch_id \<Rightarrow> bool \<Rightarrow> bool \<Rightarrow> duration \<Rightarrow> 'h shared_mempool \<Rightarrow> 'h shared_mempool option" where
  "handle_broadcast_response peer request_id retry backoff ack_timestamp smp =
     map_option (\<lambda>ni. smp\<lparr>smp_network := ni\<rparr>) (process_broadcast_ack peer request_id retry backoff ack_timestamp (smp_network smp))"

section \<open>Committed and rejected transactions, and consensus\<close>

fun commit_each :: "'h store_env \<Rightarrow> (address \<times> u64) list \<Rightarrow> 'h mempool \<Rightarrow> 'h mempool option" where
  "commit_each env [] mp = Some mp"
| "commit_each env ((a, s) # ts) mp = do { mp' \<leftarrow> commit_transaction env a s mp; commit_each env ts mp' }"

definition from_micros :: "u64 \<Rightarrow> duration" where
  "from_micros us = unat us * 1000"

definition process_committed_transactions ::
  "'h store_env \<Rightarrow> (address \<times> u64) list \<Rightarrow> u64 \<Rightarrow> 'h mempool \<Rightarrow> 'h mempool option" where
  "process_committed_transactions env txns block_timestamp_usecs mp =
     do {
       mp' \<leftarrow> commit_each env txns mp;
       if 0 < block_timestamp_usecs then gc_by_expiration_time env (from_micros block_timestamp_usecs) mp' else Some mp'
     }"

fun process_rejected_transactions :: "'h store_env \<Rightarrow> (address \<times> u64 \<times> 'h) list \<Rightarrow> 'h mempool \<Rightarrow> 'h mempool option" where
  "process_rejected_transactions env [] mp = Some mp"
| "process_rejected_transactions env ((a, s, h) # ts) mp =
     do { mp' \<leftarrow> reject_transaction env a s h mp; process_rejected_transactions env ts mp' }"

datatype 'h quorum_store_request =
  GetBatchRequest u64 u64 "(address \<times> u64) list"
| RejectNotification "(address \<times> u64 \<times> 'h) list"

datatype quorum_store_response =
  GetBatchResponse "signed_transaction list" "u16 list" "u16 list list"
| CommitResponse

text \<open>The limits of the request are not used.\<close>

definition process_quorum_store_request ::
  "'h store_env \<Rightarrow> duration \<Rightarrow> u32 \<Rightarrow> (u16 set \<Rightarrow> u16 list) \<Rightarrow> 'h quorum_store_request \<Rightarrow> 'h shared_mempool
    \<Rightarrow> (quorum_store_response \<times> 'h shared_mempool) option" where
  "process_quorum_store_request env curr_time num_threads iter req smp =
     (case req of
        GetBatchRequest req_txns req_bytes exclude \<Rightarrow>
          do {
            mp \<leftarrow> gc_by_expiration_time env curr_time (smp_mempool smp);
            (block_filler, mp') \<leftarrow> get_full_batch env num_threads (set exclude) mp;
            let (gas_estimates, block_filler') = get_gas_estimates block_filler;
            Some (GetBatchResponse (block block_filler') gas_estimates (get_dependency_graph iter block_filler'), smp\<lparr>smp_mempool := mp'\<rparr>)
          }
      | RejectNotification rejected \<Rightarrow>
          map_option (\<lambda>mp. (CommitResponse, smp\<lparr>smp_mempool := mp\<rparr>)) (process_rejected_transactions env rejected (smp_mempool smp)))"

text \<open>\<open>quorum_store_enabled\<close> is what the new configuration says, \<open>None\<close> when it cannot be read.\<close>

definition process_config_update :: "bool option \<Rightarrow> 'h shared_mempool \<Rightarrow> 'h shared_mempool" where
  "process_config_update quorum_store_enabled smp =
     (case quorum_store_enabled of Some b \<Rightarrow> smp\<lparr>broadcast_within_validator_network := \<not> b\<rparr> | None \<Rightarrow> smp)"

section \<open>No transaction is accepted\<close>

text \<open>The shared mempools that \<open>new\<close> and the tasks produce.\<close>

inductive smp_reach :: "'h store_env \<Rightarrow> 'h shared_mempool \<Rightarrow> bool" for env where
  new: "smp_reach env (shared_mempool_new mp config role pid)"
| incoming: "smp_reach env smp \<Longrightarrow> process_incoming_transactions env inc state txns smp = Some (r, smp') \<Longrightarrow> smp_reach env smp'"
| broadcast: "smp_reach env smp \<Longrightarrow> execute_broadcast_task env clock t delivered peer backoff smp = Some (nxt, smp') \<Longrightarrow> smp_reach env smp'"
| new_peer: "smp_reach env smp \<Longrightarrow> handle_new_peer env clock t delivered h peer m smp = Some (nxt, smp') \<Longrightarrow> smp_reach env smp'"
| lost_peer: "smp_reach env smp \<Longrightarrow> smp_reach env (smp\<lparr>smp_network := disable_peer h peer (smp_network smp)\<rparr>)"
| response: "smp_reach env smp \<Longrightarrow> handle_broadcast_response peer x retry backoff time smp = Some smp' \<Longrightarrow> smp_reach env smp'"
| committed: "smp_reach env smp \<Longrightarrow> process_committed_transactions env cs usecs (smp_mempool smp) = Some mp \<Longrightarrow> smp_reach env (smp\<lparr>smp_mempool := mp\<rparr>)"
| quorum_store: "smp_reach env smp \<Longrightarrow> process_quorum_store_request env now c iter req smp = Some (resp, smp') \<Longrightarrow> smp_reach env smp'"
| config_update: "smp_reach env smp \<Longrightarrow> smp_reach env (process_config_update q smp)"
| gc: "smp_reach env smp \<Longrightarrow> mempool_gc env now (smp_mempool smp) = Some mp \<Longrightarrow> smp_reach env (smp\<lparr>smp_mempool := mp\<rparr>)"

lemma task_alive:
  "process_incoming_transactions env inc state txns smp = Some (r, smp') \<Longrightarrow> tx_receiver_alive smp' = tx_receiver_alive smp"
  "execute_broadcast_task env clock t delivered peer backoff smp = Some (nxt, smp') \<Longrightarrow> tx_receiver_alive smp' = tx_receiver_alive smp"
  "handle_broadcast_response peer x retry backoff time smp = Some smp' \<Longrightarrow> tx_receiver_alive smp' = tx_receiver_alive smp"
  "process_quorum_store_request env now c iter req smp = Some (resp, smp') \<Longrightarrow> tx_receiver_alive smp' = tx_receiver_alive smp"
  "tx_receiver_alive (process_config_update q smp) = tx_receiver_alive smp"
  by (auto simp: process_incoming_transactions_def validate_and_add_transactions_def execute_broadcast_task_def handle_broadcast_response_def
      process_quorum_store_request_def process_config_update_def Let_def split: bind_splits prod.splits if_splits quorum_store_request.splits option.splits)

lemma smp_reach_dead: "smp_reach env smp \<Longrightarrow> \<not> tx_receiver_alive smp"
proof (induction rule: smp_reach.induct)
  case (new_peer smp clock t delivered h peer m nxt smp')
  then show ?case by (auto simp: handle_new_peer_def Let_def dest: task_alive(2) split: prod.splits if_splits)
qed (auto simp: shared_mempool_new_def task_alive(5) dest: task_alive(1-4))

text \<open>A transaction that passes validation and belongs to the peer's part of the senders.\<close>

definition addable :: "incoming_env \<Rightarrow> u8 \<Rightarrow> u8 \<Rightarrow> nat \<Rightarrow> signed_transaction \<Rightarrow> bool" where
  "addable inc num_peers pid i t \<longleftrightarrow>
     (case validate_transaction inc i t of Some r \<Rightarrow> vm_status r = None | None \<Rightarrow> False) \<and> \<not> sharded_out num_peers pid (shard_of (sender t))"

lemma check_sequence_numbers_spec:
  assumes "check_sequence_numbers seq_of txns = (statuses, kept)"
  shows "mset (map fst statuses @ map fst kept) = mset txns" "\<forall>s \<in> set statuses. fst (snd s) = VmError"
    "\<forall>(t, info) \<in> set kept. min_seq info \<le> sequence_number t"
proof -
  have "mset (map fst statuses @ map fst kept) = mset txns \<and> (\<forall>s \<in> set statuses. fst (snd s) = VmError)
      \<and> (\<forall>(t, info) \<in> set kept. min_seq info \<le> sequence_number t)"
    using assms by (induction seq_of txns arbitrary: statuses kept rule: check_sequence_numbers.induct)
      (auto simp: Let_def split: prod.splits option.splits if_splits)
  then show "mset (map fst statuses @ map fst kept) = mset txns" "\<forall>s \<in> set statuses. fst (snd s) = VmError"
    "\<forall>(t, info) \<in> set kept. min_seq info \<le> sequence_number t" by blast+
qed

lemma add_dead:
  assumes "min_seq info \<le> sequence_number t"
  shows "add_sharded_txn env rng now False t score info state num_peers pid mp =
    (if sharded_out num_peers pid (shard_of (sender t)) then Some (UnknownStatus, mp, []) else None)"
  using assms by (simp add: add_sharded_txn_def Let_def)

lemma bind_option_case: "Option.bind m f = (case m of None \<Rightarrow> None | Some x \<Rightarrow> f x)"
  by (cases m) simp_all

lemma add_validated_dead:
  assumes "\<forall>(t, info) \<in> set kept. min_seq info \<le> sequence_number t"
  shows "case add_validated env inc False state num_peers pid i kept mp of
      None \<Rightarrow> \<exists>j < length kept. addable inc num_peers pid (i + j) (fst (kept ! j))
    | Some (statuses, mp') \<Rightarrow> (\<forall>j < length kept. \<not> addable inc num_peers pid (i + j) (fst (kept ! j))) \<and> mp' = mp
        \<and> map fst statuses = map fst kept \<and> (\<forall>s \<in> set statuses. fst (snd s) \<in> {VmError, UnknownStatus})"
  using assms
proof (induction kept arbitrary: i)
  case (Cons e kept)
  obtain t info where e: "e = (t, info)" by (cases e)
  let ?rest = "add_validated env inc False state num_peers pid (i + 1) kept mp"
  have info: "min_seq info \<le> sequence_number t" using Cons.prems by (simp add: e)
  show ?case
  proof (cases "addable inc num_peers pid i t")
    case True
    then have "add_validated env inc False state num_peers pid i (e # kept) mp = None"
      by (auto simp: e addable_def add_dead [OF info] split: option.splits)
    then show ?thesis using True by (auto simp: e)
  next
    case False
    let ?status = "case validate_transaction inc i t of None \<Rightarrow> (VmError, Some UnknownVmStatus)
        | Some r \<Rightarrow> (case vm_status r of Some s \<Rightarrow> (VmError, Some s) | None \<Rightarrow> (UnknownStatus, None))"
    have st: "fst ?status \<in> {VmError, UnknownStatus}" by (simp split: option.split)
    have step: "add_validated env inc False state num_peers pid i (e # kept) mp =
        (case ?rest of None \<Rightarrow> None | Some (statuses, mp2) \<Rightarrow> Some ((t, ?status) # statuses, mp2))"
      using False by (auto simp: e addable_def add_dead [OF info] bind_option_case split: option.split)
    have IH: "case ?rest of
        None \<Rightarrow> \<exists>j < length kept. addable inc num_peers pid (i + 1 + j) (fst (kept ! j))
      | Some (statuses, mp') \<Rightarrow> (\<forall>j < length kept. \<not> addable inc num_peers pid (i + 1 + j) (fst (kept ! j))) \<and> mp' = mp
          \<and> map fst statuses = map fst kept \<and> (\<forall>s \<in> set statuses. fst (snd s) \<in> {VmError, UnknownStatus})"
      using Cons.IH [of "i + 1"] Cons.prems by simp
    show ?thesis unfolding step using IH False st by (cases ?rest) (auto simp: e less_Suc_eq_0_disj)
  qed
qed simp

text \<open>C23. A shared mempool never accepts a transaction: processing incoming transactions panics exactly when the number of
  peers is 255 modulo 256, or when one of the transactions passes the checks and would be added, because the receiver of the channel on
  which it is handed on was dropped. Otherwise each transaction gets one status, none of them \<open>Accepted\<close>, and nothing changes.\<close>

theorem incoming_never_accepted:
  assumes "smp_reach env smp" "checkpoint_view inc = Some seq_of" "kept = snd (check_sequence_numbers seq_of txns)"
    and "num_peers = of_nat (length (sync_states (smp_network smp))) + 1" "pid = of_nat (get_peer_position (smp_network smp))"
  shows "case process_incoming_transactions env inc state txns smp of
      None \<Rightarrow> length (sync_states (smp_network smp)) mod 256 = 255 \<or> (\<exists>i < length kept. addable inc num_peers pid i (fst (kept ! i)))
    | Some (statuses, smp') \<Rightarrow> length (sync_states (smp_network smp)) mod 256 \<noteq> 255
        \<and> (\<forall>i < length kept. \<not> addable inc num_peers pid i (fst (kept ! i))) \<and> smp' = smp
        \<and> mset (map fst statuses) = mset txns \<and> (\<forall>s \<in> set statuses. fst (snd s) \<noteq> Accepted)"
proof -
  obtain old where old: "check_sequence_numbers seq_of txns = (old, kept)" using assms(3) by (metis prod.collapse)
  note spec = check_sequence_numbers_spec [OF old] and dead = smp_reach_dead [OF assms(1)]
  let ?n = "length (sync_states (smp_network smp))"
  let ?add = "add_validated env inc False state num_peers pid 0 kept (smp_mempool smp)"
  have u8: "uint (of_nat ?n :: u8) = int (?n mod 256)" by (simp add: uint_nat unat_of_nat)
  have chk: "add_chk (of_nat ?n :: u8) 1 = (if ?n mod 256 = 255 then None else Some num_peers)"
    using mod_less_divisor [of 256 ?n] by (auto simp: add_chk_def u8 assms(4))
  have "process_incoming_transactions env inc state txns smp =
      (if ?n mod 256 = 255 then None else case ?add of None \<Rightarrow> None | Some (sts, mp) \<Rightarrow> Some (old @ sts, smp\<lparr>smp_mempool := mp\<rparr>))"
    using dead by (auto simp: process_incoming_transactions_def validate_and_add_transactions_def assms(2,5) old get_peer_count_def chk Let_def
        bind_option_case split: option.split)
  then show ?thesis using add_validated_dead [OF spec(3), where env = env and inc = inc and state = state and num_peers = num_peers and pid = pid and i = 0 and mp = "smp_mempool smp"] spec(1,2)
    by (cases ?add) (auto simp: mset_map [symmetric] simp del: mset_map, fastforce+)
qed

definition demo_incoming :: incoming_env where
  "demo_incoming = \<lparr>checkpoint_view = Some (\<lambda>_. Some (Sequential 0)), validate_transaction = (\<lambda>_ _. Some \<lparr>vm_status = None, vm_score = 100\<rparr>),
     insert_rng = (\<lambda>_. 0), insert_time = (\<lambda>_. 0)\<rparr>"

definition demo_smp :: "signed_transaction shared_mempool" where
  "demo_smp = shared_mempool_new \<lparr>mp_transactions = pool, system_transaction_timeout = from_secs 60, last_max_gas = 2000000000\<rparr> pool_config ValidatorNode 9"

lemma demo_shard: "\<not> sharded_out 1 0 (shard_of 1)"
  by code_simp

theorem incoming_never_accepted_witness:
  "process_incoming_transactions pool_env demo_incoming NotReady [mt_txn (pool_txn 1 0)] demo_smp = None"
proof (rule ccontr)
  let ?t = "mt_txn (pool_txn 1 0)"
  assume "process_incoming_transactions pool_env demo_incoming NotReady [?t] demo_smp \<noteq> None"
  then obtain r where r: "process_incoming_transactions pool_env demo_incoming NotReady [?t] demo_smp = Some r" by blast
  have kept: "snd (check_sequence_numbers (\<lambda>_. Some (Sequential 0)) [?t]) = [(?t, Sequential 0)]" by (simp add: pool_eval)
  have net: "sync_states (smp_network demo_smp) = []" by (simp add: demo_smp_def shared_mempool_new_def network_interface_new_def)
  have "smp_reach pool_env demo_smp" unfolding demo_smp_def by (rule smp_reach.new)
  from incoming_never_accepted [OF this _ refl refl refl, where inc = demo_incoming and seq_of = "\<lambda>_. Some (Sequential 0)" and state = NotReady and txns = "[?t]"] r
  have "\<not> addable demo_incoming 1 0 0 ?t"
    by (auto simp: kept net demo_incoming_def get_peer_position_def get_peer_count_def split: prod.splits)
  then show False using demo_shard by (simp add: addable_def demo_incoming_def pool_txn_def sender_def mempool_transaction_new_def)
qed

section \<open>Committed transactions\<close>

lemma in_budget_mono: "in_budget config m \<Longrightarrow> n \<le> m \<Longrightarrow> in_budget config n"
  unfolding in_budget_def by (meson add_le_mono1 le_trans mult_le_mono1)

lemma commit_each_ok:
  assumes "store_reach env config n (mp_transactions mp)" "hash_ok env" "in_budget config (n + length txns)" "0 < config_capacity_per_user config"
    "\<forall>(a, s) \<in> set txns. s \<noteq> - 1"
  shows "\<exists>mp'. commit_each env txns mp = Some mp' \<and> store_reach env config (n + length txns) (mp_transactions mp')
    \<and> (\<forall>b k. store_get (mp_transactions mp') b k \<noteq> None \<longrightarrow> (\<forall>s. (b, s) \<in> set txns \<longrightarrow> s < k))
    \<and> (\<forall>b k. store_get (mp_transactions mp') b k \<in> {None, store_get (mp_transactions mp) b k})
    \<and> (\<forall>b k. b \<notin> fst ` set txns \<longrightarrow> store_get (mp_transactions mp') b k = store_get (mp_transactions mp) b k)"
  using assms
proof (induction txns arbitrary: n mp)
  case (Cons t txns)
  obtain a s where t: "t = (a, s)" by (cases t)
  have bud: "in_budget config (Suc n)" using in_budget_mono [OF Cons.prems(3)] by simp
  have s: "s \<noteq> - 1" using Cons.prems(5) by (simp add: t)
  obtain st where st: "store_commit env a s (mp_transactions mp) = Some st" "\<And>b k. store_get st b k =
      (if b = a \<and> k < max (case get_sequence_number (mp_transactions mp) a of Some v \<Rightarrow> v | None \<Rightarrow> 0) (s + 1) then None
       else store_get (mp_transactions mp) b k)"
    using store_commit_get [OF Cons.prems(1,2) bud Cons.prems(4) s, of a] by blast
  let ?mp = "mp\<lparr>mp_transactions := st\<rparr>"
  have reach: "store_reach env config (Suc n) (mp_transactions ?mp)"
    using store_reach.step [OF Cons.prems(1), of "Commit a s" st] st(1) s by (simp add: admissible_def store_call_def)
  obtain mp' where mp': "commit_each env txns ?mp = Some mp'" "store_reach env config (Suc n + length txns) (mp_transactions mp')"
      "\<And>b k s. store_get (mp_transactions mp') b k \<noteq> None \<Longrightarrow> (b, s) \<in> set txns \<Longrightarrow> s < k"
      "\<And>b k. store_get (mp_transactions mp') b k \<in> {None, store_get st b k}"
      "\<And>b k. b \<notin> fst ` set txns \<Longrightarrow> store_get (mp_transactions mp') b k = store_get st b k"
    using Cons.IH [OF reach Cons.prems(2) _ Cons.prems(4)] Cons.prems(3,5) by auto
  have above: "s < k" if "store_get st a k \<noteq> None" for k
    using that st(2) [of a k] by (auto simp: word_less_next [OF s] not_less max_def split: if_splits)
  have sub: "store_get st b k \<in> {None, store_get (mp_transactions mp) b k}" for b k using st(2) by simp
  have "commit_each env (t # txns) mp = Some mp'" using st(1) mp'(1) by (simp add: t commit_transaction_def)
  moreover have "s' < k" if "store_get (mp_transactions mp') b k \<noteq> None" "(b, s') \<in> set (t # txns)" for b k s'
    using that mp'(3) [OF that(1), of s'] mp'(4) [of b k] above [of k] by (auto simp: t)
  moreover have "store_get (mp_transactions mp') b k \<in> {None, store_get (mp_transactions mp) b k}" for b k
    using mp'(4) [of b k] sub [of b k] by auto
  moreover have "store_get (mp_transactions mp') b k = store_get (mp_transactions mp) b k" if "b \<notin> fst ` set (t # txns)" for b k
    using mp'(5) [of b k] st(2) [of b k] that by (auto simp: t)
  ultimately show ?case using mp'(2) by (intro exI [of _ mp']) auto
qed simp

text \<open>C24. Processing a block of committed transactions returns. Afterwards no account keeps a transaction with a number up to one of its
  committed numbers, what is left was there before, and without a block time the accounts that are not in the block keep everything.\<close>

theorem committed_transactions_gone:
  assumes "store_reach env config n (mp_transactions mp)" "hash_ok env" "in_budget config (n + length txns + 1)" "0 < config_capacity_per_user config"
    "\<forall>(a, s) \<in> set txns. s \<noteq> - 1"
  shows "\<exists>mp'. process_committed_transactions env txns usecs mp = Some mp'
    \<and> (\<forall>b k. store_get (mp_transactions mp') b k \<noteq> None \<longrightarrow> (\<forall>s. (b, s) \<in> set txns \<longrightarrow> s < k))
    \<and> (\<forall>b k. store_get (mp_transactions mp') b k \<in> {None, store_get (mp_transactions mp) b k})
    \<and> (\<forall>b k. usecs = 0 \<and> b \<notin> fst ` set txns \<longrightarrow> store_get (mp_transactions mp') b k = store_get (mp_transactions mp) b k)"
proof -
  have bud: "in_budget config (n + length txns)" "in_budget config (Suc (n + length txns))" using assms(3) by (simp_all add: in_budget_def)
  obtain mp1 where mp1: "commit_each env txns mp = Some mp1" "store_reach env config (n + length txns) (mp_transactions mp1)"
      "\<And>b k s. store_get (mp_transactions mp1) b k \<noteq> None \<Longrightarrow> (b, s) \<in> set txns \<Longrightarrow> s < k"
      "\<And>b k. store_get (mp_transactions mp1) b k \<in> {None, store_get (mp_transactions mp) b k}"
      "\<And>b k. b \<notin> fst ` set txns \<Longrightarrow> store_get (mp_transactions mp1) b k = store_get (mp_transactions mp) b k"
    using commit_each_ok [OF assms(1,2) bud(1) assms(4,5)] by blast
  show ?thesis
  proof (cases "usecs = 0")
    case True
    with mp1 show ?thesis by (intro exI [of _ mp1]) (auto simp: process_committed_transactions_def)
  next
    case False
    obtain st where st: "store_gc env (from_micros usecs) False (mp_transactions mp1) = Some st"
        "\<And>a k. store_get st a k = (case get_mempool_txn (mp_transactions mp1) a k of None \<Rightarrow> None
          | Some t \<Rightarrow> if client_expiration t < from_micros usecs then None else Some (mt_txn t))"
      using store_gc_get [OF mp1(2) assms(2) bud(2) assms(4), of "from_micros usecs" False] by (simp only: if_False) blast
    have sub: "store_get st b k \<in> {None, store_get (mp_transactions mp1) b k}" for b k
      unfolding st(2) by (simp add: store_get_def split: option.split)
    have "store_get st b k \<noteq> None \<Longrightarrow> (b, s) \<in> set txns \<Longrightarrow> s < k" for b k s using sub [of b k] mp1(3) [of b k s] by auto
    moreover have "store_get st b k \<in> {None, store_get (mp_transactions mp) b k}" for b k using sub [of b k] mp1(4) [of b k] by auto
    moreover have "process_committed_transactions env txns usecs mp = Some (mp1\<lparr>mp_transactions := st\<rparr>)"
      using mp1(1) st(1) False by (simp add: process_committed_transactions_def gc_by_expiration_time_def word_neq_0_conv)
    ultimately show ?thesis using False by (intro exI [of _ "mp1\<lparr>mp_transactions := st\<rparr>"]) auto
  qed
qed

theorem committed_transactions_gone_witness:
  "\<exists>mp'. process_committed_transactions pool_env [(1, 0)] 0 (smp_mempool demo_smp) = Some mp'
    \<and> store_get (mp_transactions mp') 1 0 = None \<and> store_get (mp_transactions mp') 2 0 = store_get pool 2 0"
proof -
  have "store_reach pool_env pool_config 3 (mp_transactions (smp_mempool demo_smp))"
    using pool_reached by (simp add: demo_smp_def shared_mempool_new_def)
  from committed_transactions_gone [OF this pool_hash _ pool_limits(3), of "[(1, 0)]" 0] obtain mp' where mp':
      "process_committed_transactions pool_env [(1, 0)] 0 (smp_mempool demo_smp) = Some mp'"
      "\<And>b k. store_get (mp_transactions mp') b k \<noteq> None \<Longrightarrow> (b, 0) \<in> set [(1, 0)] \<Longrightarrow> 0 < k"
      "\<And>b k. b \<notin> fst ` set [(1 :: address, 0 :: u64)] \<Longrightarrow> store_get (mp_transactions mp') b k = store_get (mp_transactions (smp_mempool demo_smp)) b k"
    by (force simp: in_budget_def pool_config_def)
  have "store_get (mp_transactions mp') 1 0 = None" by (rule ccontr) (use mp'(2) [of 1 0] in auto)
  moreover have "store_get (mp_transactions mp') 2 0 = store_get pool 2 0" using mp'(3) [of 2 0] by (simp add: demo_smp_def shared_mempool_new_def)
  ultimately show ?thesis using mp'(1) by blast
qed

end
