(* ===== verification/Spec2Isabelle.thy ===== *)
theory Spec2Isabelle
  imports Prelude StateKey WriteSet Delta Aggregator MVHashMap Scheduler SchedulerContracts SchedulerSystem SchedulerSafety
    Transaction Filler FillerBlocks TxnIO View Executor ChangeSetExt VmWrapper Waves ParallelCorrectness ValidationRace SharedMempool
begin

text \<open>
  A verification library for the block pipeline of the repository: how the mempool keeps the pending
  transactions and packs a block with dependency hints, and how the parallel executor (an optimistic,
  multi-version one with a scheduler) executes it.

  \<^bold>\<open>The parts and how they interact.\<close> The mempool (\<open>mempool/src/core_mempool/mempool.rs\<close>) takes the
  transactions of the senders in its shard into a store (\<open>transaction_store.rs\<close>), which keeps them by account
  and sequence number, and in indexes (\<open>index.rs\<close>) by priority, expiration, hash and order of broadcast;
  those that wait for a predecessor are parked. The shared mempool (\<open>mempool/src/shared_mempool\<close>) hands it the
  transactions of clients and peers, and broadcasts what is in its timelines. A filler (\<open>mempool/src/core_mempool/filler.rs\<close>) takes batches of
  pre-executed transactions and chooses those that fit the budgets of a block, together with a gas estimate
  and hints on dependencies for each; the result is a \<open>TransactionRegister\<close>. The virtual machine
  (\<open>aptos-vm/src/block_executor\<close>) passes the register to the block executor
  (\<open>block-executor/src/executor.rs\<close>). It builds a scheduler (\<open>scheduler.rs\<close>) from the hints and starts
  workers that execute and validate transactions. Transactions read and write a multi-version map
  (\<open>mvhashmap/src/lib.rs\<close>) through views (\<open>view.rs\<close>); what they read and produced is recorded in
  \<open>txn_last_input_output.rs\<close>. Aggregators leave deltas (\<open>aptos-aggregator\<close>) instead of values; when the
  block is over, \<open>output_delta_resolver.rs\<close> turns the deltas into writes.

  \<^bold>\<open>Conventions.\<close> A panic of the source is \<^const>\<open>None\<close>, a \<open>Result\<close> a sum with the error on the left.
  Machine integers are words where their width matters; an addition that overflows panics, as in the build
  profiles of the source. A \<open>BTreeMap\<close> is a list sorted by its keys, a hash map a function to options; where
  the source walks a hash set, the order is an argument. Code outside the repository, and the virtual
  machine that interprets one transaction, are arguments: a run of the machine is a tree of reads that ends
  in a result (\<open>View.vm_run\<close>).

  \<^bold>\<open>The theories.\<close>
  \<^item> \<open>Prelude\<close>: integers, results, sorted maps and the lemmas that the components share.
  \<^item> \<open>StateKey\<close> (\<open>types/src/state_store/state_key.rs\<close>, \<open>access_path.rs\<close>): keys and their codec, with its
    round trip.
  \<^item> \<open>WriteSet\<close> (\<open>types/src/write_set.rs\<close>), \<open>ChangeSetExt\<close> (\<open>aptos-aggregator/src/transaction.rs\<close>,
    \<open>change_set.rs\<close>): write sets and change sets; squashing composes their effects on a store.
  \<^item> \<open>Delta\<close> (\<open>delta_change_set.rs\<close>), \<open>Aggregator\<close> (\<open>aggregator_extension.rs\<close>): deltas with their histories.
    Checked arithmetic and merging are exact, and speculating on a delta refines working on the stored value.
  \<^item> \<open>MVHashMap\<close>: the versions of every key. A read depends on lower transactions only and folds deltas
    exactly.
  \<^item> \<open>Scheduler\<close>, \<open>SchedulerContracts\<close>, \<open>SchedulerSystem\<close>, \<open>SchedulerSafety\<close>, \<open>Waves\<close>: the methods of the
    scheduler; the locales of what they keep, interpreted on them; a step relation of the workers that call
    them in any order; and the invariants of its reachable states: when a call panics, executions are exclusive,
    commits are final and in order and take validated transactions, no transaction is lost. \<open>Waves\<close> also holds the
    invariant of the validation waves, which steps keep that hand out validations in time.
  \<^item> \<open>Transaction\<close>, \<open>Filler\<close>, \<open>FillerBlocks\<close>: transactions, both fillers and the driver
    (\<open>run_benchmark.rs\<close>) that feeds one. Blocks stay in their budgets, batches are split without loss, the
    hints are what the scheduler needs.
  \<^item> \<open>MempoolIndex\<close>, \<open>TransactionStore\<close> (\<open>index.rs\<close>, \<open>transaction.rs\<close>, \<open>transaction_store.rs\<close>): the four kinds of
    index and the store over them. What a store relies on of an index is a locale (\<open>txn_index\<close>), interpreted on
    the queue, both indexes by expiration and the parking lot.
  \<^item> \<open>StoreInvariant\<close>, \<open>StoreOperations\<close>, \<open>StoreSafety\<close>: the invariant of the store, also in the states inside an
    operation; that every operation returns and keeps it; and the states that calls reach from an empty store.
  \<^item> \<open>StoreProperties\<close>: no call panics, the indexes agree with what is stored, insertions, commits and
    collections change exactly what they should, and the capacities hold.
  \<^item> \<open>Mempool\<close> (\<open>mempool.rs\<close>): the shards of the peers overlap enough to survive the failure of a third of
    them; what adding a transaction does; and the selection of transactions for a block.
  \<^item> \<open>StoreTimelines\<close>: the numbers of the timelines are never used twice.
  \<^item> \<open>Broadcast\<close> (\<open>shared_mempool/network.rs\<close>, \<open>types.rs\<close>): the state of every peer, the batch that is sent next, and
    acknowledgements. \<open>BroadcastSafety\<close> and \<open>BroadcastSystem\<close> hold the lemmas on batches and the invariant of a node, whose
    store and peers change in any order; \<open>BroadcastProperties\<close> its consequences: nothing that a peer's position has passed is
    forgotten, a batch holds exactly what its identifier names, and a node panics exactly when the acknowledgement of a batch
    comes with a time before it was sent, or is malformed.
  \<^item> \<open>SharedMempool\<close> (\<open>shared_mempool/tasks.rs\<close>, \<open>coordinator.rs\<close>): the tasks on a shared mempool. As \<open>new\<close> drops the
    receiver of its channel, no transaction is ever accepted; committed transactions leave the mempool.
  \<^item> \<open>TxnIO\<close>, \<open>View\<close>, \<open>Executor\<close>: recorded inputs and outputs with the detector of module races, the views,
    and the executor: executing, validating, the round of a worker, the sequential executor, extraction and
    resolution of the results.
  \<^item> \<open>VmWrapper\<close>, \<open>VmExecutor\<close> (\<open>vm_wrapper.rs\<close>, \<open>block_executor/mod.rs\<close>): the machine as a task of the
    executor.
  \<^item> \<open>ParallelSystem\<close>, \<open>ParallelData\<close>, \<open>ParallelValidity\<close>, \<open>ParallelSafety\<close>: the workers with all the data
    they share, one access per step. The history of runs is ghost state. The invariants say what the shared
    data hold for a transaction by its status, in all interleavings; and, in those in which validations are handed
    out in time (\<open>timely_reachable\<close>), that the reads of a committed transaction stay valid.
  \<^item> \<open>KeyValues\<close>, \<open>SerialEquivalence\<close>, \<open>ParallelCorrectness\<close>: the value of a key as the map determines it,
    and from it the main result: the outputs of a finished parallel execution in which validations are handed out
    in time are those of the sequential one.
  \<^item> \<open>ValidationRace\<close>: a run in which a validation is not handed out in time, and the outputs are not those of
    the sequential execution.

  \<^bold>\<open>What the model takes as atomic.\<close> An access to one key of the multi-version map, a recording of inputs and
  outputs and a method of the scheduler are one step each, apart from \<open>next_task\<close>: a worker that asks for a
  validation tries the lock, loads the validation index, looks at the status of that transaction and increments
  the index in steps of its own, as \<open>try_validate_next_version\<close> does, and everything interleaves with them. The lock
  keeps out other workers in that method only, so \<open>finish_abort\<close> may lower the index between the look and the
  increment. Whether that happens is the hypothesis of the results on serial equivalence: a validation is handed
  out in time (\<open>in_time\<close>) when the index a worker takes is of a transaction that still has the status it
  has looked at. \<open>ValidationRace\<close> shows that the hypothesis is needed. The methods that remain single steps also
  make several accesses (\<open>finish_execution\<close> sets a status and then walks the children, \<open>try_incarnate\<close> checks the
  parents and then registers with one, \<open>finish_abort\<close> sets the status and then lowers the index); the results
  do not cover calls of these that overlap. The vectors of children are a \<open>boxcar::Vec\<close>, here a list: what a
  reader sees of a push that is not complete is not covered either. The worker that waits for a dependency
  repeats its read: \<open>wait_for_dependency\<close> never blocks.

  \<^bold>\<open>What is relied on.\<close> Hypotheses of the properties that speak of code outside the model: outputs of the
  machine name a key once, their deltas are well formed and agree on the limit of a key (\<open>outputs_ok\<close>);
  the codec of aggregator values decodes what it encodes; walking a hash set meets every element; different
  transactions have different hashes (\<open>hash_ok\<close>). The calls on a transaction store are those that the rest of
  the mempool makes (\<open>admissible\<close>): an inserted transaction is not in a timeline yet and not below the number
  of its account, and no account reaches the last sequence number. Acknowledgements that a node receives carry one pair
  of numbers for each bucket (\<open>event_admissible\<close>); that this is needed is part of the results. Nothing is assumed of the
  clock. Whether a run executes its prologue depends on an entry that all its incarnations share, so the parallel
  execution is compared with a sequential one in which each transaction finds some entry (\<open>with_prologue\<close>).

  \<^bold>\<open>Bounds and fuel.\<close> All loops of the source are modelled by structural recursion or with a termination
  proof; there is no fuel. The numbers of a timeline are 64 bits wide and are never reused: the results about
  runs of the store hold for up to \<open>2 ^ 64 / (capacity + 1)\<close> calls (\<open>in_budget\<close>). Unbounded interleaving is a transitive closure, and concrete interleavings are
  lists of actions evaluated by executable counterparts of the step relations.

  \<^bold>\<open>Not modelled.\<close> The interpreter of Move code, gas metering and the framework (they run inside one
  transaction, which is an argument); consensus, storage, state synchronization, networking, the node and
  its tools (I/O and services that call the pipeline from outside); the event loop and the executors of the shared
  mempool (its handlers and tasks are modelled, and happen in any order); the validation of a transaction and the
  reads of the database that precede it (arguments of the tasks); cryptography (signatures are an
  argument); metrics, logging and profiling.
\<close>

end
